(* ===== verification/Prelude.thy ===== *)
theory Prelude
  imports Main "HOL-Library.Word" "HOL-Library.Char_ord" "HOL-Library.List_Lexorder"
begin

section \<open>Shared types, results and helper lemmas\<close>

text \<open>
  What every component of the engine's model uses: the exceptions of the C++ code as an error
  datatype, computations that may throw and change the state (an exception keeps the state
  changes made before it, as in C++), the C++ containers' operations whose behaviour is not the
  one of a HOL map update, and facts on lists that several components share.
\<close>

subsection \<open>Exceptions\<close>

text \<open>
  The exception classes the sources throw, with the message where it has one. A read or write
  outside an array, an overflow of a signed integer or a division by zero is not an exception but
  undefined behaviour; the model returns it as an error of its own, so that a theorem about a
  result other than \<open>Undefined_Behaviour\<close> also says that none occurs.
\<close>

datatype error =
    Runtime_Error string
  | Lock_Conflict string
  | Out_Of_Range string
  | Invalid_Argument string
  | Bad_Variant_Access
  | Undefined_Behaviour string

type_synonym 'a res = "error + 'a"

subsection \<open>Computations with state and exceptions\<close>

type_synonym ('s, 'a) io = "'s \<Rightarrow> 'a res \<times> 's"

definition retM :: "'a \<Rightarrow> ('s, 'a) io" where
  "retM x = (\<lambda>s. (Inr x, s))"

definition throwM :: "error \<Rightarrow> ('s, 'a) io" where
  "throwM e = (\<lambda>s. (Inl e, s))"

definition bindM :: "('s, 'a) io \<Rightarrow> ('a \<Rightarrow> ('s, 'b) io) \<Rightarrow> ('s, 'b) io" where
  "bindM m f = (\<lambda>s. case m s of (Inl e, s') \<Rightarrow> (Inl e, s') | (Inr x, s') \<Rightarrow> f x s')"

definition getsM :: "('s \<Rightarrow> 'a) \<Rightarrow> ('s, 'a) io" where
  "getsM f = (\<lambda>s. (Inr (f s), s))"

definition modifyM :: "('s \<Rightarrow> 's) \<Rightarrow> ('s, unit) io" where
  "modifyM f = (\<lambda>s. (Inr (), f s))"

definition liftM :: "'a res \<Rightarrow> ('s, 'a) io" where
  "liftM r = (\<lambda>s. (r, s))"

text \<open>Sequencing of pure computations that may fail.\<close>

definition bindE :: "'a res \<Rightarrow> ('a \<Rightarrow> 'b res) \<Rightarrow> 'b res" where
  "bindE r f = (case r of Inl e \<Rightarrow> Inl e | Inr x \<Rightarrow> f x)"

named_theorems monad_simps

lemma retM_run [simp, monad_simps]: "retM x s = (Inr x, s)"
  by (simp add: retM_def)

lemma throwM_run [simp, monad_simps]: "throwM e s = (Inl e, s)"
  by (simp add: throwM_def)

lemma getsM_run [simp, monad_simps]: "getsM f s = (Inr (f s), s)"
  by (simp add: getsM_def)

lemma modifyM_run [simp, monad_simps]: "modifyM f s = (Inr (), f s)"
  by (simp add: modifyM_def)

lemma liftM_run [simp, monad_simps]: "liftM r s = (r, s)"
  by (simp add: liftM_def)

lemma bindM_Inr [simp, monad_simps]: "m s = (Inr x, s') \<Longrightarrow> bindM m f s = f x s'"
  by (simp add: bindM_def)

lemma bindM_Inl [simp, monad_simps]: "m s = (Inl e, s') \<Longrightarrow> bindM m f s = (Inl e, s')"
  by (simp add: bindM_def)

lemma bindM_ret [simp]: "bindM m retM = m"
  by (rule ext) (auto simp: bindM_def split: prod.splits sum.splits)

lemma bindM_lift [simp, monad_simps]: "bindM (liftM (Inr x)) f = f x" "bindM (liftM (Inl e)) f = throwM e"
  by (rule ext, simp)+

lemma bindM_assoc: "bindM (bindM m f) g = bindM m (\<lambda>x. bindM (f x) g)"
  by (rule ext) (auto simp: bindM_def split: prod.splits sum.splits)

lemma bindM_eq_Inr:
  "bindM m f s = (Inr y, s') \<longleftrightarrow> (\<exists>x s1. m s = (Inr x, s1) \<and> f x s1 = (Inr y, s'))"
  by (auto simp: bindM_def split: prod.splits sum.splits)

lemma bindE_simps [simp, monad_simps]: "bindE (Inr x) f = f x" "bindE (Inl e) f = Inl e"
  by (simp_all add: bindE_def)

lemma bindE_eq_Inr: "bindE r f = Inr y \<longleftrightarrow> (\<exists>x. r = Inr x \<and> f x = Inr y)"
  by (cases r) (auto simp: bindE_def)

subsection \<open>Maps as the C++ containers use them\<close>

text \<open>\<open>unordered_map::emplace\<close> leaves an existing entry as it is.\<close>

definition emplace :: "('k \<rightharpoonup> 'v) \<Rightarrow> 'k \<Rightarrow> 'v \<Rightarrow> ('k \<rightharpoonup> 'v)" where
  "emplace m k v = (case m k of None \<Rightarrow> m(k \<mapsto> v) | Some _ \<Rightarrow> m)"

lemma emplace_fresh [simp]: "m k = None \<Longrightarrow> emplace m k v = m(k \<mapsto> v)"
  by (simp add: emplace_def)

lemma emplace_lookup: "emplace m k v k' = (if k' = k \<and> m k = None then Some v else m k')"
  by (auto simp: emplace_def split: option.splits)

subsection \<open>Fixed-width integers\<close>

type_synonym int32 = "32 word"

text \<open>A conversion to \<open>int\<close> (32 bits, two's complement), as \<open>static_cast\<close> does it.\<close>

definition to_int32 :: "int \<Rightarrow> int" where
  "to_int32 x = signed_take_bit 31 x"

lemma to_int32_id: "- (2 ^ 31) \<le> x \<Longrightarrow> x < 2 ^ 31 \<Longrightarrow> to_int32 x = x"
  by (simp add: to_int32_def signed_take_bit_int_eq_self)

lemma to_int32_range: "- (2 ^ 31) \<le> to_int32 x \<and> to_int32 x < 2 ^ 31"
  using signed_take_bit_int_greater_eq_minus_exp [of 31 x] signed_take_bit_int_less_exp [of 31 x]
  by (simp add: to_int32_def)

subsection \<open>Bytes\<close>

text \<open>
  A byte of a file or a page is a \<open>char\<close>, as in the sources (\<open>char *\<close> buffers).
  \<open>overwrite\<close> is \<open>memcpy\<close> into a buffer at an offset.
\<close>

type_synonym byte = char

definition zero_byte :: byte where
  "zero_byte = CHR 0x00"

definition overwrite :: "nat \<Rightarrow> 'a list \<Rightarrow> 'a list \<Rightarrow> 'a list" where
  "overwrite off d buf = take off buf @ d @ drop (off + length d) buf"

named_theorems byte_simps

lemma length_overwrite [simp, byte_simps]:
  "off + length d \<le> length buf \<Longrightarrow> length (overwrite off d buf) = length buf"
  by (simp add: overwrite_def)

lemma overwrite_Nil [simp]: "overwrite off [] buf = buf"
  by (simp add: overwrite_def)

lemma nth_overwrite:
  "off + length d \<le> length buf \<Longrightarrow> i < length buf \<Longrightarrow>
     overwrite off d buf ! i = (if off \<le> i \<and> i < off + length d then d ! (i - off) else buf ! i)"
  by (auto simp: overwrite_def nth_append min_def)

lemma overwrite_same:
  "off + length d \<le> length buf \<Longrightarrow> take (length d) (drop off (overwrite off d buf)) = d"
  by (simp add: overwrite_def)

lemma overwrite_before:
  "off + length d \<le> length buf \<Longrightarrow> a + n \<le> off \<Longrightarrow>
     take n (drop a (overwrite off d buf)) = take n (drop a buf)"
  by (rule nth_equalityI) (auto simp: nth_overwrite)

lemma overwrite_after:
  "off + length d \<le> length buf \<Longrightarrow> off + length d \<le> a \<Longrightarrow>
     take n (drop a (overwrite off d buf)) = take n (drop a buf)"
  by (rule nth_equalityI) (auto simp: nth_overwrite)

subsection \<open>Lists\<close>

lemma nth_list_update_if:
  "i < length xs \<Longrightarrow> xs[i := x] ! j = (if i = j then x else xs ! j)"
  by simp

lemma map_upt_cong: "(\<And>i. i < n \<Longrightarrow> f i = g i) \<Longrightarrow> map f [0..<n] = map g [0..<n]"
  by simp

lemma map_upt_update:
  "j < n \<Longrightarrow> map (\<lambda>i. if i = j then x else f i) [0..<n] = (map f [0..<n])[j := x]"
  by (rule nth_equalityI) (auto simp: nth_list_update)

subsection \<open>What a computation keeps\<close>

text \<open>
  \<open>keeps P m\<close>: the computation keeps \<open>P\<close>, whether it returns or throws. A composed
  computation keeps what its parts keep.
\<close>

definition keeps :: "('s \<Rightarrow> bool) \<Rightarrow> ('s, 'a) io \<Rightarrow> bool" where
  "keeps P m \<longleftrightarrow> (\<forall>s. P s \<longrightarrow> P (snd (m s)))"

named_theorems keeps_intro

lemma keepsD: "keeps P m \<Longrightarrow> P s \<Longrightarrow> m s = (r, t) \<Longrightarrow> P t"
  by (auto simp: keeps_def dest: spec [of _ s])

lemma keeps_base [keeps_intro]: "keeps P (retM x)" "keeps P (throwM e)" "keeps P (liftM r)" "keeps P (getsM f)"
  by (simp_all add: keeps_def)

lemma keeps_bind [keeps_intro]: "keeps P m \<Longrightarrow> (\<And>x. keeps P (f x)) \<Longrightarrow> keeps P (bindM m f)"
  unfolding keeps_def bindM_def by (auto split: prod.split sum.split)

lemma keeps_cases [keeps_intro]:
  "(\<And>x. r = Some x \<Longrightarrow> keeps P (f x)) \<Longrightarrow> keeps P m \<Longrightarrow> keeps P (case r of None \<Rightarrow> m | Some x \<Rightarrow> f x)"
  "(b \<Longrightarrow> keeps P m) \<Longrightarrow> (\<not> b \<Longrightarrow> keeps P n) \<Longrightarrow> keeps P (if b then m else n)"
  "(\<And>x y. p = (x, y) \<Longrightarrow> keeps P (g x y)) \<Longrightarrow> keeps P (case p of (x, y) \<Rightarrow> g x y)"
  by (simp_all split: option.split prod.split)

end
