(* ===== verification/Text.thy ===== *)
theory Text
  imports Prelude
begin

section \<open>Text: character classes, decimal numbers, splitting\<close>

text \<open>
  The parts of the C and C++ standard library on text that the sources use: the character
  classes of \<open><cctype>\<close> in the C locale (a byte above 127 is in no class), \<open>std::to_string\<close> on
  integers, \<open>std::stoi\<close> and \<open>std::stoll\<close> (white space, sign, digits, the rest ignored),
  \<open>std::getline\<close> with a delimiter, and \<open>find_first_not_of\<close>-style trimming. The lemmas are the
  round trips that the write-ahead log, the catalog file and the parser rest on.
\<close>

subsection \<open>Character classes\<close>

definition isspace :: "char \<Rightarrow> bool" where
  "isspace c \<longleftrightarrow> of_char c = (32 :: nat) \<or> (9 \<le> (of_char c :: nat) \<and> of_char c \<le> (13 :: nat))"

definition isdigit :: "char \<Rightarrow> bool" where
  "isdigit c \<longleftrightarrow> (48 :: nat) \<le> of_char c \<and> of_char c \<le> (57 :: nat)"

definition isalpha :: "char \<Rightarrow> bool" where
  "isalpha c \<longleftrightarrow> ((65 :: nat) \<le> of_char c \<and> of_char c \<le> (90 :: nat)) \<or>
                 ((97 :: nat) \<le> of_char c \<and> of_char c \<le> (122 :: nat))"

definition isalnum :: "char \<Rightarrow> bool" where
  "isalnum c \<longleftrightarrow> isalpha c \<or> isdigit c"

definition toupper :: "char \<Rightarrow> char" where
  "toupper c = (if (97 :: nat) \<le> of_char c \<and> of_char c \<le> (122 :: nat)
                then char_of ((of_char c :: nat) - 32) else c)"

lemma isdigit_not_isspace: "isdigit c \<Longrightarrow> \<not> isspace c"
  by (auto simp: isdigit_def isspace_def)

lemma isdigit_not_isalpha: "isdigit c \<Longrightarrow> \<not> isalpha c"
  by (auto simp: isdigit_def isalpha_def)

lemma isalpha_not_isspace: "isalpha c \<Longrightarrow> \<not> isspace c"
  by (auto simp: isalpha_def isspace_def)

lemma toupper_idem: "toupper (toupper c) = toupper c"
proof (cases "(97 :: nat) \<le> of_char c \<and> of_char c \<le> (122 :: nat)")
  case True
  then have "of_char (toupper c) = (of_char c :: nat) - 32"
    by (auto simp: toupper_def)
  with True show ?thesis by (auto simp: toupper_def)
next
  case False
  then show ?thesis by (auto simp: toupper_def)
qed

subsection \<open>Decimal numbers\<close>

definition digit_char :: "nat \<Rightarrow> char" where
  "digit_char d = char_of (48 + d)"

definition digit_val :: "char \<Rightarrow> nat" where
  "digit_val c = of_char c - 48"

fun show_nat :: "nat \<Rightarrow> string" where
  "show_nat n = (if n < 10 then [digit_char n] else show_nat (n div 10) @ [digit_char (n mod 10)])"

declare show_nat.simps [simp del]

definition to_string :: "int \<Rightarrow> string" where
  "to_string i = (if i < 0 then CHR ''-'' # show_nat (nat (- i)) else show_nat (nat i))"

text \<open>\<open>scan_digits\<close> reads the longest run of digits onto an accumulator.\<close>

fun scan_digits :: "nat \<Rightarrow> string \<Rightarrow> nat" where
  "scan_digits acc [] = acc"
| "scan_digits acc (c # cs) = (if isdigit c then scan_digits (10 * acc + digit_val c) cs else acc)"

text \<open>
  \<open>stoi\<close> and \<open>stoll\<close>: \<open>strtol\<close> on the text, \<open>invalid_argument\<close> when no digit is found and
  \<open>out_of_range\<close> when the number does not fit.
\<close>

definition parse_integer :: "string \<Rightarrow> int \<Rightarrow> int \<Rightarrow> string \<Rightarrow> int res" where
  "parse_integer fn lo hi s =
     (let t = dropWhile isspace s;
          neg = (case t of c # _ \<Rightarrow> c = CHR ''-'' | [] \<Rightarrow> False);
          u = (case t of c # cs \<Rightarrow> if c = CHR ''-'' \<or> c = CHR ''+'' then cs else t | [] \<Rightarrow> [])
      in case u of
           [] \<Rightarrow> Inl (Invalid_Argument fn)
         | c # _ \<Rightarrow>
             if \<not> isdigit c then Inl (Invalid_Argument fn)
             else let m = int (scan_digits 0 u); v = (if neg then - m else m)
                  in if lo \<le> v \<and> v \<le> hi then Inr v else Inl (Out_Of_Range fn))"

definition stoi :: "string \<Rightarrow> int res" where
  "stoi = parse_integer ''stoi'' (- (2 ^ 31)) (2 ^ 31 - 1)"

definition stoll :: "string \<Rightarrow> int res" where
  "stoll = parse_integer ''stoll'' (- (2 ^ 63)) (2 ^ 63 - 1)"

lemma isdigit_digit_char [simp]: "d < 10 \<Longrightarrow> isdigit (digit_char d)"
  by (simp add: isdigit_def digit_char_def of_char_of)

lemma digit_val_digit_char [simp]: "d < 10 \<Longrightarrow> digit_val (digit_char d) = d"
  by (simp add: digit_val_def digit_char_def of_char_of)

lemma show_nat_digits: "c \<in> set (show_nat n) \<Longrightarrow> isdigit c"
proof (induction n rule: show_nat.induct)
  case (1 n)
  show ?case
  proof (cases "n < 10")
    case True
    with 1(2) show ?thesis by (simp add: show_nat.simps [of n])
  next
    case False
    with 1 show ?thesis by (auto simp: show_nat.simps [of n])
  qed
qed

lemma show_nat_not_Nil [simp]: "show_nat n \<noteq> []"
  by (simp add: show_nat.simps [of n])

lemma scan_digits_append:
  "\<forall>c \<in> set ds. isdigit c \<Longrightarrow> scan_digits acc (ds @ rest) = scan_digits (scan_digits acc ds) rest"
  by (induction ds arbitrary: acc) auto

lemma scan_show_nat: "scan_digits 0 (show_nat n) = n"
proof (induction n rule: show_nat.induct)
  case (1 n)
  show ?case
  proof (cases "n < 10")
    case True
    then show ?thesis by (simp add: show_nat.simps [of n])
  next
    case False
    have "scan_digits 0 (show_nat (n div 10) @ [digit_char (n mod 10)])
        = scan_digits (scan_digits 0 (show_nat (n div 10))) [digit_char (n mod 10)]"
      by (rule scan_digits_append) (auto simp: show_nat_digits)
    also have "\<dots> = n"
      using 1 False by simp
    finally show ?thesis using False by (simp add: show_nat.simps [of n])
  qed
qed

lemma scan_show_nat_rest:
  "(\<And>c cs. rest = c # cs \<Longrightarrow> \<not> isdigit c) \<Longrightarrow> scan_digits 0 (show_nat n @ rest) = n"
  by (subst scan_digits_append) (auto simp: show_nat_digits scan_show_nat split: list.split,
      cases rest, auto)

lemma to_string_not_Nil [simp]: "to_string i \<noteq> []"
  by (simp add: to_string_def)

lemma to_string_chars: "c \<in> set (to_string i) \<Longrightarrow> isdigit c \<or> c = CHR ''-''"
  by (auto simp: to_string_def show_nat_digits split: if_splits)

lemma show_nat_hd: "show_nat n = c # cs \<Longrightarrow> isdigit c"
  using show_nat_digits [of c n] by simp

lemma isdigit_neq: "isdigit c \<Longrightarrow> c \<noteq> CHR ''-'' \<and> c \<noteq> CHR ''+''"
  by (auto simp: isdigit_def)

lemma isspace_minus [simp]: "\<not> isspace (CHR ''-'')"
  by (simp add: isspace_def)

theorem parse_integer_to_string_rest:
  assumes "lo \<le> i" "i \<le> hi" "\<And>c cs. rest = c # cs \<Longrightarrow> \<not> isdigit c"
  shows "parse_integer fn lo hi (to_string i @ rest) = Inr i"
proof (cases "i < 0")
  case True
  obtain c cs where cs: "show_nat (nat (- i)) = c # cs"
    by (cases "show_nat (nat (- i))") auto
  have "isdigit c" using cs by (rule show_nat_hd)
  moreover have "scan_digits 0 (c # cs @ rest) = nat (- i)"
    using scan_show_nat_rest [of rest "nat (- i)", OF assms(3)] by (simp only: cs append_Cons)
  ultimately show ?thesis
    using True assms(1,2) by (simp add: parse_integer_def to_string_def cs)
next
  case False
  obtain c cs where cs: "show_nat (nat i) = c # cs"
    by (cases "show_nat (nat i)") auto
  have d: "isdigit c" using cs by (rule show_nat_hd)
  moreover have "scan_digits 0 (c # cs @ rest) = nat i"
    using scan_show_nat_rest [of rest "nat i", OF assms(3)] by (simp only: cs append_Cons)
  ultimately show ?thesis
    using False assms(1,2) isdigit_neq [OF d] isdigit_not_isspace [OF d]
    by (simp add: parse_integer_def to_string_def cs)
qed

lemma parse_integer_to_string: "lo \<le> i \<Longrightarrow> i \<le> hi \<Longrightarrow> parse_integer fn lo hi (to_string i) = Inr i"
  using parse_integer_to_string_rest [of lo i hi "[]"] by simp

lemma stoi_to_string: "- (2 ^ 31) \<le> i \<Longrightarrow> i < 2 ^ 31 \<Longrightarrow> stoi (to_string i) = Inr i"
  by (simp add: stoi_def parse_integer_to_string)

lemma stoll_to_string: "- (2 ^ 63) \<le> i \<Longrightarrow> i < 2 ^ 63 \<Longrightarrow> stoll (to_string i) = Inr i"
  by (simp add: stoll_def parse_integer_to_string)

subsection \<open>Splitting and trimming\<close>

definition newline :: char where
  "newline = CHR 0x0A"

text \<open>
  \<open>split\<close> with \<open>std::getline(ss, tok, d)\<close>: each piece up to a delimiter, and no piece after a
  delimiter that ends the text.
\<close>

fun split_aux :: "char \<Rightarrow> string \<Rightarrow> string \<Rightarrow> string list" where
  "split_aux d cur [] = (if cur = [] then [] else [rev cur])"
| "split_aux d cur (c # cs) = (if c = d then rev cur # split_aux d [] cs else split_aux d (c # cur) cs)"

definition split_at :: "char \<Rightarrow> string \<Rightarrow> string list" where
  "split_at d s = split_aux d [] s"

lemma split_aux_piece:
  "d \<notin> set p \<Longrightarrow> split_aux d cur (p @ d # rest) = (rev cur @ p) # split_aux d [] rest"
  by (induction p arbitrary: cur) auto

lemma split_aux_last:
  "d \<notin> set p \<Longrightarrow> split_aux d cur p = (if cur = [] \<and> p = [] then [] else [rev cur @ p])"
  by (induction p arbitrary: cur) auto

lemma split_at_Cons: "d \<notin> set p \<Longrightarrow> split_at d (p @ d # rest) = p # split_at d rest"
  by (simp add: split_at_def split_aux_piece)

lemma split_at_last: "d \<notin> set p \<Longrightarrow> p \<noteq> [] \<Longrightarrow> split_at d p = [p]"
  by (simp add: split_at_def split_aux_last)

lemma split_at_Nil [simp]: "split_at d [] = []"
  by (simp add: split_at_def)

lemma split_aux_hd:
  "cur \<noteq> [] \<or> s \<noteq> [] \<Longrightarrow> \<exists>ps. split_aux d cur s = (rev cur @ takeWhile (\<lambda>c. c \<noteq> d) s) # ps"
proof (induction s arbitrary: cur)
  case (Cons c cs)
  then show ?case using Cons.IH [of "c # cur"] by (cases "c = d") auto
qed simp

lemma split_at_hd: "s \<noteq> [] \<Longrightarrow> \<exists>ps. split_at d s = takeWhile (\<lambda>c. c \<noteq> d) s # ps"
  using split_aux_hd [of "[]" s d] by (simp add: split_at_def)

text \<open>Joining pieces, as a loop that writes a delimiter before every piece but the first.\<close>

fun join_with :: "char \<Rightarrow> string list \<Rightarrow> string" where
  "join_with d [] = []"
| "join_with d [p] = p"
| "join_with d (p # q # ps) = p @ d # join_with d (q # ps)"

theorem split_at_join:
  "(\<And>p. p \<in> set ps \<Longrightarrow> d \<notin> set p) \<Longrightarrow> ps \<noteq> [] \<Longrightarrow> last ps \<noteq> [] \<Longrightarrow>
     split_at d (join_with d ps) = ps"
proof (induction d ps rule: join_with.induct)
  case (2 d p)
  then show ?case by (simp add: split_at_last)
next
  case (3 d p q ps)
  then show ?case by (simp add: split_at_Cons)
qed simp

lemma join_with_Cons_concat: "join_with d (p # ps) = p @ concat (map (\<lambda>q. d # q) ps)"
  by (induction ps arbitrary: p) auto

text \<open>Blanks cut off at both ends, as with \<open>find_first_not_of\<close> and \<open>find_last_not_of\<close>.\<close>

definition blank :: "char \<Rightarrow> bool" where
  "blank c \<longleftrightarrow> c \<in> {CHR '' '', CHR 0x09, CHR 0x0D, CHR 0x0A}"

definition trim :: "string \<Rightarrow> string" where
  "trim s = rev (dropWhile blank (rev (dropWhile blank s)))"

lemma trim_word [simp]:
  assumes "s \<noteq> []" "\<not> blank (hd s)" "\<not> blank (last s)"
  shows "trim s = s"
proof -
  have "dropWhile blank s = s" using assms by (cases s) simp_all
  moreover have "dropWhile blank (rev s) = rev s" using assms by (cases s rule: rev_cases) simp_all
  ultimately show ?thesis by (simp add: trim_def)
qed

end
