(* ===== verification/LockManager.thy ===== *)
theory LockManager
  imports Text
begin

section \<open>Lock manager\<close>

text \<open>
  \<open>lockManager/LockManager\<close>: shared and exclusive locks on named resources. The state is
  \<open>table_\<close>. Every operation takes the mutex for its whole body, so an operation is one step and
  threads interleave at operation boundaries; \<open>lock_reach\<close> has every interleaving. The list
  \<open>sHolders\<close> is the hash set's content in an iteration order (no element twice); the order only
  decides which holder a conflict message names.
\<close>

record LockInfo =
  xHolder :: int
  sHolders :: "int list"

type_synonym lock_table = "string \<rightharpoonup> LockInfo"

definition new_lock_info :: LockInfo where
  "new_lock_info = \<lparr>xHolder = 0, sHolders = []\<rparr>"

text \<open>\<open>table_[resource]\<close> makes a default entry where there is none.\<close>

definition lock_info :: "lock_table \<Rightarrow> string \<Rightarrow> LockInfo" where
  "lock_info t r = (case t r of None \<Rightarrow> new_lock_info | Some i \<Rightarrow> i)"

definition lockShared :: "int \<Rightarrow> string \<Rightarrow> (lock_table, unit) io" where
  "lockShared txId r = (\<lambda>t.
     let info = lock_info t r in
     if xHolder info \<noteq> 0 \<and> xHolder info \<noteq> txId then
       (Inl (Lock_Conflict (''S-lock conflict on ['' @ r @ '']: held X by tx ''
                            @ to_string (xHolder info))), t(r \<mapsto> info))
     else (Inr (), t(r \<mapsto> info\<lparr>sHolders := List.insert txId (sHolders info)\<rparr>)))"

definition lockExclusive :: "int \<Rightarrow> string \<Rightarrow> (lock_table, unit) io" where
  "lockExclusive txId r = (\<lambda>t.
     let info = lock_info t r in
     if xHolder info \<noteq> 0 \<and> xHolder info \<noteq> txId then
       (Inl (Lock_Conflict (''X-lock conflict on ['' @ r @ '']: held X by tx ''
                            @ to_string (xHolder info))), t(r \<mapsto> info))
     else (case filter (\<lambda>other. other \<noteq> txId) (sHolders info) of
         other # _ \<Rightarrow>
           (Inl (Lock_Conflict (''X-lock conflict on ['' @ r @ '']: held S by tx ''
                                @ to_string other)), t(r \<mapsto> info))
       | [] \<Rightarrow> (Inr (), t(r \<mapsto> info\<lparr>sHolders := removeAll txId (sHolders info),
                                    xHolder := txId\<rparr>))))"

text \<open>What \<open>unlock\<close> and \<open>releaseTransactionLocks\<close> do to one entry; \<open>None\<close> erases it.\<close>

definition release_info :: "int \<Rightarrow> LockInfo \<Rightarrow> LockInfo option" where
  "release_info txId info =
     (let x = (if xHolder info = txId then 0 else xHolder info);
          ss = removeAll txId (sHolders info)
      in if x = 0 \<and> ss = [] then None else Some (info\<lparr>xHolder := x, sHolders := ss\<rparr>))"

definition unlock :: "int \<Rightarrow> string \<Rightarrow> (lock_table, unit) io" where
  "unlock txId r = (\<lambda>t. case t r of
       None \<Rightarrow> (Inr (), t)
     | Some info \<Rightarrow> (Inr (), t(r := release_info txId info)))"

definition releaseTransactionLocks :: "int \<Rightarrow> (lock_table, unit) io" where
  "releaseTransactionLocks txId = (\<lambda>t.
     (Inr (), \<lambda>r. case t r of None \<Rightarrow> None | Some info \<Rightarrow> release_info txId info))"

subsection \<open>Who holds what\<close>

definition holdsX :: "lock_table \<Rightarrow> string \<Rightarrow> int \<Rightarrow> bool" where
  "holdsX t r tx \<longleftrightarrow> tx \<noteq> 0 \<and> xHolder (lock_info t r) = tx"

definition holdsS :: "lock_table \<Rightarrow> string \<Rightarrow> int \<Rightarrow> bool" where
  "holdsS t r tx \<longleftrightarrow> tx \<in> set (sHolders (lock_info t r))"

definition holds_lock :: "lock_table \<Rightarrow> string \<Rightarrow> int \<Rightarrow> bool" where
  "holds_lock t r tx \<longleftrightarrow> holdsX t r tx \<or> holdsS t r tx"

lemmas lock_defs = lock_info_def new_lock_info_def holdsX_def holdsS_def holds_lock_def

text \<open>
  The invariant: under an exclusive lock the only possible shared holder is the exclusive holder
  itself, no transaction 0 appears (0 stands for "none"), and an entry that nobody uses is gone.
\<close>

definition entry_ok :: "LockInfo \<Rightarrow> bool" where
  "entry_ok i \<longleftrightarrow> (xHolder i \<noteq> 0 \<longrightarrow> set (sHolders i) \<subseteq> {xHolder i}) \<and>
                 0 \<notin> set (sHolders i) \<and> distinct (sHolders i)"

definition entry_used :: "LockInfo \<Rightarrow> bool" where
  "entry_used i \<longleftrightarrow> xHolder i \<noteq> 0 \<or> sHolders i \<noteq> []"

definition lock_ok :: "lock_table \<Rightarrow> bool" where
  "lock_ok t \<longleftrightarrow> (\<forall>r i. t r = Some i \<longrightarrow> entry_ok i \<and> entry_used i)"

lemma lock_ok_empty: "lock_ok Map.empty"
  by (simp add: lock_ok_def)

lemma entry_ok_info: "lock_ok t \<Longrightarrow> entry_ok (lock_info t r)"
  by (auto simp: lock_ok_def lock_info_def new_lock_info_def entry_ok_def split: option.splits)

lemma entry_used_info: "lock_ok t \<Longrightarrow> entry_used (lock_info t r) \<or> lock_info t r = new_lock_info"
  by (auto simp: lock_ok_def lock_info_def split: option.splits)

lemma lock_ok_upd:
  "lock_ok t \<Longrightarrow> (\<And>i. v = Some i \<Longrightarrow> entry_ok i \<and> entry_used i) \<Longrightarrow> lock_ok (t(r := v))"
  by (auto simp: lock_ok_def)

lemma release_info_ok: "entry_ok i \<Longrightarrow> release_info tx i = Some j \<Longrightarrow> entry_ok j \<and> entry_used j"
  by (auto simp: release_info_def Let_def entry_ok_def entry_used_def distinct_removeAll
      split: if_splits)

lemma shared_entry_ok:
  "entry_ok i \<Longrightarrow> tx \<noteq> 0 \<Longrightarrow> xHolder i = 0 \<or> xHolder i = tx \<Longrightarrow>
     entry_ok (i\<lparr>sHolders := List.insert tx (sHolders i)\<rparr>) \<and>
     entry_used (i\<lparr>sHolders := List.insert tx (sHolders i)\<rparr>)"
  by (auto simp: entry_ok_def entry_used_def List.insert_def)

lemma exclusive_entry_ok:
  "entry_ok i \<Longrightarrow> tx \<noteq> 0 \<Longrightarrow> filter (\<lambda>u. u \<noteq> tx) (sHolders i) = [] \<Longrightarrow>
     entry_ok (i\<lparr>sHolders := removeAll tx (sHolders i), xHolder := tx\<rparr>) \<and>
     entry_used (i\<lparr>sHolders := removeAll tx (sHolders i), xHolder := tx\<rparr>)"
  by (auto simp: entry_ok_def entry_used_def filter_empty_conv distinct_removeAll)

subsection \<open>Histories\<close>

datatype lock_op =
    LockS int string
  | LockX int string
  | Unlock int string
  | ReleaseAll int

fun op_tx :: "lock_op \<Rightarrow> int" where
  "op_tx (LockS tx r) = tx"
| "op_tx (LockX tx r) = tx"
| "op_tx (Unlock tx r) = tx"
| "op_tx (ReleaseAll tx) = tx"

fun run_lock :: "lock_op \<Rightarrow> (lock_table, unit) io" where
  "run_lock (LockS tx r) = lockShared tx r"
| "run_lock (LockX tx r) = lockExclusive tx r"
| "run_lock (Unlock tx r) = unlock tx r"
| "run_lock (ReleaseAll tx) = releaseTransactionLocks tx"

text \<open>
  The tables reachable by operations of any transactions in any order; an operation that throws
  is a step too. Transaction ids come from \<open>beginTransaction\<close>, which starts at 1.
\<close>

inductive lock_reach :: "lock_table \<Rightarrow> bool" where
  lock_start: "lock_reach Map.empty"
| lock_step: "lock_reach t \<Longrightarrow> op_tx op \<noteq> 0 \<Longrightarrow> run_lock op t = (res, t') \<Longrightarrow> lock_reach t'"

inductive_cases lock_reachE: "lock_reach t"

text \<open>A conflict writes back the entry it read, which is in use.\<close>

lemma lock_ok_conflict:
  "lock_ok t \<Longrightarrow> xHolder (lock_info t r) \<noteq> 0 \<or> sHolders (lock_info t r) \<noteq> [] \<Longrightarrow>
     lock_ok (t(r \<mapsto> lock_info t r))"
  by (rule lock_ok_upd) (auto simp: entry_ok_info entry_used_def)

lemma lockShared_ok:
  assumes "lock_ok t" "tx \<noteq> 0"
  shows "lock_ok (snd (lockShared tx r t))"
  using assms shared_entry_ok [OF entry_ok_info [OF assms(1), of r] assms(2)]
  by (auto simp: lockShared_def Let_def intro: lock_ok_conflict lock_ok_upd)

lemma lockExclusive_ok:
  assumes "lock_ok t" "tx \<noteq> 0"
  shows "lock_ok (snd (lockExclusive tx r t))"
proof (cases "filter (\<lambda>u. u \<noteq> tx) (sHolders (lock_info t r))")
  case Nil
  then show ?thesis
    using assms exclusive_entry_ok [OF entry_ok_info [OF assms(1), of r] assms(2)]
    by (auto simp: lockExclusive_def Let_def intro: lock_ok_conflict lock_ok_upd)
next
  case (Cons u us)
  then have "sHolders (lock_info t r) \<noteq> []" by auto
  with Cons assms show ?thesis
    by (auto simp: lockExclusive_def Let_def intro: lock_ok_conflict)
qed

lemma unlock_ok: "lock_ok t \<Longrightarrow> lock_ok (snd (unlock tx r t))"
  using entry_ok_info [of t r]
  by (auto simp: unlock_def lock_info_def split: option.splits intro!: lock_ok_upd
      dest: release_info_ok)

lemma release_ok: "lock_ok t \<Longrightarrow> lock_ok (snd (releaseTransactionLocks tx t))"
  unfolding lock_ok_def by (auto simp: releaseTransactionLocks_def split: option.splits
      dest: release_info_ok)

lemma run_lock_ok: "lock_ok t \<Longrightarrow> op_tx op \<noteq> 0 \<Longrightarrow> lock_ok (snd (run_lock op t))"
  by (cases op) (simp_all add: lockShared_ok lockExclusive_ok unlock_ok release_ok)

lemma lock_reach_ok: "lock_reach t \<Longrightarrow> lock_ok t"
proof (induction rule: lock_reach.induct)
  case lock_start
  show ?case by (rule lock_ok_empty)
next
  case (lock_step t op res t')
  then show ?case using run_lock_ok [of t op] by simp
qed

subsection \<open>Properties\<close>

text \<open>
  C12: In every table reached by any interleaving of lock operations, a transaction that holds a
  resource exclusively is its only holder: no other one holds it exclusively or shared.
\<close>

theorem lock_mutual_exclusion:
  assumes "lock_reach t" "holdsX t r a" "holds_lock t r b"
  shows "a = b"
  using entry_ok_info [OF lock_reach_ok [OF assms(1)], of r] assms(2,3)
  by (auto simp: holdsX_def holdsS_def holds_lock_def entry_ok_def)

theorem lock_mutual_exclusion_witness:
  "\<exists>t. lock_reach t \<and> holdsX t ''users'' 1 \<and> holds_lock t ''users'' 1 \<and>
       (\<forall>b. b \<noteq> 1 \<longrightarrow> \<not> holds_lock t ''users'' b)"
proof -
  define t where "t = snd (lockExclusive 1 ''users'' Map.empty)"
  have r: "lock_reach t"
    unfolding t_def
    by (rule lock_step [OF lock_start, of "LockX 1 ''users''" "fst (lockExclusive 1 ''users'' Map.empty)"])
      simp_all
  moreover have x: "holdsX t ''users'' 1"
    by (simp add: t_def lockExclusive_def lock_defs)
  ultimately show ?thesis
    using lock_mutual_exclusion [OF r x] by (auto simp: holds_lock_def)
qed

lemma lock_info_upd: "lock_info (t(r \<mapsto> i)) q = (if q = r then i else lock_info t q)"
  by (simp add: lock_info_def)

lemma lock_info_default:
  "lock_info (t(r := v)) q = (if q = r then (case v of None \<Rightarrow> new_lock_info | Some i \<Rightarrow> i)
                              else lock_info t q)"
  by (simp add: lock_info_def)

text \<open>
  An exclusive lock is granted exactly when no other transaction holds the resource. When it
  is granted the requester holds it exclusively, and nobody's holdings on other resources change;
  when it is refused, nobody's holdings change at all.
\<close>

theorem lockExclusive_spec:
  assumes "lock_reach t" "tx \<noteq> 0"
  shows "(fst (lockExclusive tx r t) = Inr () \<longleftrightarrow> (\<nexists>u. u \<noteq> tx \<and> holds_lock t r u)) \<and>
         (fst (lockExclusive tx r t) = Inr () \<longrightarrow> holdsX (snd (lockExclusive tx r t)) r tx) \<and>
         (\<forall>q u. (q \<noteq> r \<or> fst (lockExclusive tx r t) \<noteq> Inr ()) \<longrightarrow>
            holdsX (snd (lockExclusive tx r t)) q u = holdsX t q u \<and>
            holdsS (snd (lockExclusive tx r t)) q u = holdsS t q u)"
proof -
  have z: "0 \<notin> set (sHolders (lock_info t r))"
    using entry_ok_info [OF lock_reach_ok [OF assms(1)], of r] by (simp add: entry_ok_def)
  show ?thesis
  proof (cases "filter (\<lambda>u. u \<noteq> tx) (sHolders (lock_info t r))")
    case Nil
    then show ?thesis
      using assms(2) z
      by (auto simp: lockExclusive_def Let_def holdsX_def holdsS_def holds_lock_def lock_info_upd
          filter_empty_conv)
  next
    case (Cons u us)
    then have "u \<in> set (filter (\<lambda>u. u \<noteq> tx) (sHolders (lock_info t r)))" by simp
    then have "u \<in> set (sHolders (lock_info t r)) \<and> u \<noteq> tx" by simp
    with Cons show ?thesis
      by (auto simp: lockExclusive_def Let_def holdsX_def holdsS_def holds_lock_def lock_info_upd)
  qed
qed

theorem lockExclusive_spec_witness:
  "lock_reach Map.empty \<and> (7 :: int) \<noteq> 0 \<and> fst (lockExclusive 7 ''t'' Map.empty) = Inr () \<and>
   holdsX (snd (lockExclusive 7 ''t'' Map.empty)) ''t'' 7"
  using lockExclusive_spec [OF lock_start, of 7 "''t''"] lock_start
  by (simp add: lock_defs)

text \<open>
  After \<open>releaseTransactionLocks\<close> (the end of a transaction) that transaction holds no lock at
  all, what the others hold is as before, and a resource that only it held can be locked
  exclusively by any other transaction.
\<close>

theorem release_spec:
  assumes "lock_reach t"
  shows "\<not> holds_lock (snd (releaseTransactionLocks tx t)) r tx \<and>
         (\<forall>u. u \<noteq> tx \<longrightarrow>
            holdsX (snd (releaseTransactionLocks tx t)) r u = holdsX t r u \<and>
            holdsS (snd (releaseTransactionLocks tx t)) r u = holdsS t r u) \<and>
         (\<forall>u. u \<noteq> 0 \<longrightarrow> (\<forall>v. holds_lock t r v \<longrightarrow> v = tx \<or> v = u) \<longrightarrow>
            fst (lockExclusive u r (snd (releaseTransactionLocks tx t))) = Inr ())"
proof -
  let ?t = "snd (releaseTransactionLocks tx t)"
  have ok: "lock_ok t" using assms by (rule lock_reach_ok)
  have info: "lock_info ?t r =
     (lock_info t r)\<lparr>xHolder := (if xHolder (lock_info t r) = tx then 0 else xHolder (lock_info t r)),
                     sHolders := removeAll tx (sHolders (lock_info t r))\<rparr>"
    by (auto simp: releaseTransactionLocks_def lock_info_def release_info_def Let_def new_lock_info_def
        split: option.splits)
  have z: "0 \<notin> set (sHolders (lock_info t r))"
    using entry_ok_info [OF ok, of r] by (simp add: entry_ok_def)
  have free: "fst (lockExclusive u r ?t) = Inr ()"
    if u: "u \<noteq> 0" and only: "\<forall>v. holds_lock t r v \<longrightarrow> v = tx \<or> v = u" for u
  proof -
    have "filter (\<lambda>v. v \<noteq> u) (removeAll tx (sHolders (lock_info t r))) = []"
      using only by (auto simp: filter_empty_conv holds_lock_def holdsS_def)
    moreover have "xHolder (lock_info t r) \<in> {0, tx, u}"
      using only by (auto simp: holds_lock_def holdsX_def)
    ultimately show ?thesis by (auto simp: lockExclusive_def Let_def info)
  qed
  show ?thesis
    using free by (auto simp: holds_lock_def holdsX_def holdsS_def info)
qed

theorem release_spec_witness:
  "lock_reach (snd (lockExclusive 1 ''t'' Map.empty)) \<and>
   \<not> holds_lock (snd (releaseTransactionLocks 1 (snd (lockExclusive 1 ''t'' Map.empty)))) ''t'' 1"
proof -
  have r: "lock_reach (snd (lockExclusive 1 ''t'' Map.empty))"
    by (rule lock_step [OF lock_start, of "LockX 1 ''t''" "fst (lockExclusive 1 ''t'' Map.empty)"])
      simp_all
  show ?thesis using release_spec [OF r, of 1 "''t''"] r by simp
qed

end
