(* ===== verification/TransactionManager.thy ===== *)
theory TransactionManager
  imports Prelude
begin

section \<open>Transaction manager\<close>

text \<open>
  \<open>transactionManager/TransactionManager\<close>: the life cycle of transactions. The state is the next
  id and the table of states. \<open>tm_step\<close> is any one call, a throwing one included, and \<open>tm_ok\<close> what every call
  keeps; \<open>run_calls\<close> runs a caller's calls one after the other.
\<close>

datatype TxState = ACTIVE | COMMITTED | ABORTED

record tx_manager =
  nextTxId :: int
  txTable :: "int \<rightharpoonup> TxState"

definition tm_init :: tx_manager where
  "tm_init = \<lparr>nextTxId = 1, txTable = Map.empty\<rparr>"

definition beginTransaction :: "(tx_manager, int) io" where
  "beginTransaction = (\<lambda>s.
     (Inr (nextTxId s), s\<lparr>nextTxId := nextTxId s + 1, txTable := (txTable s)(nextTxId s \<mapsto> ACTIVE)\<rparr>))"

definition commitTransaction :: "int \<Rightarrow> (tx_manager, unit) io" where
  "commitTransaction txId = (\<lambda>s. case txTable s txId of
       None \<Rightarrow> (Inl (Runtime_Error ''Invalid transaction ID''), s)
     | Some st \<Rightarrow>
         if st \<noteq> ACTIVE then (Inl (Runtime_Error ''Transaction not active, cannot commit''), s)
         else (Inr (), s\<lparr>txTable := (txTable s)(txId \<mapsto> COMMITTED)\<rparr>))"

definition abortTransaction :: "int \<Rightarrow> (tx_manager, unit) io" where
  "abortTransaction txId = (\<lambda>s. case txTable s txId of
       None \<Rightarrow> (Inl (Runtime_Error ''Invalid transaction ID''), s)
     | Some st \<Rightarrow>
         if st \<noteq> ACTIVE then (Inl (Runtime_Error ''Transaction not active, cannot abort''), s)
         else (Inr (), s\<lparr>txTable := (txTable s)(txId \<mapsto> ABORTED)\<rparr>))"

definition getState :: "int \<Rightarrow> (tx_manager, TxState) io" where
  "getState txId = (\<lambda>s. case txTable s txId of
       None \<Rightarrow> (Inl (Runtime_Error ''Invalid transaction ID''), s)
     | Some st \<Rightarrow> (Inr st, s))"

subsection \<open>Calls\<close>

inductive tm_step :: "tx_manager \<Rightarrow> tx_manager \<Rightarrow> bool" where
  tm_begin: "beginTransaction s = (res, s') \<Longrightarrow> tm_step s s'"
| tm_commit: "commitTransaction tx s = (res, s') \<Longrightarrow> tm_step s s'"
| tm_abort: "abortTransaction tx s = (res, s') \<Longrightarrow> tm_step s s'"

inductive_cases tm_stepE: "tm_step s s'"

definition tm_ok :: "tx_manager \<Rightarrow> bool" where
  "tm_ok s \<longleftrightarrow> 1 \<le> nextTxId s \<and> dom (txTable s) = {1..<nextTxId s}"

lemma tm_ok_init: "tm_ok tm_init"
  by (simp add: tm_ok_def tm_init_def)

lemmas tm_op_defs = beginTransaction_def commitTransaction_def abortTransaction_def

lemma tm_step_ok: "tm_step s s' \<Longrightarrow> tm_ok s \<Longrightarrow> tm_ok s'"
  by (erule tm_stepE) (fastforce simp: tm_ok_def tm_op_defs split: option.splits if_splits)+

subsection \<open>What callers are answered\<close>

text \<open>
  A caller's calls, one after the other; an exception reaches the caller, who goes on with the next call.
\<close>

datatype tm_call = BeginTx | CommitTx int | AbortTx int | StateOf int

datatype tm_value = Tx_Id int | Tx_Ended | Tx_State TxState

fun run_call :: "tm_call \<Rightarrow> (tx_manager, tm_value) io" where
  "run_call BeginTx = bindM beginTransaction (\<lambda>tx. retM (Tx_Id tx))"
| "run_call (CommitTx tx) = bindM (commitTransaction tx) (\<lambda>_. retM Tx_Ended)"
| "run_call (AbortTx tx) = bindM (abortTransaction tx) (\<lambda>_. retM Tx_Ended)"
| "run_call (StateOf tx) = bindM (getState tx) (\<lambda>st. retM (Tx_State st))"

fun run_calls :: "tm_call list \<Rightarrow> tx_manager \<Rightarrow> tm_value res list \<times> tx_manager" where
  "run_calls [] s = ([], s)"
| "run_calls (c # cs) s = (let (r, s1) = run_call c s; (rs, s2) = run_calls cs s1 in (r # rs, s2))"

text \<open>
  The same without a table, from the calls alone: transaction \<open>tx\<close> is the one of the \<open>tx\<close>-th \<open>BeginTx\<close>, its life is
  what was called since then, and the first \<open>CommitTx\<close> or \<open>AbortTx\<close> of its life decides it.
\<close>

definition begins :: "tm_call list \<Rightarrow> nat" where
  "begins h = count_list h BeginTx"

fun life :: "int \<Rightarrow> tm_call list \<Rightarrow> tm_call list option" where
  "life tx [] = None"
| "life tx (c # cs) = (if c = BeginTx then (if tx = 1 then Some cs else life (tx - 1) cs) else life tx cs)"

fun decided :: "int \<Rightarrow> tm_call list \<Rightarrow> TxState" where
  "decided tx [] = ACTIVE"
| "decided tx (c # cs) = (if c = CommitTx tx then COMMITTED else if c = AbortTx tx then ABORTED else decided tx cs)"

definition state_after :: "tm_call list \<Rightarrow> int \<Rightarrow> TxState option" where
  "state_after h tx = map_option (decided tx) (life tx h)"

definition ended_as :: "string \<Rightarrow> TxState option \<Rightarrow> tm_value res" where
  "ended_as op st = (case st of
       None \<Rightarrow> Inl (Runtime_Error ''Invalid transaction ID'')
     | Some ACTIVE \<Rightarrow> Inr Tx_Ended
     | Some _ \<Rightarrow> Inl (Runtime_Error (''Transaction not active, cannot '' @ op)))"

fun answer_after :: "tm_call list \<Rightarrow> tm_call \<Rightarrow> tm_value res" where
  "answer_after h BeginTx = Inr (Tx_Id (int (begins h) + 1))"
| "answer_after h (CommitTx tx) = ended_as ''commit'' (state_after h tx)"
| "answer_after h (AbortTx tx) = ended_as ''abort'' (state_after h tx)"
| "answer_after h (StateOf tx) =
     (case state_after h tx of None \<Rightarrow> Inl (Runtime_Error ''Invalid transaction ID'') | Some st \<Rightarrow> Inr (Tx_State st))"

definition manager_after :: "tm_call list \<Rightarrow> tx_manager" where
  "manager_after h = \<lparr>nextTxId = int (begins h) + 1, txTable = state_after h\<rparr>"

lemma run_calls_snoc:
  "run_calls (h @ [c]) s = (let (rs, s1) = run_calls h s; (r, s2) = run_call c s1 in (rs @ [r], s2))"
  by (induction h arbitrary: s) (simp_all split: prod.splits)

lemma begins_snoc [simp]: "begins (h @ [c]) = begins h + (if c = BeginTx then 1 else 0)"
  by (simp add: begins_def)

lemma life_bound: "life tx h = Some cs \<Longrightarrow> 1 \<le> tx \<and> tx \<le> int (begins h)"
  by (induction tx h rule: life.induct) (fastforce simp: begins_def split: if_splits)+

lemma life_snoc:
  "life tx (h @ [c]) = (case life tx h of
       Some cs \<Rightarrow> Some (cs @ [c])
     | None \<Rightarrow> if c = BeginTx \<and> tx = int (begins h) + 1 then Some [] else None)"
  by (induction tx h rule: life.induct) (auto simp: begins_def split: option.splits)

lemma decided_snoc [simp]: "decided tx (cs @ [c]) = (if decided tx cs = ACTIVE then decided tx [c] else decided tx cs)"
  by (induction cs) simp_all

lemma state_after_snoc:
  "state_after (h @ [c]) =
     (case c of
        BeginTx \<Rightarrow> (state_after h)(int (begins h) + 1 \<mapsto> ACTIVE)
      | CommitTx tx \<Rightarrow> if state_after h tx = Some ACTIVE then (state_after h)(tx \<mapsto> COMMITTED) else state_after h
      | AbortTx tx \<Rightarrow> if state_after h tx = Some ACTIVE then (state_after h)(tx \<mapsto> ABORTED) else state_after h
      | StateOf tx \<Rightarrow> state_after h)"
proof -
  have "life (int (begins h) + 1) h = None"
    using life_bound [of "int (begins h) + 1" h] by (cases "life (int (begins h) + 1) h") auto
  then show ?thesis
    by (cases c) (auto simp: state_after_def life_snoc fun_eq_iff split: option.splits)
qed

lemma run_call_after: "run_call c (manager_after h) = (answer_after h c, manager_after (h @ [c]))"
  by (cases c) (auto simp: manager_after_def state_after_snoc beginTransaction_def commitTransaction_def
      abortTransaction_def getState_def ended_as_def bindM_def split: option.splits TxState.splits)

subsection \<open>The answers of a history\<close>

text \<open>
  C36: For every history of calls, failing ones included, each call is answered as the calls before it decide,
  and the table is in the end what the whole history decides: ids count the \<open>BeginTx\<close> calls, a transaction can be
  ended exactly from its \<open>BeginTx\<close> to the first \<open>CommitTx\<close> or \<open>AbortTx\<close> that names it since then, that call fixes
  its state for good, and calls that name an id before it is given, or a transaction that has ended, throw and
  change nothing.
\<close>

theorem transaction_life:
  "run_calls h tm_init = (map (\<lambda>i. answer_after (take i h) (h ! i)) [0..<length h], manager_after h)"
proof (induction h rule: rev_induct)
  case Nil
  show ?case by (simp add: tm_init_def manager_after_def state_after_def begins_def fun_eq_iff)
next
  case (snoc c h)
  then show ?case by (simp add: run_calls_snoc run_call_after nth_append)
qed

end
