(* ===== verification/FileManager.thy ===== *)
theory FileManager
  imports Text
begin

section \<open>Metrics and the page file manager\<close>

text \<open>
  \<open>monitoringServer/MetricsManager.h\<close>: the counters of the process, 64-bit and wrapping. The other
  components increment them, so they are the base of the state records.

  \<open>fileManager/FileManager\<close>: files addressed by page. The state is the operating system's disk (the
  bytes of each path), the paths that the system refuses to open, and the table of open files. An
  open file is its path, the free list and the stream's fail bit; the position of the stream is not
  kept, because every read and write seeks first. A write is flushed at once, so the bytes are on the
  disk when the call returns. File offsets and lengths are unbounded, and \<open>getPageCount\<close> converts
  the count to \<open>int\<close> as the code does.
\<close>

subsection \<open>Metrics\<close>

record metrics =
  bufferHits :: "64 word"
  bufferMisses :: "64 word"
  queryCount :: "64 word"
  totalQueryLatencyUs :: "64 word"
  txCommitted :: "64 word"
  txAborted :: "64 word"

definition incBufferHit :: "('a metrics_scheme, unit) io" where
  "incBufferHit = modifyM (\<lambda>s. s\<lparr>bufferHits := bufferHits s + 1\<rparr>)"

definition incBufferMiss :: "('a metrics_scheme, unit) io" where
  "incBufferMiss = modifyM (\<lambda>s. s\<lparr>bufferMisses := bufferMisses s + 1\<rparr>)"

definition incQueryCount :: "('a metrics_scheme, unit) io" where
  "incQueryCount = modifyM (\<lambda>s. s\<lparr>queryCount := queryCount s + 1\<rparr>)"

definition recordQueryLatencyUs :: "64 word \<Rightarrow> ('a metrics_scheme, unit) io" where
  "recordQueryLatencyUs us = modifyM (\<lambda>s. s\<lparr>totalQueryLatencyUs := totalQueryLatencyUs s + us\<rparr>)"

definition incTransactionsCommitted :: "('a metrics_scheme, unit) io" where
  "incTransactionsCommitted = modifyM (\<lambda>s. s\<lparr>txCommitted := txCommitted s + 1\<rparr>)"

definition incTransactionsAborted :: "('a metrics_scheme, unit) io" where
  "incTransactionsAborted = modifyM (\<lambda>s. s\<lparr>txAborted := txAborted s + 1\<rparr>)"

subsection \<open>Files\<close>

definition PAGE_SIZE :: nat where
  "PAGE_SIZE = 8192"

lemma PAGE_SIZE_pos [simp]: "0 < PAGE_SIZE"
  by (simp add: PAGE_SIZE_def)

definition zero_page :: "byte list" where
  "zero_page = replicate PAGE_SIZE zero_byte"

lemma length_zero_page [simp]: "length zero_page = PAGE_SIZE"
  by (simp add: zero_page_def)

record FileEntry =
  fpath :: string
  freeList :: "int list"
  failbit :: bool

record fm_state = metrics +
  disk :: "string \<rightharpoonup> byte list"
  denied :: "string \<Rightarrow> bool"
  files :: "int \<rightharpoonup> FileEntry"
  nextFileId :: int

definition contents :: "'a fm_state_scheme \<Rightarrow> string \<Rightarrow> byte list" where
  "contents s p = (case disk s p of None \<Rightarrow> [] | Some bs \<Rightarrow> bs)"

definition openFile :: "string \<Rightarrow> ('a fm_state_scheme, int) io" where
  "openFile filePath = (\<lambda>s.
     let fid = nextFileId s; s = s\<lparr>nextFileId := fid + 1\<rparr> in
     if denied s filePath then (Inl (Runtime_Error (''Failed to create file: '' @ filePath)), s)
     else
       let s = s\<lparr>disk := (disk s)(filePath \<mapsto> contents s filePath)\<rparr> in
       (Inr fid, s\<lparr>files := emplace (files s) fid \<lparr>fpath = filePath, freeList = [], failbit = False\<rparr>\<rparr>))"

definition closeFile :: "int \<Rightarrow> ('a fm_state_scheme, unit) io" where
  "closeFile fileId = (\<lambda>s. case files s fileId of
       None \<Rightarrow> (Inl (Runtime_Error ''Invalid fileId''), s)
     | Some _ \<Rightarrow> (Inr (), s\<lparr>files := (files s)(fileId := None)\<rparr>))"

text \<open>
  \<open>tellg\<close> of a failed stream is -1; divided by the unsigned page size and converted to \<open>int\<close>, the
  count is then -1.
\<close>

definition page_count :: "'a fm_state_scheme \<Rightarrow> FileEntry \<Rightarrow> int" where
  "page_count s e =
     (if failbit e then - 1 else to_int32 (int (length (contents s (fpath e)) div PAGE_SIZE)))"

definition getPageCount :: "int \<Rightarrow> ('a fm_state_scheme, int) io" where
  "getPageCount fileId = (\<lambda>s. case files s fileId of
       None \<Rightarrow> (Inl (Runtime_Error ''Invalid fileId''), s)
     | Some e \<Rightarrow> (Inr (page_count s e), s))"

text \<open>The bytes \<open>readPage\<close> leaves in the caller's buffer.\<close>

definition read_bytes :: "'a fm_state_scheme \<Rightarrow> FileEntry \<Rightarrow> int \<Rightarrow> byte list" where
  "read_bytes s e pageId =
     (if pageId < 0 \<or> pageId \<ge> page_count s e then zero_page
      else let got = take PAGE_SIZE (drop (nat pageId * PAGE_SIZE) (contents s (fpath e)))
           in got @ replicate (PAGE_SIZE - length got) zero_byte)"

definition readPage :: "int \<Rightarrow> int \<Rightarrow> ('a fm_state_scheme, byte list) io" where
  "readPage fileId pageId = (\<lambda>s. case files s fileId of
       None \<Rightarrow> (Inl (Runtime_Error ''Invalid fileId''), s)
     | Some e \<Rightarrow> (Inr (read_bytes s e pageId), s))"

text \<open>A write past the end of a file fills the gap with zero bytes.\<close>

definition write_bytes :: "nat \<Rightarrow> byte list \<Rightarrow> byte list \<Rightarrow> byte list" where
  "write_bytes off d bs = overwrite off d (bs @ replicate (off - length bs) zero_byte)"

text \<open>Seeking to a negative offset sets the fail bit, and a failed stream writes nothing.\<close>

definition writePage :: "int \<Rightarrow> int \<Rightarrow> byte list \<Rightarrow> ('a fm_state_scheme, unit) io" where
  "writePage fileId pageId buffer = (\<lambda>s. case files s fileId of
       None \<Rightarrow> (Inl (Runtime_Error ''Invalid fileId''), s)
     | Some e \<Rightarrow>
         if failbit e then (Inr (), s)
         else if pageId < 0 then (Inr (), s\<lparr>files := (files s)(fileId \<mapsto> e\<lparr>failbit := True\<rparr>)\<rparr>)
         else (Inr (), s\<lparr>disk := (disk s)(fpath e \<mapsto>
                 write_bytes (nat pageId * PAGE_SIZE) buffer (contents s (fpath e)))\<rparr>))"

definition allocatePage :: "int \<Rightarrow> ('a fm_state_scheme, int) io" where
  "allocatePage fileId = (\<lambda>s. case files s fileId of
       None \<Rightarrow> (Inl (Runtime_Error ''Invalid fileId''), s)
     | Some e \<Rightarrow>
         if freeList e \<noteq> [] then
           (Inr (last (freeList e)),
            s\<lparr>files := (files s)(fileId \<mapsto> e\<lparr>freeList := butlast (freeList e)\<rparr>)\<rparr>)
         else bindM (getPageCount fileId) (\<lambda>newPage.
              bindM (writePage fileId newPage zero_page) (\<lambda>_. retM newPage)) s)"

definition deallocatePage :: "int \<Rightarrow> int \<Rightarrow> ('a fm_state_scheme, unit) io" where
  "deallocatePage fileId pageId = (\<lambda>s. case files s fileId of
       None \<Rightarrow> (Inl (Runtime_Error ''Invalid fileId''), s)
     | Some e \<Rightarrow>
         if pageId < 0 then (Inl (Runtime_Error ''Invalid pageId''), s)
         else (Inr (), s\<lparr>files := (files s)(fileId \<mapsto> e\<lparr>freeList := freeList e @ [pageId]\<rparr>)\<rparr>))"

subsection \<open>Well-formed use of a file\<close>

text \<open>
  \<open>file_ok s f\<close>: the handle is open, its stream has not failed, and the file holds a whole number of
  pages, fewer than an \<open>int\<close> can count. \<open>fcount\<close> and \<open>fpage\<close> read the file's pages.
\<close>

definition file_ok :: "'a fm_state_scheme \<Rightarrow> int \<Rightarrow> bool" where
  "file_ok s f \<longleftrightarrow> (\<exists>e. files s f = Some e \<and> \<not> failbit e \<and>
     PAGE_SIZE dvd length (contents s (fpath e)) \<and>
     int (length (contents s (fpath e)) div PAGE_SIZE) < 2 ^ 31)"

definition file_path :: "'a fm_state_scheme \<Rightarrow> int \<Rightarrow> string" where
  "file_path s f = (case files s f of None \<Rightarrow> [] | Some e \<Rightarrow> fpath e)"

definition fcount :: "'a fm_state_scheme \<Rightarrow> int \<Rightarrow> nat" where
  "fcount s f = length (contents s (file_path s f)) div PAGE_SIZE"

definition fpage :: "'a fm_state_scheme \<Rightarrow> int \<Rightarrow> nat \<Rightarrow> byte list" where
  "fpage s f p = take PAGE_SIZE (drop (p * PAGE_SIZE) (contents s (file_path s f)))"

lemma file_path_disk [simp]: "file_path (s\<lparr>disk := D\<rparr>) g = file_path s g"
  by (simp add: file_path_def)

lemma file_okE:
  assumes "file_ok s f"
  obtains e where "files s f = Some e" "\<not> failbit e" "file_path s f = fpath e"
    "length (contents s (fpath e)) = fcount s f * PAGE_SIZE" "page_count s e = int (fcount s f)"
    "int (fcount s f) < 2 ^ 31"
proof -
  from assms obtain e where e: "files s f = Some e" "\<not> failbit e"
    "PAGE_SIZE dvd length (contents s (fpath e))"
    "int (length (contents s (fpath e)) div PAGE_SIZE) < 2 ^ 31"
    by (auto simp: file_ok_def)
  moreover from e have "page_count s e = int (fcount s f)"
    by (simp add: page_count_def fcount_def file_path_def to_int32_id)
  ultimately show thesis
    by (intro that [of e]) (simp_all add: file_path_def fcount_def)
qed

lemma getPageCount_ok [simp]: "file_ok s f \<Longrightarrow> getPageCount f s = (Inr (int (fcount s f)), s)"
  by (erule file_okE) (simp add: getPageCount_def)

lemma length_fpage: "file_ok s f \<Longrightarrow> p < fcount s f \<Longrightarrow> length (fpage s f p) = PAGE_SIZE"
proof (erule file_okE)
  fix e assume p: "p < fcount s f"
    and *: "file_path s f = fpath e" "length (contents s (fpath e)) = fcount s f * PAGE_SIZE"
  have "Suc p * PAGE_SIZE \<le> fcount s f * PAGE_SIZE"
    using p by (intro mult_right_mono) simp_all
  with * show ?thesis by (simp add: fpage_def)
qed

lemma readPage_ok:
  assumes "file_ok s f" "p < fcount s f"
  shows "readPage f (int p) s = (Inr (fpage s f p), s)"
  using assms length_fpage [OF assms]
  by (auto elim!: file_okE simp: readPage_def read_bytes_def Let_def fpage_def)

lemma length_write_bytes:
  "off \<le> length bs \<Longrightarrow> length (write_bytes off d bs) = max (off + length d) (length bs)"
  by (simp add: write_bytes_def overwrite_def)

lemma contents_upd [simp]:
  "contents (s\<lparr>disk := (disk s)(p \<mapsto> bs)\<rparr>) q = (if q = p then bs else contents s q)"
  by (simp add: contents_def)

lemma page_neq_ranges:
  "(p :: nat) \<noteq> q \<Longrightarrow> Suc p * n \<le> q * n \<or> Suc q * n \<le> p * n"
  by (metis mult_le_mono1 nat_neq_iff Suc_leI)

lemma writePage_ok:
  assumes f: "file_ok s f" and p: "p \<le> fcount s f" and d: "length d = PAGE_SIZE"
    and b: "int (Suc p) < 2 ^ 31"
  shows "\<exists>s'. writePage f (int p) d s = (Inr (), s') \<and>
    (\<exists>bs. s' = s\<lparr>disk := (disk s)(file_path s f \<mapsto> bs)\<rparr>) \<and>
    file_ok s' f \<and> fcount s' f = max (Suc p) (fcount s f) \<and>
    (\<forall>q < fcount s' f. fpage s' f q = (if q = p then d else fpage s f q))"
proof -
  from f obtain e where e: "files s f = Some e" "\<not> failbit e" "file_path s f = fpath e"
    and l: "length (contents s (fpath e)) = fcount s f * PAGE_SIZE" and m: "int (fcount s f) < 2 ^ 31"
    by (rule file_okE)
  let ?bs = "write_bytes (p * PAGE_SIZE) d (contents s (fpath e))"
  let ?s = "s\<lparr>disk := (disk s)(fpath e \<mapsto> ?bs)\<rparr>"
  have off: "p * PAGE_SIZE \<le> length (contents s (fpath e))"
    using p by (simp add: l)
  have len: "length ?bs = max (Suc p) (fcount s f) * PAGE_SIZE"
    using d by (simp add: length_write_bytes [OF off] l nat_mult_max_left)
  have fp: "file_path s f = fpath e" by (rule e(3))
  have cnt: "fcount ?s f = max (Suc p) (fcount s f)"
    by (simp add: fcount_def fp len)
  have ok: "file_ok ?s f"
    using b m by (simp add: file_ok_def e len)
  have pg: "fpage ?s f q = (if q = p then d else fpage s f q)" if q: "q < fcount ?s f" for q
  proof (cases "p < fcount s f")
    case True
    then have pl: "p * PAGE_SIZE + length d \<le> length (contents s (fpath e))"
      using d mult_le_mono1 [of "Suc p" "fcount s f" PAGE_SIZE] by (simp add: l)
    show ?thesis
    proof (cases "q = p")
      case True
      then show ?thesis
        using overwrite_same [OF pl] d off by (simp add: fpage_def fp write_bytes_def)
    next
      case False
      from page_neq_ranges [OF False, of PAGE_SIZE] show ?thesis
        using False d off pl
        by (auto simp: fpage_def fp write_bytes_def overwrite_before overwrite_after)
    qed
  next
    case False
    with p have pe: "p = fcount s f" by simp
    then have bs: "?bs = contents s (fpath e) @ d"
      by (simp add: write_bytes_def overwrite_def l)
    show ?thesis
    proof (cases "q = p")
      case True
      then show ?thesis using d by (simp add: fpage_def fp bs [unfolded pe] l pe)
    next
      case False
      with q cnt pe have "Suc q * PAGE_SIZE \<le> length (contents s (fpath e))"
        unfolding l by (intro mult_le_mono1) simp
      with False show ?thesis by (simp add: fpage_def fp bs [unfolded pe] pe)
    qed
  qed
  have "writePage f (int p) d s = (Inr (), ?s)"
    by (simp add: writePage_def e)
  then show ?thesis using ok cnt pg e(3) by (intro exI [of _ ?s]) auto
qed

lemma writePage_in:
  assumes f: "file_ok s f" and p: "p < fcount s f" and d: "length d = PAGE_SIZE"
  obtains s' bs where "writePage f (int p) d s = (Inr (), s')"
    "s' = s\<lparr>disk := (disk s)(file_path s f \<mapsto> bs)\<rparr>" "file_ok s' f" "fcount s' f = fcount s f"
    "\<forall>q < fcount s' f. fpage s' f q = (if q = p then d else fpage s f q)"
proof -
  have b: "int (Suc p) < 2 ^ 31" using f p by (auto elim!: file_okE)
  have "max (Suc p) (fcount s f) = fcount s f" using p by simp
  with writePage_ok [OF f less_imp_le [OF p] d b] that show thesis by metis
qed

text \<open>A handle on another path does not see the write.\<close>

lemma other_file_frame:
  assumes "s' = s\<lparr>disk := (disk s)(file_path s f \<mapsto> bs)\<rparr>" "file_path s g \<noteq> file_path s f"
  shows "file_ok s' g = file_ok s g \<and> fcount s' g = fcount s g \<and> fpage s' g q = fpage s g q"
proof -
  have "file_path s' g = file_path s g" by (simp add: assms(1) file_path_def)
  moreover have "files s g = Some e \<Longrightarrow> fpath e \<noteq> file_path s f" for e
    using assms(2) by (simp add: file_path_def)
  ultimately show ?thesis
    using assms by (auto simp: file_ok_def fcount_def fpage_def)
qed

subsection \<open>Properties\<close>

text \<open>
  A page that \<open>allocatePage\<close> appends is fresh: its number is the old page count, the file has one
  page more, it reads back as zeros through any call of \<open>readPage\<close>, and every page that was there
  before reads as before.
\<close>

theorem allocatePage_fresh:
  assumes "file_ok s f" "files s f = Some e" "freeList e = []" "int (fcount s f) + 1 < 2 ^ 31"
  shows "\<exists>s'. allocatePage f s = (Inr (int (fcount s f)), s') \<and> file_ok s' f \<and>
    getPageCount f s' = (Inr (int (fcount s f) + 1), s') \<and>
    readPage f (int (fcount s f)) s' = (Inr zero_page, s') \<and>
    (\<forall>p < fcount s f. fst (readPage f (int p) s') = fst (readPage f (int p) s))"
proof -
  obtain s' where w: "writePage f (int (fcount s f)) zero_page s = (Inr (), s')" and
    ok: "file_ok s' f" and c: "fcount s' f = Suc (fcount s f)" and
    pg: "\<forall>q < fcount s' f. fpage s' f q = (if q = fcount s f then zero_page else fpage s f q)"
    using writePage_ok [OF assms(1) order_refl length_zero_page] assms(4) by auto
  have "allocatePage f s = (Inr (int (fcount s f)), s')"
    using assms(1-3) w by (simp add: allocatePage_def)
  then show ?thesis
    using ok c pg assms(1) by (auto simp: readPage_ok)
qed

theorem allocatePage_fresh_witness:
  "\<exists>s s' :: fm_state. allocatePage 1 s = (Inr 0, s') \<and> readPage 1 0 s' = (Inr zero_page, s') \<and>
     getPageCount 1 s' = (Inr 1, s')"
proof -
  define s :: fm_state where "s = \<lparr>bufferHits = 0, bufferMisses = 0, queryCount = 0,
    totalQueryLatencyUs = 0, txCommitted = 0, txAborted = 0, disk = [''t.dat'' \<mapsto> []],
    denied = (\<lambda>_. False), files = [1 \<mapsto> \<lparr>fpath = ''t.dat'', freeList = [], failbit = False\<rparr>],
    nextFileId = 2\<rparr>"
  have ok: "file_ok s 1" by (simp add: file_ok_def s_def contents_def)
  have c: "fcount s 1 = 0" by (simp add: fcount_def file_path_def s_def contents_def)
  have f: "files s 1 = Some \<lparr>fpath = ''t.dat'', freeList = [], failbit = False\<rparr>" by (simp add: s_def)
  show ?thesis
    using allocatePage_fresh [OF ok f] by (auto simp: c)
qed

text \<open>
  What \<open>writePage\<close> writes is what \<open>readPage\<close> returns: through the same handle at once, with every
  other page of the file and every page of a file with another path unchanged.
\<close>

theorem write_read_page:
  assumes "file_ok s f" "p < fcount s f" "length d = PAGE_SIZE"
    and "file_ok s g" "file_path s g \<noteq> file_path s f" "r < fcount s g"
  shows "\<exists>s'. writePage f (int p) d s = (Inr (), s') \<and>
    readPage f (int p) s' = (Inr d, s') \<and>
    (\<forall>q < fcount s f. q \<noteq> p \<longrightarrow> fst (readPage f (int q) s') = fst (readPage f (int q) s)) \<and>
    fst (readPage g (int r) s') = fst (readPage g (int r) s)"
proof -
  from assms(1,2,3) obtain s' bs where w: "writePage f (int p) d s = (Inr (), s')" and
    s': "s' = s\<lparr>disk := (disk s)(file_path s f \<mapsto> bs)\<rparr>" and ok: "file_ok s' f" and
    c: "fcount s' f = fcount s f" and
    pg: "\<forall>q < fcount s' f. fpage s' f q = (if q = p then d else fpage s f q)"
    by (rule writePage_in)
  from other_file_frame [OF s' assms(5)] show ?thesis
    using w ok c pg assms by (auto simp: readPage_ok)
qed

theorem write_read_page_witness:
  "\<exists>s s' :: fm_state. writePage 1 0 (replicate PAGE_SIZE (CHR ''x'')) s = (Inr (), s') \<and>
     readPage 1 0 s' = (Inr (replicate PAGE_SIZE (CHR ''x'')), s') \<and>
     fst (readPage 2 0 s') = fst (readPage 2 0 s)"
proof -
  define s :: fm_state where "s = \<lparr>bufferHits = 0, bufferMisses = 0, queryCount = 0,
    totalQueryLatencyUs = 0, txCommitted = 0, txAborted = 0,
    disk = [''t.dat'' \<mapsto> zero_page, ''u.dat'' \<mapsto> zero_page], denied = (\<lambda>_. False),
    files = [1 \<mapsto> \<lparr>fpath = ''t.dat'', freeList = [], failbit = False\<rparr>,
      2 \<mapsto> \<lparr>fpath = ''u.dat'', freeList = [], failbit = False\<rparr>], nextFileId = 3\<rparr>"
  have ok: "file_ok s 1" "file_ok s 2" by (simp_all add: file_ok_def s_def contents_def)
  have c: "fcount s 1 = 1" "fcount s 2 = 1" "file_path s 2 \<noteq> file_path s 1"
    by (simp_all add: fcount_def file_path_def s_def contents_def)
  show ?thesis
    using write_read_page [OF ok(1), of 0 "replicate PAGE_SIZE (CHR ''x'')" 2 0] ok(2) c by auto
qed

end
