(* ===== verification/PagedFiles.thy ===== *)
theory PagedFiles
  imports FileManager
begin

section \<open>Paged files: the interface of the buffer pool\<close>

text \<open>
  The table heap and the B+ tree use a page in one way: fetch it, read its bytes through the pointer,
  possibly write them back and mark the page dirty, then unpin it. \<open>page_window\<close> is that pattern, over
  the operations of the pool as parameters, and \<open>page_loop\<close> the loop that visits the pages of a file
  until a visit returns something. The locale \<open>paged_files\<close> is the contract of the pool: what a
  client may rely on. Its lemmas say what a visit and a loop do to the pages of the files; the buffer
  manager interprets it.
\<close>

text \<open>
  How a visit ends: without a change, with new bytes for the page, or with an exception after the
  bytes were changed and before the page was unpinned.
\<close>

datatype 'a page_exit = Leave 'a | Dirty 'a "byte list" | Abandon error "byte list"

definition page_window ::
  "(int \<Rightarrow> int \<Rightarrow> ('s, 'p) io) \<Rightarrow> ('p \<Rightarrow> ('s, byte list) io) \<Rightarrow> ('p \<Rightarrow> byte list \<Rightarrow> ('s, unit) io) \<Rightarrow>
   (int \<Rightarrow> int \<Rightarrow> ('s, unit) io) \<Rightarrow> (int \<Rightarrow> int \<Rightarrow> ('s, unit) io) \<Rightarrow>
   int \<Rightarrow> int \<Rightarrow> (byte list \<Rightarrow> 'a page_exit) \<Rightarrow> ('s, 'a) io" where
  "page_window fetch deref store mark unpin f p visit =
     bindM (fetch f p) (\<lambda>ptr.
     bindM (deref ptr) (\<lambda>page. case visit page of
       Leave x \<Rightarrow> bindM (unpin f p) (\<lambda>_. retM x)
     | Dirty x page' \<Rightarrow>
         bindM (store ptr page') (\<lambda>_.
         bindM (mark f p) (\<lambda>_.
         bindM (unpin f p) (\<lambda>_. retM x)))
     | Abandon e page' \<Rightarrow> bindM (store ptr page') (\<lambda>_. throwM e)))"

text \<open>\<open>for (pid = 0; pid < pageCount; ++pid)\<close> with a return from inside the loop.\<close>

fun page_loop :: "(int \<Rightarrow> ('s, 'a option) io) \<Rightarrow> int list \<Rightarrow> ('s, 'a option) io" where
  "page_loop visit [] = retM None"
| "page_loop visit (p # ps) =
     bindM (visit p) (\<lambda>r. case r of Some x \<Rightarrow> retM (Some x) | None \<Rightarrow> page_loop visit ps)"

text \<open>The loop that collects what the visits return.\<close>

fun page_collect :: "(int \<Rightarrow> ('s, 'a list) io) \<Rightarrow> int list \<Rightarrow> ('s, 'a list) io" where
  "page_collect visit [] = retM []"
| "page_collect visit (p # ps) =
     bindM (visit p) (\<lambda>xs. bindM (page_collect visit ps) (\<lambda>ys. retM (xs @ ys)))"

text \<open>
  The contract. \<open>pages s f\<close> are the pages of file \<open>f\<close> as a client sees them, \<open>inv\<close> holds between two
  visits, \<open>held t f p i r\<close> while page \<open>p\<close> is pinned, \<open>i\<close> points to it and \<open>r\<close> is what \<open>rest\<close> was before the
  fetch; \<open>rest\<close> is the part of the state that a whole visit does not change.
\<close>

locale paged_files =
  fixes F :: "int set"
    and inv :: "'s \<Rightarrow> bool"
    and held :: "'s \<Rightarrow> int \<Rightarrow> nat \<Rightarrow> 'p \<Rightarrow> 'r \<Rightarrow> bool"
    and pages :: "'s \<Rightarrow> int \<Rightarrow> byte list list"
    and rest :: "'s \<Rightarrow> 'r"
    and fetch :: "int \<Rightarrow> int \<Rightarrow> ('s, 'p) io"
    and deref :: "'p \<Rightarrow> ('s, byte list) io"
    and store :: "'p \<Rightarrow> byte list \<Rightarrow> ('s, unit) io"
    and mark :: "int \<Rightarrow> int \<Rightarrow> ('s, unit) io"
    and unpin :: "int \<Rightarrow> int \<Rightarrow> ('s, unit) io"
    and count :: "int \<Rightarrow> ('s, int) io"
    and alloc :: "int \<Rightarrow> ('s, int) io"
  assumes fetch_law: "inv s \<Longrightarrow> f \<in> F \<Longrightarrow> p < length (pages s f) \<Longrightarrow>
      \<exists>i t. fetch f (int p) s = (Inr i, t) \<and> held t f p i (rest s) \<and> pages t = pages s \<and>
        deref i t = (Inr (pages s f ! p), t)"
    and write_law: "held t f p i r \<Longrightarrow> length d = PAGE_SIZE \<Longrightarrow>
      \<exists>u. bindM (store i d) (\<lambda>_. mark f (int p)) t = (Inr (), u) \<and> held u f p i r \<and>
        pages u = (pages t)(f := (pages t f)[p := d])"
    and unpin_law: "held t f p i r \<Longrightarrow>
      \<exists>u. unpin f (int p) t = (Inr (), u) \<and> inv u \<and> pages u = pages t \<and> rest u = r"
    and count_law: "inv s \<Longrightarrow> f \<in> F \<Longrightarrow> count f s = (Inr (int (length (pages s f))), s)"
    and alloc_law: "inv s \<Longrightarrow> f \<in> F \<Longrightarrow> int (length (pages s f)) + 1 < 2 ^ 31 \<Longrightarrow>
      \<exists>t. alloc f s = (Inr (int (length (pages s f))), t) \<and> inv t \<and>
        pages t = (pages s)(f := pages s f @ [zero_page]) \<and> rest t = rest s"
    and page_length: "inv s \<Longrightarrow> f \<in> F \<Longrightarrow> p < length (pages s f) \<Longrightarrow>
      length (pages s f ! p) = PAGE_SIZE"
begin

abbreviation window :: "int \<Rightarrow> int \<Rightarrow> (byte list \<Rightarrow> 'a page_exit) \<Rightarrow> ('s, 'a) io" where
  "window \<equiv> page_window fetch deref store mark unpin"

lemma window_leave:
  assumes "inv s" "f \<in> F" "p < length (pages s f)" "visit (pages s f ! p) = Leave x"
  shows "\<exists>t. window f (int p) visit s = (Inr x, t) \<and> inv t \<and> pages t = pages s \<and> rest t = rest s"
proof -
  obtain i t where t: "fetch f (int p) s = (Inr i, t)" "held t f p i (rest s)" "pages t = pages s"
    "deref i t = (Inr (pages s f ! p), t)"
    using fetch_law [OF assms(1-3)] by auto
  obtain u where "unpin f (int p) t = (Inr (), u)" "inv u" "pages u = pages t" "rest u = rest s"
    using unpin_law [OF t(2)] by auto
  with t assms(4) show ?thesis by (simp add: page_window_def)
qed

lemma window_dirty:
  assumes "inv s" "f \<in> F" "p < length (pages s f)" "visit (pages s f ! p) = Dirty x d"
    and "length d = PAGE_SIZE"
  shows "\<exists>t. window f (int p) visit s = (Inr x, t) \<and> inv t \<and>
    pages t = (pages s)(f := (pages s f)[p := d]) \<and> rest t = rest s"
proof -
  obtain i t where t: "fetch f (int p) s = (Inr i, t)" "held t f p i (rest s)" "pages t = pages s"
    "deref i t = (Inr (pages s f ! p), t)"
    using fetch_law [OF assms(1-3)] by auto
  obtain u where u: "bindM (store i d) (\<lambda>_. mark f (int p)) t = (Inr (), u)" "held u f p i (rest s)"
    "pages u = (pages t)(f := (pages t f)[p := d])"
    using write_law [OF t(2) assms(5)] by auto
  obtain v where v: "unpin f (int p) u = (Inr (), v)" "inv v" "pages v = pages u" "rest v = rest s"
    using unpin_law [OF u(2)] by auto
  have "bindM (store i d) (\<lambda>_. bindM (mark f (int p)) (\<lambda>_. bindM (unpin f (int p)) (\<lambda>_. retM x))) t
      = (Inr x, v)"
    using u(1) v(1) by (simp add: bindM_assoc [of "store i d", symmetric])
  with t u v assms(4) show ?thesis by (simp add: page_window_def)
qed

text \<open>A loop whose visits leave the pages alone up to the page that answers.\<close>

lemma loop_leave:
  assumes "inv s" "f \<in> F" "\<forall>p \<in> set ps. p < length (pages s f) \<and> visit (int p) (pages s f ! p) = Leave None"
  shows "\<exists>t. page_loop (\<lambda>p. window f p (visit p)) (map int ps) s = (Inr None, t) \<and>
    inv t \<and> pages t = pages s \<and> rest t = rest s"
  using assms
proof (induction ps arbitrary: s)
  case (Cons p ps)
  obtain t where t: "window f (int p) (visit (int p)) s = (Inr None, t)" "inv t" "pages t = pages s"
    "rest t = rest s"
    using window_leave [of s f p "visit (int p)" None] Cons.prems by auto
  from Cons.IH [OF t(2) Cons.prems(2)] Cons.prems(3) t show ?case by simp
qed simp

lemma loop_dirty:
  assumes "inv s" "f \<in> F" "q < length (pages s f)"
    and "\<forall>p < q. visit (int p) (pages s f ! p) = Leave None"
    and "visit (int q) (pages s f ! q) = Dirty (Some x) d" "length d = PAGE_SIZE" "q < n"
  shows "\<exists>t. page_loop (\<lambda>p. window f p (visit p)) (map int [0..<n]) s = (Inr (Some x), t) \<and>
    inv t \<and> pages t = (pages s)(f := (pages s f)[q := d]) \<and> rest t = rest s"
proof -
  let ?w = "\<lambda>p. window f p (visit p)"
  have "\<forall>p \<in> set [m..<q]. p < length (pages s f) \<and> visit (int p) (pages s f ! p) = Leave None" for m
    using assms(3,4) by auto
  then have pre: "\<exists>t. page_loop ?w (map int [0..<q]) s = (Inr None, t) \<and> inv t \<and> pages t = pages s \<and> rest t = rest s"
    using loop_leave [OF assms(1,2)] by blast
  then obtain t where t: "page_loop ?w (map int [0..<q]) s = (Inr None, t)" "inv t"
    "pages t = pages s" "rest t = rest s" by blast
  obtain u where u: "?w (int q) t = (Inr (Some x), u)" "inv u"
    "pages u = (pages t)(f := (pages t f)[q := d])" "rest u = rest t"
    using window_dirty [of t f q "visit (int q)" "Some x" d] assms t by auto
  have split: "page_loop g (xs @ q # ys) s = (Inr (Some x), u)"
    if "page_loop g xs s = (Inr None, t)" "g q t = (Inr (Some x), u)" for g xs ys and q :: int and s t u :: 's
    using that
    by (induction xs arbitrary: s) (auto simp: bindM_eq_Inr split: option.splits)
  have "[0..<n] = [0..<q] @ q # [Suc q..<n]"
    using assms(7) by (metis le_add1 less_imp_le_nat less_imp_add_positive upt_add_eq_append upt_conv_Cons
        add_0 zero_le)
  then have "page_loop ?w (map int [0..<n]) s = (Inr (Some x), u)"
    using split [OF t(1) u(1)] by simp
  with u t show ?thesis by simp
qed

lemma collect_leave:
  assumes "inv s" "f \<in> F" "\<forall>p \<in> set ps. p < length (pages s f) \<and> visit (int p) (pages s f ! p) = Leave (g p)"
  shows "\<exists>t. page_collect (\<lambda>p. window f p (visit p)) (map int ps) s = (Inr (concat (map g ps)), t) \<and>
    inv t \<and> pages t = pages s \<and> rest t = rest s"
  using assms
proof (induction ps arbitrary: s)
  case (Cons p ps)
  obtain t where t: "window f (int p) (visit (int p)) s = (Inr (g p), t)" "inv t" "pages t = pages s"
    "rest t = rest s"
    using window_leave [of s f p "visit (int p)" "g p"] Cons.prems by auto
  obtain u where u: "page_collect (\<lambda>p. window f p (visit p)) (map int ps) t = (Inr (concat (map g ps)), u)"
    "inv u" "pages u = pages t" "rest u = rest t"
    using Cons.IH [OF t(2) Cons.prems(2)] Cons.prems(3) t(3) by auto
  with t show ?case by simp
qed simp

text \<open>Appending a page and writing it.\<close>

lemma append_dirty:
  assumes "inv s" "f \<in> F" "int (length (pages s f)) + 1 < 2 ^ 31"
    and "visit zero_page = Dirty x d" "length d = PAGE_SIZE"
  shows "\<exists>t. bindM (alloc f) (\<lambda>p. window f p visit) s = (Inr x, t) \<and> inv t \<and>
    pages t = (pages s)(f := pages s f @ [d]) \<and> rest t = rest s"
proof -
  let ?n = "length (pages s f)"
  obtain t where t: "alloc f s = (Inr (int ?n), t)" "inv t"
    "pages t = (pages s)(f := pages s f @ [zero_page])" "rest t = rest s"
    using alloc_law [OF assms(1-3)] by auto
  obtain u where "window f (int ?n) visit t = (Inr x, u)" "inv u"
    "pages u = (pages t)(f := (pages t f)[?n := d])" "rest u = rest t"
    using window_dirty [of t f ?n visit x d] assms t by auto
  with t show ?thesis by simp
qed

end

end
