(* ===== verification/BufferManager.thy ===== *)
theory BufferManager
  imports PagedFiles
begin

section \<open>Buffer manager\<close>

text \<open>
  \<open>bufferManager/BufferManager\<close>: a pool of page frames over the file manager, with pin counts, dirty
  flags and a clock hand. The state record extends the file manager's, because the pool works on the
  files it refers to. The pointer that \<open>fetchPage\<close> returns is the number of the frame whose bytes it
  points to; \<open>deref\<close> and \<open>store\<close> are a read and a write through it.
\<close>

record Frame =
  isValid :: bool
  isDirty :: bool
  pinCount :: int
  pid :: "int \<times> int"
  fdata :: "byte list"

record bm_state = fm_state +
  poolSize :: nat
  frames :: "Frame list"
  pageTable :: "(int \<times> int) \<rightharpoonup> nat"
  clockHand :: nat

text \<open>
  The constructor: \<open>garbage i\<close> stands for the indeterminate bytes of the buffer \<open>new char[]\<close> returns
  for frame \<open>i\<close>.
\<close>

definition new_frame :: "byte list \<Rightarrow> Frame" where
  "new_frame g = \<lparr>isValid = False, isDirty = False, pinCount = 0, pid = (- 1, - 1), fdata = g\<rparr>"

definition bm_init :: "fm_state \<Rightarrow> nat \<Rightarrow> (nat \<Rightarrow> byte list) \<Rightarrow> bm_state" where
  "bm_init fm n garbage = fm_state.extend fm (bm_state.fields n (map (new_frame \<circ> garbage) [0..<n]) Map.empty 0)"

definition upd_frame :: "nat \<Rightarrow> (Frame \<Rightarrow> Frame) \<Rightarrow> 'a bm_state_scheme \<Rightarrow> 'a bm_state_scheme" where
  "upd_frame i g s = s\<lparr>frames := (frames s)[i := g (frames s ! i)]\<rparr>"

text \<open>The loop of \<open>selectVictimFrame\<close>, with the number of rounds left.\<close>

fun select_loop :: "nat \<Rightarrow> ('a bm_state_scheme, nat) io" where
  "select_loop 0 = throwM (Runtime_Error ''All buffer frames are pinned; no victim available'')"
| "select_loop (Suc n) = (\<lambda>s.
     let h = (clockHand s + 1) mod poolSize s; s = s\<lparr>clockHand := h\<rparr>; f = frames s ! h in
     if \<not> isValid f then (Inr h, s)
     else if pinCount f = 0 then (Inr h, s)
     else select_loop n s)"

definition selectVictimFrame :: "('a bm_state_scheme, nat) io" where
  "selectVictimFrame = (\<lambda>s. select_loop (poolSize s) s)"

text \<open>The middle of \<open>fetchPage\<close>: the victim is written back if it is dirty and leaves the table.\<close>

definition evict_frame :: "nat \<Rightarrow> ('a bm_state_scheme, unit) io" where
  "evict_frame idx = (\<lambda>s.
     let v = frames s ! idx in
     if isValid v then
       bindM (if isDirty v
              then bindM (writePage (fst (pid v)) (snd (pid v)) (fdata v)) (\<lambda>_.
                   modifyM (upd_frame idx (\<lambda>f. f\<lparr>isDirty := False\<rparr>)))
              else retM ()) (\<lambda>_.
       modifyM (\<lambda>s. s\<lparr>pageTable := (pageTable s)(pid v := None)\<rparr>)) s
     else (Inr (), s))"

definition install_frame :: "nat \<Rightarrow> int \<times> int \<Rightarrow> byte list \<Rightarrow> 'a bm_state_scheme \<Rightarrow> 'a bm_state_scheme" where
  "install_frame idx k buf s =
     (upd_frame idx (\<lambda>f. f\<lparr>fdata := buf, isValid := True, isDirty := False, pinCount := 1, pid := k\<rparr>) s)
       \<lparr>pageTable := (pageTable s)(k \<mapsto> idx)\<rparr>"

definition fetchPage :: "int \<Rightarrow> int \<Rightarrow> ('a bm_state_scheme, nat) io" where
  "fetchPage fileId pageId = (\<lambda>s. case pageTable s (fileId, pageId) of
       Some idx \<Rightarrow>
         bindM incBufferHit (\<lambda>_.
         bindM (modifyM (upd_frame idx (\<lambda>f. f\<lparr>pinCount := pinCount f + 1\<rparr>))) (\<lambda>_. retM idx)) s
     | None \<Rightarrow>
         bindM selectVictimFrame (\<lambda>idx.
         bindM (evict_frame idx) (\<lambda>_.
         bindM (readPage fileId pageId) (\<lambda>buf.
         bindM (modifyM (install_frame idx (fileId, pageId) buf)) (\<lambda>_. retM idx)))) s)"

definition deref :: "nat \<Rightarrow> ('a bm_state_scheme, byte list) io" where
  "deref idx = getsM (\<lambda>s. fdata (frames s ! idx))"

definition store :: "nat \<Rightarrow> byte list \<Rightarrow> ('a bm_state_scheme, unit) io" where
  "store idx d = modifyM (upd_frame idx (\<lambda>f. f\<lparr>fdata := d\<rparr>))"

definition pinPage :: "int \<Rightarrow> int \<Rightarrow> ('a bm_state_scheme, unit) io" where
  "pinPage fileId pageId = (\<lambda>s. case pageTable s (fileId, pageId) of
       None \<Rightarrow> (Inl (Runtime_Error ''Page not in buffer pool''), s)
     | Some idx \<Rightarrow> (Inr (), upd_frame idx (\<lambda>f. f\<lparr>pinCount := pinCount f + 1\<rparr>) s))"

definition unpinPage :: "int \<Rightarrow> int \<Rightarrow> ('a bm_state_scheme, unit) io" where
  "unpinPage fileId pageId = (\<lambda>s. case pageTable s (fileId, pageId) of
       None \<Rightarrow> (Inl (Runtime_Error ''Page not in buffer pool''), s)
     | Some idx \<Rightarrow>
         if pinCount (frames s ! idx) \<le> 0
         then (Inl (Runtime_Error ''Unpin on page with pinCount=0''), s)
         else (Inr (), upd_frame idx (\<lambda>f. f\<lparr>pinCount := pinCount f - 1\<rparr>) s))"

definition markDirty :: "int \<Rightarrow> int \<Rightarrow> ('a bm_state_scheme, unit) io" where
  "markDirty fileId pageId = (\<lambda>s. case pageTable s (fileId, pageId) of
       None \<Rightarrow> (Inl (Runtime_Error ''Page not in buffer pool''), s)
     | Some idx \<Rightarrow> (Inr (), upd_frame idx (\<lambda>f. f\<lparr>isDirty := True\<rparr>) s))"

text \<open>Writing one frame back, shared by \<open>flushPage\<close> and \<open>flushAllPages\<close>.\<close>

definition flush_frame :: "int \<Rightarrow> int \<Rightarrow> nat \<Rightarrow> ('a bm_state_scheme, unit) io" where
  "flush_frame fileId pageId idx = (\<lambda>s.
     let f = frames s ! idx in
     if isValid f \<and> isDirty f then
       bindM (writePage fileId pageId (fdata f)) (\<lambda>_.
       modifyM (upd_frame idx (\<lambda>f. f\<lparr>isDirty := False\<rparr>))) s
     else (Inr (), s))"

definition flushPage :: "int \<Rightarrow> int \<Rightarrow> ('a bm_state_scheme, unit) io" where
  "flushPage fileId pageId = (\<lambda>s. case pageTable s (fileId, pageId) of
       None \<Rightarrow> (Inr (), s)
     | Some idx \<Rightarrow> flush_frame fileId pageId idx s)"

fun flush_loop :: "nat list \<Rightarrow> ('a bm_state_scheme, unit) io" where
  "flush_loop [] = retM ()"
| "flush_loop (i # is) = bindM (\<lambda>s. flush_frame (fst (pid (frames s ! i))) (snd (pid (frames s ! i))) i s)
                               (\<lambda>_. flush_loop is)"

definition flushAllPages :: "('a bm_state_scheme, unit) io" where
  "flushAllPages = (\<lambda>s. flush_loop [0..<poolSize s] s)"

subsection \<open>The pool's invariant and the pages it represents\<close>

text \<open>
  \<open>pool_ok\<close>: the page table and the valid frames say the same. \<open>disk_ok F\<close>: the files \<open>F\<close> that the
  pool is used with are open, without freed pages, each on a path of its own, and only pages of them
  are cached. \<open>clean_ok\<close>: a frame that is not dirty has the bytes of the disk.
\<close>

definition pool_ok :: "'a bm_state_scheme \<Rightarrow> bool" where
  "pool_ok s \<longleftrightarrow> length (frames s) = poolSize s \<and>
     (\<forall>i < poolSize s. length (fdata (frames s ! i)) = PAGE_SIZE \<and> 0 \<le> pinCount (frames s ! i)) \<and>
     (\<forall>k i. pageTable s k = Some i \<longleftrightarrow> i < poolSize s \<and> isValid (frames s ! i) \<and> pid (frames s ! i) = k)"

definition files_ok :: "int set \<Rightarrow> 'a fm_state_scheme \<Rightarrow> bool" where
  "files_ok F s \<longleftrightarrow> (\<forall>f \<in> F. file_ok s f \<and> freeList (the (files s f)) = []) \<and> inj_on (file_path s) F"

definition cached_ok :: "int set \<Rightarrow> 'a bm_state_scheme \<Rightarrow> bool" where
  "cached_ok F s \<longleftrightarrow> (\<forall>i < poolSize s. isValid (frames s ! i) \<longrightarrow>
     fst (pid (frames s ! i)) \<in> F \<and> 0 \<le> snd (pid (frames s ! i)) \<and>
     nat (snd (pid (frames s ! i))) < fcount s (fst (pid (frames s ! i))) \<and>
     (\<not> isDirty (frames s ! i) \<longrightarrow>
        fdata (frames s ! i) = fpage s (fst (pid (frames s ! i))) (nat (snd (pid (frames s ! i))))))"

definition bm_inv :: "int set \<Rightarrow> 'a bm_state_scheme \<Rightarrow> bool" where
  "bm_inv F s \<longleftrightarrow> pool_ok s \<and> files_ok F s \<and> cached_ok F s"

text \<open>The bytes a page has for the clients: the frame's if it is cached, else the disk's.\<close>

definition view :: "'a bm_state_scheme \<Rightarrow> int \<Rightarrow> nat \<Rightarrow> byte list" where
  "view s f p = (case pageTable s (f, int p) of Some i \<Rightarrow> fdata (frames s ! i) | None \<Rightarrow> fpage s f p)"

definition pins :: "'a bm_state_scheme \<Rightarrow> int \<times> int \<Rightarrow> int" where
  "pins s k = (case pageTable s k of Some i \<Rightarrow> pinCount (frames s ! i) | None \<Rightarrow> 0)"

text \<open>What the pool's operations leave alone.\<close>

definition bm_rest :: "'a bm_state_scheme \<Rightarrow> _" where
  "bm_rest s = (files s, nextFileId s, denied s, poolSize s, bm_state.more s)"

definition same_view :: "int set \<Rightarrow> 'a bm_state_scheme \<Rightarrow> 'a bm_state_scheme \<Rightarrow> bool" where
  "same_view F s s' \<longleftrightarrow> bm_rest s' = bm_rest s \<and>
     (\<forall>g \<in> F. fcount s' g = fcount s g \<and> (\<forall>q < fcount s g. view s' g q = view s g q))"

lemma same_view_refl [simp]: "same_view F s s"
  by (simp add: same_view_def)

lemma same_view_trans: "same_view F s t \<Longrightarrow> same_view F t u \<Longrightarrow> same_view F s u"
  by (auto simp: same_view_def)


subsection \<open>Frame updates and the disk\<close>

lemma fm_cong:
  assumes "disk s' = disk s" "files s' = files s"
  shows "fcount s' = fcount s" "fpage s' = fpage s" "file_ok s' = file_ok s"
    "file_path s' = file_path s" "files_ok F s' = files_ok F s" "contents s' = contents s"
proof -
  show c: "contents s' = contents s" by (rule ext) (simp add: contents_def assms)
  show p: "file_path s' = file_path s" by (rule ext) (simp add: file_path_def assms)
  show "fcount s' = fcount s" by (rule ext) (simp add: fcount_def c p)
  show "fpage s' = fpage s" by (rule ext)+ (simp add: fpage_def c p)
  show o: "file_ok s' = file_ok s" by (rule ext) (simp add: file_ok_def c assms)
  show "files_ok F s' = files_ok F s" by (simp add: files_ok_def o p assms)
qed

lemma upd_frame_simps [simp]:
  "frames (upd_frame i g s) = (frames s)[i := g (frames s ! i)]"
  "pageTable (upd_frame i g s) = pageTable s" "poolSize (upd_frame i g s) = poolSize s"
  "disk (upd_frame i g s) = disk s" "files (upd_frame i g s) = files s"
  "denied (upd_frame i g s) = denied s" "nextFileId (upd_frame i g s) = nextFileId s"
  "clockHand (upd_frame i g s) = clockHand s" "bm_state.more (upd_frame i g s) = bm_state.more s"
  by (simp_all add: upd_frame_def)

lemmas upd_frame_fm [simp] =
  fm_cong(1) [OF upd_frame_simps(4,5)] fm_cong(2) [OF upd_frame_simps(4,5)]
  fm_cong(3) [OF upd_frame_simps(4,5)] fm_cong(4) [OF upd_frame_simps(4,5)]
  fm_cong(5) [OF upd_frame_simps(4,5)]

lemma pool_fields_fm [simp]:
  "fcount (s\<lparr>pageTable := T\<rparr>) = fcount s" "fpage (s\<lparr>pageTable := T\<rparr>) = fpage s"
  "files_ok F (s\<lparr>pageTable := T\<rparr>) = files_ok F s" "file_path (s\<lparr>pageTable := T\<rparr>) = file_path s"
  "fcount (s\<lparr>clockHand := c\<rparr>) = fcount s" "fpage (s\<lparr>clockHand := c\<rparr>) = fpage s"
  "files_ok F (s\<lparr>clockHand := c\<rparr>) = files_ok F s" "file_path (s\<lparr>clockHand := c\<rparr>) = file_path s"
  "fcount (s\<lparr>bufferHits := n\<rparr>) = fcount s" "fpage (s\<lparr>bufferHits := n\<rparr>) = fpage s"
  "files_ok F (s\<lparr>bufferHits := n\<rparr>) = files_ok F s" "file_path (s\<lparr>bufferHits := n\<rparr>) = file_path s"
  by (rule fm_cong, simp, simp)+

lemma pool_okI:
  assumes "length (frames s) = N" "poolSize s = N"
    and "\<And>i. i < N \<Longrightarrow> length (fdata (frames s ! i)) = PAGE_SIZE \<and> 0 \<le> pinCount (frames s ! i)"
    and "\<And>k i. (pageTable s k = Some i) = (i < N \<and> isValid (frames s ! i) \<and> pid (frames s ! i) = k)"
  shows "pool_ok s"
  using assms unfolding pool_ok_def by metis

lemma pool_bytes:
  "pool_ok s \<Longrightarrow> i < poolSize s \<Longrightarrow> length (fdata (frames s ! i)) = PAGE_SIZE \<and> 0 \<le> pinCount (frames s ! i)"
  by (simp add: pool_ok_def)

lemma pool_table:
  "pool_ok s \<Longrightarrow> pageTable s k = Some i \<longleftrightarrow>
     i < poolSize s \<and> i < length (frames s) \<and> isValid (frames s ! i) \<and> pid (frames s ! i) = k"
  unfolding pool_ok_def by metis

lemma pool_tableD:
  "pool_ok s \<Longrightarrow> pageTable s k = Some i \<Longrightarrow> i < poolSize s \<and> isValid (frames s ! i) \<and> pid (frames s ! i) = k"
  unfolding pool_ok_def by blast

lemma pool_frame:
  "pool_ok s \<Longrightarrow> i < poolSize s \<Longrightarrow> isValid (frames s ! i) \<Longrightarrow> pageTable s (pid (frames s ! i)) = Some i"
  unfolding pool_ok_def by blast

lemma pool_len: "pool_ok s \<Longrightarrow> length (frames s) = poolSize s"
  by (simp add: pool_ok_def)

subsection \<open>The victim\<close>

definition evictable :: "'a bm_state_scheme \<Rightarrow> nat \<Rightarrow> bool" where
  "evictable s i \<longleftrightarrow> \<not> isValid (frames s ! i) \<or> pinCount (frames s ! i) = 0"

lemma evictable_clock [simp]: "evictable (s\<lparr>clockHand := h\<rparr>) = evictable s"
  by (rule ext) (simp add: evictable_def)

lemma select_loop_Inr:
  "select_loop n s = (Inr h, s') \<Longrightarrow> 0 < poolSize s \<Longrightarrow>
     s' = s\<lparr>clockHand := h\<rparr> \<and> h < poolSize s \<and> evictable s h"
proof (induction n arbitrary: s)
  case (Suc n)
  let ?h = "(clockHand s + 1) mod poolSize s"
  show ?case
  proof (cases "evictable s ?h")
    case True
    with Suc.prems show ?thesis by (auto simp: Let_def evictable_def split: if_splits)
  next
    case False
    with Suc.prems have "select_loop n (s\<lparr>clockHand := ?h\<rparr>) = (Inr h, s')"
      by (simp add: Let_def evictable_def)
    from Suc.IH [OF this] Suc.prems(2) show ?thesis by simp
  qed
qed simp

lemma select_loop_Inl:
  "select_loop n s = (Inl e, s') \<Longrightarrow> 1 \<le> k \<Longrightarrow> k \<le> n \<Longrightarrow>
     \<not> evictable s ((clockHand s + k) mod poolSize s)"
proof (induction n arbitrary: s k)
  case (Suc n)
  let ?h = "(clockHand s + 1) mod poolSize s"
  have no: "\<not> evictable s ?h" and rest: "select_loop n (s\<lparr>clockHand := ?h\<rparr>) = (Inl e, s')"
    using Suc.prems(1) by (auto simp: Let_def evictable_def split: if_splits)
  show ?case
  proof (cases "k = 1")
    case True
    with no show ?thesis by simp
  next
    case False
    with Suc.prems(2,3) have "1 \<le> k - 1" "k - 1 \<le> n" by auto
    from Suc.IH [OF rest this] have "\<not> evictable s ((?h + (k - 1)) mod poolSize s)" by simp
    moreover have "(?h + (k - 1)) mod poolSize s = (clockHand s + 1 + (k - 1)) mod poolSize s"
      by (rule mod_add_left_eq)
    moreover have "clockHand s + 1 + (k - 1) = clockHand s + k" using Suc.prems(2) by simp
    ultimately show ?thesis by metis
  qed
qed simp

lemma mod_reaches:
  assumes "(i :: nat) < n"
  shows "\<exists>k. 1 \<le> k \<and> k \<le> n \<and> (c + k) mod n = i"
proof -
  let ?k = "(i + n - c mod n) mod n"
  have c: "c mod n < n" using assms by simp
  have "(c + ?k) mod n = (c mod n + (i + n - c mod n)) mod n"
    by (simp add: mod_add_left_eq mod_add_right_eq)
  also have "c mod n + (i + n - c mod n) = i + n" using c by linarith
  finally have k: "(c + ?k) mod n = i" using assms by simp
  show ?thesis
  proof (cases "?k = 0")
    case True
    with k assms show ?thesis by (intro exI [of _ n]) simp
  next
    case False
    with k assms show ?thesis by (intro exI [of _ ?k]) (simp add: less_imp_le)
  qed
qed

lemma selectVictim_ok:
  assumes "j < poolSize s" "evictable s j"
  obtains h where "selectVictimFrame s = (Inr h, s\<lparr>clockHand := h\<rparr>)" "h < poolSize s" "evictable s h"
proof (cases "select_loop (poolSize s) s")
  case (Pair r s')
  show thesis
  proof (cases r)
    case (Inl e)
    obtain k where k: "1 \<le> k" "k \<le> poolSize s" "(clockHand s + k) mod poolSize s = j"
      using mod_reaches [OF assms(1)] by blast
    show thesis
      using select_loop_Inl [OF Pair [unfolded Inl] k(1,2)] k(3) assms(2) by simp
  next
    case (Inr h)
    show thesis
      using select_loop_Inr [OF Pair [unfolded Inr]] assms(1) Pair Inr
      by (intro that [of h]) (auto simp: selectVictimFrame_def)
  qed
qed


subsection \<open>Write-back, eviction and installation\<close>

lemma write_pool:
  assumes F: "files_ok F s" and f: "f \<in> F" and p: "p < fcount s f" and d: "length d = PAGE_SIZE"
  obtains bs where "writePage f (int p) d s = (Inr (), s\<lparr>disk := (disk s)(file_path s f \<mapsto> bs)\<rparr>)"
    "files_ok F (s\<lparr>disk := (disk s)(file_path s f \<mapsto> bs)\<rparr>)"
    "\<forall>g \<in> F. fcount (s\<lparr>disk := (disk s)(file_path s f \<mapsto> bs)\<rparr>) g = fcount s g \<and>
       (\<forall>q < fcount s g. fpage (s\<lparr>disk := (disk s)(file_path s f \<mapsto> bs)\<rparr>) g q
          = (if g = f \<and> q = p then d else fpage s g q))"
proof -
  have ok: "file_ok s f" using F f by (simp add: files_ok_def)
  obtain s' bs where w: "writePage f (int p) d s = (Inr (), s')" and
    s': "s' = s\<lparr>disk := (disk s)(file_path s f \<mapsto> bs)\<rparr>" and ok': "file_ok s' f" and
    c: "fcount s' f = fcount s f" and
    pg: "\<forall>q < fcount s' f. fpage s' f q = (if q = p then d else fpage s f q)"
    using ok p d by (rule writePage_in)
  have other: "file_ok s' g = file_ok s g \<and> fcount s' g = fcount s g \<and> fpage s' g q = fpage s g q"
    if "g \<in> F" "g \<noteq> f" for g q
  proof (rule other_file_frame [OF s'])
    show "file_path s g \<noteq> file_path s f"
      using F f that by (auto simp: files_ok_def inj_on_def)
  qed
  have "files_ok F s'"
    unfolding files_ok_def
  proof (intro conjI ballI)
    fix g assume g: "g \<in> F"
    then show "file_ok s' g" using F ok' other [of g] by (cases "g = f") (auto simp: files_ok_def)
    show "freeList (the (files s' g)) = []" using F g by (simp add: files_ok_def s')
  next
    show "inj_on (file_path s') F" using F by (simp add: files_ok_def s' inj_on_def)
  qed
  moreover have "\<forall>g \<in> F. fcount s' g = fcount s g \<and>
    (\<forall>q < fcount s g. fpage s' g q = (if g = f \<and> q = p then d else fpage s g q))"
    using other c pg by (metis (full_types))
  ultimately show thesis using that [of bs] w by (simp add: s')
qed

lemma bm_invD:
  assumes "bm_inv F s"
  shows "pool_ok s" "files_ok F s" "cached_ok F s" "length (frames s) = poolSize s"
  using assms by (auto simp: bm_inv_def pool_ok_def)

lemma cachedD:
  assumes "bm_inv F s" "i < poolSize s" "isValid (frames s ! i)"
  obtains f p where "pid (frames s ! i) = (f, int p)" "f \<in> F" "p < fcount s f"
    "pageTable s (f, int p) = Some i" "view s f p = fdata (frames s ! i)"
    "\<not> isDirty (frames s ! i) \<longrightarrow> fdata (frames s ! i) = fpage s f p"
    "length (fdata (frames s ! i)) = PAGE_SIZE"
proof -
  obtain f q where k: "pid (frames s ! i) = (f, q)" by fastforce
  have t: "pageTable s (f, q) = Some i"
    using pool_frame [OF bm_invD(1) [OF assms(1)] assms(2,3)] k by simp
  have c: "f \<in> F" "0 \<le> q" "nat q < fcount s f"
    "\<not> isDirty (frames s ! i) \<longrightarrow> fdata (frames s ! i) = fpage s f (nat q)"
    using bm_invD(3) [OF assms(1)] assms(2,3) k by (auto simp: cached_ok_def)
  have "length (fdata (frames s ! i)) = PAGE_SIZE"
    using bm_invD(1) [OF assms(1)] assms(2) by (simp add: pool_ok_def)
  then show thesis using c t k by (intro that [of f "nat q"]) (simp_all add: view_def)
qed

text \<open>
  The state after a frame left the pool: its page, if it had one, is on the disk with the bytes the
  frame had.
\<close>

lemma drop_frame_ok:
  assumes inv: "bm_inv F s" and h: "h < poolSize s" and v: "isValid (frames s ! h)"
    and pin: "pinCount (frames s ! h) = 0"
    and fr: "frames t = (frames s)[h := v']" and v': "\<not> isValid v'" "length (fdata v') = PAGE_SIZE"
      "pinCount v' = 0"
    and tab: "pageTable t = (pageTable s)(pid (frames s ! h) := None)"
    and rest: "bm_rest t = bm_rest s" and F: "files_ok F t"
    and dk: "\<forall>g \<in> F. fcount t g = fcount s g \<and> (\<forall>q < fcount s g. fpage t g q =
       (if pid (frames s ! h) = (g, int q) then fdata (frames s ! h) else fpage s g q))"
  shows "bm_inv F t \<and> same_view F s t \<and> pins t = pins s"
proof -
  have N: "poolSize t = poolSize s" using rest by (simp add: bm_rest_def)
  have len: "length (frames s) = poolSize s" using inv by (rule bm_invD)
  have P: "pool_ok s" using inv by (rule bm_invD)
  have fi: "i < poolSize s \<Longrightarrow> frames t ! i = (if i = h then v' else frames s ! i)" for i
    using len by (simp add: fr)
  have tk: "pageTable t k = Some i \<longleftrightarrow> i \<noteq> h \<and> pageTable s k = Some i" for k i
  proof (cases "k = pid (frames s ! h)")
    case True
    then have "pageTable s k = Some h" using pool_frame [OF P h v] by simp
    with True show ?thesis by (auto simp: tab)
  next
    case False
    then have "pageTable s k \<noteq> Some h" using pool_table [OF P, of k h] by blast
    with False show ?thesis by (auto simp: tab)
  qed
  have "pool_ok t"
    unfolding pool_ok_def
  proof (intro conjI allI impI)
    show "length (frames t) = poolSize t" by (simp add: fr len N)
    fix i assume "i < poolSize t"
    then show "length (fdata (frames t ! i)) = PAGE_SIZE" "0 \<le> pinCount (frames t ! i)"
      using P v' by (auto simp: N fi pool_ok_def)
  next
    fix k i
    show "(pageTable t k = Some i) = (i < poolSize t \<and> isValid (frames t ! i) \<and> pid (frames t ! i) = k)"
    proof (cases "i < poolSize s \<and> i \<noteq> h")
      case True
      then show ?thesis using tk [of k i] pool_table [OF P, of k i] len by (simp add: N fi)
    next
      case False
      then have "pageTable t k \<noteq> Some i" using tk [of k i] pool_table [OF P, of k i] by blast
      with False v' h show ?thesis by (auto simp: N fi)
    qed
  qed
  moreover have "cached_ok F t"
    unfolding cached_ok_def
  proof (intro allI impI)
    fix i assume i: "i < poolSize t" "isValid (frames t ! i)"
    then have ih: "i < poolSize s" "i \<noteq> h" "isValid (frames s ! i)" "frames t ! i = frames s ! i"
      using v' by (auto simp: N fi split: if_splits)
    obtain f p where c: "pid (frames s ! i) = (f, int p)" "f \<in> F" "p < fcount s f"
      "pageTable s (f, int p) = Some i" "\<not> isDirty (frames s ! i) \<longrightarrow> fdata (frames s ! i) = fpage s f p"
      using inv ih(1,3) by (rule cachedD)
    have "pid (frames s ! h) \<noteq> (f, int p)"
      using pool_frame [OF P h v] c(4) ih(2) by auto
    then show "fst (pid (frames t ! i)) \<in> F \<and> 0 \<le> snd (pid (frames t ! i)) \<and>
      nat (snd (pid (frames t ! i))) < fcount t (fst (pid (frames t ! i))) \<and>
      (\<not> isDirty (frames t ! i) \<longrightarrow>
        fdata (frames t ! i) = fpage t (fst (pid (frames t ! i))) (nat (snd (pid (frames t ! i)))))"
      using c ih dk by auto
  qed
  moreover have "same_view F s t"
    unfolding same_view_def
  proof (intro conjI ballI allI impI)
    show "bm_rest t = bm_rest s" by (rule rest)
    fix g assume g: "g \<in> F"
    then show "fcount t g = fcount s g" using dk by simp
    fix q assume q: "q < fcount s g"
    show "view t g q = view s g q"
    proof (cases "pid (frames s ! h) = (g, int q)")
      case True
      then have "pageTable s (g, int q) = Some h" using pool_frame [OF P h v] by simp
      with True dk g q show ?thesis by (simp add: view_def tab)
    next
      case False
      then have same: "pageTable t (g, int q) = pageTable s (g, int q)" by (simp add: tab)
      show ?thesis
      proof (cases "pageTable s (g, int q)")
        case None
        with same False dk g q show ?thesis by (simp add: view_def)
      next
        case (Some i)
        then have "i < poolSize s" "i \<noteq> h" using pool_table [OF P, of "(g, int q)" i] False by auto
        with Some same show ?thesis by (simp add: view_def fi)
      qed
    qed
  qed
  moreover have "pins t = pins s"
  proof
    fix k
    show "pins t k = pins s k"
    proof (cases "pageTable s k")
      case None
      then have "pageTable t k = None" by (simp add: tab)
      with None show ?thesis by (simp add: pins_def)
    next
      case (Some i)
      show ?thesis
      proof (cases "i = h")
        case True
        with Some have "pid (frames s ! h) = k" using pool_table [OF P, of k i] by simp
        then have "pageTable t k = None" by (simp add: tab)
        with Some True show ?thesis by (simp add: pins_def pin)
      next
        case False
        with Some have "pageTable t k = Some i" by (simp add: tk)
        with Some False show ?thesis using pool_table [OF P, of k i] by (simp add: pins_def fi)
      qed
    qed
  qed
  ultimately show ?thesis using F by (simp add: bm_inv_def)
qed


text \<open>Eviction leaves a state that, with the victim's frame marked free, represents the same pages.\<close>

definition free_frame :: "nat \<Rightarrow> 'a bm_state_scheme \<Rightarrow> 'a bm_state_scheme" where
  "free_frame i = upd_frame i (\<lambda>f. f\<lparr>isValid := False, pinCount := 0\<rparr>)"

lemma evict_ok:
  assumes inv: "bm_inv F s" and h: "h < poolSize s" and e: "evictable s h"
  obtains t where "evict_frame h s = (Inr (), t)" "bm_inv F (free_frame h t)"
    "same_view F s (free_frame h t)" "pins (free_frame h t) = pins s"
proof (cases "isValid (frames s ! h)")
  case False
  have P: "pool_ok s" and len: "length (frames s) = poolSize s" using inv by (rule bm_invD)+
  define t where "t = free_frame h s"
  have fi: "frames t ! i = (if i = h then (frames s ! h)\<lparr>isValid := False, pinCount := 0\<rparr> else frames s ! i)"
    if "i < poolSize s" for i using that len by (simp add: t_def free_frame_def)
  have t: "pageTable t = pageTable s" "poolSize t = poolSize s" "length (frames t) = poolSize s"
    "fcount t = fcount s" "fpage t = fpage s" "files_ok F t = files_ok F s" "bm_rest t = bm_rest s"
    by (simp_all add: t_def free_frame_def bm_rest_def len)
  have no: "pageTable s k \<noteq> Some h" for k using pool_table [OF P, of k h] False by blast
  have tab: "(pageTable t k = Some i) = (i < poolSize s \<and> isValid (frames t ! i) \<and> pid (frames t ! i) = k)" for k i
  proof (cases "i < poolSize s")
    case True
    then show ?thesis using pool_table [OF P, of k i] no [of k] len False by (auto simp: t fi)
  qed (use pool_table [OF P, of k i] in \<open>simp add: t\<close>)
  have "pool_ok t"
    using tab pool_bytes [OF P] by (intro pool_okI [of _ "poolSize s"]) (auto simp: fi t)
  moreover have "cached_ok F t"
    using bm_invD(3) [OF inv] False unfolding cached_ok_def by (auto simp: fi t)
  moreover have "view t g q = view s g q" for g q
    using no [of "(g, int q)"] pool_tableD [OF P, of "(g, int q)"] fi
    by (cases "pageTable s (g, int q)") (auto simp: view_def t)
  moreover have "pins t k = pins s k" for k
    using no [of k] pool_tableD [OF P, of k] fi by (cases "pageTable s k") (auto simp: pins_def t)
  ultimately show thesis
    using False bm_invD(2) [OF inv] by (intro that [of s])
      (auto simp: evict_frame_def bm_inv_def same_view_def t t_def [symmetric])
next
  case True
  have pin: "pinCount (frames s ! h) = 0" using e True by (simp add: evictable_def)
  have F: "files_ok F s" and len: "length (frames s) = poolSize s" using inv by (rule bm_invD)+
  obtain f p where k: "pid (frames s ! h) = (f, int p)" "f \<in> F" "p < fcount s f"
    "\<not> isDirty (frames s ! h) \<longrightarrow> fdata (frames s ! h) = fpage s f p"
    "length (fdata (frames s ! h)) = PAGE_SIZE"
    using inv h True by (rule cachedD)
  show thesis
  proof (cases "isDirty (frames s ! h)")
    case False
    let ?t = "s\<lparr>pageTable := (pageTable s)((f, int p) := None)\<rparr>"
    have ev: "evict_frame h s = (Inr (), ?t)"
      using True False k(1) by (simp add: evict_frame_def Let_def)
    have "bm_inv F (free_frame h ?t) \<and> same_view F s (free_frame h ?t) \<and> pins (free_frame h ?t) = pins s"
      by (rule drop_frame_ok [OF inv h True pin, where v' = "(frames s ! h)\<lparr>isValid := False, pinCount := 0\<rparr>"])
        (use k F False in \<open>simp_all add: free_frame_def bm_rest_def\<close>)
    with ev show thesis by (intro that) auto
  next
    case dirty: True
    obtain bs where w: "writePage f (int p) (fdata (frames s ! h)) s =
        (Inr (), s\<lparr>disk := (disk s)(file_path s f \<mapsto> bs)\<rparr>)" and
      F': "files_ok F (s\<lparr>disk := (disk s)(file_path s f \<mapsto> bs)\<rparr>)" and
      dk: "\<forall>g \<in> F. fcount (s\<lparr>disk := (disk s)(file_path s f \<mapsto> bs)\<rparr>) g = fcount s g \<and>
       (\<forall>q < fcount s g. fpage (s\<lparr>disk := (disk s)(file_path s f \<mapsto> bs)\<rparr>) g q
          = (if g = f \<and> q = p then fdata (frames s ! h) else fpage s g q))"
      using F k(2,3,5) by (rule write_pool)
    let ?s = "s\<lparr>disk := (disk s)(file_path s f \<mapsto> bs)\<rparr>"
    let ?t = "(upd_frame h (\<lambda>f. f\<lparr>isDirty := False\<rparr>) ?s)\<lparr>pageTable := (pageTable s)((f, int p) := None)\<rparr>"
    have ev: "evict_frame h s = (Inr (), ?t)"
      using True dirty k(1) w by (simp add: evict_frame_def Let_def)
    have "bm_inv F (free_frame h ?t) \<and> same_view F s (free_frame h ?t) \<and> pins (free_frame h ?t) = pins s"
      by (rule drop_frame_ok [OF inv h True pin, where v' =
            "(frames s ! h)\<lparr>isDirty := False, isValid := False, pinCount := 0\<rparr>"])
        (use k F' dk len h in \<open>auto simp: free_frame_def bm_rest_def\<close>)
    with ev show thesis by (intro that) auto
  qed
qed

lemma writePage_table: "writePage f p d s = (r, s') \<Longrightarrow> pageTable s' = pageTable s"
  by (auto simp: writePage_def split: option.splits if_splits)

lemma evict_table:
  "evict_frame h s = (Inr (), t) \<Longrightarrow> pageTable s k = None \<Longrightarrow> pageTable t k = None"
  by (auto simp: evict_frame_def Let_def bindM_eq_Inr split: if_splits dest!: writePage_table)

lemma install_ok:
  assumes inv: "bm_inv F t" and h: "h < poolSize t" "\<not> isValid (frames t ! h)"
    and none: "pageTable t (f, int p) = None" and f: "f \<in> F" "p < fcount t f"
  defines "u \<equiv> install_frame h (f, int p) (fpage t f p) t"
  shows "bm_inv F u \<and> same_view F t u \<and> pins u = (pins t)((f, int p) := 1) \<and>
    pageTable u (f, int p) = Some h \<and> fdata (frames u ! h) = view t f p"
proof -
  have P: "pool_ok t" and F: "files_ok F t" and len: "length (frames t) = poolSize t"
    using inv by (rule bm_invD)+
  let ?v = "(frames t ! h)\<lparr>fdata := fpage t f p, isValid := True, isDirty := False, pinCount := 1, pid := (f, int p)\<rparr>"
  have fr: "frames u = (frames t)[h := ?v]" and N: "poolSize u = poolSize t"
    and tab: "pageTable u = (pageTable t)((f, int p) \<mapsto> h)"
    by (simp_all add: u_def install_frame_def)
  have fi: "frames u ! i = (if i = h then ?v else frames t ! i)" if "i < poolSize t" for i
    using that len by (simp add: fr)
  have ul: "length (frames u) = poolSize t" by (simp add: fr len)
  have fm: "fcount u = fcount t" "fpage u = fpage t" "files_ok F u = files_ok F t"
    by (rule fm_cong, simp add: u_def install_frame_def, simp add: u_def install_frame_def)+
  have no: "pageTable t k \<noteq> Some h" for k using pool_table [OF P, of k h] h by blast
  have ok: "file_ok t f" using F f by (simp add: files_ok_def)
  have tb: "(pageTable u k = Some i) = (i < poolSize t \<and> isValid (frames u ! i) \<and> pid (frames u ! i) = k)" for k i
  proof (cases "i = h")
    case True
    then show ?thesis using h no [of k] by (auto simp: fi tab)
  next
    case False
    then show ?thesis
      using pool_table [OF P, of k i] len none fi [of i] by (cases "i < poolSize t") (auto simp: tab)
  qed
  have "pool_ok u"
    using tb pool_bytes [OF P] length_fpage [OF ok f(2)] h(1)
    by (intro pool_okI [of _ "poolSize t"]) (auto simp: fi N ul)
  moreover have "cached_ok F u"
    using bm_invD(3) [OF inv] f unfolding cached_ok_def by (auto simp: N fi fm)
  moreover have "view u g q = view t g q" for g q
  proof (cases "(g, int q) = (f, int p)")
    case True
    then show ?thesis using none h by (simp add: view_def tab fi)
  next
    case False
    then have "pageTable u (g, int q) = pageTable t (g, int q)" by (auto simp: tab)
    then show ?thesis using no [of "(g, int q)"] pool_tableD [OF P, of "(g, int q)"]
      by (cases "pageTable t (g, int q)") (auto simp: view_def fm fi)
  qed
  moreover have "pins u k = (if k = (f, int p) then 1 else pins t k)" for k
  proof (cases "k = (f, int p)")
    case True
    then show ?thesis using h by (simp add: pins_def tab fi)
  next
    case False
    then have "pageTable u k = pageTable t k" by (auto simp: tab)
    with False show ?thesis using no [of k] pool_tableD [OF P, of k]
      by (cases "pageTable t k") (auto simp: pins_def fi)
  qed
  moreover have "bm_rest u = bm_rest t" by (simp add: bm_rest_def u_def install_frame_def)
  ultimately show ?thesis
    using F none h by (auto simp: bm_inv_def same_view_def fm tab fi view_def)
qed


subsection \<open>Pinning, unpinning and writing through the pointer\<close>

text \<open>
  Changing the pin count, the dirty flag or the bytes of a frame. A page's bytes may change only
  together with its dirty flag.
\<close>

lemma touch_frame_ok:
  assumes inv: "bm_inv F s" and k: "pageTable s (f, int p) = Some i"
    and v: "isValid (g (frames s ! i))" "pid (g (frames s ! i)) = (f, int p)"
      "length (fdata (g (frames s ! i))) = PAGE_SIZE" "0 \<le> pinCount (g (frames s ! i))"
    and d: "isDirty (g (frames s ! i)) \<or> (fdata (g (frames s ! i)) = fdata (frames s ! i) \<and> \<not> isDirty (frames s ! i))"
  defines "t \<equiv> upd_frame i g s"
  shows "bm_inv F t" "bm_rest t = bm_rest s" "pageTable t = pageTable s" "fcount t = fcount s"
    "frames t ! i = g (frames s ! i)"
    "view t q r = (if q = f \<and> r = p then fdata (g (frames s ! i)) else view s q r)"
    "pins t l = (if l = (f, int p) then pinCount (g (frames s ! i)) else pins s l)"
proof -
  have P: "pool_ok s" and F: "files_ok F s" and len: "length (frames s) = poolSize s"
    using inv by (rule bm_invD)+
  have i: "i < poolSize s" "isValid (frames s ! i)" "pid (frames s ! i) = (f, int p)"
    using pool_tableD [OF P k] by auto
  have fj: "frames t ! j = (if j = i then g (frames s ! i) else frames s ! j)" for j
    using i(1) len by (simp add: t_def)
  have t: "pageTable t = pageTable s" "poolSize t = poolSize s" "length (frames t) = poolSize s"
    "fcount t = fcount s" "fpage t = fpage s" "files_ok F t = files_ok F s"
    by (simp_all add: t_def len)
  show "bm_rest t = bm_rest s" "pageTable t = pageTable s" "fcount t = fcount s"
    by (simp_all add: bm_rest_def t_def)
  show "frames t ! i = g (frames s ! i)" by (simp add: fj)
  have tab: "(pageTable t k = Some j) = (j < poolSize s \<and> isValid (frames t ! j) \<and> pid (frames t ! j) = k)" for k j
    using pool_table [OF P, of k j] i v len by (auto simp: t fj)
  have "pool_ok t"
    using tab pool_bytes [OF P] v by (intro pool_okI [of _ "poolSize s"]) (auto simp: fj t)
  moreover have "cached_ok F t"
    using bm_invD(3) [OF inv] v d i unfolding cached_ok_def by (auto simp: fj t)
  ultimately show "bm_inv F t" using F by (simp add: bm_inv_def t)
  have other: "j \<noteq> i" if "pageTable s l = Some j" "l \<noteq> (f, int p)" for l j
    using pool_tableD [OF P that(1)] that(2) i(3) by auto
  show "view t q r = (if q = f \<and> r = p then fdata (g (frames s ! i)) else view s q r)"
    using other [of "(q, int r)"] k by (cases "pageTable s (q, int r)") (auto simp: view_def t fj)
  show "pins t l = (if l = (f, int p) then pinCount (g (frames s ! i)) else pins s l)"
    using other [of l] k by (cases "pageTable s l") (auto simp: pins_def t fj)
qed

lemma fetch_hit:
  assumes inv: "bm_inv F s" and k: "pageTable s (f, int p) = Some i"
  obtains t where "fetchPage f (int p) s = (Inr i, t)" "bm_inv F t" "same_view F s t"
    "pins t = (pins s)((f, int p) := pins s (f, int p) + 1)"
    "pageTable t (f, int p) = Some i" "fdata (frames t ! i) = view s f p"
proof -
  define s' where "s' = s\<lparr>bufferHits := bufferHits s + 1\<rparr>"
  let ?g = "\<lambda>f. f\<lparr>pinCount := pinCount f + 1\<rparr>"
  have fr: "frames s' = frames s" "pageTable s' = pageTable s" "poolSize s' = poolSize s"
    "fpage s' = fpage s" "fcount s' = fcount s" "files_ok F s' = files_ok F s" "bm_rest s' = bm_rest s"
    by (simp_all add: s'_def bm_rest_def)
  have inv': "bm_inv F s'" using inv by (simp add: bm_inv_def pool_ok_def cached_ok_def fr)
  have vp: "view s' = view s" "pins s' = pins s"
    by (auto simp: fun_eq_iff view_def pins_def fr split: option.split)
  have P: "pool_ok s" using inv by (rule bm_invD)
  have i: "i < poolSize s" "isValid (frames s ! i)" "pid (frames s ! i) = (f, int p)"
    using pool_tableD [OF P k] by auto
  have pre: "pageTable s' (f, int p) = Some i" "isValid (?g (frames s' ! i))"
    "pid (?g (frames s' ! i)) = (f, int p)" "length (fdata (?g (frames s' ! i))) = PAGE_SIZE"
    "0 \<le> pinCount (?g (frames s' ! i))"
    "isDirty (?g (frames s' ! i)) \<or>
      (fdata (?g (frames s' ! i)) = fdata (frames s' ! i) \<and> \<not> isDirty (frames s' ! i))"
    using k i pool_bytes [OF P i(1)] by (auto simp: fr)
  note t = touch_frame_ok [where g = ?g, OF inv' pre]
  have vs: "view s f p = fdata (frames s ! i)" and ps: "pins s (f, int p) = pinCount (frames s ! i)"
    using k by (simp_all add: view_def pins_def)
  have "fetchPage f (int p) s = (Inr i, upd_frame i ?g s')"
    using k by (simp add: fetchPage_def incBufferHit_def s'_def)
  moreover have "same_view F s (upd_frame i ?g s')"
    using t(2,4,6) by (simp add: same_view_def fr vp vs)
  moreover have "pins (upd_frame i ?g s') = (pins s)((f, int p) := pins s (f, int p) + 1)"
    by (rule ext) (simp add: t(7) fr vp ps)
  ultimately show thesis
    using t(1) t(3) t(5) k by (intro that [of "upd_frame i ?g s'"]) (simp_all add: fr vs)
qed

lemma fetch_ok:
  assumes inv: "bm_inv F s" and f: "f \<in> F" "p < fcount s f"
    and room: "pageTable s (f, int p) \<noteq> None \<or> (\<exists>j < poolSize s. evictable s j)"
  obtains i t where "fetchPage f (int p) s = (Inr i, t)" "bm_inv F t" "same_view F s t"
    "pins t = (pins s)((f, int p) := pins s (f, int p) + 1)"
    "pageTable t (f, int p) = Some i" "fdata (frames t ! i) = view s f p"
proof (cases "pageTable s (f, int p)")
  case (Some i)
  from inv Some obtain t where "fetchPage f (int p) s = (Inr i, t)" "bm_inv F t" "same_view F s t"
    "pins t = (pins s)((f, int p) := pins s (f, int p) + 1)"
    "pageTable t (f, int p) = Some i" "fdata (frames t ! i) = view s f p"
    by (rule fetch_hit)
  then show thesis by (rule that)
next
  case None
  then obtain j where "j < poolSize s" "evictable s j" using room by auto
  then obtain h where sel: "selectVictimFrame s = (Inr h, s\<lparr>clockHand := h\<rparr>)" and
    h: "h < poolSize s" "evictable s h" by (rule selectVictim_ok)
  let ?s = "s\<lparr>clockHand := h\<rparr>"
  have inv': "bm_inv F ?s" using inv by (simp add: bm_inv_def pool_ok_def cached_ok_def)
  have h': "h < poolSize ?s" "evictable ?s h" using h by simp_all
  obtain t where ev: "evict_frame h ?s = (Inr (), t)" and ti: "bm_inv F (free_frame h t)" and
    tv: "same_view F ?s (free_frame h t)" and tp: "pins (free_frame h t) = pins ?s"
    using inv' h' by (rule evict_ok)
  let ?t = "free_frame h t"
  have N: "poolSize ?t = poolSize s" using tv by (simp add: same_view_def bm_rest_def)
  have cnt: "fcount ?t f = fcount s f" using tv f(1) by (simp add: same_view_def)
  have fok: "file_ok ?t f" using bm_invD(2) [OF ti] f(1) by (simp add: files_ok_def)
  have sv: "view ?s = view s" "pins ?s = pins s"
    by (auto simp: fun_eq_iff view_def pins_def split: option.split)
  have none: "pageTable ?t (f, int p) = None"
  proof -
    have "pageTable t (f, int p) = None"
      by (rule evict_table [OF ev]) (simp add: None)
    then show ?thesis by (simp add: free_frame_def)
  qed
  have nv: "\<not> isValid (frames ?t ! h)"
    using bm_invD(4) [OF ti] h(1) N by (simp add: free_frame_def)
  have rd: "readPage f (int p) t = (Inr (fpage ?t f p), t)"
    using readPage_ok [of t f p] fok f(2) cnt by (simp add: free_frame_def)
  have hN: "h < poolSize ?t" using h(1) N by simp
  have inst: "install_frame h k b t = install_frame h k b ?t" for k b
    using hN bm_invD(4) [OF ti] by (simp add: install_frame_def free_frame_def upd_frame_def)
  note io = install_ok [OF ti hN nv none f(1), unfolded cnt, OF f(2)]
  let ?u = "install_frame h (f, int p) (fpage ?t f p) ?t"
  have "pins s (f, int p) = 0" using None by (simp add: pins_def)
  moreover have "fetchPage f (int p) s = (Inr h, ?u)"
    using None sel ev rd by (simp add: fetchPage_def inst [symmetric])
  moreover have "same_view F s ?u"
  proof (rule same_view_trans [of F s ?t])
    show "same_view F s ?t" using tv by (simp add: same_view_def bm_rest_def sv)
  qed (use io in auto)
  moreover have "view ?t f p = view s f p"
    using tv f by (simp add: same_view_def sv)
  ultimately show thesis
    using io tp sv by (intro that [of h ?u]) auto
qed

subsection \<open>Writing back\<close>

lemma flush_frame_ok:
  assumes inv: "bm_inv F s" and i: "i < poolSize s"
  obtains t where "flush_frame (fst (pid (frames s ! i))) (snd (pid (frames s ! i))) i s = (Inr (), t)"
    "bm_inv F t" "same_view F s t" "pins t = pins s" "pageTable t = pageTable s"
    "\<forall>j < poolSize s. isDirty (frames t ! j) \<longrightarrow> isDirty (frames s ! j)"
    "isValid (frames t ! i) \<longrightarrow> \<not> isDirty (frames t ! i)"
proof (cases "isValid (frames s ! i) \<and> isDirty (frames s ! i)")
  case False
  with inv show thesis by (intro that [of s]) (auto simp: flush_frame_def Let_def)
next
  case True
  have P: "pool_ok s" and F: "files_ok F s" and len: "length (frames s) = poolSize s"
    using inv by (rule bm_invD)+
  obtain f p where k: "pid (frames s ! i) = (f, int p)" "f \<in> F" "p < fcount s f"
    "pageTable s (f, int p) = Some i" "length (fdata (frames s ! i)) = PAGE_SIZE"
    using inv i True [THEN conjunct1] by (rule cachedD)
  obtain bs where w: "writePage f (int p) (fdata (frames s ! i)) s =
      (Inr (), s\<lparr>disk := (disk s)(file_path s f \<mapsto> bs)\<rparr>)" and
    F': "files_ok F (s\<lparr>disk := (disk s)(file_path s f \<mapsto> bs)\<rparr>)" and
    dk: "\<forall>g \<in> F. fcount (s\<lparr>disk := (disk s)(file_path s f \<mapsto> bs)\<rparr>) g = fcount s g \<and>
     (\<forall>q < fcount s g. fpage (s\<lparr>disk := (disk s)(file_path s f \<mapsto> bs)\<rparr>) g q
        = (if g = f \<and> q = p then fdata (frames s ! i) else fpage s g q))"
    using F k(2,3,5) by (rule write_pool)
  define t where "t = upd_frame i (\<lambda>f. f\<lparr>isDirty := False\<rparr>) (s\<lparr>disk := (disk s)(file_path s f \<mapsto> bs)\<rparr>)"
  have fj: "frames t ! j = (if j = i then (frames s ! i)\<lparr>isDirty := False\<rparr> else frames s ! j)" for j
    using i len by (simp add: t_def)
  have t: "pageTable t = pageTable s" "poolSize t = poolSize s" "length (frames t) = poolSize s"
    "bm_rest t = bm_rest s" "files_ok F t"
    using F' by (simp_all add: t_def len bm_rest_def)
  have dt: "\<forall>g \<in> F. fcount t g = fcount s g \<and> (\<forall>q < fcount s g. fpage t g q
      = (if g = f \<and> q = p then fdata (frames s ! i) else fpage s g q))"
    using dk by (simp add: t_def)
  have tab: "(pageTable t l = Some j) = (j < poolSize s \<and> isValid (frames t ! j) \<and> pid (frames t ! j) = l)" for l j
    using pool_table [OF P, of l j] len by (auto simp: t fj)
  have "pool_ok t"
    using tab pool_bytes [OF P] by (intro pool_okI [of _ "poolSize s"]) (auto simp: fj t)
  moreover have "cached_ok F t"
    unfolding cached_ok_def
  proof (intro allI impI)
    fix j assume j: "j < poolSize t" "isValid (frames t ! j)"
    then have js: "j < poolSize s" "isValid (frames s ! j)" using t(2) by (auto simp: fj split: if_splits)
    obtain g q where c: "pid (frames s ! j) = (g, int q)" "g \<in> F" "q < fcount s g"
      "pageTable s (g, int q) = Some j" "\<not> isDirty (frames s ! j) \<longrightarrow> fdata (frames s ! j) = fpage s g q"
      using inv js by (rule cachedD)
    have "g = f \<and> q = p \<longleftrightarrow> j = i" using c(1,4) k(1,4) by auto
    then show "fst (pid (frames t ! j)) \<in> F \<and> 0 \<le> snd (pid (frames t ! j)) \<and>
      nat (snd (pid (frames t ! j))) < fcount t (fst (pid (frames t ! j))) \<and>
      (\<not> isDirty (frames t ! j) \<longrightarrow>
        fdata (frames t ! j) = fpage t (fst (pid (frames t ! j))) (nat (snd (pid (frames t ! j)))))"
      using c dt by (auto simp: fj)
  qed
  moreover have "view t g q = view s g q" if "g \<in> F" "q < fcount s g" for g q
  proof (cases "pageTable s (g, int q)")
    case None
    then show ?thesis using dt that k(4) by (auto simp: view_def t)
  next
    case (Some j)
    then show ?thesis by (simp add: view_def t fj)
  qed
  moreover have "pins t = pins s"
    by (auto simp: fun_eq_iff pins_def t fj split: option.split)
  ultimately show thesis
    using w k(1) True t dt
    by (intro that [of t]) (auto simp: flush_frame_def Let_def bm_inv_def same_view_def t_def [symmetric] fj)
qed

lemma flush_loop_ok:
  "bm_inv F s \<Longrightarrow> set is \<subseteq> {..<poolSize s} \<Longrightarrow>
     \<exists>t. flush_loop is s = (Inr (), t) \<and> bm_inv F t \<and> same_view F s t \<and> pins t = pins s \<and>
       (\<forall>j < poolSize s. isDirty (frames t ! j) \<longrightarrow> isDirty (frames s ! j)) \<and>
       (\<forall>j \<in> set is. isValid (frames t ! j) \<longrightarrow> \<not> isDirty (frames t ! j)) \<and>
       pageTable t = pageTable s"
proof (induction "is" arbitrary: s)
  case (Cons i "is")
  obtain t where t: "flush_frame (fst (pid (frames s ! i))) (snd (pid (frames s ! i))) i s = (Inr (), t)"
    "bm_inv F t" "same_view F s t" "pins t = pins s" "pageTable t = pageTable s"
    "\<forall>j < poolSize s. isDirty (frames t ! j) \<longrightarrow> isDirty (frames s ! j)"
    "isValid (frames t ! i) \<longrightarrow> \<not> isDirty (frames t ! i)"
    using flush_frame_ok [OF Cons.prems(1), of i] Cons.prems(2) by auto
  have N: "poolSize t = poolSize s" using t(3) by (simp add: same_view_def bm_rest_def)
  obtain u where u: "flush_loop is t = (Inr (), u)" "bm_inv F u" "same_view F t u" "pins u = pins t"
    "\<forall>j < poolSize t. isDirty (frames u ! j) \<longrightarrow> isDirty (frames t ! j)"
    "\<forall>j \<in> set is. isValid (frames u ! j) \<longrightarrow> \<not> isDirty (frames u ! j)" "pageTable u = pageTable t"
    using Cons.IH [OF t(2)] Cons.prems(2) N by auto
  have "poolSize u = poolSize t" using u(3) by (simp add: same_view_def bm_rest_def)
  moreover have "isValid (frames v ! j) \<longleftrightarrow> (\<exists>k. pageTable v k = Some j)"
    if "bm_inv F v" "j < poolSize v" for v :: "'a bm_state_scheme" and j
    using pool_frame [OF bm_invD(1) [OF that(1)] that(2)] pool_tableD [OF bm_invD(1) [OF that(1)]] by blast
  ultimately have "isValid (frames u ! i) = isValid (frames t ! i)"
    using t(2) u(2,7) Cons.prems(2) N by simp
  then show ?case
    using t u N Cons.prems(2) same_view_trans [OF t(3) u(3)] by auto
qed simp

lemma flushAll_ok:
  assumes "bm_inv F s"
  obtains t where "flushAllPages s = (Inr (), t)" "bm_inv F t" "same_view F s t" "pins t = pins s"
    "\<forall>f \<in> F. \<forall>p < fcount s f. fpage t f p = view s f p"
proof -
  obtain t where t: "flush_loop [0..<poolSize s] s = (Inr (), t)" "bm_inv F t" "same_view F s t"
    "pins t = pins s" "\<forall>j \<in> set [0..<poolSize s]. isValid (frames t ! j) \<longrightarrow> \<not> isDirty (frames t ! j)"
    using flush_loop_ok [OF assms, of "[0..<poolSize s]"] by (auto simp: lessThan_atLeast0)
  have N: "poolSize t = poolSize s" using t(3) by (simp add: same_view_def bm_rest_def)
  have "fpage t f p = view s f p" if fp: "f \<in> F" "p < fcount s f" for f p
  proof -
    have "fpage t f p = view t f p"
    proof (cases "pageTable t (f, int p)")
      case (Some i)
      have i: "i < poolSize t" "isValid (frames t ! i)" "pid (frames t ! i) = (f, int p)"
        using pool_tableD [OF bm_invD(1) [OF t(2)] Some] by auto
      then have "\<not> isDirty (frames t ! i)" using t(5) N by simp
      with i bm_invD(3) [OF t(2)] have "fdata (frames t ! i) = fpage t f p"
        by (auto simp: cached_ok_def)
      with Some show ?thesis by (simp add: view_def)
    qed (simp add: view_def)
    then show ?thesis using t(3) fp by (simp add: same_view_def)
  qed
  with t show thesis by (intro that [of t]) (auto simp: flushAllPages_def)
qed

subsection \<open>The pool as the pages of files\<close>

text \<open>
  Between two visits fewer pages are pinned than the pool has frames; none is pinned unless a client
  leaked a pin. \<open>bm_keep\<close> is what a visit leaves alone. \<open>bm_pages\<close> are the pages of the files in use,
  with the bytes a client sees.
\<close>

definition bm_pages :: "int set \<Rightarrow> 'a bm_state_scheme \<Rightarrow> int \<Rightarrow> byte list list" where
  "bm_pages F s f = (if f \<in> F then map (view s f) [0..<fcount s f] else [])"

definition pinned_pages :: "'a bm_state_scheme \<Rightarrow> nat" where
  "pinned_pages s = card {k. pins s k \<noteq> 0}"

definition bm_idle :: "int set \<Rightarrow> 'a bm_state_scheme \<Rightarrow> bool" where
  "bm_idle F s \<longleftrightarrow> bm_inv F s \<and> pinned_pages s < poolSize s"

definition bm_keep :: "'a bm_state_scheme \<Rightarrow> _" where
  "bm_keep s = (bm_rest s, pins s)"

definition bm_held :: "int set \<Rightarrow> 'a bm_state_scheme \<Rightarrow> int \<Rightarrow> nat \<Rightarrow> nat \<Rightarrow> _ \<Rightarrow> bool" where
  "bm_held F t f p i r \<longleftrightarrow> bm_inv F t \<and> bm_rest t = fst r \<and>
     pins t = (snd r)((f, int p) := snd r (f, int p) + 1) \<and> 0 \<le> snd r (f, int p) \<and>
     card {k. snd r k \<noteq> 0} < poolSize t \<and> f \<in> F \<and> p < fcount t f \<and> pageTable t (f, int p) = Some i"

definition with_page :: "int \<Rightarrow> int \<Rightarrow> (byte list \<Rightarrow> 'b page_exit) \<Rightarrow> ('a bm_state_scheme, 'b) io" where
  "with_page = page_window fetchPage deref store markDirty unpinPage"

lemma length_bm_pages: "f \<in> F \<Longrightarrow> length (bm_pages F s f) = fcount s f"
  by (simp add: bm_pages_def)

lemma same_view_pages: "same_view F s t \<Longrightarrow> bm_pages F t = bm_pages F s"
  by (auto simp: same_view_def bm_pages_def fun_eq_iff)

lemma bm_keepD: "bm_keep t = bm_keep s \<Longrightarrow> bm_rest t = bm_rest s \<and> pins t = pins s"
  by (simp add: bm_keep_def)

lemma pinned_finite: "pool_ok s \<Longrightarrow> finite {k. pins s k \<noteq> 0}"
proof (rule finite_subset)
  assume P: "pool_ok s"
  show "{k. pins s k \<noteq> 0} \<subseteq> (\<lambda>i. pid (frames s ! i)) ` {..<poolSize s}"
  proof
    fix k assume "k \<in> {k. pins s k \<noteq> 0}"
    then obtain i where "pageTable s k = Some i" by (auto simp: pins_def split: option.splits)
    from pool_tableD [OF P this] show "k \<in> (\<lambda>i. pid (frames s ! i)) ` {..<poolSize s}" by auto
  qed
qed simp

lemma idle_evictable: "bm_idle F s \<Longrightarrow> \<exists>j < poolSize s. evictable s j"
proof (rule ccontr)
  assume i: "bm_idle F s" and no: "\<not> (\<exists>j < poolSize s. evictable s j)"
  have P: "pool_ok s" using i by (auto simp: bm_idle_def dest: bm_invD)
  have v: "isValid (frames s ! j)" "pinCount (frames s ! j) \<noteq> 0" if "j < poolSize s" for j
    using no that by (auto simp: evictable_def)
  have "inj_on (\<lambda>j. pid (frames s ! j)) {..<poolSize s}"
  proof (rule inj_onI)
    fix j l assume jl: "j \<in> {..<poolSize s}" "l \<in> {..<poolSize s}" "pid (frames s ! j) = pid (frames s ! l)"
    have "pageTable s (pid (frames s ! j)) = Some j" "pageTable s (pid (frames s ! l)) = Some l"
      using jl(1,2) v by (auto intro!: pool_frame [OF P])
    then show "j = l" unfolding jl(3) by simp
  qed
  then have "poolSize s = card ((\<lambda>j. pid (frames s ! j)) ` {..<poolSize s})"
    by (simp add: card_image)
  also have "\<dots> \<le> card {k. pins s k \<noteq> 0}"
  proof (intro card_mono pinned_finite [OF P] image_subsetI)
    fix j assume "j \<in> {..<poolSize s}"
    with pool_frame [OF P, of j] v [of j] show "pid (frames s ! j) \<in> {k. pins s k \<noteq> 0}"
      by (simp add: pins_def)
  qed
  finally show False using i by (simp add: bm_idle_def pinned_pages_def)
qed

lemma pins_nonneg: "pool_ok s \<Longrightarrow> 0 \<le> pins s k"
  using pool_tableD [of s k] pool_bytes [of s] by (auto simp: pins_def split: option.split)

lemma pool_fetch:
  assumes "bm_idle F s" "f \<in> F" "p < length (bm_pages F s f)"
  shows "\<exists>i t. fetchPage f (int p) s = (Inr i, t) \<and> bm_held F t f p i (bm_keep s) \<and>
    bm_pages F t = bm_pages F s \<and> deref i t = (Inr (bm_pages F s f ! p), t)"
proof -
  have inv: "bm_inv F s" and N: "pinned_pages s < poolSize s" and p: "p < fcount s f"
    using assms by (auto simp: bm_idle_def bm_pages_def)
  obtain i t where t: "fetchPage f (int p) s = (Inr i, t)" "bm_inv F t" "same_view F s t"
    "pins t = (pins s)((f, int p) := pins s (f, int p) + 1)"
    "pageTable t (f, int p) = Some i" "fdata (frames t ! i) = view s f p"
    using inv assms(2) p disjI2 [OF idle_evictable [OF assms(1)]] by (rule fetch_ok)
  moreover have "poolSize t = poolSize s" "bm_rest t = bm_rest s" "fcount t f = fcount s f"
    using t(3) assms(2) by (auto simp: same_view_def bm_rest_def)
  moreover have "bm_pages F t = bm_pages F s" using t(3) by (rule same_view_pages)
  moreover have "0 \<le> pins s (f, int p)" using pins_nonneg bm_invD(1) [OF inv] by blast
  ultimately show ?thesis
    using N assms(2) p
    by (intro exI [of _ i] exI [of _ t]) (simp add: bm_held_def bm_keep_def pinned_pages_def deref_def bm_pages_def)
qed

lemma pool_write:
  assumes h: "bm_held F t f p i r" and d: "length d = PAGE_SIZE"
  shows "\<exists>u. bindM (store i d) (\<lambda>_. markDirty f (int p)) t = (Inr (), u) \<and> bm_held F u f p i r \<and>
    bm_pages F u = (bm_pages F t)(f := (bm_pages F t f)[p := d])"
proof -
  let ?g = "\<lambda>f. f\<lparr>fdata := d, isDirty := True\<rparr>"
  have inv: "bm_inv F t" and k: "pageTable t (f, int p) = Some i" and f: "f \<in> F" "p < fcount t f"
    and pn: "pins t = (snd r)((f, int p) := snd r (f, int p) + 1)" "0 \<le> snd r (f, int p)"
      "card {k. snd r k \<noteq> 0} < poolSize t" "bm_rest t = fst r"
    using h by (auto simp: bm_held_def)
  have P: "pool_ok t" and len: "length (frames t) = poolSize t" using inv by (rule bm_invD)+
  have i: "i < poolSize t" "isValid (frames t ! i)" "pid (frames t ! i) = (f, int p)"
    using pool_tableD [OF P k] by auto
  have pre: "isValid (?g (frames t ! i))" "pid (?g (frames t ! i)) = (f, int p)"
    "length (fdata (?g (frames t ! i))) = PAGE_SIZE" "0 \<le> pinCount (?g (frames t ! i))"
    "isDirty (?g (frames t ! i)) \<or> (fdata (?g (frames t ! i)) = fdata (frames t ! i) \<and> \<not> isDirty (frames t ! i))"
    using i d pool_bytes [OF P i(1)] by auto
  note u = touch_frame_ok [where g = ?g, OF inv k pre]
  define u' where "u' = upd_frame i ?g t"
  have u': "bm_inv F u'" "bm_rest u' = bm_rest t" "pageTable u' = pageTable t" "fcount u' = fcount t"
    "\<And>q r. view u' q r = (if q = f \<and> r = p then d else view t q r)"
    using u(1-4,6) by (simp_all add: u'_def)
  have "pins t (f, int p) = pinCount (frames t ! i)" using k by (simp add: pins_def)
  then have "pins u' = pins t" by (auto simp: fun_eq_iff u(7) u'_def)
  moreover have "bindM (store i d) (\<lambda>_. markDirty f (int p)) t = (Inr (), u')"
    using k i(1) len by (simp add: store_def markDirty_def u'_def upd_frame_def comp_def)
  moreover have "bm_pages F u' = (bm_pages F t)(f := (bm_pages F t f)[p := d])"
    using f by (auto simp: fun_eq_iff bm_pages_def u' intro!: nth_equalityI simp: nth_list_update)
  moreover have "poolSize u' = poolSize t" by (simp add: u'_def)
  ultimately show ?thesis
    using u' pn f k by (intro exI [of _ u']) (simp add: bm_held_def)
qed

lemma pool_unpin:
  assumes h: "bm_held F t f p i r"
  shows "\<exists>u. unpinPage f (int p) t = (Inr (), u) \<and> bm_idle F u \<and> bm_pages F u = bm_pages F t \<and>
    bm_keep u = r"
proof -
  let ?g = "\<lambda>f. f\<lparr>pinCount := pinCount f - 1\<rparr>"
  have inv: "bm_inv F t" and k: "pageTable t (f, int p) = Some i"
    and pn: "pins t = (snd r)((f, int p) := snd r (f, int p) + 1)" "0 \<le> snd r (f, int p)"
      "card {k. snd r k \<noteq> 0} < poolSize t" "bm_rest t = fst r"
    using h by (auto simp: bm_held_def)
  have P: "pool_ok t" using inv by (rule bm_invD)
  have i: "i < poolSize t" "isValid (frames t ! i)" "pid (frames t ! i) = (f, int p)"
    using pool_tableD [OF P k] by auto
  have "pins t (f, int p) = pinCount (frames t ! i)" using k by (simp add: pins_def)
  with pn have c: "pinCount (frames t ! i) = snd r (f, int p) + 1" "0 < pinCount (frames t ! i)" by simp_all
  have pre: "isValid (?g (frames t ! i))" "pid (?g (frames t ! i)) = (f, int p)"
    "length (fdata (?g (frames t ! i))) = PAGE_SIZE" "0 \<le> pinCount (?g (frames t ! i))"
    "isDirty (?g (frames t ! i)) \<or>
      (fdata (?g (frames t ! i)) = fdata (frames t ! i) \<and> \<not> isDirty (frames t ! i))"
    using i c pool_bytes [OF P i(1)] by auto
  note u = touch_frame_ok [where g = ?g, OF inv k pre]
  have vk: "view t f p = fdata (frames t ! i)" using k by (simp add: view_def)
  define u' where "u' = upd_frame i ?g t"
  have u': "bm_inv F u'" "bm_rest u' = bm_rest t" "fcount u' = fcount t" "view u' = view t"
    using u(1,2,4,6) vk by (simp_all add: u'_def fun_eq_iff)
  have ps: "pins u' = snd r" using c pn by (auto simp: fun_eq_iff u(7) u'_def)
  moreover have "unpinPage f (int p) t = (Inr (), u')"
    using k c by (simp add: unpinPage_def u'_def)
  moreover have "bm_pages F u' = bm_pages F t" by (simp add: fun_eq_iff bm_pages_def u')
  moreover have "poolSize u' = poolSize t" by (simp add: u'_def)
  ultimately show ?thesis
    using u' pn ps by (intro exI [of _ u']) (auto simp: bm_idle_def pinned_pages_def bm_keep_def prod_eq_iff)
qed

lemma pool_count:
  "bm_idle F s \<Longrightarrow> f \<in> F \<Longrightarrow> getPageCount f s = (Inr (int (length (bm_pages F s f))), s)"
  by (simp add: length_bm_pages bm_idle_def bm_inv_def files_ok_def)

lemma pool_alloc:
  assumes idle: "bm_idle F s" and f: "f \<in> F" and b: "int (length (bm_pages F s f)) + 1 < 2 ^ 31"
  shows "\<exists>t. allocatePage f s = (Inr (int (length (bm_pages F s f))), t) \<and> bm_idle F t \<and>
    bm_pages F t = (bm_pages F s)(f := bm_pages F s f @ [zero_page]) \<and> bm_keep t = bm_keep s"
proof -
  have inv: "bm_inv F s" and FO: "files_ok F s" and P: "pool_ok s"
    using idle by (auto simp: bm_idle_def dest: bm_invD)
  have ok: "file_ok s f" and fl: "freeList (the (files s f)) = []"
    using FO f by (auto simp: files_ok_def)
  have b': "int (Suc (fcount s f)) < 2 ^ 31" using b f by (simp add: length_bm_pages)
  obtain t bs where w: "writePage f (int (fcount s f)) zero_page s = (Inr (), t)" and
    t: "t = s\<lparr>disk := (disk s)(file_path s f \<mapsto> bs)\<rparr>" and okt: "file_ok t f" and
    c: "fcount t f = Suc (fcount s f)" and
    pg: "\<forall>q < fcount t f. fpage t f q = (if q = fcount s f then zero_page else fpage s f q)"
    using writePage_ok [OF ok order_refl length_zero_page b'] by auto
  have other: "file_ok t g = file_ok s g \<and> fcount t g = fcount s g \<and> fpage t g q = fpage s g q"
    if "g \<in> F" "g \<noteq> f" for g q
    by (rule other_file_frame [OF t]) (use FO f that in \<open>auto simp: files_ok_def inj_on_def\<close>)
  have tf: "pageTable t = pageTable s" "frames t = frames s" "poolSize t = poolSize s"
    "bm_rest t = bm_rest s" "files t = files s" "file_path t = file_path s"
    by (simp_all add: t bm_rest_def fun_eq_iff)
  have grow: "fcount s g \<le> fcount t g" "q < fcount s g \<Longrightarrow> fpage t g q = fpage s g q" if "g \<in> F" for g q
    using other [OF that] c pg by (cases "g = f"; simp)+
  have "files_ok F t"
    using FO other okt by (auto simp: files_ok_def tf)
  moreover have "cached_ok F t"
    unfolding cached_ok_def tf
  proof (intro allI impI)
    fix j assume j: "j < poolSize s" "isValid (frames s ! j)"
    obtain g q where "pid (frames s ! j) = (g, int q)" "g \<in> F" "q < fcount s g"
      "\<not> isDirty (frames s ! j) \<longrightarrow> fdata (frames s ! j) = fpage s g q"
      using inv j by (rule cachedD)
    with grow(1) [of g] grow(2) [of g q] show "fst (pid (frames s ! j)) \<in> F \<and> 0 \<le> snd (pid (frames s ! j)) \<and>
      nat (snd (pid (frames s ! j))) < fcount t (fst (pid (frames s ! j))) \<and>
      (\<not> isDirty (frames s ! j) \<longrightarrow>
        fdata (frames s ! j) = fpage t (fst (pid (frames s ! j))) (nat (snd (pid (frames s ! j)))))"
      by simp
  qed
  moreover have "pool_ok t" using P by (simp add: pool_ok_def tf)
  moreover have ps: "pins t = pins s" by (simp add: fun_eq_iff pins_def tf split: option.split)
  ultimately have "bm_idle F t" using idle by (simp add: bm_idle_def pinned_pages_def bm_inv_def tf)
  moreover have "view t g q = view s g q" if "g \<in> F" "q < fcount s g" for g q
    using grow that by (simp add: view_def tf split: option.split)
  moreover have "view t f (fcount s f) = zero_page"
  proof -
    have "pageTable s (f, int (fcount s f)) = None"
    proof (rule ccontr)
      assume "pageTable s (f, int (fcount s f)) \<noteq> None"
      then obtain j where j: "pageTable s (f, int (fcount s f)) = Some j" by auto
      then have "j < poolSize s" "isValid (frames s ! j)" "pid (frames s ! j) = (f, int (fcount s f))"
        using pool_tableD [OF P] by auto
      with bm_invD(3) [OF inv] show False by (auto simp: cached_ok_def)
    qed
    with c pg show ?thesis by (simp add: view_def tf)
  qed
  ultimately have "bm_pages F t = (bm_pages F s)(f := bm_pages F s f @ [zero_page])"
    using other c f by (auto simp: fun_eq_iff bm_pages_def)
  moreover have "allocatePage f s = (Inr (int (fcount s f)), t)"
    using ok fl w by (auto elim!: file_okE simp: allocatePage_def getPageCount_ok [OF ok])
  ultimately show ?thesis
    using \<open>bm_idle F t\<close> tf(4) f ps by (intro exI [of _ t]) (simp add: length_bm_pages bm_keep_def)
qed

interpretation pool: paged_files F "bm_idle F" "bm_held F" "bm_pages F" bm_keep
    fetchPage deref store markDirty unpinPage getPageCount allocatePage for F
proof (unfold_locales, goal_cases)
  case (1 s f p) then show ?case by (rule pool_fetch)
next
  case (2 t f p i d) then show ?case by (rule pool_write)
next
  case (3 t f p i) then show ?case by (rule pool_unpin)
next
  case (4 s f) then show ?case by (rule pool_count)
next
  case (5 s f) then show ?case by (rule pool_alloc)
next
  case (6 s f p)
  then have "bm_inv F s" "p < fcount s f" "file_ok s f"
    by (auto simp: bm_idle_def bm_pages_def bm_inv_def files_ok_def)
  moreover have "length (view s f p) = PAGE_SIZE"
  proof (cases "pageTable s (f, int p)")
    case None
    with \<open>file_ok s f\<close> \<open>p < fcount s f\<close> show ?thesis by (simp add: view_def length_fpage)
  next
    case (Some i)
    have P: "pool_ok s" using \<open>bm_inv F s\<close> by (rule bm_invD)
    from pool_tableD [OF P Some] pool_bytes [OF P] Some show ?thesis by (auto simp: view_def)
  qed
  ultimately show ?case using 6(2) by (simp add: bm_pages_def)
qed

lemmas with_page_leave = pool.window_leave [folded with_page_def]
lemmas with_page_dirty = pool.window_dirty [folded with_page_def]
lemmas with_page_append = pool.append_dirty [folded with_page_def]
lemmas with_pages_leave = pool.loop_leave [folded with_page_def]
lemmas with_pages_dirty = pool.loop_dirty [folded with_page_def]
lemmas with_pages_collect = pool.collect_leave [folded with_page_def]

text \<open>A visit that throws after the fetch leaves the page pinned.\<close>

lemma with_page_abandon:
  assumes idle: "bm_idle F s" and f: "f \<in> F" and p: "p < length (bm_pages F s f)"
    and v: "visit (bm_pages F s f ! p) = Abandon e d"
  shows "\<exists>t. with_page f (int p) visit s = (Inl e, t) \<and>
    pins t = (pins s)((f, int p) := pins s (f, int p) + 1)"
proof -
  obtain j t where t: "fetchPage f (int p) s = (Inr j, t)" "bm_held F t f p j (bm_keep s)"
    "deref j t = (Inr (bm_pages F s f ! p), t)"
    using pool_fetch [OF idle f p] by auto
  define u where "u = upd_frame j (\<lambda>f. f\<lparr>fdata := d\<rparr>) t"
  have "with_page f (int p) visit s = (Inl e, u)"
    using t v by (simp add: with_page_def page_window_def store_def u_def)
  moreover have P: "pool_ok t" and pn: "pins t = (pins s)((f, int p) := pins s (f, int p) + 1)"
    and k: "pageTable t (f, int p) = Some j"
    using t(2) by (auto simp: bm_held_def bm_keep_def dest: bm_invD)
  have "pins u k = pins t k" for k
    using pool_tableD [OF P, of k] pool_tableD [OF P k] pool_len [OF P]
    by (auto simp: pins_def u_def nth_list_update split: option.split)
  then have "pins u = pins t" by (rule ext)
  ultimately show ?thesis using pn by auto
qed

subsection \<open>A new pool\<close>

lemma bm_init_fields:
  "disk (bm_init fm n g) = disk fm" "files (bm_init fm n g) = files fm"
  "poolSize (bm_init fm n g) = n" "frames (bm_init fm n g) = map (new_frame \<circ> g) [0..<n]"
  "pageTable (bm_init fm n g) = Map.empty"
  by (simp_all add: bm_init_def fm_state.defs bm_state.defs)

lemma bm_init_ok:
  assumes "files_ok F fm" "0 < n" "\<And>i. length (g i) = PAGE_SIZE"
  shows "bm_idle F (bm_init fm n g)"
    and "bm_pages F (bm_init fm n g) = (\<lambda>f. if f \<in> F then map (fpage fm f) [0..<fcount fm f] else [])"
proof -
  have c: "contents (bm_init fm n g) = contents fm"
    by (simp add: fun_eq_iff contents_def bm_init_fields)
  have p: "file_path (bm_init fm n g) = file_path fm"
    by (simp add: fun_eq_iff file_path_def bm_init_fields)
  have fp: "fcount (bm_init fm n g) = fcount fm" "fpage (bm_init fm n g) = fpage fm"
    by (simp_all add: fun_eq_iff fcount_def fpage_def c p)
  have "files_ok F (bm_init fm n g)"
    using assms(1) by (simp add: files_ok_def file_ok_def c p bm_init_fields)
  then show "bm_idle F (bm_init fm n g)"
    using assms(2,3)
    by (auto simp: bm_idle_def pinned_pages_def bm_inv_def pool_ok_def cached_ok_def bm_init_fields new_frame_def
        pins_def fun_eq_iff)
  show "bm_pages F (bm_init fm n g) = (\<lambda>f. if f \<in> F then map (fpage fm f) [0..<fcount fm f] else [])"
    by (simp add: fun_eq_iff bm_pages_def view_def bm_init_fields fp)
qed

text \<open>A file of two zero pages, and a pool of one frame over it, for the witnesses.\<close>

definition ex_fm :: fm_state where
  "ex_fm = \<lparr>bufferHits = 0, bufferMisses = 0, queryCount = 0, totalQueryLatencyUs = 0, txCommitted = 0,
     txAborted = 0, disk = [''t.dat'' \<mapsto> zero_page @ zero_page], denied = (\<lambda>_. False),
     files = [1 \<mapsto> \<lparr>fpath = ''t.dat'', freeList = [], failbit = False\<rparr>], nextFileId = 2\<rparr>"

definition ex_bm :: bm_state where
  "ex_bm = bm_init ex_fm 1 (\<lambda>_. zero_page)"

lemma ex_fm_ok: "files_ok {1} ex_fm" "fcount ex_fm 1 = 2" "file_ok ex_fm 1"
  by (simp_all add: files_ok_def ex_fm_def file_ok_def contents_def fcount_def file_path_def)

lemma ex_bm_ok: "bm_idle {1} ex_bm" "bm_inv {1} ex_bm" "fcount ex_bm 1 = 2" "pageTable ex_bm = Map.empty"
  "evictable ex_bm 0" "poolSize ex_bm = 1"
proof -
  show i: "bm_idle {1} ex_bm" unfolding ex_bm_def by (rule bm_init_ok) (simp_all add: ex_fm_ok)
  then show "bm_inv {1} ex_bm" by (simp add: bm_idle_def)
  have "length (bm_pages {1} ex_bm 1) = 2"
    unfolding ex_bm_def by (subst bm_init_ok(2)) (simp_all add: ex_fm_ok)
  then show "fcount ex_bm 1 = 2" by (simp add: length_bm_pages)
  show "pageTable ex_bm = Map.empty" "evictable ex_bm 0" "poolSize ex_bm = 1"
    by (simp_all add: ex_bm_def bm_init_fields evictable_def new_frame_def)
qed

subsection \<open>Properties\<close>

text \<open>
  \<open>selectVictimFrame\<close> throws exactly when every frame holds a pinned page, and otherwise returns a
  frame of the pool that is free or holds an unpinned page, changing nothing but the clock hand.
\<close>

theorem selectVictim_spec:
  "(case selectVictimFrame s of
      (Inl e, _) \<Rightarrow> e = Runtime_Error ''All buffer frames are pinned; no victim available'' \<and>
        (\<forall>i < poolSize s. isValid (frames s ! i) \<and> pinCount (frames s ! i) \<noteq> 0)
    | (Inr h, s') \<Rightarrow> h < poolSize s \<and> (\<not> isValid (frames s ! h) \<or> pinCount (frames s ! h) = 0) \<and>
        s' = s\<lparr>clockHand := h\<rparr>)"
proof (cases "\<exists>j < poolSize s. evictable s j")
  case True
  then obtain j where "j < poolSize s" "evictable s j" by auto
  then obtain h where "selectVictimFrame s = (Inr h, s\<lparr>clockHand := h\<rparr>)" "h < poolSize s" "evictable s h"
    by (rule selectVictim_ok)
  then show ?thesis by (simp add: evictable_def)
next
  case False
  have "\<exists>u. select_loop n s = (Inl (Runtime_Error ''All buffer frames are pinned; no victim available''), u)"
    if "\<not> (\<exists>j < poolSize s. evictable s j)" "0 < poolSize s \<or> n = 0" for n and s :: "'a bm_state_scheme"
    using that
  proof (induction n arbitrary: s)
    case (Suc n)
    let ?h = "(clockHand s + 1) mod poolSize s"
    from Suc.prems have "\<not> evictable s ?h" by simp
    moreover have "\<exists>u. select_loop n (s\<lparr>clockHand := ?h\<rparr>) =
        (Inl (Runtime_Error ''All buffer frames are pinned; no victim available''), u)"
      using Suc.prems by (intro Suc.IH) simp_all
    ultimately show ?case by (simp add: Let_def evictable_def)
  qed simp
  then obtain u where "selectVictimFrame s =
      (Inl (Runtime_Error ''All buffer frames are pinned; no victim available''), u)"
    using False unfolding selectVictimFrame_def by (metis gr0I)
  then show ?thesis using False by (simp add: evictable_def)
qed

theorem selectVictim_spec_witness:
  "selectVictimFrame ex_bm = (Inr 0, ex_bm\<lparr>clockHand := 0\<rparr>)"
proof -
  have "evictable ex_bm 0" by (simp add: ex_bm_ok)
  then show ?thesis
    using selectVictim_spec [of ex_bm]
    by (auto simp: ex_bm_ok evictable_def split: prod.splits sum.splits)
qed

text \<open>
  \<open>fetchPage\<close> of a page of an open file, with the page cached or some frame evictable: the pointer
  it returns reads the page's current bytes (a dirty page that was evicted meanwhile included), the
  page is pinned once more, and no page of any file changes for the clients.
\<close>

theorem fetchPage_transparent:
  assumes "bm_inv F s" "f \<in> F" "p < fcount s f"
    and "pageTable s (f, int p) \<noteq> None \<or> (\<exists>j < poolSize s. evictable s j)"
  shows "\<exists>i t. fetchPage f (int p) s = (Inr i, t) \<and> deref i t = (Inr (view s f p), t) \<and> bm_inv F t \<and>
    pins t = (pins s)((f, int p) := pins s (f, int p) + 1) \<and>
    (\<forall>g \<in> F. fcount t g = fcount s g \<and> (\<forall>q < fcount s g. view t g q = view s g q))"
proof -
  obtain i t where "fetchPage f (int p) s = (Inr i, t)" "bm_inv F t" "same_view F s t"
    "pins t = (pins s)((f, int p) := pins s (f, int p) + 1)"
    "pageTable t (f, int p) = Some i" "fdata (frames t ! i) = view s f p"
    using assms by (rule fetch_ok)
  then show ?thesis
    by (intro exI [of _ i] exI [of _ t]) (simp add: deref_def same_view_def)
qed

theorem fetchPage_transparent_witness:
  "\<exists>i t. fetchPage 1 (int 1) ex_bm = (Inr i, t) \<and> deref i t = (Inr (view ex_bm 1 1), t)"
  using fetchPage_transparent [OF ex_bm_ok(2), of 1 1] ex_bm_ok by auto

text \<open>
  A client of the pool as a list of visits, and what the visits do on pages that are plain byte lists.
\<close>

fun run_visits :: "(int \<times> nat \<times> (byte list \<Rightarrow> 'b page_exit)) list \<Rightarrow> ('a bm_state_scheme, 'b list) io" where
  "run_visits [] = retM []"
| "run_visits ((f, p, visit) # vs) =
     bindM (with_page f (int p) visit) (\<lambda>x. bindM (run_visits vs) (\<lambda>xs. retM (x # xs)))"

fun spec_visits :: "(int \<times> nat \<times> (byte list \<Rightarrow> 'b page_exit)) list \<Rightarrow> (int \<Rightarrow> byte list list) \<Rightarrow>
    'b list \<times> (int \<Rightarrow> byte list list)" where
  "spec_visits [] P = ([], P)"
| "spec_visits ((f, p, visit) # vs) P = (case visit (P f ! p) of
     Leave x \<Rightarrow> (case spec_visits vs P of (xs, P') \<Rightarrow> (x # xs, P'))
   | Dirty x d \<Rightarrow> (case spec_visits vs (P(f := (P f)[p := d])) of (xs, P') \<Rightarrow> (x # xs, P'))
   | Abandon e d \<Rightarrow> ([], P))"

definition visit_ok :: "(byte list \<Rightarrow> 'b page_exit) \<Rightarrow> bool" where
  "visit_ok visit \<longleftrightarrow> (\<forall>b. length b = PAGE_SIZE \<longrightarrow>
     (case visit b of Leave x \<Rightarrow> True | Dirty x d \<Rightarrow> length d = PAGE_SIZE | Abandon e d \<Rightarrow> False))"

text \<open>
  C10: The pool is transparent: any sequence of page visits gives, for a pool of any size from one
  frame up and whatever it evicts in between, the results and the final pages that the same visits
  give on plain arrays of pages.
\<close>

theorem pool_transparent:
  assumes "bm_idle F s"
    and "\<forall>(f, p, visit) \<in> set vs. f \<in> F \<and> p < length (bm_pages F s f) \<and> visit_ok visit"
  shows "\<exists>t. run_visits vs s = (Inr (fst (spec_visits vs (bm_pages F s))), t) \<and> bm_idle F t \<and>
    bm_pages F t = snd (spec_visits vs (bm_pages F s))"
  using assms
proof (induction vs arbitrary: s)
  case (Cons v vs)
  obtain f p visit where v: "v = (f, p, visit)" by (cases v) auto
  have fp: "f \<in> F" "p < length (bm_pages F s f)" "visit_ok visit" using Cons.prems(2) v by auto
  have len: "length (bm_pages F s f ! p) = PAGE_SIZE"
    using pool.page_length [OF Cons.prems(1) fp(1,2)] .
  show ?case
  proof (cases "visit (bm_pages F s f ! p)")
    case (Leave x)
    obtain t where t: "with_page f (int p) visit s = (Inr x, t)" "bm_idle F t" "bm_pages F t = bm_pages F s"
      using with_page_leave [where visit = visit, OF Cons.prems(1) fp(1,2) Leave] by auto
    with Cons.IH [of t] Cons.prems(2) obtain u where
      "run_visits vs t = (Inr (fst (spec_visits vs (bm_pages F s))), u)" "bm_idle F u"
      "bm_pages F u = snd (spec_visits vs (bm_pages F s))" by auto
    with t Leave v show ?thesis by (simp add: case_prod_beta)
  next
    case (Dirty x d)
    have d: "length d = PAGE_SIZE" using fp(3) len Dirty by (auto simp: visit_ok_def)
    obtain t where t: "with_page f (int p) visit s = (Inr x, t)" "bm_idle F t"
      "bm_pages F t = (bm_pages F s)(f := (bm_pages F s f)[p := d])"
      using with_page_dirty [where visit = visit, OF Cons.prems(1) fp(1,2) Dirty d] by auto
    have "length (bm_pages F t g) = length (bm_pages F s g)" for g by (simp add: t(3))
    then have "\<forall>(f, p, visit) \<in> set vs. f \<in> F \<and> p < length (bm_pages F t f) \<and> visit_ok visit"
      using Cons.prems(2) by auto
    from Cons.IH [OF t(2) this] obtain u where
      "run_visits vs t = (Inr (fst (spec_visits vs ((bm_pages F s)(f := (bm_pages F s f)[p := d])))), u)"
      "bm_idle F u" "bm_pages F u = snd (spec_visits vs ((bm_pages F s)(f := (bm_pages F s f)[p := d])))"
      unfolding t(3) by blast
    with t(1) Dirty v show ?thesis by (simp add: case_prod_beta del: fun_upd_apply)
  next
    case (Abandon e d)
    with fp(3) len show ?thesis by (auto simp: visit_ok_def)
  qed
qed simp

theorem pool_transparent_witness:
  "\<exists>t d. run_visits [(1, 0, \<lambda>_. Dirty [] (replicate PAGE_SIZE (CHR ''x''))), (1, 1, \<lambda>b. Leave b),
      (1, 0, \<lambda>b. Leave b)] ex_bm = (Inr [[], d, replicate PAGE_SIZE (CHR ''x'')], t)"
proof -
  let ?vs = "[(1, 0, \<lambda>_. Dirty [] (replicate PAGE_SIZE (CHR ''x''))), (1, 1, \<lambda>b. Leave b), (1, 0, \<lambda>b. Leave b)]
    :: (int \<times> nat \<times> (byte list \<Rightarrow> byte list page_exit)) list"
  have "length (bm_pages {1} ex_bm 1) = 2" by (simp add: length_bm_pages ex_bm_ok)
  then have "\<exists>t. run_visits ?vs ex_bm = (Inr (fst (spec_visits ?vs (bm_pages {1} ex_bm))), t)"
    using pool_transparent [OF ex_bm_ok(1), of ?vs] by (auto simp: visit_ok_def)
  with \<open>length _ = 2\<close> show ?thesis by auto
qed

text \<open>
  C33: After \<open>flushAllPages\<close> every page of the files is on the disk: reading the page from the file gives
  the bytes the clients saw before the call, whether the page was cached and dirty or not; pins and
  views are unchanged.
\<close>

theorem flushAllPages_durable:
  assumes "bm_inv F s"
  shows "\<exists>t. flushAllPages s = (Inr (), t) \<and> bm_inv F t \<and> pins t = pins s \<and>
    (\<forall>f \<in> F. \<forall>p < fcount s f. readPage f (int p) t = (Inr (view s f p), t) \<and> view t f p = view s f p)"
proof -
  obtain t where t: "flushAllPages s = (Inr (), t)" "bm_inv F t" "same_view F s t" "pins t = pins s"
    "\<forall>f \<in> F. \<forall>p < fcount s f. fpage t f p = view s f p"
    using assms by (rule flushAll_ok)
  have "file_ok t f" "fcount t f = fcount s f" if "f \<in> F" for f
    using t(2,3) that by (auto simp: bm_inv_def files_ok_def same_view_def)
  with t show ?thesis by (intro exI [of _ t]) (auto simp: readPage_ok same_view_def)
qed

theorem flushAllPages_durable_witness:
  "\<exists>t. flushAllPages ex_bm = (Inr (), t) \<and>
     (\<forall>p < 2. readPage 1 (int p) t = (Inr (view ex_bm 1 p), t))"
  using flushAllPages_durable [OF ex_bm_ok(2)] ex_bm_ok(3) by auto

text \<open>
  A fetch that fails leaves the pool inconsistent. When a page of a handle that is not open is
  fetched and the victim holds a clean page, the victim's page leaves the page table before the read
  throws, but its frame stays valid, so the table and the frames no longer agree.
\<close>

theorem failed_fetch_breaks_pool:
  assumes "pool_ok s" "files s f = None" "pageTable s (f, p) = None"
    and "selectVictimFrame s = (Inr h, s\<lparr>clockHand := h\<rparr>)" "h < poolSize s"
    and "isValid (frames s ! h)" "\<not> isDirty (frames s ! h)"
  shows "\<exists>t. fetchPage f p s = (Inl (Runtime_Error ''Invalid fileId''), t) \<and>
    pageTable t (pid (frames s ! h)) = None \<and> isValid (frames t ! h) \<and> \<not> pool_ok t"
proof -
  let ?t = "s\<lparr>clockHand := h, pageTable := (pageTable s)(pid (frames s ! h) := None)\<rparr>"
  have "evict_frame h (s\<lparr>clockHand := h\<rparr>) = (Inr (), ?t)"
    using assms(6,7) by (simp add: evict_frame_def Let_def)
  moreover have "readPage f p ?t = (Inl (Runtime_Error ''Invalid fileId''), ?t)"
    using assms(2) by (simp add: readPage_def)
  ultimately have "fetchPage f p s = (Inl (Runtime_Error ''Invalid fileId''), ?t)"
    using assms(3,4) by (simp add: fetchPage_def)
  moreover have "\<not> pool_ok ?t"
    using pool_frame [of ?t h] assms(5,6) by auto
  ultimately show ?thesis using assms(6) by (intro exI [of _ ?t]) simp
qed

theorem failed_fetch_breaks_pool_witness:
  "\<exists>(s :: bm_state) t. pool_ok s \<and> fetchPage 7 0 s = (Inl (Runtime_Error ''Invalid fileId''), t) \<and> \<not> pool_ok t"
proof -
  define s where "s = ex_bm\<lparr>frames := [\<lparr>isValid = True, isDirty = False, pinCount = 0, pid = (1, 0),
    fdata = zero_page\<rparr>], pageTable := [(1, 0) \<mapsto> 0]\<rparr>"
  have "pool_ok s"
    by (rule pool_okI [of _ 1]) (auto simp: s_def ex_bm_ok)
  moreover have "files s 7 = None" by (simp add: s_def ex_bm_def bm_init_fields ex_fm_def)
  moreover have "selectVictimFrame s = (Inr 0, s\<lparr>clockHand := 0\<rparr>)"
    by (simp add: selectVictimFrame_def s_def ex_bm_ok Let_def)
  ultimately show ?thesis
    using failed_fetch_breaks_pool [of s 7 0 0] by (auto simp: s_def ex_bm_ok)
qed

end
