(* ===== verification/RecordFormat.thy ===== *)
theory RecordFormat
  imports Text
begin

section \<open>Schemas and records\<close>

text \<open>
  \<open>schema/Schema\<close> and \<open>record/Record\<close>: columns, field values and the fixed-width record format
  (4-byte little-endian integers, zero-padded strings). \<open>std::size_t\<close> values are naturals.
\<close>

subsection \<open>Schemas\<close>

datatype DataType = INT_T | STRING_T

record Column =
  cname :: string
  ctype :: DataType
  clength :: nat

record Schema =
  scolumns :: "Column list"
  srecordSize :: nat

fun sum_columns :: "Column list \<Rightarrow> nat \<Rightarrow> nat res" where
  "sum_columns [] n = Inr n"
| "sum_columns (col # cols) n = (case ctype col of
     INT_T \<Rightarrow> sum_columns cols (n + 4)
   | STRING_T \<Rightarrow>
       if clength col = 0 then Inl (Runtime_Error ''STRING column must have positive length'')
       else sum_columns cols (n + clength col))"

definition new_Schema :: "Column list \<Rightarrow> Schema res" where
  "new_Schema cols = bindE (sum_columns cols 0) (\<lambda>n. Inr \<lparr>scolumns = cols, srecordSize = n\<rparr>)"

definition getRecordSize :: "Schema \<Rightarrow> nat" where
  "getRecordSize schema = srecordSize schema"

definition numColumns :: "Schema \<Rightarrow> nat" where
  "numColumns schema = length (scolumns schema)"

definition getColumn :: "Schema \<Rightarrow> nat \<Rightarrow> Column res" where
  "getColumn schema i = (if i < length (scolumns schema) then Inr (scolumns schema ! i)
                         else Inl (Out_Of_Range ''vector::_M_range_check''))"

text \<open>The width of a column and the well-formed schemas, those the constructor returns.\<close>

definition width :: "Column \<Rightarrow> nat" where
  "width c = (case ctype c of INT_T \<Rightarrow> 4 | STRING_T \<Rightarrow> clength c)"

definition schema_ok :: "Schema \<Rightarrow> bool" where
  "schema_ok schema \<longleftrightarrow> srecordSize schema = sum_list (map width (scolumns schema)) \<and>
     (\<forall>c \<in> set (scolumns schema). 0 < width c)"

lemma sum_columns_Inr:
  "sum_columns cols n = Inr m \<longleftrightarrow> m = n + sum_list (map width cols) \<and> (\<forall>c \<in> set cols. 0 < width c)"
  by (induction cols arbitrary: n) (auto simp: width_def split: DataType.splits)

lemma new_Schema_ok: "new_Schema cols = Inr schema \<longleftrightarrow> scolumns schema = cols \<and> schema_ok schema"
  by (cases schema) (auto simp: new_Schema_def bindE_eq_Inr sum_columns_Inr schema_ok_def)

subsection \<open>Integers as bytes\<close>

fun nat_bytes :: "nat \<Rightarrow> nat \<Rightarrow> byte list" where
  "nat_bytes 0 n = []"
| "nat_bytes (Suc k) n = char_of n # nat_bytes k (n div 256)"

fun bytes_nat :: "byte list \<Rightarrow> nat" where
  "bytes_nat [] = 0"
| "bytes_nat (b # bs) = of_char b + 256 * bytes_nat bs"

definition int32_bytes :: "int32 \<Rightarrow> byte list" where
  "int32_bytes v = nat_bytes 4 (unat v)"

definition bytes_int32 :: "byte list \<Rightarrow> int32" where
  "bytes_int32 bs = word_of_nat (bytes_nat bs)"

lemma length_nat_bytes [simp]: "length (nat_bytes k n) = k"
  by (induction k arbitrary: n) simp_all

lemma length_int32_bytes [simp, byte_simps]: "length (int32_bytes v) = 4"
  by (simp add: int32_bytes_def)

lemma bytes_nat_bytes: "bytes_nat (nat_bytes k n) = n mod 256 ^ k"
proof (induction k arbitrary: n)
  case (Suc k)
  have "n mod (256 * 256 ^ k) = 256 * (n div 256 mod 256 ^ k) + n mod 256"
    by (rule mod_mult2_eq)
  with Suc show ?case by (simp add: of_char_of)
qed simp

lemma bytes_int32_bytes [simp, byte_simps]: "bytes_int32 (int32_bytes v) = v"
proof -
  have "unat v mod 256 ^ 4 = unat v"
    using unsigned_less [of v] by (intro mod_less) simp
  then show ?thesis by (simp add: bytes_int32_def int32_bytes_def bytes_nat_bytes)
qed

subsection \<open>Records\<close>

datatype FieldValue = FInt int32 | FStr string

text \<open>\<open>values[i]\<close>, unchecked.\<close>

definition field_at :: "FieldValue list \<Rightarrow> int \<Rightarrow> FieldValue res" where
  "field_at vs i = (if 0 \<le> i \<and> i < int (length vs) then Inr (vs ! nat i)
                    else Inl (Undefined_Behaviour ''vector index''))"

record Record =
  rschema :: Schema
  rvalues :: "FieldValue list"

text \<open>The constructor without values: a default variant is the integer 0.\<close>

definition empty_Record :: "Schema \<Rightarrow> Record" where
  "empty_Record schema = \<lparr>rschema = schema, rvalues = replicate (numColumns schema) (FInt 0)\<rparr>"

fun check_values :: "Column list \<Rightarrow> FieldValue list \<Rightarrow> unit res" where
  "check_values (col # cols) (v # vs) = (case ctype col of
     INT_T \<Rightarrow> (case v of
         FInt _ \<Rightarrow> check_values cols vs
       | FStr _ \<Rightarrow> Inl (Runtime_Error ''Type mismatch: expected INT''))
   | STRING_T \<Rightarrow> (case v of
         FInt _ \<Rightarrow> Inl (Runtime_Error ''Type mismatch: expected STRING'')
       | FStr s \<Rightarrow>
           if length s > clength col
           then Inl (Runtime_Error ''STRING value exceeds defined column length'')
           else check_values cols vs))"
| "check_values _ _ = Inr ()"

definition new_Record :: "Schema \<Rightarrow> FieldValue list \<Rightarrow> Record res" where
  "new_Record schema values =
     (if length values \<noteq> numColumns schema
      then Inl (Runtime_Error ''Value count does not match schema column count'')
      else bindE (check_values (scolumns schema) values) (\<lambda>_. Inr \<lparr>rschema = schema, rvalues = values\<rparr>))"

definition getValues :: "Record \<Rightarrow> FieldValue list" where
  "getValues r = rvalues r"

text \<open>
  \<open>serialize\<close>: the loop over the values, with \<open>std::get\<close> on the variant and \<open>at\<close> on the columns. A
  string longer than its column would make the length of \<open>memset\<close> wrap.
\<close>

fun put_fields :: "Column list \<Rightarrow> FieldValue list \<Rightarrow> nat \<Rightarrow> byte list \<Rightarrow> byte list res" where
  "put_fields cols [] offset buf = Inr buf"
| "put_fields [] (v # vs) offset buf = Inl (Out_Of_Range ''vector::_M_range_check'')"
| "put_fields (col # cols) (v # vs) offset buf = (case ctype col of
     INT_T \<Rightarrow> (case v of
         FInt x \<Rightarrow> put_fields cols vs (offset + 4) (overwrite offset (int32_bytes x) buf)
       | FStr _ \<Rightarrow> Inl Bad_Variant_Access)
   | STRING_T \<Rightarrow> (case v of
         FInt _ \<Rightarrow> Inl Bad_Variant_Access
       | FStr s \<Rightarrow>
           if length s > clength col then Inl (Undefined_Behaviour ''memset length'')
           else put_fields cols vs (offset + clength col)
                  (overwrite (offset + length s) (replicate (clength col - length s) zero_byte)
                     (overwrite offset s buf))))"

definition serialize :: "Record \<Rightarrow> byte list res" where
  "serialize r = put_fields (scolumns (rschema r)) (rvalues r) 0
                   (replicate (getRecordSize (rschema r)) zero_byte)"

text \<open>A read of bytes at an offset, undefined past the end of the buffer.\<close>

definition read_at :: "nat \<Rightarrow> nat \<Rightarrow> byte list \<Rightarrow> byte list res" where
  "read_at offset n buf = (if offset + n \<le> length buf then Inr (take n (drop offset buf))
                           else Inl (Undefined_Behaviour ''read past the buffer''))"

fun get_fields :: "Column list \<Rightarrow> nat \<Rightarrow> byte list \<Rightarrow> FieldValue list res" where
  "get_fields [] offset buf = Inr []"
| "get_fields (col # cols) offset buf = (case ctype col of
     INT_T \<Rightarrow>
       bindE (read_at offset 4 buf) (\<lambda>bs.
       bindE (get_fields cols (offset + 4) buf) (\<lambda>vs. Inr (FInt (bytes_int32 bs) # vs)))
   | STRING_T \<Rightarrow>
       bindE (read_at offset (clength col) buf) (\<lambda>bs.
       bindE (get_fields cols (offset + clength col) buf) (\<lambda>vs.
         Inr (FStr (takeWhile (\<lambda>c. c \<noteq> zero_byte) bs) # vs))))"

definition deserialize :: "Schema \<Rightarrow> byte list \<Rightarrow> Record res" where
  "deserialize schema buffer = bindE (get_fields (scolumns schema) 0 buffer) (new_Record schema)"

subsection \<open>What a record holds\<close>

text \<open>
  The values a column accepts, the bytes of a field, and the value that a field of these bytes has:
  a string is cut at its first zero byte.
\<close>

fun fits :: "Column \<Rightarrow> FieldValue \<Rightarrow> bool" where
  "fits c (FInt x) = (ctype c = INT_T)"
| "fits c (FStr s) = (ctype c = STRING_T \<and> length s \<le> clength c)"

fun field_bytes :: "Column \<Rightarrow> FieldValue \<Rightarrow> byte list" where
  "field_bytes c (FInt x) = int32_bytes x"
| "field_bytes c (FStr s) = s @ replicate (clength c - length s) zero_byte"

fun stored_value :: "FieldValue \<Rightarrow> FieldValue" where
  "stored_value (FInt x) = FInt x"
| "stored_value (FStr s) = FStr (takeWhile (\<lambda>c. c \<noteq> zero_byte) s)"

definition row_ok :: "Schema \<Rightarrow> FieldValue list \<Rightarrow> bool" where
  "row_ok schema vs \<longleftrightarrow> list_all2 fits (scolumns schema) vs"

definition row_bytes :: "Schema \<Rightarrow> FieldValue list \<Rightarrow> byte list" where
  "row_bytes schema vs = concat (map2 field_bytes (scolumns schema) vs)"

lemma length_field_bytes: "fits c v \<Longrightarrow> length (field_bytes c v) = width c"
  by (cases v) (auto simp: width_def)

lemma length_fields:
  "list_all2 fits cs vs \<Longrightarrow> length (concat (map2 field_bytes cs vs)) = sum_list (map width cs)"
  by (induction rule: list_all2_induct) (simp_all add: length_field_bytes)

lemma length_row_bytes: "schema_ok schema \<Longrightarrow> row_ok schema vs \<Longrightarrow>
    length (row_bytes schema vs) = srecordSize schema"
  by (simp add: row_bytes_def row_ok_def length_fields schema_ok_def)

lemma check_values_ok:
  "length cs = length vs \<Longrightarrow> check_values cs vs = Inr () \<longleftrightarrow> list_all2 fits cs vs"
  by (induction cs vs rule: list_induct2) (auto split: DataType.splits FieldValue.splits)

lemma new_Record_ok:
  "new_Record schema vs = Inr r \<longleftrightarrow> row_ok schema vs \<and> r = \<lparr>rschema = schema, rvalues = vs\<rparr>"
proof (cases "length vs = numColumns schema")
  case True
  then show ?thesis
    using check_values_ok [of "scolumns schema" vs]
    by (auto simp: new_Record_def bindE_eq_Inr numColumns_def row_ok_def)
next
  case False
  then show ?thesis by (auto simp: new_Record_def numColumns_def row_ok_def dest: list_all2_lengthD)
qed

lemma overwrite_append:
  "off + length a + length b \<le> length buf \<Longrightarrow>
     overwrite (off + length a) b (overwrite off a buf) = overwrite off (a @ b) buf"
  by (cases "length buf = off") (auto simp: overwrite_def min_def add.commute add.left_commute)

lemma put_fields_ok:
  "list_all2 fits cs vs \<Longrightarrow> off + sum_list (map width cs) \<le> length buf \<Longrightarrow>
     put_fields cs vs off buf = Inr (overwrite off (concat (map2 field_bytes cs vs)) buf)"
proof (induction arbitrary: off buf rule: list_all2_induct)
  case (Cons c cs v vs)
  let ?b = "field_bytes c v"
  have len: "length ?b = width c" using Cons.hyps(1) by (rule length_field_bytes)
  have step: "put_fields (c # cs) (v # vs) off buf = put_fields cs vs (off + width c) (overwrite off ?b buf)"
    using Cons.hyps(1) Cons.prems overwrite_append [of off _ _ buf]
    by (cases v) (auto simp: width_def)
  have "put_fields cs vs (off + width c) (overwrite off ?b buf)
      = Inr (overwrite (off + width c) (concat (map2 field_bytes cs vs)) (overwrite off ?b buf))"
    using Cons.prems len by (intro Cons.IH) simp
  then show ?case
    using step Cons.prems len overwrite_append [of off ?b "concat (map2 field_bytes cs vs)" buf]
      length_fields [OF Cons.hyps(2)] by simp
qed simp

lemma serialize_ok:
  assumes "schema_ok schema" "row_ok schema vs"
  shows "serialize \<lparr>rschema = schema, rvalues = vs\<rparr> = Inr (row_bytes schema vs)"
proof -
  have "overwrite 0 (row_bytes schema vs) (replicate (srecordSize schema) zero_byte) = row_bytes schema vs"
    using length_row_bytes [OF assms] by (simp add: overwrite_def)
  then show ?thesis
    using assms put_fields_ok [of "scolumns schema" vs 0 "replicate (srecordSize schema) zero_byte"]
    by (simp add: serialize_def getRecordSize_def row_ok_def row_bytes_def schema_ok_def)
qed

lemma takeWhile_padded:
  "takeWhile (\<lambda>c. c \<noteq> z) (s @ replicate n z) = takeWhile (\<lambda>c. c \<noteq> z) s"
  by (induction s) (auto simp: takeWhile_eq_Nil_iff split: if_splits)

lemma get_fields_ok:
  "list_all2 fits cs vs \<Longrightarrow>
     get_fields cs (length pre) (pre @ concat (map2 field_bytes cs vs) @ post) = Inr (map stored_value vs)"
proof (induction arbitrary: pre rule: list_all2_induct)
  case (Cons c cs v vs)
  from Cons.IH [of "pre @ field_bytes c v"] Cons.hyps(1) show ?case
    by (cases v) (auto simp: read_at_def takeWhile_padded)
qed simp

lemma fits_stored: "fits c v \<Longrightarrow> fits c (stored_value v)"
  by (cases v) (auto intro: order_trans [OF length_takeWhile_le])

lemma row_ok_stored: "row_ok schema vs \<Longrightarrow> row_ok schema (map stored_value vs)"
  by (auto simp: row_ok_def list_all2_conv_all_nth fits_stored)

lemma deserialize_row:
  "row_ok schema vs \<Longrightarrow>
     deserialize schema (row_bytes schema vs @ rest) = Inr \<lparr>rschema = schema, rvalues = map stored_value vs\<rparr>"
  using get_fields_ok [of "scolumns schema" vs "[]" rest] row_ok_stored [of schema vs]
  by (simp add: deserialize_def row_ok_def row_bytes_def new_Record_ok)

lemma stored_id: "(\<forall>s. FStr s \<in> set vs \<longrightarrow> zero_byte \<notin> set s) \<Longrightarrow> map stored_value vs = vs"
proof (induction vs)
  case (Cons v vs)
  then have "stored_value v = v" by (cases v) (auto simp: takeWhile_eq_all_conv)
  with Cons show ?case by auto
qed simp

subsection \<open>An example schema\<close>

definition ex_cols :: "Column list" where
  "ex_cols = [\<lparr>cname = ''id'', ctype = INT_T, clength = 0\<rparr>, \<lparr>cname = ''name'', ctype = STRING_T, clength = 5\<rparr>]"

definition ex_schema :: Schema where
  "ex_schema = \<lparr>scolumns = ex_cols, srecordSize = 9\<rparr>"

lemma ex_schema_ok: "new_Schema ex_cols = Inr ex_schema" "schema_ok ex_schema"
  "row_ok ex_schema [FInt 7, FStr ''abc'']"
  by (simp_all add: new_Schema_ok ex_schema_def schema_ok_def ex_cols_def width_def row_ok_def)

subsection \<open>Properties\<close>

text \<open>
  The record constructor accepts exactly the rows that have one value per column, integers for
  INT columns and strings no longer than the column for STRING columns.
\<close>

theorem new_Record_accepts:
  "(\<exists>r. new_Record schema vs = Inr r) \<longleftrightarrow>
     length vs = length (scolumns schema) \<and>
     (\<forall>i < length vs. case vs ! i of
        FInt x \<Rightarrow> ctype (scolumns schema ! i) = INT_T
      | FStr s \<Rightarrow> ctype (scolumns schema ! i) = STRING_T \<and> length s \<le> clength (scolumns schema ! i))"
proof -
  have "fits c v \<longleftrightarrow> (case v of FInt x \<Rightarrow> ctype c = INT_T
      | FStr s \<Rightarrow> ctype c = STRING_T \<and> length s \<le> clength c)" for c v
    by (cases v) auto
  then show ?thesis by (auto simp: new_Record_ok row_ok_def list_all2_conv_all_nth)
qed

theorem new_Record_accepts_witness:
  "\<exists>r. new_Record ex_schema [FInt 7, FStr ''abc''] = Inr r"
  unfolding new_Record_accepts by (simp add: ex_schema_def ex_cols_def less_Suc_eq numeral_2_eq_2)

text \<open>
  C15: A record of a schema survives the disk: serialising it gives exactly \<open>recordSize\<close> bytes, and
  deserialising these bytes, whatever follows them in the page, gives the same values, with every
  string cut at its first zero byte; rows whose strings have no zero byte come back unchanged.
\<close>

theorem record_roundtrip:
  assumes "new_Schema cols = Inr schema" "new_Record schema vs = Inr r"
  shows "\<exists>bs. serialize r = Inr bs \<and> length bs = getRecordSize schema \<and>
    (\<forall>rest. deserialize schema (bs @ rest) = Inr (r\<lparr>rvalues := map stored_value vs\<rparr>)) \<and>
    ((\<forall>s. FStr s \<in> set vs \<longrightarrow> zero_byte \<notin> set s) \<longrightarrow> deserialize schema bs = Inr r)"
proof -
  have ok: "schema_ok schema" "row_ok schema vs" "r = \<lparr>rschema = schema, rvalues = vs\<rparr>"
    using assms by (auto simp: new_Schema_ok new_Record_ok)
  with deserialize_row [OF ok(2)] deserialize_row [OF ok(2), of "[]"] show ?thesis
    by (intro exI [of _ "row_bytes schema vs"])
      (simp add: serialize_ok length_row_bytes getRecordSize_def stored_id)
qed

theorem record_roundtrip_witness:
  "\<exists>bs r. serialize r = Inr bs \<and> rvalues r = [FInt 7, FStr ''abc''] \<and> length bs = 9 \<and>
     deserialize ex_schema bs = Inr r"
proof -
  let ?r = "\<lparr>rschema = ex_schema, rvalues = [FInt 7, FStr ''abc'']\<rparr>"
  have "new_Record ex_schema [FInt 7, FStr ''abc''] = Inr ?r"
    by (simp add: new_Record_ok ex_schema_ok)
  from record_roundtrip [OF ex_schema_ok(1) this] show ?thesis
    by (intro exI [of _ "row_bytes ex_schema [FInt 7, FStr ''abc'']"] exI [of _ ?r])
      (auto simp: zero_byte_def getRecordSize_def ex_schema_def serialize_ok [OF ex_schema_ok(2,3), unfolded ex_schema_def])
qed

end
