(* ===== verification/TableHeap.thy ===== *)
theory TableHeap
  imports BufferManager RecordFormat
begin

section \<open>Table heaps\<close>

text \<open>
  \<open>tableHeap/TableHeap\<close>: the rows of a table in the slotted pages of a file. A page holds its number of
  slots in its first four bytes and then slots of one tombstone byte and the record's bytes. The
  object's fields never change after construction, so an operation takes the object and runs on the
  state of the pool. A slot pointer is an offset into the page; an access outside the page is
  undefined behaviour.
\<close>

datatype RecordID = RecordID (pageId: int) (slotNum: int)

text \<open>The order in which a scan meets the records.\<close>

instantiation RecordID :: linorder
begin

definition less_eq_RecordID :: "RecordID \<Rightarrow> RecordID \<Rightarrow> bool" where
  "less_eq_RecordID r q \<longleftrightarrow> pageId r < pageId q \<or> (pageId r = pageId q \<and> slotNum r \<le> slotNum q)"

definition less_RecordID :: "RecordID \<Rightarrow> RecordID \<Rightarrow> bool" where
  "less_RecordID r q \<longleftrightarrow> pageId r < pageId q \<or> (pageId r = pageId q \<and> slotNum r < slotNum q)"

instance
  by standard (auto simp: less_eq_RecordID_def less_RecordID_def RecordID.expand)

end

text \<open>The identifiers a C++ object can hold: both fields are of type \<open>int\<close>.\<close>

definition rid_ok :: "RecordID \<Rightarrow> bool" where
  "rid_ok r \<longleftrightarrow> - (2 ^ 31) \<le> pageId r \<and> pageId r < 2 ^ 31 \<and> - (2 ^ 31) \<le> slotNum r \<and> slotNum r < 2 ^ 31"

record TableHeap =
  hfileId :: int
  hschema :: Schema
  hrecordSize :: nat
  hslotSize :: nat
  hmaxSlots :: int

subsection \<open>The page layout helpers\<close>

definition getNumSlots :: "byte list \<Rightarrow> int" where
  "getNumSlots page = sint (bytes_int32 (take 4 page))"

definition setNumSlots :: "byte list \<Rightarrow> int \<Rightarrow> byte list" where
  "setNumSlots page n = overwrite 0 (int32_bytes (word_of_int n)) page"

definition getSlotPtr :: "TableHeap \<Rightarrow> int \<Rightarrow> int" where
  "getSlotPtr th slotIdx = 4 + slotIdx * int (hslotSize th)"

definition outside_page :: error where
  "outside_page = Undefined_Behaviour ''access outside the page''"

definition isSlotAlive :: "byte list \<Rightarrow> int \<Rightarrow> bool res" where
  "isSlotAlive page slot = (if 0 \<le> slot \<and> slot < int (length page) then Inr (page ! nat slot \<noteq> zero_byte)
                            else Inl outside_page)"

definition setSlotAlive :: "byte list \<Rightarrow> int \<Rightarrow> bool \<Rightarrow> byte list res" where
  "setSlotAlive page slot alive =
     (if 0 \<le> slot \<and> slot < int (length page)
      then Inr (overwrite (nat slot) [if alive then CHR 0x01 else zero_byte] page)
      else Inl outside_page)"

text \<open>\<open>memcpy(slot + 1, buf.data(), recordSize_)\<close>.\<close>

definition copy_record :: "TableHeap \<Rightarrow> byte list \<Rightarrow> int \<Rightarrow> byte list \<Rightarrow> byte list res" where
  "copy_record th page slot buf =
     (if 0 \<le> slot + 1 \<and> slot + 1 + int (hrecordSize th) \<le> int (length page)
      then Inr (overwrite (nat (slot + 1)) (take (hrecordSize th) buf) page)
      else Inl outside_page)"

definition fill_slot :: "TableHeap \<Rightarrow> byte list \<Rightarrow> int \<Rightarrow> byte list \<Rightarrow> byte list res" where
  "fill_slot th page i buf =
     bindE (setSlotAlive page (getSlotPtr th i) True) (\<lambda>pg. copy_record th pg (getSlotPtr th i) buf)"

text \<open>How a computation on a page's bytes ends the visit of the page.\<close>

definition edit_exit :: "'a \<Rightarrow> byte list \<Rightarrow> byte list res \<Rightarrow> 'a page_exit" where
  "edit_exit x page r = (case r of Inl e \<Rightarrow> Abandon e page | Inr page' \<Rightarrow> Dirty x page')"

subsection \<open>The operations\<close>

definition init_page :: "TableHeap \<Rightarrow> byte list \<Rightarrow> unit page_exit" where
  "init_page th page = Dirty () (setNumSlots page 0)"

definition new_TableHeap :: "string \<Rightarrow> Schema \<Rightarrow> ('a bm_state_scheme, TableHeap) io" where
  "new_TableHeap tableFile schema =
     (let rs = getRecordSize schema; ss = rs + 1 in
      bindM (openFile tableFile) (\<lambda>fid.
      let th = \<lparr>hfileId = fid, hschema = schema, hrecordSize = rs, hslotSize = ss,
                hmaxSlots = to_int32 (int ((PAGE_SIZE - 4) div ss))\<rparr> in
      bindM (getPageCount fid) (\<lambda>n.
      if n = 0 then
        bindM (bindM (allocatePage fid) (\<lambda>p. with_page fid p (init_page th))) (\<lambda>_. retM th)
      else retM th)))"

text \<open>The search for a tombstoned slot in the page.\<close>

fun first_dead :: "TableHeap \<Rightarrow> byte list \<Rightarrow> int list \<Rightarrow> int option res" where
  "first_dead th page [] = Inr None"
| "first_dead th page (i # is) =
     bindE (isSlotAlive page (getSlotPtr th i)) (\<lambda>alive.
       if alive then first_dead th page is else Inr (Some i))"

definition insert_visit :: "TableHeap \<Rightarrow> byte list \<Rightarrow> int \<Rightarrow> byte list \<Rightarrow> RecordID option page_exit" where
  "insert_visit th buf p page =
     (let n = getNumSlots page in
      case first_dead th page [0..n - 1] of
        Inl e \<Rightarrow> Abandon e page
      | Inr (Some i) \<Rightarrow> edit_exit (Some (RecordID p i)) page (fill_slot th page i buf)
      | Inr None \<Rightarrow>
          if n < hmaxSlots th
          then edit_exit (Some (RecordID p n)) page (fill_slot th (setNumSlots page (n + 1)) n buf)
          else Leave None)"

definition new_page_visit :: "TableHeap \<Rightarrow> byte list \<Rightarrow> byte list \<Rightarrow> unit page_exit" where
  "new_page_visit th buf page = edit_exit () page (fill_slot th (setNumSlots page 1) 0 buf)"

text \<open>\<open>Record rec(schema_, values); auto buf = rec.serialize();\<close>\<close>

definition record_bytes :: "TableHeap \<Rightarrow> FieldValue list \<Rightarrow> byte list res" where
  "record_bytes th values = bindE (new_Record (hschema th) values) serialize"

definition insertRecord :: "TableHeap \<Rightarrow> FieldValue list \<Rightarrow> ('a bm_state_scheme, RecordID) io" where
  "insertRecord th values =
     bindM (liftM (record_bytes th values)) (\<lambda>buf.
     bindM (getPageCount (hfileId th)) (\<lambda>pageCount.
     bindM (page_loop (\<lambda>p. with_page (hfileId th) p (insert_visit th buf p)) (map int [0..<nat pageCount]))
       (\<lambda>found. case found of
          Some rid \<Rightarrow> retM rid
        | None \<Rightarrow>
            bindM (allocatePage (hfileId th)) (\<lambda>p.
            bindM (with_page (hfileId th) p (new_page_visit th buf)) (\<lambda>_.
              retM (RecordID p 0))))))"

definition delete_visit :: "TableHeap \<Rightarrow> int \<Rightarrow> byte list \<Rightarrow> bool page_exit" where
  "delete_visit th i page =
     (if i \<ge> getNumSlots page then Leave False
      else case isSlotAlive page (getSlotPtr th i) of
        Inl e \<Rightarrow> Abandon e page
      | Inr alive \<Rightarrow>
          if \<not> alive then Leave False
          else edit_exit True page (setSlotAlive page (getSlotPtr th i) False))"

definition deleteRecord :: "TableHeap \<Rightarrow> RecordID \<Rightarrow> ('a bm_state_scheme, bool) io" where
  "deleteRecord th rid =
     (if pageId rid < 0 \<or> slotNum rid < 0 then retM False
      else bindM (getPageCount (hfileId th)) (\<lambda>n.
        if pageId rid \<ge> n then retM False
        else with_page (hfileId th) (pageId rid) (delete_visit th (slotNum rid))))"

definition update_visit :: "TableHeap \<Rightarrow> byte list \<Rightarrow> int \<Rightarrow> byte list \<Rightarrow> bool page_exit" where
  "update_visit th buf i page =
     (if i \<ge> getNumSlots page then Leave False
      else case isSlotAlive page (getSlotPtr th i) of
        Inl e \<Rightarrow> Abandon e page
      | Inr alive \<Rightarrow>
          if \<not> alive then Leave False
          else edit_exit True page (copy_record th page (getSlotPtr th i) buf))"

definition updateRecord :: "TableHeap \<Rightarrow> RecordID \<Rightarrow> FieldValue list \<Rightarrow> ('a bm_state_scheme, bool) io" where
  "updateRecord th rid values =
     (if pageId rid < 0 \<or> slotNum rid < 0 then retM False
      else bindM (getPageCount (hfileId th)) (\<lambda>n.
        if pageId rid \<ge> n then retM False
        else bindM (liftM (record_bytes th values)) (\<lambda>buf.
          with_page (hfileId th) (pageId rid) (update_visit th buf (slotNum rid)))))"

fun alive_slots :: "TableHeap \<Rightarrow> byte list \<Rightarrow> int \<Rightarrow> int list \<Rightarrow> RecordID list res" where
  "alive_slots th page p [] = Inr []"
| "alive_slots th page p (i # is) =
     bindE (isSlotAlive page (getSlotPtr th i)) (\<lambda>alive.
     bindE (alive_slots th page p is) (\<lambda>rids. Inr (if alive then RecordID p i # rids else rids)))"

definition scan_visit :: "TableHeap \<Rightarrow> int \<Rightarrow> byte list \<Rightarrow> RecordID list page_exit" where
  "scan_visit th p page = (case alive_slots th page p [0..getNumSlots page - 1] of
     Inl e \<Rightarrow> Abandon e page | Inr rids \<Rightarrow> Leave rids)"

definition tableScan :: "TableHeap \<Rightarrow> ('a bm_state_scheme, RecordID list) io" where
  "tableScan th =
     bindM (getPageCount (hfileId th)) (\<lambda>pageCount.
       page_collect (\<lambda>p. with_page (hfileId th) p (scan_visit th p)) (map int [0..<nat pageCount]))"

definition get_visit :: "TableHeap \<Rightarrow> int \<Rightarrow> byte list \<Rightarrow> Record res page_exit" where
  "get_visit th i page =
     (if i < 0 \<or> i \<ge> getNumSlots page
      then Leave (Inl (Runtime_Error ''Invalid RecordID: slot out of range''))
      else case isSlotAlive page (getSlotPtr th i) of
        Inl e \<Rightarrow> Abandon e page
      | Inr alive \<Rightarrow>
          if \<not> alive then Leave (Inl (Runtime_Error ''Attempt to read deleted record''))
          else case deserialize (hschema th) (drop (nat (getSlotPtr th i + 1)) page) of
            Inl e \<Rightarrow> Abandon e page
          | Inr r \<Rightarrow> Leave (Inr r))"

definition getRecord :: "TableHeap \<Rightarrow> RecordID \<Rightarrow> ('a bm_state_scheme, Record) io" where
  "getRecord th rid = bindM (with_page (hfileId th) (pageId rid) (get_visit th (slotNum rid))) liftM"

text \<open>
  The recovery operations. \<open>insertAt\<close> and \<open>updateAt\<close> construct the record while the page is pinned, and
  \<open>insertAt\<close> after it marked the slot alive.
\<close>

definition insertAt_visit :: "TableHeap \<Rightarrow> int \<Rightarrow> FieldValue list \<Rightarrow> byte list \<Rightarrow> unit page_exit" where
  "insertAt_visit th i values page =
     (let page = (if i \<ge> getNumSlots page then setNumSlots page (i + 1) else page) in
      case setSlotAlive page (getSlotPtr th i) True of
        Inl e \<Rightarrow> Abandon e page
      | Inr page \<Rightarrow> (case record_bytes th values of
          Inl e \<Rightarrow> Abandon e page
        | Inr buf \<Rightarrow> edit_exit () page (copy_record th page (getSlotPtr th i) buf)))"

definition insertAt :: "TableHeap \<Rightarrow> RecordID \<Rightarrow> FieldValue list \<Rightarrow> ('a bm_state_scheme, unit) io" where
  "insertAt th rid values = with_page (hfileId th) (pageId rid) (insertAt_visit th (slotNum rid) values)"

definition deleteAt :: "TableHeap \<Rightarrow> RecordID \<Rightarrow> ('a bm_state_scheme, unit) io" where
  "deleteAt th rid = with_page (hfileId th) (pageId rid)
     (\<lambda>page. edit_exit () page (setSlotAlive page (getSlotPtr th (slotNum rid)) False))"

definition updateAt_visit :: "TableHeap \<Rightarrow> int \<Rightarrow> FieldValue list \<Rightarrow> byte list \<Rightarrow> unit page_exit" where
  "updateAt_visit th i values page = (case record_bytes th values of
     Inl e \<Rightarrow> Abandon e page
   | Inr buf \<Rightarrow> edit_exit () page (copy_record th page (getSlotPtr th i) buf))"

definition updateAt :: "TableHeap \<Rightarrow> RecordID \<Rightarrow> FieldValue list \<Rightarrow> ('a bm_state_scheme, unit) io" where
  "updateAt th rid values = with_page (hfileId th) (pageId rid) (updateAt_visit th (slotNum rid) values)"

subsection \<open>The slots of a page\<close>

text \<open>
  \<open>heap_ok\<close>: the object's fields are those the constructor computes, and a page has room for a slot.
  \<open>page_num th pg n\<close>: the page has \<open>n\<close> slots, and the bytes of the slots not yet used are tombstones.
  \<open>page_slot\<close> is the row in a slot, if it holds one.
\<close>

definition heap_ok :: "TableHeap \<Rightarrow> bool" where
  "heap_ok th \<longleftrightarrow> schema_ok (hschema th) \<and> hrecordSize th = srecordSize (hschema th) \<and>
     hslotSize th = hrecordSize th + 1 \<and> hmaxSlots th = int ((PAGE_SIZE - 4) div hslotSize th) \<and>
     0 < hmaxSlots th"

definition max_slots :: "TableHeap \<Rightarrow> nat" where
  "max_slots th = (PAGE_SIZE - 4) div hslotSize th"

definition slot_at :: "TableHeap \<Rightarrow> nat \<Rightarrow> nat" where
  "slot_at th i = 4 + i * hslotSize th"

definition page_num :: "TableHeap \<Rightarrow> byte list \<Rightarrow> nat \<Rightarrow> bool" where
  "page_num th pg n \<longleftrightarrow> length pg = PAGE_SIZE \<and> n \<le> max_slots th \<and> getNumSlots pg = int n \<and>
     (\<forall>i. n \<le> i \<longrightarrow> i < max_slots th \<longrightarrow> pg ! slot_at th i = zero_byte)"

definition row_of :: "Schema \<Rightarrow> byte list \<Rightarrow> FieldValue list" where
  "row_of schema bs = (case get_fields (scolumns schema) 0 bs of Inr vs \<Rightarrow> vs | Inl _ \<Rightarrow> [])"

definition page_slot :: "TableHeap \<Rightarrow> byte list \<Rightarrow> nat \<Rightarrow> FieldValue list option" where
  "page_slot th pg i = (if int i < getNumSlots pg \<and> pg ! slot_at th i \<noteq> zero_byte
     then Some (row_of (hschema th) (take (hrecordSize th) (drop (slot_at th i + 1) pg))) else None)"

lemma get_fields_take:
  "off + sum_list (map width cs) \<le> n \<Longrightarrow> n \<le> length buf \<Longrightarrow>
     get_fields cs off (take n buf) = get_fields cs off buf"
proof (induction cs arbitrary: off)
  case (Cons c cs)
  have "get_fields cs (off + width c) (take n buf) = get_fields cs (off + width c) buf"
    using Cons.prems by (intro Cons.IH) simp_all
  moreover have "read_at off (width c) (take n buf) = read_at off (width c) buf"
    using Cons.prems by (simp add: read_at_def drop_take)
  ultimately show ?case by (simp add: width_def split: DataType.splits)
qed simp

lemma get_fields_total:
  "off + sum_list (map width cs) \<le> length buf \<Longrightarrow> \<exists>vs. get_fields cs off buf = Inr vs \<and> list_all2 fits cs vs"
proof (induction cs arbitrary: off)
  case (Cons c cs)
  have "\<exists>vs. get_fields cs (off + width c) buf = Inr vs \<and> list_all2 fits cs vs"
    using Cons.prems by (intro Cons.IH) simp
  with Cons.prems show ?case
    by (auto simp: width_def read_at_def intro: order_trans [OF length_takeWhile_le] split: DataType.splits)
qed simp

lemma deserialize_row_of:
  assumes "schema_ok schema" "srecordSize schema \<le> length bs"
  shows "deserialize schema bs =
    Inr \<lparr>rschema = schema, rvalues = row_of schema (take (srecordSize schema) bs)\<rparr>"
    "row_ok schema (row_of schema (take (srecordSize schema) bs))"
proof -
  have s: "srecordSize schema = sum_list (map width (scolumns schema))"
    using assms(1) by (simp add: schema_ok_def)
  obtain vs where vs: "get_fields (scolumns schema) 0 bs = Inr vs" "list_all2 fits (scolumns schema) vs"
    using get_fields_total [of 0 "scolumns schema" bs] assms(2) s by auto
  have t: "get_fields (scolumns schema) 0 (take (srecordSize schema) bs) = Inr vs"
    using get_fields_take [of 0 "scolumns schema" "srecordSize schema" bs] vs(1) assms(2) s by simp
  with vs show "deserialize schema bs =
    Inr \<lparr>rschema = schema, rvalues = row_of schema (take (srecordSize schema) bs)\<rparr>"
    by (simp add: deserialize_def row_of_def new_Record_ok row_ok_def)
  from t vs show "row_ok schema (row_of schema (take (srecordSize schema) bs))"
    by (simp add: row_of_def row_ok_def)
qed

lemma row_of_row_bytes: "row_ok schema vs \<Longrightarrow> row_of schema (row_bytes schema vs) = map stored_value vs"
  using get_fields_ok [of "scolumns schema" vs "[]" "[]"] by (simp add: row_of_def row_ok_def row_bytes_def)

lemma slot_ptr: "getSlotPtr th (int i) = int (slot_at th i)"
  by (simp add: getSlotPtr_def slot_at_def)

lemma slot_room:
  assumes "i < max_slots th"
  shows "slot_at th i + hslotSize th \<le> PAGE_SIZE"
proof -
  have "Suc i * hslotSize th \<le> max_slots th * hslotSize th"
    using assms by (intro mult_le_mono1) simp
  also have "\<dots> \<le> PAGE_SIZE - 4" unfolding max_slots_def by (rule div_times_less_eq_dividend)
  finally show ?thesis by (simp add: slot_at_def PAGE_SIZE_def)
qed

lemma slot_apart: "i \<noteq> j \<Longrightarrow> slot_at th i + hslotSize th \<le> slot_at th j \<or> slot_at th j + hslotSize th \<le> slot_at th i"
  using page_neq_ranges [of i j "hslotSize th"] by (auto simp: slot_at_def)

lemma heap_okD:
  assumes "heap_ok th"
  shows "hmaxSlots th = int (max_slots th)" "0 < max_slots th" "hslotSize th = Suc (hrecordSize th)"
    "schema_ok (hschema th)" "hrecordSize th = srecordSize (hschema th)" "max_slots th \<le> PAGE_SIZE"
  using assms order_trans [OF div_le_dividend diff_le_self]
  by (auto simp: heap_ok_def max_slots_def)

lemma getNumSlots_set [simp]:
  "4 \<le> length pg \<Longrightarrow> - (2 ^ 31) \<le> n \<Longrightarrow> n < 2 ^ 31 \<Longrightarrow> getNumSlots (setNumSlots pg n) = n"
  using overwrite_same [of 0 "int32_bytes (word_of_int n)" pg]
  by (simp add: getNumSlots_def setNumSlots_def sint_sbintrunc' signed_take_bit_int_eq_self)

text \<open>Bytes written inside one slot: the number of slots and the other slots stay.\<close>

lemma patch_slot:
  assumes len: "length pg = PAGE_SIZE" and i: "i < max_slots th" and d: "off + length d \<le> hslotSize th"
  defines "pg' \<equiv> overwrite (slot_at th i + off) d pg"
  shows "length pg' = PAGE_SIZE" "getNumSlots pg' = getNumSlots pg"
    "j < max_slots th \<Longrightarrow> j \<noteq> i \<Longrightarrow> 0 < hslotSize th \<Longrightarrow> pg' ! slot_at th j = pg ! slot_at th j"
    "j < max_slots th \<Longrightarrow> j \<noteq> i \<Longrightarrow> Suc n \<le> hslotSize th \<Longrightarrow>
       take n (drop (slot_at th j + 1) pg') = take n (drop (slot_at th j + 1) pg)"
proof -
  have fit: "slot_at th i + off + length d \<le> length pg"
    using slot_room [OF i] d len by simp
  show "length pg' = PAGE_SIZE" using fit len by (simp add: pg'_def)
  show "getNumSlots pg' = getNumSlots pg"
    using overwrite_before [OF fit, of 0 4] by (simp add: getNumSlots_def pg'_def slot_at_def)
  assume j: "j < max_slots th" "j \<noteq> i"
  note apart = slot_apart [OF j(2), of th] and room = slot_room [OF j(1)]
  { assume "0 < hslotSize th"
    then show "pg' ! slot_at th j = pg ! slot_at th j"
      using apart room d len fit by (auto simp: pg'_def nth_overwrite) }
  { assume n: "Suc n \<le> hslotSize th"
    show "take n (drop (slot_at th j + 1) pg') = take n (drop (slot_at th j + 1) pg)"
      using apart
    proof
      assume "slot_at th j + hslotSize th \<le> slot_at th i"
      then show ?thesis unfolding pg'_def using n by (intro overwrite_before [OF fit]) simp
    next
      assume "slot_at th i + hslotSize th \<le> slot_at th j"
      then show ?thesis unfolding pg'_def using d by (intro overwrite_after [OF fit]) simp
    qed }
qed

lemma page_num_len: "page_num th pg n \<Longrightarrow> length pg = PAGE_SIZE \<and> getNumSlots pg = int n \<and> n \<le> max_slots th"
  by (simp add: page_num_def)

lemma page_num_max: "page_num th pg n \<Longrightarrow> i < n \<Longrightarrow> i < max_slots th"
  by (simp add: page_num_def)

lemma page_slot_None: "page_num th pg n \<Longrightarrow> n \<le> i \<Longrightarrow> page_slot th pg i = None"
  by (simp add: page_slot_def page_num_def)

text \<open>Using more slots.\<close>

lemma grow_page:
  assumes ok: "heap_ok th" and pg: "page_num th pg n" and m: "n \<le> m" "m \<le> max_slots th"
  shows "page_num th (setNumSlots pg (int m)) m" "page_slot th (setNumSlots pg (int m)) = page_slot th pg"
proof -
  let ?pg = "setNumSlots pg (int m)"
  have len: "length pg = PAGE_SIZE" and num: "getNumSlots pg = int n"
    and z: "\<And>i. n \<le> i \<Longrightarrow> i < max_slots th \<Longrightarrow> pg ! slot_at th i = zero_byte"
    using pg by (auto simp: page_num_def)
  have fit: "0 + length (int32_bytes (word_of_int (int m))) \<le> length pg"
    by (simp add: len PAGE_SIZE_def)
  have mb: "int m < 2 ^ 31" using m(2) heap_okD(6) [OF ok] by (simp add: PAGE_SIZE_def)
  have num': "getNumSlots ?pg = int m" using len mb by (simp add: PAGE_SIZE_def)
  have byte: "?pg ! slot_at th i = pg ! slot_at th i" if "i < max_slots th" for i
    using slot_room [OF that] heap_okD(3) [OF ok] len
    unfolding setNumSlots_def by (subst nth_overwrite [OF fit]) (auto simp: slot_at_def)
  have rest: "take k (drop (slot_at th i + 1) ?pg) = take k (drop (slot_at th i + 1) pg)" for i k
    unfolding setNumSlots_def by (rule overwrite_after [OF fit]) (simp add: slot_at_def)
  show "page_num th ?pg m"
    using m z byte num' len fit by (auto simp: page_num_def setNumSlots_def)
  show "page_slot th ?pg = page_slot th pg"
  proof
    fix i
    show "page_slot th ?pg i = page_slot th pg i"
    proof (cases "i < m")
      case True
      then have "i < max_slots th" using m by simp
      then show ?thesis
        using True byte [of i] rest z [of i] by (auto simp: page_slot_def num num' not_less)
    next
      case False
      then show ?thesis using m(1) by (simp add: page_slot_def num num')
    qed
  qed
qed

text \<open>Writing the tombstone byte, the record, or both, of a slot; a slot not yet used stays a tombstone.\<close>

lemma patch_any:
  assumes ok: "heap_ok th" and pg: "page_num th pg n" and im: "i < max_slots th" and d: "off + length d \<le> hslotSize th"
  defines "pg' \<equiv> overwrite (slot_at th i + off) d pg"
  assumes dead: "n \<le> i \<longrightarrow> pg' ! slot_at th i = zero_byte"
  shows "page_num th pg' n" "page_slot th pg' = (page_slot th pg)(i := page_slot th pg' i)"
proof -
  have len: "length pg = PAGE_SIZE" and num: "getNumSlots pg = int n" and nm: "n \<le> max_slots th"
    using pg by (auto simp: page_num_def)
  have S: "hslotSize th = Suc (hrecordSize th)" using ok by (rule heap_okD)
  note patch = patch_slot [OF len im d, folded pg'_def]
  have "pg' ! slot_at th j = zero_byte" if "n \<le> j" "j < max_slots th" for j
    using patch(3) [OF that(2)] pg that dead S by (cases "j = i") (auto simp: page_num_def)
  then show "page_num th pg' n" using patch(1,2) num nm by (simp add: page_num_def)
  show "page_slot th pg' = (page_slot th pg)(i := page_slot th pg' i)"
  proof
    fix j
    show "page_slot th pg' j = ((page_slot th pg)(i := page_slot th pg' i)) j"
    proof (cases "j < n \<and> j \<noteq> i")
      case True
      then have j: "j < max_slots th" "j \<noteq> i" using nm by auto
      have "pg' ! slot_at th j = pg ! slot_at th j" using patch(3) [OF j] S by simp
      moreover have "take (hrecordSize th) (drop (slot_at th j + 1) pg')
          = take (hrecordSize th) (drop (slot_at th j + 1) pg)"
        using S by (intro patch(4) [OF j]) simp
      ultimately have "page_slot th pg' j = page_slot th pg j"
        by (simp only: page_slot_def patch(2))
      with j(2) show ?thesis by simp
    next
      case False
      have "\<not> j < n \<Longrightarrow> page_slot th pg' j = None \<and> page_slot th pg j = None"
        by (simp add: page_slot_def patch(2) num)
      with False show ?thesis by (cases "j = i") auto
    qed
  qed
qed

lemma patch_page:
  assumes "heap_ok th" "page_num th pg n" "i < n" "off + length d \<le> hslotSize th"
  shows "page_num th (overwrite (slot_at th i + off) d pg) n"
    "page_slot th (overwrite (slot_at th i + off) d pg) =
       (page_slot th pg)(i := page_slot th (overwrite (slot_at th i + off) d pg) i)"
proof -
  have im: "i < max_slots th" and l: "n \<le> i \<longrightarrow> overwrite (slot_at th i + off) d pg ! slot_at th i = zero_byte"
    using assms(2,3) by (auto simp: page_num_def)
  note P = patch_any [OF assms(1,2) im assms(4) l]
  show "page_num th (overwrite (slot_at th i + off) d pg) n" by (rule P(1))
  show "page_slot th (overwrite (slot_at th i + off) d pg) =
       (page_slot th pg)(i := page_slot th (overwrite (slot_at th i + off) d pg) i)" by (rule P(2))
qed

lemma fill_page:
  assumes ok: "heap_ok th" and pg: "page_num th pg n" and i: "i < n" and b: "length buf = hrecordSize th"
  obtains pg' where "fill_slot th pg (int i) buf = Inr pg'" "page_num th pg' n"
    "page_slot th pg' = (page_slot th pg)(i \<mapsto> row_of (hschema th) buf)"
proof -
  have len: "length pg = PAGE_SIZE" and num: "getNumSlots pg = int n" and nm: "n \<le> max_slots th"
    using pg by (auto simp: page_num_def)
  have im: "i < max_slots th" using i nm by simp
  have S: "hslotSize th = Suc (hrecordSize th)" using ok by (rule heap_okD)
  let ?pg = "overwrite (slot_at th i + 0) (CHR 0x01 # buf) pg"
  have d: "0 + length (CHR 0x01 # buf) \<le> hslotSize th" using b S by simp
  have fit: "slot_at th i + Suc (length buf) \<le> length pg"
    using slot_room [OF im] len b S by simp
  have "fill_slot th pg (int i) buf = Inr ?pg"
    using fit b overwrite_append [of "slot_at th i" "[CHR 0x01]" buf pg]
    by (simp add: fill_slot_def slot_ptr setSlotAlive_def copy_record_def nat_add_distrib)
  moreover note patch_page [OF ok pg i d]
  moreover have "page_slot th ?pg i = Some (row_of (hschema th) buf)"
  proof -
    have "?pg ! slot_at th i = CHR 0x01"
      using fit by (simp add: nth_overwrite)
    moreover have "take (hrecordSize th) (drop (slot_at th i + 1) ?pg) = buf"
      using fit b by (simp add: overwrite_def)
    ultimately show ?thesis
      using i num patch_slot(2) [OF len im d] by (simp add: page_slot_def zero_byte_def)
  qed
  ultimately show thesis by (intro that) auto
qed

lemma copy_page:
  assumes ok: "heap_ok th" and pg: "page_num th pg n" and im: "i < max_slots th" and b: "length buf = hrecordSize th"
  obtains pg' where "copy_record th pg (int (slot_at th i)) buf = Inr pg'" "page_num th pg' n"
    "page_slot th pg' =
       (page_slot th pg)(i := if page_slot th pg i = None then None else Some (row_of (hschema th) buf))"
proof -
  have len: "length pg = PAGE_SIZE" and num: "getNumSlots pg = int n" and nm: "n \<le> max_slots th"
    and dead: "n \<le> i \<longrightarrow> pg ! slot_at th i = zero_byte"
    using pg im by (auto simp: page_num_def)
  have S: "hslotSize th = Suc (hrecordSize th)" using ok by (rule heap_okD)
  let ?pg = "overwrite (slot_at th i + 1) buf pg"
  have d: "1 + length buf \<le> hslotSize th" using b S by simp
  have fit: "slot_at th i + 1 + length buf \<le> length pg"
    using slot_room [OF im] len b S by simp
  have "copy_record th pg (int (slot_at th i)) buf = Inr ?pg"
    using fit b by (simp add: copy_record_def nat_add_distrib)
  moreover have byte: "?pg ! slot_at th i = pg ! slot_at th i"
    using fit by (simp add: nth_overwrite)
  moreover have "n \<le> i \<longrightarrow> ?pg ! slot_at th i = zero_byte" using dead byte by simp
  note patch_any [OF ok pg im d this]
  moreover have "page_slot th ?pg i = (if page_slot th pg i = None then None else Some (row_of (hschema th) buf))"
  proof -
    have "take (hrecordSize th) (drop (slot_at th i + 1) ?pg) = buf"
      using fit b by (simp add: overwrite_def)
    then show ?thesis
      using patch_slot(2) [OF len im d] byte by (simp add: page_slot_def)
  qed
  ultimately show thesis by (intro that) auto
qed

lemma kill_page:
  assumes ok: "heap_ok th" and pg: "page_num th pg n" and im: "i < max_slots th"
  obtains pg' where "setSlotAlive pg (int (slot_at th i)) False = Inr pg'" "page_num th pg' n"
    "page_slot th pg' = (page_slot th pg)(i := None)"
proof -
  have len: "length pg = PAGE_SIZE" using pg by (simp add: page_num_def)
  have S: "hslotSize th = Suc (hrecordSize th)" using ok by (rule heap_okD)
  let ?pg = "overwrite (slot_at th i + 0) [zero_byte] pg"
  have d: "0 + length [zero_byte] \<le> hslotSize th" using S by simp
  have fit: "slot_at th i < length pg" using slot_room [OF im] len S by simp
  have "setSlotAlive pg (int (slot_at th i)) False = Inr ?pg"
    using fit by (simp add: setSlotAlive_def)
  moreover have z: "?pg ! slot_at th i = zero_byte" using fit by (simp add: nth_overwrite)
  moreover have "n \<le> i \<longrightarrow> ?pg ! slot_at th i = zero_byte" using z by simp
  note patch_any [OF ok pg im d this]
  moreover have "page_slot th ?pg i = None"
    using z by (simp add: page_slot_def)
  ultimately show thesis by (intro that) auto
qed

lemma isSlotAlive_ok:
  assumes "heap_ok th" "page_num th pg n" "i < n"
  shows "isSlotAlive pg (int (slot_at th i)) = Inr (page_slot th pg i \<noteq> None)"
  using assms slot_room [of i th] heap_okD(3) [OF assms(1)]
  by (auto simp: isSlotAlive_def page_slot_def page_num_def)

subsection \<open>The rows of a table\<close>

text \<open>
  \<open>table_rows\<close> reads the finite map from record identifiers to rows off the pages of the file;
  \<open>heap_inv F th s\<close> is the state between two operations; \<open>heap_change F th s t m\<close> says that \<open>t\<close> is such a
  state with rows \<open>m\<close> and that nothing outside the table's file changed.
\<close>

definition table_rows :: "TableHeap \<Rightarrow> byte list list \<Rightarrow> RecordID \<rightharpoonup> FieldValue list" where
  "table_rows th ps rid =
     (if 0 \<le> pageId rid \<and> pageId rid < int (length ps) \<and> 0 \<le> slotNum rid
      then page_slot th (ps ! nat (pageId rid)) (nat (slotNum rid)) else None)"

definition heap_rows :: "int set \<Rightarrow> TableHeap \<Rightarrow> 'a bm_state_scheme \<Rightarrow> RecordID \<rightharpoonup> FieldValue list" where
  "heap_rows F th s = table_rows th (bm_pages F s (hfileId th))"

definition heap_pages :: "int set \<Rightarrow> TableHeap \<Rightarrow> 'a bm_state_scheme \<Rightarrow> nat" where
  "heap_pages F th s = length (bm_pages F s (hfileId th))"

definition heap_inv :: "int set \<Rightarrow> TableHeap \<Rightarrow> 'a bm_state_scheme \<Rightarrow> bool" where
  "heap_inv F th s \<longleftrightarrow> bm_idle F s \<and> hfileId th \<in> F \<and> heap_ok th \<and>
     (\<forall>pg \<in> set (bm_pages F s (hfileId th)). \<exists>n. page_num th pg n)"

definition heap_change ::
  "int set \<Rightarrow> TableHeap \<Rightarrow> 'a bm_state_scheme \<Rightarrow> 'a bm_state_scheme \<Rightarrow> (RecordID \<rightharpoonup> FieldValue list) \<Rightarrow> bool" where
  "heap_change F th s t m \<longleftrightarrow> heap_inv F th t \<and> heap_rows F th t = m \<and> bm_keep t = bm_keep s \<and>
     (\<forall>g. g \<noteq> hfileId th \<longrightarrow> bm_pages F t g = bm_pages F s g) \<and> heap_pages F th s \<le> heap_pages F th t \<and>
     (dom m \<subseteq> dom (heap_rows F th s) \<longrightarrow> heap_pages F th t = heap_pages F th s)"

lemma heap_invD:
  assumes "heap_inv F th s"
  shows "bm_idle F s" "hfileId th \<in> F" "heap_ok th"
    "p < heap_pages F th s \<Longrightarrow> \<exists>n. page_num th (bm_pages F s (hfileId th) ! p) n"
  using assms by (auto simp: heap_inv_def heap_pages_def)

lemma table_rows_update:
  assumes "p < length ps" "page_slot th pg = (page_slot th (ps ! p))(i := x)"
  shows "table_rows th (ps[p := pg]) = (table_rows th ps)(RecordID (int p) (int i) := x)"
proof
  fix rid
  show "table_rows th (ps[p := pg]) rid = ((table_rows th ps)(RecordID (int p) (int i) := x)) rid"
    using assms by (cases rid) (auto simp: table_rows_def nth_list_update)
qed

lemma table_rows_append:
  assumes "page_slot th pg = [0 \<mapsto> x]"
  shows "table_rows th (ps @ [pg]) = (table_rows th ps)(RecordID (int (length ps)) 0 \<mapsto> x)"
proof
  fix rid
  show "table_rows th (ps @ [pg]) rid = ((table_rows th ps)(RecordID (int (length ps)) 0 \<mapsto> x)) rid"
    using assms by (cases rid) (auto simp: table_rows_def nth_append)
qed

lemma heap_rows_at:
  assumes "heap_rows F th s (RecordID p i) = Some vs"
  obtains q j where "p = int q" "i = int j" "q < heap_pages F th s"
    "page_slot th (bm_pages F s (hfileId th) ! q) j = Some vs"
  using assms
  by (intro that [of "nat p" "nat i"]) (auto simp: heap_rows_def table_rows_def heap_pages_def split: if_splits)

lemma heap_same:
  assumes "heap_inv F th s" "bm_idle F t" "bm_pages F t = bm_pages F s" "bm_keep t = bm_keep s"
  shows "heap_change F th s t (heap_rows F th s)"
  using assms by (simp add: heap_change_def heap_inv_def heap_rows_def heap_pages_def)

lemma heap_upd:
  assumes inv: "heap_inv F th s" and p: "p < heap_pages F th s" and pg: "page_num th pg n"
    "page_slot th pg = (page_slot th (bm_pages F s (hfileId th) ! p))(i := x)"
    and t: "bm_idle F t" "bm_pages F t = (bm_pages F s)(hfileId th := (bm_pages F s (hfileId th))[p := pg])"
      "bm_keep t = bm_keep s"
  shows "heap_change F th s t ((heap_rows F th s)(RecordID (int p) (int i) := x))"
proof -
  have "\<forall>q \<in> set (bm_pages F t (hfileId th)). \<exists>n. page_num th q n"
    using inv pg(1) set_update_subset_insert [of "bm_pages F s (hfileId th)" p pg]
    by (auto simp: heap_inv_def t(2))
  with inv t p show ?thesis
    using table_rows_update [OF p [unfolded heap_pages_def] pg(2)]
    by (simp add: heap_change_def heap_inv_def heap_rows_def heap_pages_def)
qed

lemma int_upto: "[0..int n - 1] = map int [0..<n]"
proof (induction n)
  case (Suc n)
  have "[0..int n] = [0..int n - 1] @ [int n]" by (rule upto_rec2) simp
  with Suc show ?case by simp
qed simp

text \<open>The identifiers of rows fit their fields.\<close>

lemma heap_rid_ok:
  assumes inv: "heap_inv F th s" and r: "heap_rows F th s rid = Some vs"
  shows "rid_ok rid"
proof -
  obtain p i where rid: "rid = RecordID p i" by (cases rid)
  obtain q j where q: "p = int q" "i = int j" "q < heap_pages F th s"
    "page_slot th (bm_pages F s (hfileId th) ! q) j = Some vs"
    using r unfolding rid by (rule heap_rows_at)
  obtain n where n: "page_num th (bm_pages F s (hfileId th) ! q) n" using heap_invD(4) [OF inv q(3)] by blast
  have "j < n" using page_slot_None [OF n, of j] q(4) by (cases "j < n") auto
  then have "j < PAGE_SIZE" using page_num_len [OF n] heap_okD(6) [OF heap_invD(3) [OF inv]] by simp
  moreover have "int (heap_pages F th s) < 2 ^ 31"
    using inv by (auto simp: heap_inv_def heap_pages_def length_bm_pages bm_idle_def bm_inv_def files_ok_def elim!: file_okE)
  ultimately show ?thesis using q rid by (simp add: rid_ok_def PAGE_SIZE_def)
qed

subsection \<open>Inserting\<close>

lemma first_dead_ok:
  assumes "heap_ok th" "page_num th pg n"
  shows "set is \<subseteq> {..<n} \<Longrightarrow>
    (first_dead th pg (map int is) = Inr None \<and> (\<forall>i \<in> set is. page_slot th pg i \<noteq> None)) \<or>
    (\<exists>i \<in> set is. first_dead th pg (map int is) = Inr (Some (int i)) \<and> page_slot th pg i = None)"
proof (induction "is")
  case (Cons i "is")
  then show ?case
    using isSlotAlive_ok [OF assms, of i] by (cases "page_slot th pg i = None") (auto simp: slot_ptr)
qed simp

lemma insert_visit_ok:
  assumes ok: "heap_ok th" and pg: "page_num th pg n" and b: "length buf = hrecordSize th"
  shows "insert_visit th buf p pg = Leave None \<or>
    (\<exists>i pg' n'. insert_visit th buf p pg = Dirty (Some (RecordID p (int i))) pg' \<and> i < max_slots th \<and>
       page_slot th pg i = None \<and> page_num th pg' n' \<and>
       page_slot th pg' = (page_slot th pg)(i \<mapsto> row_of (hschema th) buf))"
proof -
  have num: "getNumSlots pg = int n" and nm: "n \<le> max_slots th" using pg by (auto simp: page_num_def)
  have mx: "hmaxSlots th = int (max_slots th)" using ok by (rule heap_okD)
  from first_dead_ok [OF ok pg, of "[0..<n]"] consider
      (full) "first_dead th pg [0..int n - 1] = Inr None"
    | (dead) i where "i < n" "first_dead th pg [0..int n - 1] = Inr (Some (int i))" "page_slot th pg i = None"
    unfolding int_upto by (auto simp: lessThan_atLeast0)
  then show ?thesis
  proof cases
    case dead
    obtain pg' where "fill_slot th pg (int i) buf = Inr pg'" "page_num th pg' n"
      "page_slot th pg' = (page_slot th pg)(i \<mapsto> row_of (hschema th) buf)"
      using ok pg dead(1) b by (rule fill_page)
    with dead num nm show ?thesis
      by (intro disjI2 exI [of _ i] exI [of _ pg'] exI [of _ n])
        (simp add: insert_visit_def Let_def edit_exit_def)
  next
    case full
    show ?thesis
    proof (cases "n < max_slots th")
      case True
      note g = grow_page [OF ok pg le_SucI [OF order_refl] Suc_leI [OF True]]
      obtain pg' where "fill_slot th (setNumSlots pg (int (Suc n))) (int n) buf = Inr pg'"
        "page_num th pg' (Suc n)"
        "page_slot th pg' = (page_slot th (setNumSlots pg (int (Suc n))))(n \<mapsto> row_of (hschema th) buf)"
        using ok g(1) lessI b by (rule fill_page)
      with full True num mx g(2) page_slot_None [OF pg order_refl] show ?thesis
        by (intro disjI2 exI [of _ n] exI [of _ pg'] exI [of _ "Suc n"])
          (simp add: insert_visit_def Let_def edit_exit_def add.commute)
    next
      case False
      with full num mx show ?thesis by (simp add: insert_visit_def Let_def)
    qed
  qed
qed

lemma zero_page_num: "page_num th zero_page 0"
proof -
  have "bytes_nat (replicate n zero_byte) = 0" for n
    by (induction n) (simp_all add: zero_byte_def)
  then have "getNumSlots zero_page = 0"
    by (simp add: getNumSlots_def zero_page_def bytes_int32_def)
  moreover have "zero_page ! slot_at th i = zero_byte" if "i < max_slots th" for i
  proof -
    have "0 < hslotSize th" using that by (cases "hslotSize th") (simp_all add: max_slots_def)
    then have "slot_at th i < PAGE_SIZE" using slot_room [OF that] by simp
    then show ?thesis by (simp add: zero_page_def)
  qed
  ultimately show ?thesis by (simp add: page_num_def)
qed

lemma record_bytes_ok:
  assumes "heap_ok th"
  shows "row_ok (hschema th) vs \<Longrightarrow> record_bytes th vs = Inr (row_bytes (hschema th) vs)"
    and "row_ok (hschema th) vs \<Longrightarrow> length (row_bytes (hschema th) vs) = hrecordSize th"
    and "\<not> row_ok (hschema th) vs \<Longrightarrow> \<exists>m. record_bytes th vs = Inl (Runtime_Error m)"
proof -
  have S: "schema_ok (hschema th)" "hrecordSize th = srecordSize (hschema th)"
    using heap_okD [OF assms] by auto
  { assume "row_ok (hschema th) vs"
    then show "record_bytes th vs = Inr (row_bytes (hschema th) vs)"
      "length (row_bytes (hschema th) vs) = hrecordSize th"
      using S by (simp_all add: record_bytes_def new_Record_ok [THEN iffD2] serialize_ok length_row_bytes) }
  assume bad: "\<not> row_ok (hschema th) vs"
  have "check_values cols ws = Inl e \<Longrightarrow> \<exists>m. e = Runtime_Error m" for cols ws e
    by (induction cols ws rule: check_values.induct)
      (auto split: DataType.splits FieldValue.splits if_splits)
  with bad new_Record_ok [of "hschema th" vs] show "\<exists>m. record_bytes th vs = Inl (Runtime_Error m)"
    by (cases "new_Record (hschema th) vs")
      (fastforce simp: record_bytes_def new_Record_def bindE_def split: if_splits sum.splits)+
qed

lemma new_page_visit_ok:
  assumes ok: "heap_ok th" and b: "length buf = hrecordSize th"
  obtains pg' where "new_page_visit th buf zero_page = Dirty () pg'" "page_num th pg' 1"
    "page_slot th pg' = [0 \<mapsto> row_of (hschema th) buf]"
proof -
  have m: "1 \<le> max_slots th" using heap_okD(2) [OF ok] by simp
  have e: "page_slot th zero_page = Map.empty"
    using page_slot_None [OF zero_page_num] by (simp add: fun_eq_iff)
  note g = grow_page [OF ok zero_page_num zero_le_one m]
  obtain pg' where "fill_slot th (setNumSlots zero_page (int 1)) (int 0) buf = Inr pg'" "page_num th pg' 1"
    "page_slot th pg' = (page_slot th (setNumSlots zero_page (int 1)))(0 \<mapsto> row_of (hschema th) buf)"
    using ok g(1) zero_less_one b by (rule fill_page)
  with g(2) e show thesis by (intro that) (simp_all add: new_page_visit_def edit_exit_def)
qed

lemma insert_ok:
  assumes inv: "heap_inv F th s" and row: "row_ok (hschema th) vs"
    and room: "int (heap_pages F th s) + 1 < 2 ^ 31"
  obtains rid t where "insertRecord th vs s = (Inr rid, t)" "heap_rows F th s rid = None"
    "heap_change F th s t ((heap_rows F th s)(rid \<mapsto> map stored_value vs))"
    "heap_pages F th t \<le> heap_pages F th s + 1"
proof -
  let ?f = "hfileId th" and ?ps = "bm_pages F s (hfileId th)" and ?buf = "row_bytes (hschema th) vs"
  have idle: "bm_idle F s" and f: "?f \<in> F" and ok: "heap_ok th"
    using inv by (auto dest: heap_invD)
  have pn: "\<exists>n. page_num th (?ps ! p) n" if "p < length ?ps" for p
    using heap_invD(4) [OF inv] that by (simp add: heap_pages_def)
  note buf = record_bytes_ok(1,2) [OF ok row]
  let ?V = "insert_visit th ?buf"
  let ?loop = "page_loop (\<lambda>p. with_page ?f p (?V p)) (map int [0..<length ?ps])"
  have cnt: "getPageCount ?f s = (Inr (int (length ?ps)), s)" by (rule pool_count [OF idle f])
  have rowb: "row_of (hschema th) ?buf = map stored_value vs" using row by (rule row_of_row_bytes)
  show thesis
  proof (cases "\<exists>q. q < length ?ps \<and> ?V (int q) (?ps ! q) \<noteq> Leave None")
    case True
    define q where "q = (LEAST q. q < length ?ps \<and> ?V (int q) (?ps ! q) \<noteq> Leave None)"
    have q: "q < length ?ps" "?V (int q) (?ps ! q) \<noteq> Leave None"
      using LeastI_ex [OF True] by (auto simp: q_def)
    have before: "\<forall>p < q. ?V (int p) (?ps ! p) = Leave None"
      using not_less_Least q(1) unfolding q_def by (metis (mono_tags, lifting) less_trans)
    obtain n where n: "page_num th (?ps ! q) n" using pn [OF q(1)] by blast
    obtain i pg' n' where v: "?V (int q) (?ps ! q) = Dirty (Some (RecordID (int q) (int i))) pg'"
      "page_slot th (?ps ! q) i = None" "page_num th pg' n'"
      "page_slot th pg' = (page_slot th (?ps ! q))(i \<mapsto> row_of (hschema th) ?buf)"
      using insert_visit_ok [OF ok n buf(2), of "int q"] q(2) by auto
    have len: "length pg' = PAGE_SIZE" using v(3) by (simp add: page_num_def)
    obtain t where t: "?loop s = (Inr (Some (RecordID (int q) (int i))), t)" "bm_idle F t"
      "bm_pages F t = (bm_pages F s)(?f := ?ps[q := pg'])" "bm_keep t = bm_keep s"
      using with_pages_dirty [where visit = ?V, OF idle f q(1) before v(1) len q(1)] by blast
    have "heap_change F th s t ((heap_rows F th s)(RecordID (int q) (int i) \<mapsto> map stored_value vs))"
      using heap_upd [OF inv _ v(3) v(4) t(2-4)] q(1) by (simp add: heap_pages_def rowb)
    moreover have "insertRecord th vs s = (Inr (RecordID (int q) (int i)), t)"
      using t(1) by (simp add: insertRecord_def buf cnt)
    moreover have "heap_rows F th s (RecordID (int q) (int i)) = None"
      using v(2) by (simp add: heap_rows_def table_rows_def)
    moreover have "heap_pages F th t = heap_pages F th s" by (simp add: heap_pages_def t(3))
    ultimately show thesis by (intro that) auto
  next
    case False
    then have all: "\<forall>p \<in> set [0..<length ?ps]. p < length ?ps \<and> ?V (int p) (?ps ! p) = Leave None"
      by auto
    obtain u where u: "?loop s = (Inr None, u)" "bm_idle F u" "bm_pages F u = bm_pages F s" "bm_keep u = bm_keep s"
      using with_pages_leave [where visit = ?V, OF idle f all] by blast
    obtain pg' where v: "new_page_visit th ?buf zero_page = Dirty () pg'" "page_num th pg' 1"
      "page_slot th pg' = [0 \<mapsto> row_of (hschema th) ?buf]"
      using ok buf(2) by (rule new_page_visit_ok)
    have len: "length pg' = PAGE_SIZE" using v(2) by (simp add: page_num_def)
    have r: "int (length (bm_pages F u ?f)) + 1 < 2 ^ 31" using room u(3) by (simp add: heap_pages_def)
    obtain t where t: "bindM (allocatePage ?f) (\<lambda>p. with_page ?f p (new_page_visit th ?buf)) u = (Inr (), t)"
      "bm_idle F t" "bm_pages F t = (bm_pages F u)(?f := bm_pages F u ?f @ [pg'])" "bm_keep t = bm_keep u"
      using with_page_append [where visit = "new_page_visit th ?buf", OF u(2) f r v(1) len] by blast
    obtain w where w: "allocatePage ?f u = (Inr (int (length ?ps)), w)"
      using pool_alloc [OF u(2) f r] u(3) by auto
    with t(1) have w': "with_page ?f (int (length ?ps)) (new_page_visit th ?buf) w = (Inr (), t)" by simp
    let ?rid = "RecordID (int (length ?ps)) 0"
    have "insertRecord th vs s = (Inr ?rid, t)"
      using u(1) w w' by (simp add: insertRecord_def buf cnt)
    moreover have none: "heap_rows F th s ?rid = None" by (simp add: heap_rows_def table_rows_def)
    moreover have "heap_change F th s t ((heap_rows F th s)(?rid \<mapsto> map stored_value vs))"
      using none inv t u v(2) table_rows_append [OF v(3), of ?ps]
      by (auto simp: heap_change_def heap_inv_def heap_rows_def heap_pages_def rowb)
    moreover have "heap_pages F th t = heap_pages F th s + 1" by (simp add: heap_pages_def t(3) u(3))
    ultimately show thesis by (intro that) auto
  qed
qed

subsection \<open>Deleting, updating, reading, scanning\<close>

text \<open>What a visit of one page does is lifted to the table.\<close>

lemma leave_ok:
  assumes inv: "heap_inv F th s" and p: "p < heap_pages F th s"
    and v: "visit (bm_pages F s (hfileId th) ! p) = Leave x"
  obtains t where "with_page (hfileId th) (int p) visit s = (Inr x, t)" "heap_change F th s t (heap_rows F th s)"
proof -
  have idle: "bm_idle F s" and f: "hfileId th \<in> F" using inv by (auto dest: heap_invD)
  obtain t where t: "with_page (hfileId th) (int p) visit s = (Inr x, t)" "bm_idle F t"
    "bm_pages F t = bm_pages F s" "bm_keep t = bm_keep s"
    using with_page_leave [where visit = visit, OF idle f p [unfolded heap_pages_def] v] by blast
  show thesis by (rule that [OF t(1) heap_same [OF inv t(2-4)]])
qed

lemma dirty_ok:
  assumes inv: "heap_inv F th s" and p: "p < heap_pages F th s"
    and v: "visit (bm_pages F s (hfileId th) ! p) = Dirty x pg" "page_num th pg n"
      "page_slot th pg = (page_slot th (bm_pages F s (hfileId th) ! p))(i := y)"
  obtains t where "with_page (hfileId th) (int p) visit s = (Inr x, t)"
    "heap_change F th s t ((heap_rows F th s)(RecordID (int p) (int i) := y))"
proof -
  have idle: "bm_idle F s" and f: "hfileId th \<in> F" using inv by (auto dest: heap_invD)
  have len: "length pg = PAGE_SIZE" using v(2) by (simp add: page_num_def)
  obtain t where t: "with_page (hfileId th) (int p) visit s = (Inr x, t)" "bm_idle F t"
    "bm_pages F t = (bm_pages F s)(hfileId th := (bm_pages F s (hfileId th))[p := pg])" "bm_keep t = bm_keep s"
    using with_page_dirty [where visit = visit, OF idle f p [unfolded heap_pages_def] v(1) len] by blast
  show thesis by (rule that [OF t(1) heap_upd [OF inv p v(2,3) t(2-4)]])
qed

lemma count_ok: "heap_inv F th s \<Longrightarrow> getPageCount (hfileId th) s = (Inr (int (heap_pages F th s)), s)"
  by (simp add: heap_inv_def heap_pages_def pool_count)

lemma heap_change_refl: "heap_inv F th s \<Longrightarrow> heap_change F th s s (heap_rows F th s)"
  by (simp add: heap_change_def)

lemma visit_slot:
  assumes inv: "heap_inv F th s" and p: "p < heap_pages F th s"
  obtains n where "page_num th (bm_pages F s (hfileId th) ! p) n"
    "getNumSlots (bm_pages F s (hfileId th) ! p) = int n"
    "heap_rows F th s (RecordID (int p) (int i)) = page_slot th (bm_pages F s (hfileId th) ! p) i"
    "i < n \<longrightarrow> isSlotAlive (bm_pages F s (hfileId th) ! p) (getSlotPtr th (int i)) =
       Inr (heap_rows F th s (RecordID (int p) (int i)) \<noteq> None)"
    "heap_rows F th s (RecordID (int p) (int i)) \<noteq> None \<longrightarrow> i < n"
proof -
  have ok: "heap_ok th" using inv by (rule heap_invD)
  obtain n where n: "page_num th (bm_pages F s (hfileId th) ! p) n"
    using heap_invD(4) [OF inv p] by blast
  moreover have r: "heap_rows F th s (RecordID (int p) (int i)) = page_slot th (bm_pages F s (hfileId th) ! p) i"
    using p by (simp add: heap_rows_def table_rows_def heap_pages_def)
  moreover have "i < n \<longrightarrow> isSlotAlive (bm_pages F s (hfileId th) ! p) (getSlotPtr th (int i)) =
       Inr (heap_rows F th s (RecordID (int p) (int i)) \<noteq> None)"
    using isSlotAlive_ok [OF ok n] by (simp add: r slot_ptr)
  moreover have "heap_rows F th s (RecordID (int p) (int i)) \<noteq> None \<longrightarrow> i < n"
    using page_slot_None [OF n, of i] by (cases "i < n") (auto simp: r)
  ultimately show thesis using that page_num_len [OF n] by blast
qed

lemma rid_cases:
  obtains (out) "pageId rid < 0 \<or> slotNum rid < 0 \<or> pageId rid \<ge> int (heap_pages F th s)"
    "heap_rows F th s rid = None"
  | (inside) p i where "rid = RecordID (int p) (int i)" "p < heap_pages F th s"
proof (cases "pageId rid < 0 \<or> slotNum rid < 0 \<or> pageId rid \<ge> int (heap_pages F th s)")
  case True
  then show thesis by (intro out) (auto simp: heap_rows_def table_rows_def heap_pages_def)
next
  case False
  then show thesis
    by (intro inside [of "nat (pageId rid)" "nat (slotNum rid)"]) (auto simp: RecordID.expand)
qed

lemma delete_ok:
  assumes inv: "heap_inv F th s"
  obtains t where "deleteRecord th rid s = (Inr (heap_rows F th s rid \<noteq> None), t)"
    "heap_change F th s t ((heap_rows F th s)(rid := None))"
proof (cases rule: rid_cases [of rid F th s])
  case out
  then have "(heap_rows F th s)(rid := None) = heap_rows F th s" by auto
  with out inv show thesis
    by (intro that [of s]) (auto simp: deleteRecord_def count_ok heap_change_refl)
next
  case (inside p i)
  let ?pg = "bm_pages F s (hfileId th) ! p"
  have ok: "heap_ok th" using inv by (rule heap_invD)
  obtain n where n: "page_num th ?pg n" "getNumSlots ?pg = int n"
    "heap_rows F th s (RecordID (int p) (int i)) = page_slot th ?pg i"
    "i < n \<longrightarrow> isSlotAlive ?pg (getSlotPtr th (int i)) = Inr (heap_rows F th s (RecordID (int p) (int i)) \<noteq> None)"
    "heap_rows F th s (RecordID (int p) (int i)) \<noteq> None \<longrightarrow> i < n"
    using inv inside(2) by (rule visit_slot [where i = i])
  have run: "deleteRecord th rid s = with_page (hfileId th) (int p) (delete_visit th (int i)) s"
    using inside by (simp add: deleteRecord_def count_ok [OF inv])
  show thesis
  proof (cases "heap_rows F th s rid")
    case None
    then have v: "delete_visit th (int i) ?pg = Leave False"
      using n inside(1) by (simp add: delete_visit_def)
    obtain t where "with_page (hfileId th) (int p) (delete_visit th (int i)) s = (Inr False, t)"
      "heap_change F th s t (heap_rows F th s)"
      using inv inside(2) v by (rule leave_ok)
    moreover have "(heap_rows F th s)(rid := None) = heap_rows F th s" using None by auto
    ultimately show thesis using None run by (intro that) auto
  next
    case (Some vs)
    then have i: "i < n" using n(5) inside(1) by simp
    obtain pg' where k: "setSlotAlive ?pg (int (slot_at th i)) False = Inr pg'" "page_num th pg' n"
      "page_slot th pg' = (page_slot th ?pg)(i := None)"
      using ok n(1) page_num_max [OF n(1) i] by (rule kill_page)
    have v: "delete_visit th (int i) ?pg = Dirty True pg'"
      using Some n i k(1) inside(1) by (simp add: delete_visit_def edit_exit_def slot_ptr)
    obtain t where "with_page (hfileId th) (int p) (delete_visit th (int i)) s = (Inr True, t)"
      "heap_change F th s t ((heap_rows F th s)(RecordID (int p) (int i) := None))"
      using inv inside(2) v k(2,3) by (rule dirty_ok)
    with Some run inside(1) show thesis by (intro that) auto
  qed
qed

lemma update_ok:
  assumes inv: "heap_inv F th s" and row: "row_ok (hschema th) vs"
  obtains t where "updateRecord th rid vs s = (Inr (heap_rows F th s rid \<noteq> None), t)"
    "heap_change F th s t (if heap_rows F th s rid = None then heap_rows F th s
                           else (heap_rows F th s)(rid \<mapsto> map stored_value vs))"
proof (cases rule: rid_cases [of rid F th s])
  case out
  with inv show thesis
    by (intro that [of s]) (auto simp: updateRecord_def count_ok heap_change_refl)
next
  case (inside p i)
  let ?pg = "bm_pages F s (hfileId th) ! p" and ?buf = "row_bytes (hschema th) vs"
  have ok: "heap_ok th" using inv by (rule heap_invD)
  note buf = record_bytes_ok(1,2) [OF ok row]
  obtain n where n: "page_num th ?pg n" "getNumSlots ?pg = int n"
    "heap_rows F th s (RecordID (int p) (int i)) = page_slot th ?pg i"
    "i < n \<longrightarrow> isSlotAlive ?pg (getSlotPtr th (int i)) = Inr (heap_rows F th s (RecordID (int p) (int i)) \<noteq> None)"
    "heap_rows F th s (RecordID (int p) (int i)) \<noteq> None \<longrightarrow> i < n"
    using inv inside(2) by (rule visit_slot [where i = i])
  have run: "updateRecord th rid vs s = with_page (hfileId th) (int p) (update_visit th ?buf (int i)) s"
    using inside by (simp add: updateRecord_def count_ok [OF inv] buf)
  show thesis
  proof (cases "heap_rows F th s rid")
    case None
    then have v: "update_visit th ?buf (int i) ?pg = Leave False"
      using n inside(1) by (simp add: update_visit_def)
    obtain t where "with_page (hfileId th) (int p) (update_visit th ?buf (int i)) s = (Inr False, t)"
      "heap_change F th s t (heap_rows F th s)"
      using inv inside(2) v by (rule leave_ok)
    with None run show thesis by (intro that) auto
  next
    case (Some old)
    then have i: "i < n" and al: "page_slot th ?pg i \<noteq> None" using n(3,5) inside(1) by simp_all
    obtain pg' where k: "copy_record th ?pg (int (slot_at th i)) ?buf = Inr pg'" "page_num th pg' n"
      "page_slot th pg' = (page_slot th ?pg)(i := if page_slot th ?pg i = None then None
         else Some (row_of (hschema th) ?buf))"
      using ok n(1) page_num_max [OF n(1) i] buf(2) by (rule copy_page)
    have v: "update_visit th ?buf (int i) ?pg = Dirty True pg'"
      using Some n i k(1) inside(1) by (simp add: update_visit_def edit_exit_def slot_ptr)
    obtain t where "with_page (hfileId th) (int p) (update_visit th ?buf (int i)) s = (Inr True, t)"
      "heap_change F th s t ((heap_rows F th s)(RecordID (int p) (int i) := Some (row_of (hschema th) ?buf)))"
      using inv inside(2) v k(2) k(3) [unfolded if_not_P [OF al]] by (rule dirty_ok)
    with Some run inside(1) show thesis by (intro that) (auto simp: row_of_row_bytes [OF row])
  qed
qed

lemma get_visit_ok:
  assumes ok: "heap_ok th" and pg: "page_num th pg n"
  shows "get_visit th (int i) pg = Leave (case page_slot th pg i of
     Some vs \<Rightarrow> Inr \<lparr>rschema = hschema th, rvalues = vs\<rparr>
   | None \<Rightarrow> Inl (Runtime_Error (if i < n then ''Attempt to read deleted record''
                                else ''Invalid RecordID: slot out of range'')))"
proof (cases "i < n")
  case False
  then show ?thesis using page_slot_None [OF pg, of i] page_num_len [OF pg] by (simp add: get_visit_def)
next
  case True
  have im: "i < max_slots th" and num: "getNumSlots pg = int n" and len: "length pg = PAGE_SIZE"
    using True page_num_len [OF pg] by simp_all
  let ?bs = "drop (slot_at th i + 1) pg"
  note D = heap_okD [OF ok]
  have "srecordSize (hschema th) \<le> length ?bs"
    using slot_room [OF im] len D(3,5) by simp
  with D(4) have d: "deserialize (hschema th) ?bs =
      Inr \<lparr>rschema = hschema th, rvalues = row_of (hschema th) (take (hrecordSize th) ?bs)\<rparr>"
    unfolding D(5) by (rule deserialize_row_of)
  have p: "nat (getSlotPtr th (int i) + 1) = slot_at th i + 1" by (simp add: slot_ptr nat_add_distrib)
  show ?thesis
    using isSlotAlive_ok [OF ok pg True] True num d
    unfolding get_visit_def p by (auto simp: slot_ptr page_slot_def)
qed

lemma get_ok:
  assumes inv: "heap_inv F th s" and p: "0 \<le> pageId rid" "pageId rid < int (heap_pages F th s)"
  obtains t m where "getRecord th rid s = (case heap_rows F th s rid of
        Some vs \<Rightarrow> Inr \<lparr>rschema = hschema th, rvalues = vs\<rparr>
      | None \<Rightarrow> Inl (Runtime_Error m), t)" "heap_change F th s t (heap_rows F th s)"
proof -
  let ?p = "nat (pageId rid)" and ?pg = "bm_pages F s (hfileId th) ! nat (pageId rid)"
  have ok: "heap_ok th" using inv by (rule heap_invD)
  have pp: "?p < heap_pages F th s" "int ?p = pageId rid" using p by simp_all
  obtain n where n: "page_num th ?pg n" using heap_invD(4) [OF inv pp(1)] by blast
  have "\<exists>m. get_visit th (slotNum rid) ?pg = Leave (case heap_rows F th s rid of
        Some vs \<Rightarrow> Inr \<lparr>rschema = hschema th, rvalues = vs\<rparr> | None \<Rightarrow> Inl (Runtime_Error m))"
  proof (cases "slotNum rid < 0")
    case True
    then show ?thesis by (simp add: get_visit_def heap_rows_def table_rows_def)
  next
    case False
    then have i: "slotNum rid = int (nat (slotNum rid))" by simp
    have r: "heap_rows F th s rid = page_slot th ?pg (nat (slotNum rid))"
      using p False by (simp add: heap_rows_def table_rows_def heap_pages_def)
    show ?thesis by (subst i) (simp only: get_visit_ok [OF ok n] r, blast)
  qed
  then obtain m where v: "get_visit th (slotNum rid) ?pg = Leave (case heap_rows F th s rid of
        Some vs \<Rightarrow> Inr \<lparr>rschema = hschema th, rvalues = vs\<rparr> | None \<Rightarrow> Inl (Runtime_Error m))"
    by blast
  obtain t where "with_page (hfileId th) (int ?p) (get_visit th (slotNum rid)) s =
      (Inr (case heap_rows F th s rid of
        Some vs \<Rightarrow> Inr \<lparr>rschema = hschema th, rvalues = vs\<rparr> | None \<Rightarrow> Inl (Runtime_Error m)), t)"
    "heap_change F th s t (heap_rows F th s)"
    using inv pp(1) v by (rule leave_ok)
  then show thesis using pp by (intro that) (simp_all add: getRecord_def)
qed

lemma alive_slots_ok:
  assumes "heap_ok th" "page_num th pg n"
  shows "set is \<subseteq> {..<n} \<Longrightarrow>
    alive_slots th pg p (map int is) = Inr (map (\<lambda>i. RecordID p (int i)) (filter (\<lambda>i. page_slot th pg i \<noteq> None) is))"
  using isSlotAlive_ok [OF assms] by (induction "is") (auto simp: slot_ptr)

definition page_rids :: "TableHeap \<Rightarrow> byte list \<Rightarrow> int \<Rightarrow> RecordID list" where
  "page_rids th pg p = map (\<lambda>i. RecordID p (int i)) (filter (\<lambda>i. page_slot th pg i \<noteq> None) [0..<nat (getNumSlots pg)])"

lemma scan_visit_ok: "heap_ok th \<Longrightarrow> page_num th pg n \<Longrightarrow> scan_visit th p pg = Leave (page_rids th pg p)"
  using alive_slots_ok [of th pg n "[0..<n]" p]
  by (simp add: scan_visit_def page_rids_def page_num_len int_upto lessThan_atLeast0)

lemma sorted_page_rids: "sorted_wrt (<) (page_rids th pg q)"
  by (auto simp: page_rids_def sorted_wrt_map less_RecordID_def
      intro!: sorted_wrt_filter intro: sorted_wrt_mono_rel [OF _ sorted_wrt_upt])

lemma page_rids_page: "r \<in> set (page_rids th pg q) \<Longrightarrow> pageId r = q"
  by (auto simp: page_rids_def)

lemma sorted_rids:
  "sorted_wrt (<) (concat (map (\<lambda>p. page_rids th (ps ! p) (int p)) [0..<n]))"
proof (induction n)
  case (Suc n)
  have "r < q" if "pageId r < pageId q" for r q :: RecordID using that by (simp add: less_RecordID_def)
  with Suc show ?case
    by (auto simp: sorted_wrt_append sorted_page_rids dest!: page_rids_page)
qed simp

lemma set_rids:
  "set (concat (map (\<lambda>p. page_rids th (ps ! p) (int p)) [0..<length ps])) = dom (table_rows th ps)"
proof (intro set_eqI iffI)
  fix rid assume "rid \<in> set (concat (map (\<lambda>p. page_rids th (ps ! p) (int p)) [0..<length ps]))"
  then show "rid \<in> dom (table_rows th ps)"
    by (auto simp: page_rids_def table_rows_def)
next
  fix rid assume "rid \<in> dom (table_rows th ps)"
  then have r: "0 \<le> pageId rid" "pageId rid < int (length ps)" "0 \<le> slotNum rid"
    "page_slot th (ps ! nat (pageId rid)) (nat (slotNum rid)) \<noteq> None"
    by (auto simp: table_rows_def split: if_splits)
  then have "slotNum rid < getNumSlots (ps ! nat (pageId rid))"
    by (auto simp: page_slot_def split: if_splits)
  with r have "rid \<in> set (page_rids th (ps ! nat (pageId rid)) (int (nat (pageId rid))))"
    by (cases rid) (force simp: page_rids_def image_iff intro!: bexI [of _ "nat (slotNum rid)"])
  with r show "rid \<in> set (concat (map (\<lambda>p. page_rids th (ps ! p) (int p)) [0..<length ps]))"
    by (auto intro!: bexI [of _ "nat (pageId rid)"])
qed

lemma scan_ok:
  assumes inv: "heap_inv F th s"
  obtains t rids where "tableScan th s = (Inr rids, t)" "heap_change F th s t (heap_rows F th s)"
    "sorted_wrt (<) rids" "set rids = dom (heap_rows F th s)"
proof -
  let ?f = "hfileId th" and ?ps = "bm_pages F s (hfileId th)"
  let ?g = "\<lambda>p. page_rids th (?ps ! p) (int p)"
  have idle: "bm_idle F s" and f: "?f \<in> F" and ok: "heap_ok th"
    using inv by (auto dest: heap_invD)
  have "\<forall>p \<in> set [0..<length ?ps]. p < length ?ps \<and> scan_visit th (int p) (?ps ! p) = Leave (?g p)"
  proof
    fix p assume "p \<in> set [0..<length ?ps]"
    then have p: "p < length ?ps" by simp
    then obtain n where "page_num th (?ps ! p) n" using heap_invD(4) [OF inv, of p] by (auto simp: heap_pages_def)
    with p show "p < length ?ps \<and> scan_visit th (int p) (?ps ! p) = Leave (?g p)"
      by (simp add: scan_visit_ok [OF ok])
  qed
  from with_pages_collect [where visit = "scan_visit th", OF idle f this]
  obtain t where t: "page_collect (\<lambda>p. with_page ?f p (scan_visit th p)) (map int [0..<length ?ps]) s =
      (Inr (concat (map ?g [0..<length ?ps])), t)" "bm_idle F t" "bm_pages F t = bm_pages F s" "bm_keep t = bm_keep s"
    by blast
  have "tableScan th s = (Inr (concat (map ?g [0..<length ?ps])), t)"
    using t(1) by (simp add: tableScan_def count_ok [OF inv] heap_pages_def)
  from this heap_same [OF inv t(2-4)] sorted_rids set_rids [of th ?ps, folded heap_rows_def]
  show thesis by (rule that)
qed

subsection \<open>Redo at a given place\<close>

lemma insertAt_ok:
  assumes inv: "heap_inv F th s" and row: "row_ok (hschema th) vs"
    and p: "p < heap_pages F th s" and i: "i < max_slots th"
  obtains t where "insertAt th (RecordID (int p) (int i)) vs s = (Inr (), t)"
    "heap_change F th s t ((heap_rows F th s)(RecordID (int p) (int i) \<mapsto> map stored_value vs))"
proof -
  let ?pg = "bm_pages F s (hfileId th) ! p" and ?buf = "row_bytes (hschema th) vs"
  have ok: "heap_ok th" using inv by (rule heap_invD)
  note buf = record_bytes_ok(1,2) [OF ok row]
  obtain n where n: "page_num th ?pg n" using heap_invD(4) [OF inv p] by blast
  let ?m = "max n (Suc i)"
  define pg where "pg = (if int i \<ge> getNumSlots ?pg then setNumSlots ?pg (int i + 1) else ?pg)"
  have g: "page_num th pg ?m" "page_slot th pg = page_slot th ?pg"
    using n grow_page [OF ok n, of "Suc i"] page_num_len [OF n] i
    by (cases "n \<le> i"; simp add: pg_def max_absorb1 max_absorb2 add.commute)+
  have im: "i < ?m" by simp
  obtain pg' where k: "fill_slot th pg (int i) ?buf = Inr pg'" "page_num th pg' ?m"
    "page_slot th pg' = (page_slot th pg)(i \<mapsto> row_of (hschema th) ?buf)"
    using ok g(1) im buf(2) by (rule fill_page)
  have v: "insertAt_visit th (int i) vs ?pg = Dirty () pg'"
    using k(1) by (auto simp: insertAt_visit_def pg_def [symmetric] buf fill_slot_def edit_exit_def bindE_eq_Inr)
  have sl: "page_slot th pg' = (page_slot th ?pg)(i := Some (map stored_value vs))"
    using k(3) g(2) by (simp add: row_of_row_bytes [OF row])
  obtain t where "with_page (hfileId th) (int p) (insertAt_visit th (int i) vs) s = (Inr (), t)"
    "heap_change F th s t ((heap_rows F th s)(RecordID (int p) (int i) := Some (map stored_value vs)))"
    using inv p v k(2) sl by (rule dirty_ok)
  then show thesis by (intro that) (simp_all add: insertAt_def)
qed

lemma deleteAt_ok:
  assumes inv: "heap_inv F th s" and p: "p < heap_pages F th s" and i: "i < max_slots th"
  obtains t where "deleteAt th (RecordID (int p) (int i)) s = (Inr (), t)"
    "heap_change F th s t ((heap_rows F th s)(RecordID (int p) (int i) := None))"
proof -
  let ?pg = "bm_pages F s (hfileId th) ! p"
  let ?V = "\<lambda>page. edit_exit () page (setSlotAlive page (getSlotPtr th (int i)) False)"
  have ok: "heap_ok th" using inv by (rule heap_invD)
  obtain n where n: "page_num th ?pg n" using heap_invD(4) [OF inv p] by blast
  obtain pg' where k: "setSlotAlive ?pg (int (slot_at th i)) False = Inr pg'" "page_num th pg' n"
    "page_slot th pg' = (page_slot th ?pg)(i := None)"
    using ok n i by (rule kill_page)
  have v: "?V ?pg = Dirty () pg'" using k(1) by (simp add: edit_exit_def slot_ptr)
  obtain t where "with_page (hfileId th) (int p) ?V s = (Inr (), t)"
    "heap_change F th s t ((heap_rows F th s)(RecordID (int p) (int i) := None))"
    using inv p v k(2,3) by (rule dirty_ok)
  then show thesis by (intro that) (simp_all add: deleteAt_def)
qed

lemma updateAt_ok:
  assumes inv: "heap_inv F th s" and row: "row_ok (hschema th) vs"
    and p: "p < heap_pages F th s" and i: "i < max_slots th"
  obtains t where "updateAt th (RecordID (int p) (int i)) vs s = (Inr (), t)"
    "heap_change F th s t ((heap_rows F th s)(RecordID (int p) (int i) :=
       if heap_rows F th s (RecordID (int p) (int i)) = None then None else Some (map stored_value vs)))"
proof -
  let ?pg = "bm_pages F s (hfileId th) ! p" and ?buf = "row_bytes (hschema th) vs"
  have ok: "heap_ok th" using inv by (rule heap_invD)
  note buf = record_bytes_ok(1,2) [OF ok row]
  obtain n where n: "page_num th ?pg n" "getNumSlots ?pg = int n"
    "heap_rows F th s (RecordID (int p) (int i)) = page_slot th ?pg i"
    using inv p by (rule visit_slot [where i = i])
  obtain pg' where k: "copy_record th ?pg (int (slot_at th i)) ?buf = Inr pg'" "page_num th pg' n"
    "page_slot th pg' = (page_slot th ?pg)(i := if page_slot th ?pg i = None then None
       else Some (row_of (hschema th) ?buf))"
    using ok n(1) i buf(2) by (rule copy_page)
  have v: "updateAt_visit th (int i) vs ?pg = Dirty () pg'"
    using k(1) by (simp add: updateAt_visit_def buf edit_exit_def slot_ptr)
  obtain t where "with_page (hfileId th) (int p) (updateAt_visit th (int i) vs) s = (Inr (), t)"
    "heap_change F th s t ((heap_rows F th s)(RecordID (int p) (int i) :=
       if page_slot th ?pg i = None then None else Some (row_of (hschema th) ?buf)))"
    using inv p v k(2,3) by (rule dirty_ok)
  then show thesis by (intro that) (auto simp: updateAt_def n(3) row_of_row_bytes [OF row])
qed

subsection \<open>Opening a table file\<close>

definition disk_pages :: "byte list \<Rightarrow> byte list list" where
  "disk_pages bs = map (\<lambda>p. take PAGE_SIZE (drop (p * PAGE_SIZE) bs)) [0..<length bs div PAGE_SIZE]"

definition whole_pages :: "byte list \<Rightarrow> bool" where
  "whole_pages bs \<longleftrightarrow> PAGE_SIZE dvd length bs \<and> int (length bs div PAGE_SIZE) < 2 ^ 31"

lemma no_pages [simp]: "disk_pages [] = []" "whole_pages []"
  by (simp_all add: disk_pages_def whole_pages_def)

lemma openFile_pages:
  assumes idle: "bm_idle F s" and new: "files s (nextFileId s) = None" "\<not> denied s path"
    "whole_pages (contents s path)" "path \<notin> file_path s ` F"
  obtains u where "openFile path s = (Inr (nextFileId s), u)" "bm_idle (insert (nextFileId s) F) u"
    "bm_pages (insert (nextFileId s) F) u = (bm_pages F s)(nextFileId s := disk_pages (contents s path))"
    "bm_state.more u = bm_state.more s" "poolSize u = poolSize s" "pins u = pins s"
    "nextFileId u = nextFileId s + 1" "denied u = denied s"
    "files u = (files s)(nextFileId s \<mapsto> \<lparr>fpath = path, freeList = [], failbit = False\<rparr>)"
    "\<forall>q. contents u q = contents s q"
proof -
  let ?fid = "nextFileId s"
  define u where "u = s\<lparr>nextFileId := ?fid + 1, disk := (disk s)(path \<mapsto> contents s path),
    files := (files s)(?fid \<mapsto> \<lparr>fpath = path, freeList = [], failbit = False\<rparr>)\<rparr>"
  have run: "openFile path s = (Inr ?fid, u)"
    using new by (simp add: openFile_def Let_def u_def contents_def)
  have inv: "bm_inv F s" using idle by (simp add: bm_idle_def)
  have P: "pool_ok s" and FO: "files_ok F s" and C: "cached_ok F s" using inv by (rule bm_invD)+
  have nF: "?fid \<notin> F" using FO new(1) by (auto simp: files_ok_def file_ok_def)
  have c: "contents u = contents s" by (auto simp: fun_eq_iff contents_def u_def)
  have fp: "file_path u g = (if g = ?fid then path else file_path s g)" for g
    by (simp add: file_path_def u_def)
  have g: "fcount u g = fcount s g" "fpage u g = fpage s g" "file_ok u g = file_ok s g"
    "freeList (the (files u g)) = freeList (the (files s g))" if "g \<noteq> ?fid" for g
    using that by (simp_all add: fun_eq_iff fcount_def fpage_def file_ok_def c fp) (simp_all add: u_def)
  have new_ok: "file_ok u ?fid" "fcount u ?fid = length (contents s path) div PAGE_SIZE" "freeList (the (files u ?fid)) = []"
    using new(3) by (simp_all add: file_ok_def fcount_def whole_pages_def c fp) (simp_all add: u_def)
  have fr: "frames u = frames s" "pageTable u = pageTable s" "poolSize u = poolSize s"
    by (simp_all add: u_def)
  have gF: "h \<noteq> ?fid" if "h \<in> F" for h using that nF by auto
  have "files_ok (insert ?fid F) u"
    unfolding files_ok_def
  proof (intro conjI ballI)
    fix h assume "h \<in> insert ?fid F"
    then show "file_ok u h" "freeList (the (files u h)) = []"
      using new_ok g(3,4) [of h] FO by (cases "h = ?fid"; auto simp: files_ok_def)+
  next
    show "inj_on (file_path u) (insert ?fid F)"
      using FO nF new(4) by (auto simp: files_ok_def inj_on_def fp)
  qed
  moreover have "cached_ok (insert ?fid F) u"
    using C g(1,2) gF unfolding cached_ok_def fr by (metis insertI2)
  moreover have "pool_ok u" using P by (simp add: pool_ok_def fr)
  moreover have pu: "pins u = pins s" by (simp add: fun_eq_iff pins_def fr split: option.split)
  ultimately have open_idle: "bm_idle (insert ?fid F) u" using idle by (simp add: bm_idle_def pinned_pages_def bm_inv_def fr)
  have "view u h = view s h" if "h \<noteq> ?fid" for h
    using g(2) [OF that] by (simp add: fun_eq_iff view_def fr split: option.split)
  moreover have "view u ?fid p = take PAGE_SIZE (drop (p * PAGE_SIZE) (contents s path))" for p
  proof -
    have "pageTable u (?fid, int p) = None"
      using P C nF unfolding fr pool_ok_def cached_ok_def by (metis fst_conv not_None_eq)
    then show ?thesis by (simp add: view_def fpage_def c fp)
  qed
  ultimately have "bm_pages (insert ?fid F) u = (bm_pages F s)(?fid := disk_pages (contents s path))"
    using g(1) new_ok(2) gF by (auto simp: fun_eq_iff bm_pages_def disk_pages_def)
  moreover have "bm_idle (insert ?fid F) u" by (rule open_idle)
  ultimately show thesis using run pu by (intro that [of u]) (simp_all add: fr c, simp_all add: u_def)
qed

lemma openFile_new:
  assumes idle: "bm_idle F s" and new: "files s (nextFileId s) = None" "\<not> denied s path"
    "contents s path = []" "path \<notin> file_path s ` F"
  obtains u where "openFile path s = (Inr (nextFileId s), u)" "bm_idle (insert (nextFileId s) F) u"
    "bm_pages (insert (nextFileId s) F) u = (bm_pages F s)(nextFileId s := [])"
    "bm_state.more u = bm_state.more s" "poolSize u = poolSize s" "pins u = pins s"
    "nextFileId u = nextFileId s + 1" "denied u = denied s"
    "files u = (files s)(nextFileId s \<mapsto> \<lparr>fpath = path, freeList = [], failbit = False\<rparr>)"
    "\<forall>q. contents u q = contents s q"
  by (rule openFile_pages [OF idle new(1,2) _ new(4)]) (use new(3) that in simp_all)

lemma new_TableHeap_ok:
  assumes idle: "bm_idle F s" and new: "files s (nextFileId s) = None" "\<not> denied s path"
    "contents s path = []" "path \<notin> file_path s ` F"
    and sch: "schema_ok schema" "getRecordSize schema + 5 \<le> PAGE_SIZE"
  obtains th t where "new_TableHeap path schema s = (Inr th, t)" "hfileId th = nextFileId s"
    "hschema th = schema" "heap_inv (insert (nextFileId s) F) th t"
    "heap_rows (insert (nextFileId s) F) th t = Map.empty" "heap_pages (insert (nextFileId s) F) th t = 1"
    "\<forall>g. g \<noteq> nextFileId s \<longrightarrow> bm_pages (insert (nextFileId s) F) t g = bm_pages F s g"
    "bm_state.more t = bm_state.more s" "poolSize t = poolSize s" "pins t = pins s" "nextFileId t = nextFileId s + 1"
    "denied t = denied s" "files t = (files s)(nextFileId s \<mapsto> \<lparr>fpath = path, freeList = [], failbit = False\<rparr>)"
proof -
  let ?fid = "nextFileId s" and ?rs = "srecordSize schema"
  let ?F = "insert (nextFileId s) F"
  define th where "th = \<lparr>hfileId = ?fid, hschema = schema, hrecordSize = ?rs, hslotSize = ?rs + 1,
    hmaxSlots = to_int32 (int ((PAGE_SIZE - 4) div (?rs + 1)))\<rparr>"
  have th: "hfileId th = ?fid" "hschema th = schema" by (simp_all add: th_def)
  have d: "(PAGE_SIZE - 4) div (?rs + 1) \<le> PAGE_SIZE" by (rule order_trans [OF div_le_dividend diff_le_self])
  have "0 < (PAGE_SIZE - 4) div (?rs + 1)"
    using sch(2) by (simp add: div_greater_zero_iff getRecordSize_def)
  with d sch(1) have ok: "heap_ok th"
    by (simp add: heap_ok_def th_def to_int32_id PAGE_SIZE_def)
  obtain u where u: "openFile path s = (Inr ?fid, u)" "bm_idle ?F u" "bm_pages ?F u = (bm_pages F s)(?fid := [])"
    "bm_state.more u = bm_state.more s" "poolSize u = poolSize s" "pins u = pins s"
    "nextFileId u = nextFileId s + 1" "denied u = denied s"
    "files u = (files s)(?fid \<mapsto> \<lparr>fpath = path, freeList = [], failbit = False\<rparr>)"
    "\<forall>q. contents u q = contents s q"
    using idle new by (rule openFile_new)
  have cnt: "getPageCount ?fid u = (Inr 0, u)" using pool_count [OF u(2), of ?fid] u(3) by simp
  let ?pg = "setNumSlots zero_page (int 0)"
  note g = grow_page [OF ok zero_page_num order_refl le0]
  have v: "init_page th zero_page = Dirty () ?pg" by (simp add: init_page_def)
  have len: "length ?pg = PAGE_SIZE" using g(1) by (simp add: page_num_def)
  have r: "int (length (bm_pages ?F u ?fid)) + 1 < 2 ^ 31" using u(3) by simp
  obtain t where t: "bindM (allocatePage ?fid) (\<lambda>p. with_page ?fid p (init_page th)) u = (Inr (), t)"
    "bm_idle ?F t" "bm_pages ?F t = (bm_pages ?F u)(?fid := bm_pages ?F u ?fid @ [?pg])" "bm_keep t = bm_keep u"
    using with_page_append [where visit = "init_page th", OF u(2) insertI1 r v len] by blast
  have "new_TableHeap path schema s = (Inr th, t)"
    using u(1) cnt t(1) by (simp add: new_TableHeap_def Let_def getRecordSize_def th_def)
  moreover have "heap_inv ?F th t"
    using t u(3) ok g(1) by (auto simp: heap_inv_def th)
  moreover have "heap_rows ?F th t = Map.empty"
  proof
    fix rid
    have "page_slot th ?pg i = None" for i
      using page_slot_None [OF g(1)] by simp
    then show "heap_rows ?F th t rid = None"
      using t(3) u(3) by (simp add: heap_rows_def table_rows_def th)
  qed
  moreover have "heap_pages ?F th t = 1" using t(3) u(3) by (simp add: heap_pages_def th)
  moreover have "bm_pages ?F t g = bm_pages F s g" if "g \<noteq> ?fid" for g using that t(3) u(3) by simp
  moreover have "bm_rest t = bm_rest u" "pins t = pins u" using bm_keepD [OF t(4)] by simp_all
  ultimately show thesis using th u(4-9) by (intro that [of th t]) (auto simp: bm_rest_def)
qed

subsection \<open>The contract of a row store\<close>

text \<open>
  What the layers above a table heap rely on: a finite map from record identifiers to rows that the
  operations change one entry at a time, and a scan that lists its domain in order. \<open>fetch_all\<close> is
  the way those layers read a table: fetch each record of a scan.
\<close>

fun fetch_all :: "('r \<Rightarrow> ('s, 'v) io) \<Rightarrow> 'r list \<Rightarrow> ('s, 'v list) io" where
  "fetch_all get [] = retM []"
| "fetch_all get (rid # rids) = bindM (get rid) (\<lambda>v. bindM (fetch_all get rids) (\<lambda>vs. retM (v # vs)))"

locale row_store =
  fixes inv :: "'s \<Rightarrow> bool"
    and room :: "'s \<Rightarrow> bool"
    and rows :: "'s \<Rightarrow> 'r::linorder \<rightharpoonup> 'v"
    and accept :: "'v \<Rightarrow> bool"
    and stored :: "'v \<Rightarrow> 'v"
    and ins :: "'v \<Rightarrow> ('s, 'r) io"
    and del :: "'r \<Rightarrow> ('s, bool) io"
    and upd :: "'r \<Rightarrow> 'v \<Rightarrow> ('s, bool) io"
    and get :: "'r \<Rightarrow> ('s, 'v) io"
    and scan :: "('s, 'r list) io"
  assumes ins_law: "inv s \<Longrightarrow> accept v \<Longrightarrow> room s \<Longrightarrow>
      \<exists>rid t. ins v s = (Inr rid, t) \<and> rows s rid = None \<and> inv t \<and> rows t = (rows s)(rid \<mapsto> stored v)"
    and del_law: "inv s \<Longrightarrow>
      \<exists>t. del rid s = (Inr (rows s rid \<noteq> None), t) \<and> inv t \<and> rows t = (rows s)(rid := None)"
    and upd_law: "inv s \<Longrightarrow> accept v \<Longrightarrow>
      \<exists>t. upd rid v s = (Inr (rows s rid \<noteq> None), t) \<and> inv t \<and>
        rows t = (if rows s rid = None then rows s else (rows s)(rid \<mapsto> stored v))"
    and get_law: "inv s \<Longrightarrow> rows s rid = Some v \<Longrightarrow> \<exists>t. get rid s = (Inr v, t) \<and> inv t \<and> rows t = rows s"
    and scan_law: "inv s \<Longrightarrow>
      \<exists>rids t. scan s = (Inr rids, t) \<and> inv t \<and> rows t = rows s \<and> sorted_wrt (<) rids \<and> set rids = dom (rows s)"
begin

lemma fetch_all_ok:
  "inv s \<Longrightarrow> set rids \<subseteq> dom (rows s) \<Longrightarrow>
     \<exists>t. fetch_all get rids s = (Inr (map (\<lambda>rid. the (rows s rid)) rids), t) \<and> inv t \<and> rows t = rows s"
proof (induction rids arbitrary: s)
  case (Cons rid rids)
  then obtain v where v: "rows s rid = Some v" by auto
  obtain t where t: "get rid s = (Inr v, t)" "inv t" "rows t = rows s"
    using get_law [OF Cons.prems(1) v] by auto
  from Cons.IH [OF t(2)] Cons.prems(2) t v show ?case by auto
qed simp

lemma scan_fetch_all:
  assumes "inv s"
  shows "\<exists>t. bindM scan (fetch_all get) s =
      (Inr (map (\<lambda>rid. the (rows s rid)) (sorted_list_of_set (dom (rows s)))), t) \<and> inv t \<and> rows t = rows s"
proof -
  obtain rids t where t: "scan s = (Inr rids, t)" "inv t" "rows t = rows s" "sorted_wrt (<) rids"
    "set rids = dom (rows s)"
    using scan_law [OF assms] by auto
  have "sorted_list_of_set (dom (rows s)) = rids"
    using t(4,5) by (metis sorted_list_of_set.idem_if_sorted_distinct strict_sorted_iff)
  with fetch_all_ok [OF t(2), of rids] t show ?thesis by auto
qed

lemma insert_then_read:
  assumes "inv s" "accept v" "room s"
  shows "\<exists>rid t u. ins v s = (Inr rid, t) \<and> get rid t = (Inr (stored v), u) \<and> inv u \<and>
    rows u = (rows s)(rid \<mapsto> stored v)"
proof -
  obtain rid t where t: "ins v s = (Inr rid, t)" "inv t" "rows t = (rows s)(rid \<mapsto> stored v)"
    using ins_law [OF assms] by auto
  from t get_law [OF t(2), of rid "stored v"] show ?thesis by fastforce
qed

lemma insert_then_delete:
  assumes "inv s" "accept v" "room s"
  shows "\<exists>rid t u. ins v s = (Inr rid, t) \<and> del rid t = (Inr True, u) \<and> inv u \<and> rows u = rows s"
proof -
  obtain rid t where t: "ins v s = (Inr rid, t)" "rows s rid = None" "inv t" "rows t = (rows s)(rid \<mapsto> stored v)"
    using ins_law [OF assms] by auto
  have "(rows s)(rid := None) = rows s" using t(2) by auto
  with t del_law [OF t(3), of rid] show ?thesis by fastforce
qed

end

text \<open>A table heap is a row store, with the values of the record as the row.\<close>

definition getRow :: "TableHeap \<Rightarrow> RecordID \<Rightarrow> ('a bm_state_scheme, FieldValue list) io" where
  "getRow th rid = bindM (getRecord th rid) (\<lambda>r. retM (getValues r))"

lemma getRow_ok:
  assumes inv: "heap_inv F th s" and r: "heap_rows F th s rid = Some vs"
  obtains t where "getRow th rid s = (Inr vs, t)" "heap_change F th s t (heap_rows F th s)"
proof -
  have p: "0 \<le> pageId rid" "pageId rid < int (heap_pages F th s)"
    using r by (auto simp: heap_rows_def table_rows_def heap_pages_def split: if_splits)
  obtain t m where "getRecord th rid s = (case heap_rows F th s rid of
        Some vs \<Rightarrow> Inr \<lparr>rschema = hschema th, rvalues = vs\<rparr>
      | None \<Rightarrow> Inl (Runtime_Error m), t)" "heap_change F th s t (heap_rows F th s)"
    using inv p by (rule get_ok)
  with r show thesis by (intro that) (simp_all add: getRow_def getValues_def)
qed

interpretation heap: row_store "heap_inv F th" "\<lambda>s. int (heap_pages F th s) + 1 < 2 ^ 31" "heap_rows F th"
    "row_ok (hschema th)" "map stored_value" "insertRecord th" "deleteRecord th" "updateRecord th"
    "getRow th" "tableScan th" for F th
proof (unfold_locales, goal_cases)
  case (1 s v)
  then show ?case by (elim insert_ok) (auto simp: heap_change_def)
next
  case (2 s rid)
  then show ?case by (elim delete_ok) (auto simp: heap_change_def)
next
  case (3 s v rid)
  from 3 show ?case by (elim update_ok [where rid = rid]) (auto simp: heap_change_def)
next
  case (4 s rid v)
  then show ?case by (elim getRow_ok) (auto simp: heap_change_def)
next
  case (5 s)
  then show ?case by (elim scan_ok) (auto simp: heap_change_def)
qed

subsection \<open>Properties\<close>

lemma ex_heap:
  obtains th and s :: bm_state where "heap_inv {2, 1} th s" "hschema th = ex_schema" "hfileId th = 2"
    "heap_rows {2, 1} th s = Map.empty" "heap_pages {2, 1} th s = 1"
proof -
  have new: "files ex_bm (nextFileId ex_bm) = None" "\<not> denied ex_bm ''u.dat''" "contents ex_bm ''u.dat'' = []"
    "''u.dat'' \<notin> file_path ex_bm ` {1}" "nextFileId ex_bm = 2"
    by (simp_all add: ex_bm_def bm_init_def ex_fm_def fm_state.defs bm_state.defs contents_def file_path_def)
  have sz: "getRecordSize ex_schema + 5 \<le> PAGE_SIZE" by (simp add: getRecordSize_def ex_schema_def PAGE_SIZE_def)
  obtain th t where "new_TableHeap ''u.dat'' ex_schema ex_bm = (Inr th, t)" "hfileId th = nextFileId ex_bm"
    "hschema th = ex_schema" "heap_inv (insert (nextFileId ex_bm) {1}) th t"
    "heap_rows (insert (nextFileId ex_bm) {1}) th t = Map.empty"
    "heap_pages (insert (nextFileId ex_bm) {1}) th t = 1"
    "\<forall>g. g \<noteq> nextFileId ex_bm \<longrightarrow> bm_pages (insert (nextFileId ex_bm) {1}) t g = bm_pages {1} ex_bm g"
    "bm_state.more t = bm_state.more ex_bm" "poolSize t = poolSize ex_bm" "pins t = pins ex_bm"
    "nextFileId t = nextFileId ex_bm + 1" "denied t = denied ex_bm"
    "files t = (files ex_bm)(nextFileId ex_bm \<mapsto> \<lparr>fpath = ''u.dat'', freeList = [], failbit = False\<rparr>)"
    using ex_bm_ok(1) new(1-4) ex_schema_ok(2) sz by (rule new_TableHeap_ok)
  then show thesis using new(5) by (intro that [of th t]) simp_all
qed

text \<open>
  A table heap on a new file is empty: the constructor opens the file, initialises its first page
  and establishes the heap's invariant with no row, whatever the pool holds, and the pages of the
  files that were in use do not change.
\<close>

theorem new_TableHeap_empty:
  assumes "bm_idle F s" "files s (nextFileId s) = None" "\<not> denied s path" "contents s path = []"
    "path \<notin> file_path s ` F" "new_Schema cols = Inr schema" "getRecordSize schema + 5 \<le> PAGE_SIZE"
  shows "\<exists>th t. new_TableHeap path schema s = (Inr th, t) \<and> heap_inv (insert (hfileId th) F) th t \<and>
    heap_rows (insert (hfileId th) F) th t = Map.empty \<and>
    (\<forall>g \<in> F. bm_pages (insert (hfileId th) F) t g = bm_pages F s g)"
proof -
  have sch: "schema_ok schema" using assms(6) by (simp add: new_Schema_ok)
  have "nextFileId s \<notin> F"
    using assms(1,2) by (auto simp: bm_idle_def bm_inv_def files_ok_def file_ok_def)
  moreover obtain th t where "new_TableHeap path schema s = (Inr th, t)" "hfileId th = nextFileId s"
    "hschema th = schema" "heap_inv (insert (nextFileId s) F) th t"
    "heap_rows (insert (nextFileId s) F) th t = Map.empty" "heap_pages (insert (nextFileId s) F) th t = 1"
    "\<forall>g. g \<noteq> nextFileId s \<longrightarrow> bm_pages (insert (nextFileId s) F) t g = bm_pages F s g"
    "bm_state.more t = bm_state.more s" "poolSize t = poolSize s" "pins t = pins s" "nextFileId t = nextFileId s + 1"
    "denied t = denied s" "files t = (files s)(nextFileId s \<mapsto> \<lparr>fpath = path, freeList = [], failbit = False\<rparr>)"
    using assms(1-5) sch assms(7) by (rule new_TableHeap_ok)
  ultimately show ?thesis by (intro exI [of _ th] exI [of _ t]) (simp, metis)
qed

theorem new_TableHeap_empty_witness:
  "\<exists>th t. new_TableHeap ''u.dat'' ex_schema ex_bm = (Inr th, t) \<and>
     heap_rows (insert (hfileId th) {1}) th t = Map.empty"
proof -
  have "files ex_bm (nextFileId ex_bm) = None" "\<not> denied ex_bm ''u.dat''" "contents ex_bm ''u.dat'' = []"
    "''u.dat'' \<notin> file_path ex_bm ` {1}"
    by (simp_all add: ex_bm_def bm_init_def ex_fm_def fm_state.defs bm_state.defs contents_def file_path_def)
  moreover have "getRecordSize ex_schema + 5 \<le> PAGE_SIZE"
    by (simp add: getRecordSize_def ex_schema_def PAGE_SIZE_def)
  ultimately show ?thesis
    using new_TableHeap_empty [OF ex_bm_ok(1) _ _ _ _ ex_schema_ok(1), of "''u.dat''"] by blast
qed

text \<open>
  C9: Inserting a row into a table puts it at a record identifier that held no row, and changes nothing
  else: the table's map from identifiers to rows gains this entry, the other files keep their pages,
  and the row reads back, with its strings cut at their first zero byte.
\<close>

theorem insertRecord_refines:
  assumes "heap_inv F th s" "row_ok (hschema th) vs" "int (heap_pages F th s) + 1 < 2 ^ 31"
  shows "\<exists>rid t. insertRecord th vs s = (Inr rid, t) \<and> heap_rows F th s rid = None \<and>
    heap_change F th s t ((heap_rows F th s)(rid \<mapsto> map stored_value vs)) \<and>
    fst (getRow th rid t) = Inr (map stored_value vs)"
proof -
  obtain rid t where t: "insertRecord th vs s = (Inr rid, t)" "heap_rows F th s rid = None"
    "heap_change F th s t ((heap_rows F th s)(rid \<mapsto> map stored_value vs))"
    using assms by (rule insert_ok)
  then have "heap_inv F th t" "heap_rows F th t rid = Some (map stored_value vs)"
    by (simp_all add: heap_change_def)
  then obtain u where "getRow th rid t = (Inr (map stored_value vs), u)" by (rule getRow_ok)
  with t show ?thesis by auto
qed

theorem insertRecord_refines_witness:
  "\<exists>th (s :: bm_state) rid t. insertRecord th [FInt 7, FStr ''abc''] s = (Inr rid, t) \<and>
     fst (getRow th rid t) = Inr [FInt 7, FStr ''abc'']"
proof -
  obtain th and s :: bm_state where s: "heap_inv {2, 1} th s" "hschema th = ex_schema" "heap_pages {2, 1} th s = 1"
    by (rule ex_heap)
  from insertRecord_refines [OF s(1), of "[FInt 7, FStr ''abc'']"] s(2,3) ex_schema_ok(3)
  show ?thesis by (auto simp: zero_byte_def)
qed

text \<open>
  C34: Deleting and updating a record act on its entry alone and report whether it was there: for any
  record identifier, also out of range ones and tombstones, the result is true exactly when the
  identifier held a row.
\<close>

theorem delete_update_refine:
  assumes "heap_inv F th s" "row_ok (hschema th) vs"
  shows "(\<exists>t. deleteRecord th rid s = (Inr (heap_rows F th s rid \<noteq> None), t) \<and>
      heap_change F th s t ((heap_rows F th s)(rid := None))) \<and>
    (\<exists>t. updateRecord th rid vs s = (Inr (heap_rows F th s rid \<noteq> None), t) \<and>
      heap_change F th s t (if heap_rows F th s rid = None then heap_rows F th s
                            else (heap_rows F th s)(rid \<mapsto> map stored_value vs)))"
  using delete_ok [OF assms(1), of rid] update_ok [OF assms, of rid] by (intro conjI) metis+

theorem delete_update_refine_witness:
  "\<exists>th (s :: bm_state) t. deleteRecord th (RecordID 0 5) s = (Inr False, t)"
proof -
  obtain th and s :: bm_state where s: "heap_inv {2, 1} th s" "hschema th = ex_schema"
    "heap_rows {2, 1} th s = Map.empty" by (rule ex_heap)
  from delete_update_refine [OF s(1), of "[FInt 7, FStr ''abc'']" "RecordID 0 5"] s(2,3) ex_schema_ok(3)
  show ?thesis by auto
qed

text \<open>
  C35: A scan lists the identifiers of exactly the rows of the table, each once and in page and slot
  order, and fetching them one after the other gives the rows of the table in this order, leaving
  the table as it is.
\<close>

theorem scan_fetch_table:
  assumes "heap_inv F th s"
  shows "\<exists>t. bindM (tableScan th) (fetch_all (getRow th)) s =
      (Inr (map (\<lambda>rid. the (heap_rows F th s rid)) (sorted_list_of_set (dom (heap_rows F th s)))), t) \<and>
    heap_inv F th t \<and> heap_rows F th t = heap_rows F th s"
  using heap.scan_fetch_all [OF assms] .

theorem scan_fetch_table_witness:
  "\<exists>th (s :: bm_state) t. bindM (tableScan th) (fetch_all (getRow th)) s = (Inr [], t)"
proof -
  obtain th and s :: bm_state where s: "heap_inv {2, 1} th s" "heap_rows {2, 1} th s = Map.empty" by (rule ex_heap)
  from scan_fetch_table [OF s(1)] s(2) show ?thesis by auto
qed

text \<open>
  Redoing an insert at a logged place, on a table in any state, makes the place hold the logged row
  and changes no other entry, and redoing it once more changes nothing: for every slot that fits a
  page, used or not, alive or a tombstone.
\<close>

theorem insertAt_idempotent:
  assumes "heap_inv F th s" "row_ok (hschema th) vs" "p < heap_pages F th s" "i < max_slots th"
  shows "\<exists>t u. insertAt th (RecordID (int p) (int i)) vs s = (Inr (), t) \<and>
    heap_change F th s t ((heap_rows F th s)(RecordID (int p) (int i) \<mapsto> map stored_value vs)) \<and>
    insertAt th (RecordID (int p) (int i)) vs t = (Inr (), u) \<and>
    heap_change F th s u (heap_rows F th t)"
proof -
  let ?rid = "RecordID (int p) (int i)"
  obtain t where t: "insertAt th ?rid vs s = (Inr (), t)"
    "heap_change F th s t ((heap_rows F th s)(?rid \<mapsto> map stored_value vs))"
    using assms by (rule insertAt_ok)
  have inv: "heap_inv F th t" and r: "heap_rows F th t = (heap_rows F th s)(?rid \<mapsto> map stored_value vs)"
    using t(2) by (simp_all add: heap_change_def)
  have "p < heap_pages F th t"
    using fun_cong [OF r, of ?rid] by (simp add: heap_rows_def table_rows_def heap_pages_def split: if_splits)
  from inv assms(2) this assms(4) obtain u where "insertAt th ?rid vs t = (Inr (), u)"
    "heap_change F th t u ((heap_rows F th t)(?rid \<mapsto> map stored_value vs))"
    by (rule insertAt_ok)
  with t r show ?thesis by (auto simp: heap_change_def)
qed

theorem insertAt_idempotent_witness:
  "\<exists>th (s :: bm_state) t u. insertAt th (RecordID 0 3) [FInt 7, FStr ''abc''] s = (Inr (), t) \<and>
     insertAt th (RecordID 0 3) [FInt 7, FStr ''abc''] t = (Inr (), u)"
proof -
  obtain th and s :: bm_state where s: "heap_inv {2, 1} th s" "hschema th = ex_schema" "heap_pages {2, 1} th s = 1"
    by (rule ex_heap)
  have "hslotSize th = 10"
    using heap_okD(3,5) [OF heap_invD(3) [OF s(1)]] s(2) by (simp add: ex_schema_def)
  then have "3 < max_slots th" by (simp add: max_slots_def PAGE_SIZE_def)
  with insertAt_idempotent [OF s(1), of "[FInt 7, FStr ''abc'']" 0 3] s(2,3) ex_schema_ok(3)
  show ?thesis by auto
qed

text \<open>
  Redoing an insert of a row that the schema rejects leaks a pin: the page was fetched and its slot
  marked alive before the record's constructor throws, so the page's pin count stays one too high, and
  nothing ever takes this pin back. No other page's pin count changes.
\<close>

theorem insertAt_leaks_pin:
  assumes inv: "heap_inv F th s" and bad: "\<not> row_ok (hschema th) vs"
    and p: "p < heap_pages F th s" and i: "i < max_slots th"
  shows "\<exists>t m. insertAt th (RecordID (int p) (int i)) vs s = (Inl (Runtime_Error m), t) \<and>
    pins t = (pins s)((hfileId th, int p) := pins s (hfileId th, int p) + 1)"
proof -
  let ?f = "hfileId th" and ?pg = "bm_pages F s (hfileId th) ! p"
  have ok: "heap_ok th" and idle: "bm_idle F s" and f: "?f \<in> F" using inv by (auto dest: heap_invD)
  obtain m where m: "record_bytes th vs = Inl (Runtime_Error m)"
    using record_bytes_ok(3) [OF ok bad] by blast
  obtain n where n: "page_num th ?pg n" using heap_invD(4) [OF inv p] by blast
  have "length (if int i \<ge> getNumSlots ?pg then setNumSlots ?pg (int i + 1) else ?pg) = PAGE_SIZE"
    using page_num_len [OF n] by (simp add: setNumSlots_def PAGE_SIZE_def)
  then obtain d where v: "insertAt_visit th (int i) vs ?pg = Abandon (Runtime_Error m) d"
    using slot_room [OF i] heap_okD(3) [OF ok] m
    by (auto simp: insertAt_visit_def slot_ptr setSlotAlive_def)
  obtain t where t: "with_page ?f (int p) (insertAt_visit th (int i) vs) s = (Inl (Runtime_Error m), t)"
    "pins t = (pins s)((?f, int p) := pins s (?f, int p) + 1)"
    using with_page_abandon [where visit = "insertAt_visit th (int i) vs", OF idle f p [unfolded heap_pages_def] v] by blast
  then show ?thesis unfolding insertAt_def by auto
qed

theorem insertAt_leaks_pin_witness:
  "\<exists>th (s :: bm_state) t m. insertAt th (RecordID 0 0) [FInt 7] s = (Inl (Runtime_Error m), t) \<and>
     pins t (hfileId th, 0) = pins s (hfileId th, 0) + 1"
proof -
  obtain th and s :: bm_state where s: "heap_inv {2, 1} th s" "hschema th = ex_schema" "heap_pages {2, 1} th s = 1"
    by (rule ex_heap)
  have "\<not> row_ok (hschema th) [FInt 7]" by (simp add: s(2) row_ok_def ex_schema_def ex_cols_def)
  from insertAt_leaks_pin [OF s(1) this, of 0 0] heap_okD(2) [OF heap_invD(3) [OF s(1)]] s(3)
  obtain t m where "insertAt th (RecordID 0 0) [FInt 7] s = (Inl (Runtime_Error m), t)"
    "pins t = (pins s)((hfileId th, 0) := pins s (hfileId th, 0) + 1)" by auto
  then show ?thesis by (intro exI [of _ th] exI [of _ s] exI [of _ t] exI [of _ m]) simp
qed

text \<open>
  A table whose records are wider than a page cannot hold a row: nothing rejects the schema, no
  page ever has room for a slot, and the insert appends a page and copies the record past its end.
\<close>

theorem wide_record_overflows:
  assumes idle: "bm_idle F s" and f: "hfileId th \<in> F" and row: "row_ok (hschema th) vs"
    and th: "schema_ok (hschema th)" "hrecordSize th = srecordSize (hschema th)"
      "hslotSize th = hrecordSize th + 1" "hmaxSlots th = int ((PAGE_SIZE - 4) div hslotSize th)"
    and wide: "PAGE_SIZE < hrecordSize th + 5"
    and pages: "\<forall>pg \<in> set (bm_pages F s (hfileId th)). getNumSlots pg = 0"
    and room: "int (length (bm_pages F s (hfileId th))) + 1 < 2 ^ 31"
  shows "\<exists>t. insertRecord th vs s = (Inl outside_page, t)"
proof -
  let ?f = "hfileId th" and ?ps = "bm_pages F s (hfileId th)" and ?buf = "row_bytes (hschema th) vs"
  let ?V = "insert_visit th ?buf"
  have buf: "record_bytes th vs = Inr ?buf"
    using row th(1) by (simp add: record_bytes_def new_Record_ok [THEN iffD2] serialize_ok)
  have mx: "hmaxSlots th = 0" using th(3,4) wide by (simp add: PAGE_SIZE_def)
  have cnt: "getPageCount ?f s = (Inr (int (length ?ps)), s)" by (rule pool_count [OF idle f])
  have "\<forall>p \<in> set [0..<length ?ps]. p < length ?ps \<and> ?V (int p) (?ps ! p) = Leave None"
    using pages mx by (auto simp: insert_visit_def Let_def)
  from with_pages_leave [where visit = ?V, OF idle f this]
  obtain u where u: "page_loop (\<lambda>p. with_page ?f p (?V p)) (map int [0..<length ?ps]) s = (Inr None, u)"
    "bm_idle F u" "bm_pages F u = bm_pages F s"
    by blast
  obtain w where w: "allocatePage ?f u = (Inr (int (length ?ps)), w)" "bm_idle F w"
    "bm_pages F w = (bm_pages F s)(?f := ?ps @ [zero_page])"
    using pool_alloc [OF u(2) f] room u(3) by auto
  have "slot_at th 0 = 4" by (simp add: slot_at_def)
  then have v: "new_page_visit th ?buf zero_page = Abandon outside_page zero_page"
    using wide slot_ptr [of th 0]
    by (simp add: new_page_visit_def fill_slot_def setSlotAlive_def copy_record_def edit_exit_def
        setNumSlots_def PAGE_SIZE_def)
  have n: "length ?ps < length (bm_pages F w ?f)" and z: "bm_pages F w ?f ! length ?ps = zero_page"
    by (simp_all add: w(3))
  obtain t where "with_page ?f (int (length ?ps)) (new_page_visit th ?buf) w = (Inl outside_page, t)"
    using with_page_abandon [where visit = "new_page_visit th ?buf", OF w(2) f n, unfolded z, OF v] by blast
  then have "insertRecord th vs s = (Inl outside_page, t)"
    using u(1) w(1) by (simp add: insertRecord_def buf cnt)
  then show ?thesis by blast
qed

theorem wide_record_overflows_witness:
  "\<exists>th (s :: bm_state) t v. insertRecord th [FStr v] s = (Inl outside_page, t)"
proof -
  let ?schema = "\<lparr>scolumns = [\<lparr>cname = ''v'', ctype = STRING_T, clength = 9000\<rparr>], srecordSize = 9000\<rparr>"
  let ?th = "\<lparr>hfileId = 1, hschema = ?schema, hrecordSize = 9000, hslotSize = 9001, hmaxSlots = 0\<rparr>"
  have P: "bm_pages {1} ex_bm 1 = [zero_page, zero_page]"
    unfolding ex_bm_def
    by (subst bm_init_ok(2))
      (simp_all add: ex_fm_ok numeral_2_eq_2 fpage_def contents_def file_path_def, simp_all add: ex_fm_def)
  have "getNumSlots zero_page = 0" using zero_page_num by (simp add: page_num_def)
  then show ?thesis
    using wide_record_overflows [OF ex_bm_ok(1), of ?th "[FStr ''x'']"] P
    by (fastforce simp: row_ok_def schema_ok_def width_def PAGE_SIZE_def)
qed

end
