(* ===== verification/KeyIndex.thy ===== *)
theory KeyIndex
  imports Prelude
begin

section \<open>Key indexes: the interface of the primary-key index\<close>

text \<open>
  What the storage engine relies on in an index: a finite map from keys to values that holds at most
  \<open>cap\<close> keys. \<open>run_ops\<close> runs a list of calls of an implementation, \<open>spec_ops\<close> says on the map what each
  of them returns; past the capacity both stop with the implementation's overflow. The locale states
  the contract of the single operations and proves that it extends to every list of calls.
\<close>

datatype ('k, 'v) index_op = Find 'k | Put 'k 'v | Remove 'k

datatype 'v index_result = Found "'v option" | Done | Removed bool

fun run_ops :: "('k \<Rightarrow> ('s, 'v option) io) \<Rightarrow> ('k \<Rightarrow> 'v \<Rightarrow> ('s, unit) io) \<Rightarrow> ('k \<Rightarrow> ('s, bool) io) \<Rightarrow>
    ('k, 'v) index_op list \<Rightarrow> ('s, 'v index_result list) io" where
  "run_ops get ins del [] = retM []"
| "run_ops get ins del (c # cs) =
     bindM (case c of
         Find k \<Rightarrow> bindM (get k) (\<lambda>v. retM (Found v))
       | Put k v \<Rightarrow> bindM (ins k v) (\<lambda>_. retM Done)
       | Remove k \<Rightarrow> bindM (del k) (\<lambda>b. retM (Removed b)))
     (\<lambda>r. bindM (run_ops get ins del cs) (\<lambda>rs. retM (r # rs)))"

fun spec_ops :: "nat \<Rightarrow> error \<Rightarrow> ('k, 'v) index_op list \<Rightarrow> ('k \<rightharpoonup> 'v) \<Rightarrow> 'v index_result list res" where
  "spec_ops cap full [] m = Inr []"
| "spec_ops cap full (c # cs) m = (case c of
     Find k \<Rightarrow> bindE (spec_ops cap full cs m) (\<lambda>rs. Inr (Found (m k) # rs))
   | Put k v \<Rightarrow>
       if m k = None \<and> cap \<le> card (dom m) then Inl full
       else bindE (spec_ops cap full cs (m(k \<mapsto> v))) (\<lambda>rs. Inr (Done # rs))
   | Remove k \<Rightarrow> bindE (spec_ops cap full cs (m(k := None))) (\<lambda>rs. Inr (Removed (m k \<noteq> None) # rs)))"

lemma fst_bind_ret: "fst (bindM m (\<lambda>x. retM (f x)) s) = bindE (fst (m s)) (\<lambda>x. Inr (f x))"
  by (cases "m s"; cases "fst (m s)") (auto simp: bindM_def)

definition op_ok :: "('v \<Rightarrow> bool) \<Rightarrow> ('k, 'v) index_op \<Rightarrow> bool" where
  "op_ok good c = (case c of Put k v \<Rightarrow> good v | _ \<Rightarrow> True)"

locale key_index =
  fixes inv :: "'s \<Rightarrow> bool"
    and imap :: "'s \<Rightarrow> 'k \<rightharpoonup> 'v"
    and good :: "'v \<Rightarrow> bool"
    and cap :: nat
    and full :: error
    and get :: "'k \<Rightarrow> ('s, 'v option) io"
    and ins :: "'k \<Rightarrow> 'v \<Rightarrow> ('s, unit) io"
    and del :: "'k \<Rightarrow> ('s, bool) io"
  assumes get_law: "inv s \<Longrightarrow> \<exists>t. get k s = (Inr (imap s k), t) \<and> inv t \<and> imap t = imap s"
    and ins_law: "inv s \<Longrightarrow> good v \<Longrightarrow> imap s k \<noteq> None \<or> card (dom (imap s)) < cap \<Longrightarrow>
      \<exists>t. ins k v s = (Inr (), t) \<and> inv t \<and> imap t = (imap s)(k \<mapsto> v)"
    and full_law: "inv s \<Longrightarrow> imap s k = None \<Longrightarrow> cap \<le> card (dom (imap s)) \<Longrightarrow> \<exists>t. ins k v s = (Inl full, t)"
    and del_law: "inv s \<Longrightarrow> \<exists>t. del k s = (Inr (imap s k \<noteq> None), t) \<and> inv t \<and> imap t = (imap s)(k := None)"
begin

lemma run_ops_correct:
  "inv s \<Longrightarrow> list_all (op_ok good) cs \<Longrightarrow> fst (run_ops get ins del cs s) = spec_ops cap full cs (imap s)"
proof (induction cs arbitrary: s)
  case (Cons c cs)
  have ops: "list_all (op_ok good) cs" using Cons.prems(2) by simp
  show ?case
  proof (cases c)
    case (Find k)
    obtain t where t: "get k s = (Inr (imap s k), t)" "inv t" "imap t = imap s"
      using get_law [OF Cons.prems(1)] by blast
    with Find Cons.IH [OF t(2) ops] show ?thesis by (simp add: fst_bind_ret)
  next
    case (Remove k)
    obtain t where t: "del k s = (Inr (imap s k \<noteq> None), t)" "inv t" "imap t = (imap s)(k := None)"
      using del_law [OF Cons.prems(1)] by blast
    have "bindM (del k) (\<lambda>b. retM (Removed b)) s = (Inr (Removed (imap s k \<noteq> None)), t)"
      using t(1) by (simp only: bindM_Inr retM_run)
    then have "run_ops get ins del (c # cs) s =
        bindM (run_ops get ins del cs) (\<lambda>rs. retM (Removed (imap s k \<noteq> None) # rs)) t"
      unfolding Remove run_ops.simps index_op.case by (rule bindM_Inr)
    with Remove Cons.IH [OF t(2) ops] show ?thesis by (simp only: fst_bind_ret t(3) spec_ops.simps index_op.case)
  next
    case (Put k v)
    show ?thesis
    proof (cases "imap s k = None \<and> cap \<le> card (dom (imap s))")
      case True
      then obtain t where "ins k v s = (Inl full, t)" using full_law [OF Cons.prems(1)] by blast
      with True Put show ?thesis by simp
    next
      case False
      have "good v" using Cons.prems(2) Put by (simp add: op_ok_def)
      moreover have "imap s k \<noteq> None \<or> card (dom (imap s)) < cap" using False by (meson not_less)
      ultimately obtain t where t: "ins k v s = (Inr (), t)" "inv t" "imap t = (imap s)(k \<mapsto> v)"
        using ins_law [OF Cons.prems(1)] by blast
      have "run_ops get ins del (c # cs) s = bindM (run_ops get ins del cs) (\<lambda>rs. retM (Done # rs)) t"
        using Put t(1) by simp
      with Put False Cons.IH [OF t(2) ops] show ?thesis
        by (simp only: fst_bind_ret t(3) spec_ops.simps index_op.case if_False)
    qed
  qed
qed simp

end

end
