(* ===== verification/BPlusTree.thy ===== *)
theory BPlusTree
  imports TableHeap KeyIndex
begin

section \<open>The primary-key index\<close>

text \<open>
  \<open>bPlusTree/BPlusTree\<close> at the one instance the engine uses, keys of type \<open>int32_t\<close> and values of type
  \<open>RecordID\<close>. A node is the C++ struct as an array of 32-bit words, which is how it is copied from and
  to its page: word 0 holds the leaf flag in its low byte, word 1 the number of keys, words 2 to 129
  the keys, and the union from word 130 on either 128 record identifiers (two words each) and the next
  leaf's page, or 129 child pages. An index outside one of the arrays is undefined behaviour, also
  where the word would still lie inside the struct. The tree object is its file handle and its root
  page; the operation that may change the root returns the changed object.
\<close>

type_synonym Node = "int32 list"

definition NODE_WORDS :: nat where
  "NODE_WORDS = 387"

definition MAX_KEYS :: int where
  "MAX_KEYS = 128"

record BPlusTree =
  tfile :: int
  troot :: int

subsection \<open>The fields of a node\<close>

definition outside_array :: error where
  "outside_array = Undefined_Behaviour ''array index''"

definition isLeaf :: "Node \<Rightarrow> bool" where
  "isLeaf n \<longleftrightarrow> take_bit 8 (n ! 0) \<noteq> 0"

definition numKeys :: "Node \<Rightarrow> int" where
  "numKeys n = sint (n ! 1)"

definition set_numKeys :: "Node \<Rightarrow> int \<Rightarrow> Node" where
  "set_numKeys n k = n[1 := word_of_int k]"

definition key_at :: "Node \<Rightarrow> int \<Rightarrow> int32 res" where
  "key_at n i = (if 0 \<le> i \<and> i < MAX_KEYS then Inr (n ! (2 + nat i)) else Inl outside_array)"

definition set_key :: "Node \<Rightarrow> int \<Rightarrow> int32 \<Rightarrow> Node res" where
  "set_key n i k = (if 0 \<le> i \<and> i < MAX_KEYS then Inr (n[2 + nat i := k]) else Inl outside_array)"

definition value_at :: "Node \<Rightarrow> int \<Rightarrow> RecordID res" where
  "value_at n i = (if 0 \<le> i \<and> i < MAX_KEYS
     then Inr (RecordID (sint (n ! (130 + 2 * nat i))) (sint (n ! (131 + 2 * nat i)))) else Inl outside_array)"

definition set_value :: "Node \<Rightarrow> int \<Rightarrow> RecordID \<Rightarrow> Node res" where
  "set_value n i rid = (if 0 \<le> i \<and> i < MAX_KEYS
     then Inr (n[130 + 2 * nat i := word_of_int (pageId rid), 131 + 2 * nat i := word_of_int (slotNum rid)])
     else Inl outside_array)"

definition next_leaf :: "Node \<Rightarrow> int" where
  "next_leaf n = sint (n ! 386)"

definition set_next :: "Node \<Rightarrow> int \<Rightarrow> Node" where
  "set_next n p = n[386 := word_of_int p]"

definition child_at :: "Node \<Rightarrow> int \<Rightarrow> int res" where
  "child_at n i = (if 0 \<le> i \<and> i < MAX_KEYS + 1 then Inr (sint (n ! (130 + nat i))) else Inl outside_array)"

definition set_child :: "Node \<Rightarrow> int \<Rightarrow> int \<Rightarrow> Node res" where
  "set_child n i p = (if 0 \<le> i \<and> i < MAX_KEYS + 1 then Inr (n[130 + nat i := word_of_int p]) else Inl outside_array)"

text \<open>\<open>Node root{}\<close>: every word is zero; then the leaf flag is set.\<close>

definition zero_node :: Node where
  "zero_node = replicate NODE_WORDS 0"

definition set_leaf :: "Node \<Rightarrow> Node" where
  "set_leaf n = n[0 := 1]"

text \<open>
  \<open>std::lower_bound\<close> and \<open>std::upper_bound\<close> on the keys of a node: the whole range must be readable and
  partitioned by the comparison.
\<close>

fun read_keys :: "Node \<Rightarrow> int list \<Rightarrow> int32 list res" where
  "read_keys n [] = Inr []"
| "read_keys n (i # is) = bindE (key_at n i) (\<lambda>k. bindE (read_keys n is) (\<lambda>ks. Inr (k # ks)))"

definition partition_point :: "(int32 \<Rightarrow> bool) \<Rightarrow> int32 list \<Rightarrow> int res" where
  "partition_point P ks = (if list_all (\<lambda>k. \<not> P k) (dropWhile P ks) then Inr (int (length (takeWhile P ks)))
     else Inl (Undefined_Behaviour ''range not partitioned''))"

definition lower_bound :: "Node \<Rightarrow> int32 \<Rightarrow> int res" where
  "lower_bound n key = bindE (read_keys n [0..numKeys n - 1]) (partition_point (\<lambda>k. sint k < sint key))"

definition upper_bound :: "Node \<Rightarrow> int32 \<Rightarrow> int res" where
  "upper_bound n key = bindE (read_keys n [0..numKeys n - 1]) (partition_point (\<lambda>k. \<not> sint key < sint k))"

subsection \<open>Pages and nodes\<close>

definition page_node :: "byte list \<Rightarrow> Node" where
  "page_node page = map (\<lambda>w. bytes_int32 (take 4 (drop (4 * w) page))) [0..<NODE_WORDS]"

definition node_page :: "Node \<Rightarrow> byte list \<Rightarrow> byte list" where
  "node_page n page = overwrite 0 (concat (map int32_bytes n)) page"

definition readNode :: "int \<Rightarrow> int \<Rightarrow> ('a bm_state_scheme, Node) io" where
  "readNode f p = with_page f p (\<lambda>page. Leave (page_node page))"

definition writeNode :: "int \<Rightarrow> int \<Rightarrow> Node \<Rightarrow> ('a bm_state_scheme, unit) io" where
  "writeNode f p n = with_page f p (\<lambda>page. Dirty () (node_page n page))"

definition HEADER_PAGE :: int where
  "HEADER_PAGE = 0"

definition header_root :: "byte list \<Rightarrow> int" where
  "header_root page = sint (bytes_int32 (take 4 page))"

definition loadHeader :: "int \<Rightarrow> ('a bm_state_scheme, int) io" where
  "loadHeader f = with_page f HEADER_PAGE (\<lambda>page. Leave (header_root page))"

definition writeHeader :: "int \<Rightarrow> int \<Rightarrow> ('a bm_state_scheme, unit) io" where
  "writeHeader f root = with_page f HEADER_PAGE (\<lambda>page. Dirty () (overwrite 0 (int32_bytes (word_of_int root)) page))"

text \<open>
  The constructor fetches the header page three times and unpins it twice, before it asks for the
  number of pages.
\<close>

definition probe_header :: "int \<Rightarrow> ('a bm_state_scheme, unit) io" where
  "probe_header f =
     bindM (fetchPage f 0) (\<lambda>_. bindM (unpinPage f 0) (\<lambda>_.
     bindM (fetchPage f 0) (\<lambda>_. bindM (unpinPage f 0) (\<lambda>_.
     bindM (fetchPage f 0) (\<lambda>_. retM ())))))"

definition new_BPlusTree :: "int \<Rightarrow> ('a bm_state_scheme, BPlusTree) io" where
  "new_BPlusTree f =
     bindM (probe_header f) (\<lambda>_.
     bindM (getPageCount f) (\<lambda>pageCount.
     if pageCount = 0 then
       bindM (allocatePage f) (\<lambda>_.
       let root = set_next (set_numKeys (set_leaf zero_node) 0) (- 1) in
       bindM (allocatePage f) (\<lambda>p.
       bindM (writeNode f p root) (\<lambda>_.
       bindM (writeHeader f p) (\<lambda>_. retM \<lparr>tfile = f, troot = p\<rparr>))))
     else bindM (loadHeader f) (\<lambda>r. retM \<lparr>tfile = f, troot = r\<rparr>)))"

subsection \<open>Search\<close>

text \<open>
  The recursions follow child pages; \<open>stack_depth\<close> is the number of calls that fit the stack, and a
  deeper recursion is undefined behaviour.
\<close>

definition stack_depth :: nat where
  "stack_depth = Suc 9999"

definition stack_overflow :: error where
  "stack_overflow = Undefined_Behaviour ''stack overflow''"

fun child_index :: "Node \<Rightarrow> int32 \<Rightarrow> int list \<Rightarrow> int \<Rightarrow> int res" where
  "child_index n key [] i = Inr i"
| "child_index n key (j # js) i =
     bindE (key_at n j) (\<lambda>k. if sint key \<ge> sint k then child_index n key js (i + 1) else Inr i)"

fun findLeafPage :: "nat \<Rightarrow> int \<Rightarrow> int \<Rightarrow> int32 \<Rightarrow> ('a bm_state_scheme, int) io" where
  "findLeafPage 0 f p key = throwM stack_overflow"
| "findLeafPage (Suc d) f p key =
     bindM (readNode f p) (\<lambda>n.
       if isLeaf n then retM p
       else bindM (liftM (child_index n key [0..numKeys n - 1] 0)) (\<lambda>i.
            bindM (liftM (child_at n i)) (\<lambda>c. findLeafPage d f c key)))"

fun find_in :: "Node \<Rightarrow> int32 \<Rightarrow> int list \<Rightarrow> RecordID option res" where
  "find_in n key [] = Inr None"
| "find_in n key (i # is) =
     bindE (key_at n i) (\<lambda>k. if k = key then bindE (value_at n i) (\<lambda>v. Inr (Some v)) else find_in n key is)"

definition find_key :: "BPlusTree \<Rightarrow> int32 \<Rightarrow> ('a bm_state_scheme, RecordID option) io" where
  "find_key tr key =
     (if troot tr < 0 then retM None
      else bindM (findLeafPage stack_depth (tfile tr) (troot tr) key) (\<lambda>leaf.
           bindM (readNode (tfile tr) leaf) (\<lambda>n. liftM (find_in n key [0..numKeys n - 1]))))"

subsection \<open>Insertion\<close>

text \<open>The loop that makes room in a leaf, with \<open>i\<close> running down from the number of keys to \<open>pos + 1\<close>.\<close>

fun shift_up :: "Node \<Rightarrow> int list \<Rightarrow> Node res" where
  "shift_up n [] = Inr n"
| "shift_up n (i # is) =
     bindE (key_at n (i - 1)) (\<lambda>k. bindE (set_key n i k) (\<lambda>n.
     bindE (value_at n (i - 1)) (\<lambda>v. bindE (set_value n i v) (\<lambda>n. shift_up n is))))"

definition leaf_add :: "Node \<Rightarrow> int \<Rightarrow> int32 \<Rightarrow> RecordID \<Rightarrow> Node res" where
  "leaf_add n pos key v =
     bindE (shift_up n (rev [pos + 1..numKeys n])) (\<lambda>n.
     bindE (set_key n pos key) (\<lambda>n. bindE (set_value n pos v) (\<lambda>n. Inr (set_numKeys n (numKeys n + 1)))))"

text \<open>The new right leaf of a split: the entries from \<open>sp\<close> on.\<close>

fun copy_entries :: "Node \<Rightarrow> int \<Rightarrow> Node \<Rightarrow> int list \<Rightarrow> Node res" where
  "copy_entries n sp m [] = Inr m"
| "copy_entries n sp m (i # is) =
     bindE (key_at n (sp + i)) (\<lambda>k. bindE (set_key m i k) (\<lambda>m.
     bindE (value_at n (sp + i)) (\<lambda>v. bindE (set_value m i v) (\<lambda>m. copy_entries n sp m is))))"

text \<open>What the recursion returns: the key and the page of the new right sibling if the node was split.\<close>

type_synonym SplitResult = "(int32 \<times> int) option"

definition split_leaf :: "int \<Rightarrow> int \<Rightarrow> Node \<Rightarrow> ('a bm_state_scheme, SplitResult) io" where
  "split_leaf f p n =
     (let sp = numKeys n div 2; m = set_numKeys (set_leaf zero_node) (numKeys n - sp) in
      bindM (liftM (copy_entries n sp m [0..numKeys m - 1])) (\<lambda>m.
      let m = set_next m (next_leaf n); n = set_numKeys n sp in
      bindM (allocatePage f) (\<lambda>q. let n = set_next n q in
      bindM (writeNode f p n) (\<lambda>_.
      bindM (writeNode f (next_leaf n) m) (\<lambda>_.
      bindM (liftM (key_at m 0)) (\<lambda>k. retM (Some (k, next_leaf n))))))))"

text \<open>The same for an internal node. The last child it copies is one place past the last child of the node.\<close>

fun shift_children :: "Node \<Rightarrow> int list \<Rightarrow> Node res" where
  "shift_children n [] = Inr n"
| "shift_children n (i # is) =
     bindE (key_at n (i - 1)) (\<lambda>k. bindE (set_key n i k) (\<lambda>n.
     bindE (child_at n i) (\<lambda>c. bindE (set_child n (i + 1) c) (\<lambda>n. shift_children n is))))"

definition internal_add :: "Node \<Rightarrow> int32 \<Rightarrow> int \<Rightarrow> Node res" where
  "internal_add n key p =
     bindE (lower_bound n key) (\<lambda>pos.
     bindE (shift_children n (rev [pos + 1..numKeys n])) (\<lambda>n.
     bindE (set_key n pos key) (\<lambda>n. bindE (set_child n (pos + 1) p) (\<lambda>n.
       Inr (set_numKeys n (numKeys n + 1))))))"

fun copy_children :: "Node \<Rightarrow> int \<Rightarrow> Node \<Rightarrow> int list \<Rightarrow> Node res" where
  "copy_children n sp m [] = Inr m"
| "copy_children n sp m (i # is) =
     bindE (key_at n (sp + 1 + i)) (\<lambda>k. bindE (set_key m i k) (\<lambda>m.
     bindE (child_at n (sp + 1 + i)) (\<lambda>c. bindE (set_child m i c) (\<lambda>m. copy_children n sp m is))))"

definition split_internal :: "int \<Rightarrow> int \<Rightarrow> Node \<Rightarrow> ('a bm_state_scheme, SplitResult) io" where
  "split_internal f p n =
     (let sp = numKeys n div 2; m = set_numKeys zero_node (numKeys n - sp - 1) in
      bindM (liftM (key_at n sp)) (\<lambda>up.
      bindM (liftM (copy_children n sp m [0..numKeys m - 1])) (\<lambda>m.
      bindM (liftM (bindE (child_at n (numKeys n + 1)) (set_child m (numKeys m)))) (\<lambda>m.
      bindM (writeNode f p (set_numKeys n sp)) (\<lambda>_.
      bindM (allocatePage f) (\<lambda>q.
      bindM (writeNode f q m) (\<lambda>_. retM (Some (up, q)))))))))"

definition insert_leaf :: "int \<Rightarrow> int \<Rightarrow> Node \<Rightarrow> int32 \<Rightarrow> RecordID \<Rightarrow> ('a bm_state_scheme, SplitResult) io" where
  "insert_leaf f p n key v =
     bindM (liftM (lower_bound n key)) (\<lambda>pos.
     bindM (liftM (if pos < numKeys n then bindE (key_at n pos) (\<lambda>k. Inr (k = key)) else Inr False)) (\<lambda>found.
     if found then
       bindM (liftM (set_value n pos v)) (\<lambda>n. bindM (writeNode f p n) (\<lambda>_. retM None))
     else
       bindM (liftM (leaf_add n pos key v)) (\<lambda>n.
       if numKeys n \<le> MAX_KEYS then bindM (writeNode f p n) (\<lambda>_. retM None)
       else split_leaf f p n)))"

fun insertRecursive :: "nat \<Rightarrow> int \<Rightarrow> int \<Rightarrow> int32 \<Rightarrow> RecordID \<Rightarrow> ('a bm_state_scheme, SplitResult) io" where
  "insertRecursive 0 f p key v = throwM stack_overflow"
| "insertRecursive (Suc d) f p key v =
     bindM (readNode f p) (\<lambda>n.
       if isLeaf n then insert_leaf f p n key v
       else
         bindM (liftM (bindE (upper_bound n key) (child_at n))) (\<lambda>c.
         bindM (insertRecursive d f c key v) (\<lambda>r. case r of
           None \<Rightarrow> retM None
         | Some (k, q) \<Rightarrow>
             bindM (liftM (internal_add n k q)) (\<lambda>n.
             if numKeys n \<le> MAX_KEYS then bindM (writeNode f p n) (\<lambda>_. retM None)
             else split_internal f p n))))"

definition insert_key :: "BPlusTree \<Rightarrow> int32 \<Rightarrow> RecordID \<Rightarrow> ('a bm_state_scheme, BPlusTree) io" where
  "insert_key tr key v =
     bindM (insertRecursive stack_depth (tfile tr) (troot tr) key v) (\<lambda>r. case r of
       None \<Rightarrow> retM tr
     | Some (k, q) \<Rightarrow>
         bindM (liftM (bindE (set_key (set_numKeys zero_node 1) 0 k) (\<lambda>n.
                bindE (set_child n 0 (troot tr)) (\<lambda>n. set_child n 1 q)))) (\<lambda>n.
         bindM (allocatePage (tfile tr)) (\<lambda>p.
         bindM (writeNode (tfile tr) p n) (\<lambda>_.
         bindM (writeHeader (tfile tr) p) (\<lambda>_. retM (tr\<lparr>troot := p\<rparr>))))))"

subsection \<open>Removal and range scans\<close>

fun shift_down :: "Node \<Rightarrow> int list \<Rightarrow> Node res" where
  "shift_down n [] = Inr n"
| "shift_down n (i # is) =
     bindE (key_at n (i + 1)) (\<lambda>k. bindE (set_key n i k) (\<lambda>n.
     bindE (value_at n (i + 1)) (\<lambda>v. bindE (set_value n i v) (\<lambda>n. shift_down n is))))"

definition remove_key :: "BPlusTree \<Rightarrow> int32 \<Rightarrow> ('a bm_state_scheme, bool) io" where
  "remove_key tr key =
     bindM (findLeafPage stack_depth (tfile tr) (troot tr) key) (\<lambda>leaf.
     bindM (readNode (tfile tr) leaf) (\<lambda>n.
     bindM (liftM (lower_bound n key)) (\<lambda>pos.
     bindM (liftM (if pos \<ge> numKeys n then Inr False else bindE (key_at n pos) (\<lambda>k. Inr (k = key)))) (\<lambda>found.
     if \<not> found then retM False
     else
       bindM (liftM (shift_down n [pos..numKeys n - 2])) (\<lambda>n.
       bindM (writeNode (tfile tr) leaf (set_numKeys n (numKeys n - 1))) (\<lambda>_. retM True))))))"

text \<open>
  The entries of a leaf that a scan collects, and whether it met a key above the range. The walk along
  the leaves is bounded by fuel; running out of it stands for a scan that never ends.
\<close>

fun scan_leaf :: "Node \<Rightarrow> int32 \<Rightarrow> int32 \<Rightarrow> int list \<Rightarrow> (RecordID list \<times> bool) res" where
  "scan_leaf n low high [] = Inr ([], False)"
| "scan_leaf n low high (i # is) =
     bindE (key_at n i) (\<lambda>k.
       if sint k \<ge> sint low \<and> sint k \<le> sint high then
         bindE (value_at n i) (\<lambda>v. bindE (scan_leaf n low high is) (\<lambda>(vs, stop). Inr (v # vs, stop)))
       else if sint k > sint high then Inr ([], True)
       else scan_leaf n low high is)"

fun scan_leaves :: "nat \<Rightarrow> int \<Rightarrow> Node \<Rightarrow> int32 \<Rightarrow> int32 \<Rightarrow> ('a bm_state_scheme, RecordID list) io" where
  "scan_leaves 0 f n low high = throwM (Undefined_Behaviour ''endless loop'')"
| "scan_leaves (Suc d) f n low high =
     bindM (liftM (scan_leaf n low high [0..numKeys n - 1])) (\<lambda>(vs, stop).
       if stop \<or> next_leaf n < 0 then retM vs
       else bindM (readNode f (next_leaf n)) (\<lambda>n.
            bindM (scan_leaves d f n low high) (\<lambda>ws. retM (vs @ ws))))"

definition rangeScan :: "nat \<Rightarrow> BPlusTree \<Rightarrow> int32 \<Rightarrow> int32 \<Rightarrow> ('a bm_state_scheme, RecordID list) io" where
  "rangeScan fuel tr low high =
     (if troot tr < 0 then retM []
      else bindM (findLeafPage stack_depth (tfile tr) (troot tr) low) (\<lambda>leaf.
           bindM (readNode (tfile tr) leaf) (\<lambda>n. scan_leaves fuel (tfile tr) n low high)))"

subsection \<open>The entries of a leaf\<close>

text \<open>
  \<open>node_entries\<close> reads the used part of a leaf. \<open>leaf_ok\<close>: the node is the only leaf of its tree, with
  strictly ascending keys.
\<close>

definition node_entry :: "Node \<Rightarrow> nat \<Rightarrow> int32 \<times> RecordID" where
  "node_entry n i = (n ! (2 + i), RecordID (sint (n ! (130 + 2 * i))) (sint (n ! (131 + 2 * i))))"

definition node_entries :: "Node \<Rightarrow> (int32 \<times> RecordID) list" where
  "node_entries n = map (node_entry n) [0..<nat (numKeys n)]"

definition ascending :: "(int32 \<times> RecordID) list \<Rightarrow> bool" where
  "ascending es \<longleftrightarrow> sorted_wrt (\<lambda>a b. sint (fst a) < sint (fst b)) es"

definition leaf_ok :: "Node \<Rightarrow> bool" where
  "leaf_ok n \<longleftrightarrow> length n = NODE_WORDS \<and> isLeaf n \<and> 0 \<le> numKeys n \<and> numKeys n \<le> MAX_KEYS \<and>
     next_leaf n = - 1 \<and> ascending (node_entries n)"

lemma length_node_entries [simp]: "length (node_entries n) = nat (numKeys n)"
  by (simp add: node_entries_def)

lemma nth_node_entries: "i < nat (numKeys n) \<Longrightarrow> node_entries n ! i = node_entry n i"
  by (simp add: node_entries_def)

lemma leaf_okD:
  assumes "leaf_ok n"
  shows "length n = NODE_WORDS" "isLeaf n" "0 \<le> numKeys n" "numKeys n \<le> 128" "next_leaf n = - 1"
    "ascending (node_entries n)" "numKeys n = int (length (node_entries n))" "length (node_entries n) \<le> 128"
  using assms by (auto simp: leaf_ok_def MAX_KEYS_def)

lemma key_at_entry: "i < length (node_entries n) \<Longrightarrow> numKeys n \<le> 128 \<Longrightarrow> key_at n (int i) = Inr (fst (node_entries n ! i))"
  by (simp add: key_at_def MAX_KEYS_def nth_node_entries node_entry_def)

lemma value_at_entry: "i < length (node_entries n) \<Longrightarrow> numKeys n \<le> 128 \<Longrightarrow> value_at n (int i) = Inr (snd (node_entries n ! i))"
  by (simp add: value_at_def MAX_KEYS_def nth_node_entries node_entry_def)

lemma read_keys_ok: "leaf_ok n \<Longrightarrow> read_keys n [0..numKeys n - 1] = Inr (map fst (node_entries n))"
proof -
  assume ok: "leaf_ok n"
  have "read_keys n (map int is) = Inr (map (\<lambda>i. fst (node_entries n ! i)) is)"
    if "\<forall>i \<in> set is. i < length (node_entries n)" for "is"
    using that leaf_okD(4) [OF ok] by (induction "is") (simp_all add: key_at_entry del: length_node_entries)
  from this [of "[0..<length (node_entries n)]"]
  have "read_keys n (map int [0..<length (node_entries n)]) =
      Inr (map (\<lambda>i. fst (node_entries n ! i)) [0..<length (node_entries n)])" by simp
  moreover have "map (\<lambda>i. fst (node_entries n ! i)) [0..<length (node_entries n)] = map fst (node_entries n)"
    by (rule nth_equalityI) simp_all
  ultimately have "read_keys n (map int [0..<length (node_entries n)]) = Inr (map fst (node_entries n))"
    by simp
  then show ?thesis by (simp only: leaf_okD(7) [OF ok] int_upto)
qed

lemma ascending_distinct: "ascending es \<Longrightarrow> distinct (map fst es)"
  by (induction es) (auto simp: ascending_def)

lemma ascending_append:
  "ascending (xs @ ys) \<longleftrightarrow> ascending xs \<and> ascending ys \<and> (\<forall>x \<in> set xs. \<forall>y \<in> set ys. sint (fst x) < sint (fst y))"
  by (simp add: ascending_def sorted_wrt_append)

lemma ascending_Cons:
  "ascending (x # xs) \<longleftrightarrow> ascending xs \<and> (\<forall>y \<in> set xs. sint (fst x) < sint (fst y))"
  by (auto simp: ascending_def)

text \<open>The entries below a key and the others.\<close>

definition below :: "int32 \<Rightarrow> (int32 \<times> RecordID) list \<Rightarrow> (int32 \<times> RecordID) list" where
  "below key = takeWhile (\<lambda>e. sint (fst e) < sint key)"

definition above :: "int32 \<Rightarrow> (int32 \<times> RecordID) list \<Rightarrow> (int32 \<times> RecordID) list" where
  "above key = dropWhile (\<lambda>e. sint (fst e) < sint key)"

lemma below_above [simp]: "below key es @ above key es = es"
  by (simp add: below_def above_def)

lemma below_less: "e \<in> set (below key es) \<Longrightarrow> sint (fst e) < sint key"
  by (auto simp: below_def dest: set_takeWhileD)

lemma above_not_less: "ascending es \<Longrightarrow> e \<in> set (above key es) \<Longrightarrow> \<not> sint (fst e) < sint key"
proof (induction es)
  case (Cons x xs)
  then show ?case by (fastforce simp: above_def ascending_Cons split: if_splits)
qed (simp add: above_def)

lemma lower_bound_ok: "leaf_ok n \<Longrightarrow> lower_bound n key = Inr (int (length (below key (node_entries n))))"
proof -
  assume ok: "leaf_ok n"
  have a: "ascending (node_entries n)" using ok by (rule leaf_okD)
  have "dropWhile (\<lambda>k. sint k < sint key) (map fst (node_entries n)) = map fst (above key (node_entries n))"
    by (simp add: above_def dropWhile_map comp_def)
  moreover have "takeWhile (\<lambda>k. sint k < sint key) (map fst (node_entries n)) = map fst (below key (node_entries n))"
    by (simp add: below_def takeWhile_map comp_def)
  moreover have "list_all (\<lambda>k. \<not> sint k < sint key) (map fst (above key (node_entries n)))"
    using above_not_less [OF a] by (auto simp: list_all_iff)
  ultimately show ?thesis
    by (simp add: lower_bound_def read_keys_ok [OF ok] partition_point_def)
qed

subsection \<open>Changing a leaf\<close>

text \<open>The words of a node after one entry was written, and after a loop moved a block of entries.\<close>

lemma upto_down: "rev [int pos + 1..int (Suc m)] = (if pos \<le> m then int (Suc m) # rev [int pos + 1..int m] else [])"
  using upto_rec2 [of "int pos + 1" "int (Suc m)"] by simp

lemma shift_up_ok:
  assumes "pos \<le> m" "m < 128" "length n = NODE_WORDS"
  shows "\<exists>n'. shift_up n (rev [int pos + 1..int m]) = Inr n' \<and> length n' = NODE_WORDS \<and>
    (\<forall>w < NODE_WORDS. n' ! w = (if 2 + pos < w \<and> w \<le> 2 + m then n ! (w - 1)
       else if 131 + 2 * pos < w \<and> w \<le> 131 + 2 * m then n ! (w - 2) else n ! w))"
  using assms
proof (induction m arbitrary: n)
  case (Suc m)
  show ?case
  proof (cases "pos = Suc m")
    case False
    let ?n = "n[2 + Suc m := n ! (2 + m), 130 + 2 * Suc m := n ! (130 + 2 * m), 131 + 2 * Suc m := n ! (131 + 2 * m)]"
    have len: "length ?n = NODE_WORDS" using Suc.prems by simp
    have "shift_up n (rev [int pos + 1..int (Suc m)]) = shift_up ?n (rev [int pos + 1..int m])"
      using Suc.prems False
      by (subst upto_down) (simp add: key_at_def set_key_def value_at_def set_value_def MAX_KEYS_def NODE_WORDS_def nat_add_distrib nat_mult_distrib)
    moreover obtain n' where n': "shift_up ?n (rev [int pos + 1..int m]) = Inr n'" "length n' = NODE_WORDS"
      "\<forall>w < NODE_WORDS. n' ! w = (if 2 + pos < w \<and> w \<le> 2 + m then ?n ! (w - 1)
         else if 131 + 2 * pos < w \<and> w \<le> 131 + 2 * m then ?n ! (w - 2) else ?n ! w)"
      using Suc.IH [OF _ _ len] Suc.prems False by auto
    moreover have "n' ! w = (if 2 + pos < w \<and> w \<le> 2 + Suc m then n ! (w - 1)
         else if 131 + 2 * pos < w \<and> w \<le> 131 + 2 * Suc m then n ! (w - 2) else n ! w)" if w: "w < NODE_WORDS" for w
    proof -
      have v: "?n ! v = (if v = 133 + 2 * m then n ! (131 + 2 * m) else if v = 132 + 2 * m then n ! (130 + 2 * m)
          else if v = 3 + m then n ! (2 + m) else n ! v)" if "v < NODE_WORDS" for v
        using that Suc.prems by (simp add: nth_list_update NODE_WORDS_def)
      have v1: "?n ! (w - 1) = n ! (w - 1)" if "w \<le> 2 + m"
        using that w Suc.prems by (subst v) auto
      have v2: "?n ! (w - 2) = n ! (w - 2)" if "131 < w" "w \<le> 131 + 2 * m"
        using that w Suc.prems by (subst v) auto
      have v3: "w - 1 = 2 + m" if "w = 3 + m" using that by simp
      have v4: "w - 2 = 130 + 2 * m" if "w = 132 + 2 * m" using that by simp
      have v5: "w - 2 = 131 + 2 * m" if "w = 133 + 2 * m" using that by simp
      consider (k) "w = 3 + m" | (p) "w = 132 + 2 * m" | (s) "w = 133 + 2 * m" | (o) "w \<noteq> 3 + m" "w \<noteq> 132 + 2 * m" "w \<noteq> 133 + 2 * m"
        by blast
      then show ?thesis
      proof cases
        case k
        then show ?thesis using n'(3) [rule_format, OF w] v [OF w] v3 Suc.prems False by auto
      next
        case p
        then show ?thesis using n'(3) [rule_format, OF w] v [OF w] v4 Suc.prems False by auto
      next
        case s
        then show ?thesis using n'(3) [rule_format, OF w] v [OF w] v5 Suc.prems False by auto
      next
        case o
        then show ?thesis using n'(3) [rule_format, OF w] v [OF w] v1 v2 Suc.prems False by auto
      qed
    qed
    ultimately show ?thesis by auto
  qed (use Suc.prems in auto)
qed auto

lemma shift_down_ok:
  assumes "pos \<le> m" "m < 128" "length n = NODE_WORDS"
  shows "\<exists>n'. shift_down n [int pos..int m - 1] = Inr n' \<and> length n' = NODE_WORDS \<and>
    (\<forall>w < NODE_WORDS. n' ! w = (if 2 + pos \<le> w \<and> w < 2 + m then n ! (w + 1)
       else if 130 + 2 * pos \<le> w \<and> w < 130 + 2 * m then n ! (w + 2) else n ! w))"
  using assms
proof (induction "m - pos" arbitrary: pos n)
  case 0
  then show ?case by auto
next
  case (Suc d)
  let ?n = "n[2 + pos := n ! Suc (Suc (Suc pos)), 130 + 2 * pos := n ! (132 + 2 * pos), 131 + 2 * pos := n ! (133 + 2 * pos)]"
  have len: "length ?n = NODE_WORDS" and lt: "pos < m" and d: "d = m - Suc pos" using Suc.hyps Suc.prems by auto
  have "[int pos..int m - 1] = int pos # [int (Suc pos)..int m - 1]" using lt by (subst upto_rec1) (auto simp: add.commute)
  then have "shift_down n [int pos..int m - 1] = shift_down ?n [int (Suc pos)..int m - 1]"
    using Suc.prems lt
    by (simp add: key_at_def set_key_def value_at_def set_value_def MAX_KEYS_def NODE_WORDS_def nat_add_distrib nat_mult_distrib)
  moreover obtain n' where n': "shift_down ?n [int (Suc pos)..int m - 1] = Inr n'" "length n' = NODE_WORDS"
    "\<forall>w < NODE_WORDS. n' ! w = (if 2 + Suc pos \<le> w \<and> w < 2 + m then ?n ! (w + 1)
       else if 130 + 2 * Suc pos \<le> w \<and> w < 130 + 2 * m then ?n ! (w + 2) else ?n ! w)"
    using Suc.hyps(1) [OF d _ Suc.prems(2) len] lt by auto
  moreover have "n' ! w = (if 2 + pos \<le> w \<and> w < 2 + m then n ! (w + 1)
       else if 130 + 2 * pos \<le> w \<and> w < 130 + 2 * m then n ! (w + 2) else n ! w)" if w: "w < NODE_WORDS" for w
  proof -
    have v: "?n ! v = (if v = 131 + 2 * pos then n ! (133 + 2 * pos) else if v = 130 + 2 * pos then n ! (132 + 2 * pos)
        else if v = 2 + pos then n ! Suc (Suc (Suc pos)) else n ! v)" if "v < NODE_WORDS" for v
      using that Suc.prems lt by (simp add: nth_list_update NODE_WORDS_def)
    have v1: "?n ! (w + 1) = n ! (w + 1)" if "2 + pos < w" "w < 2 + m"
      using that w Suc.prems lt by (subst v) (auto simp: NODE_WORDS_def)
    have v2: "?n ! (w + 2) = n ! (w + 2)" if "130 + 2 * pos \<le> w" "w < 130 + 2 * m"
      using that w Suc.prems lt by (subst v) (auto simp: NODE_WORDS_def)
    have v3: "w + 1 = Suc (Suc (Suc pos))" if "w = 2 + pos" using that by simp
    have v4: "w + 2 = 132 + 2 * pos" if "w = 130 + 2 * pos" using that by simp
    have v5: "w + 2 = 133 + 2 * pos" if "w = 131 + 2 * pos" using that by simp
    consider (k) "w = 2 + pos" | (p) "w = 130 + 2 * pos" | (s) "w = 131 + 2 * pos" | (o) "w \<noteq> 2 + pos" "w \<noteq> 130 + 2 * pos" "w \<noteq> 131 + 2 * pos"
      by blast
    then show ?thesis
    proof cases
      case k
      then show ?thesis using n'(3) [rule_format, OF w] v [OF w] v3 Suc.prems lt by auto
    next
      case p
      then show ?thesis using n'(3) [rule_format, OF w] v [OF w] v4 Suc.prems lt by auto
    next
      case s
      then show ?thesis using n'(3) [rule_format, OF w] v [OF w] v5 Suc.prems lt by auto
    next
      case o
      then show ?thesis using n'(3) [rule_format, OF w] v [OF w] v1 v2 Suc.prems lt by auto
    qed
  qed
  ultimately show ?case by auto
qed

lemma sint_int32: "- (2 ^ 31) \<le> x \<Longrightarrow> x < 2 ^ 31 \<Longrightarrow> sint (word_of_int x :: int32) = x"
  by (simp add: sint_sbintrunc' signed_take_bit_int_eq_self)

lemma rid_words: "rid_ok r \<Longrightarrow> RecordID (sint (word_of_int (pageId r) :: int32)) (sint (word_of_int (slotNum r) :: int32)) = r"
  by (cases r) (simp add: rid_ok_def sint_int32)

lemma isLeaf_cong: "n' ! 0 = n ! 0 \<Longrightarrow> isLeaf n' = isLeaf n"
  by (simp add: isLeaf_def)

lemma leaf_add_ok:
  assumes len: "length n = NODE_WORDS" and num: "numKeys n = int m" "m < 128"
    and es: "node_entries n = A @ B" and v: "rid_ok v"
  obtains n' where "leaf_add n (int (length A)) key v = Inr n'" "length n' = NODE_WORDS" "isLeaf n' = isLeaf n"
    "next_leaf n' = next_leaf n" "numKeys n' = int m + 1" "node_entries n' = A @ (key, v) # B"
proof -
  let ?p = "length A"
  have mAB: "m = ?p + length B" using arg_cong [OF es, of length] num(1) by simp
  then have pm: "?p \<le> m" by simp
  obtain n1 where n1: "shift_up n (rev [int ?p + 1..int m]) = Inr n1" "length n1 = NODE_WORDS"
    "\<forall>w < NODE_WORDS. n1 ! w = (if 2 + ?p < w \<and> w \<le> 2 + m then n ! (w - 1)
       else if 131 + 2 * ?p < w \<and> w \<le> 131 + 2 * m then n ! (w - 2) else n ! w)"
    using shift_up_ok [OF pm num(2) len] by blast
  define n2 where "n2 = n1[2 + ?p := key, 130 + 2 * ?p := word_of_int (pageId v), 131 + 2 * ?p := word_of_int (slotNum v)]"
  define n3 where "n3 = n2[1 := word_of_int (int m + 1)]"
  have p1: "?p < 128" "131 + 2 * ?p < NODE_WORDS" using pm num(2) by (simp_all add: NODE_WORDS_def)
  have w3: "n3 ! w = (if w = 1 then word_of_int (int m + 1) else if w = 131 + 2 * ?p then word_of_int (slotNum v)
      else if w = 130 + 2 * ?p then word_of_int (pageId v) else if w = 2 + ?p then key else n1 ! w)"
    if "w < NODE_WORDS" for w
    using that n1(2) p1 by (simp add: n3_def n2_def nth_list_update)
  have num2: "numKeys n2 = int m"
    using n1(2,3) p1 num(1) by (simp add: numKeys_def n2_def NODE_WORDS_def)
  have run: "leaf_add n (int ?p) key v = Inr n3"
    using n1(1) p1(1) num2 num(1)
    by (simp add: leaf_add_def set_key_def set_value_def MAX_KEYS_def n2_def n3_def set_numKeys_def)
  have len3: "length n3 = NODE_WORDS" using n1(2) by (simp add: n3_def n2_def)
  have keep: "n3 ! 0 = n ! 0" "n3 ! 386 = n ! 386"
    using w3 [of 0] w3 [of 386] n1(3) pm num(2) by (auto simp: NODE_WORDS_def)
  have num3: "numKeys n3 = int m + 1"
  proof -
    have "n3 ! 1 = word_of_int (int m + 1)" by (subst w3) (simp_all add: NODE_WORDS_def)
    moreover have "sint (word_of_int (int m + 1) :: int32) = int m + 1" using num(2) by (intro sint_int32) simp_all
    ultimately show ?thesis by (simp only: numKeys_def)
  qed
  have "node_entries n3 = A @ (key, v) # B"
  proof (rule nth_equalityI)
    show "length (node_entries n3) = length (A @ (key, v) # B)" using num3 mAB by simp
    fix j assume "j < length (node_entries n3)"
    then have j: "j < nat (numKeys n3)" "j \<le> m" using num3 by simp_all
    have wj: "131 + 2 * j < NODE_WORDS" using j(2) num(2) by (simp add: NODE_WORDS_def)
    have e: "node_entries n3 ! j = node_entry n3 j" using j(1) by (rule nth_node_entries)
    show "node_entries n3 ! j = (A @ (key, v) # B) ! j"
    proof (cases j ?p rule: linorder_cases)
      case less
      then have "node_entry n3 j = node_entry n j"
        using wj w3 n1(3) less pm num(2) by (simp add: node_entry_def NODE_WORDS_def)
      also have "\<dots> = (A @ B) ! j" using less pm num(1) by (simp add: es [symmetric] nth_node_entries)
      finally show ?thesis using e less by (simp add: nth_append)
    next
      case equal
      then have "node_entry n3 j = (key, v)" using wj w3 rid_words [OF v] by (simp add: node_entry_def)
      then show ?thesis using e equal by simp
    next
      case greater
      then obtain i where i: "j = Suc i" "?p \<le> i" by (cases j) auto
      have "n3 ! (2 + j) = n ! (2 + i)" "n3 ! (130 + 2 * j) = n ! (130 + 2 * i)" "n3 ! (131 + 2 * j) = n ! (131 + 2 * i)"
        using wj w3 n1(3) i j(2) num(2) by (simp_all add: NODE_WORDS_def)
      then have "node_entry n3 j = node_entry n i" by (simp add: node_entry_def)
      also have "\<dots> = (A @ B) ! i" using i j(2) num(1) by (simp add: es [symmetric] nth_node_entries)
      finally show ?thesis using e i by (simp add: nth_append nth_Cons')
    qed
  qed
  with run len3 keep num3 show thesis
    by (intro that [of n3]) (simp_all add: isLeaf_def next_leaf_def)
qed

lemma leaf_set_ok:
  assumes n: "leaf_ok n" and es: "node_entries n = A @ (key, old) # B" and v: "rid_ok v"
  obtains n' where "set_value n (int (length A)) v = Inr n'" "leaf_ok n'" "node_entries n' = A @ (key, v) # B"
proof -
  let ?p = "length A"
  let ?n = "n[130 + 2 * ?p := word_of_int (pageId v), 131 + 2 * ?p := word_of_int (slotNum v)]"
  have len: "length n = NODE_WORDS" using n by (rule leaf_okD)
  have p1: "?p < 128" "131 + 2 * ?p < NODE_WORDS"
    using arg_cong [OF es, of length] leaf_okD(8) [OF n] by (simp_all add: NODE_WORDS_def)
  have w: "?n ! w = (if w = 131 + 2 * ?p then word_of_int (slotNum v)
      else if w = 130 + 2 * ?p then word_of_int (pageId v) else n ! w)" if "w < NODE_WORDS" for w
    using that p1 len by (simp add: nth_list_update)
  have keep: "?n ! 0 = n ! 0" "?n ! 1 = n ! 1" "?n ! 386 = n ! 386"
    using w [of 0] w [of 1] w [of 386] p1 by (auto simp: NODE_WORDS_def)
  have num: "numKeys ?n = numKeys n" by (simp only: numKeys_def keep)
  have ent: "node_entries ?n = A @ (key, v) # B"
  proof (rule nth_equalityI)
    show "length (node_entries ?n) = length (A @ (key, v) # B)"
      using arg_cong [OF es, of length] num by simp
    fix j assume j: "j < length (node_entries ?n)"
    then have jn: "j < nat (numKeys ?n)" "j < nat (numKeys n)" using num by simp_all
    then have wj: "131 + 2 * j < NODE_WORDS" using leaf_okD(4) [OF n] by (simp add: NODE_WORDS_def)
    have e: "node_entries ?n ! j = node_entry ?n j" using jn(1) by (rule nth_node_entries)
    show "node_entries ?n ! j = (A @ (key, v) # B) ! j"
    proof (cases "j = ?p")
      case True
      have "node_entries n ! ?p = (key, old)" by (simp add: es)
      then have "n ! (2 + ?p) = key" using jn(2) True by (simp add: nth_node_entries node_entry_def)
      moreover have "?n ! (2 + ?p) = n ! (2 + ?p)" by (subst w) (use p1 in \<open>auto simp: NODE_WORDS_def\<close>)
      moreover have "?n ! (130 + 2 * ?p) = word_of_int (pageId v)" by (subst w) (use p1 in auto)
      moreover have "?n ! (131 + 2 * ?p) = word_of_int (slotNum v)" by (subst w) (use p1 in auto)
      ultimately have "node_entry ?n j = (key, v)" unfolding node_entry_def True using rid_words [OF v] by (simp only:)
      then show ?thesis using e True by simp
    next
      case False
      have "?n ! (2 + j) = n ! (2 + j)" "?n ! (130 + 2 * j) = n ! (130 + 2 * j)" "?n ! (131 + 2 * j) = n ! (131 + 2 * j)"
        by (subst w; use wj False p1 jn(2) leaf_okD(4) [OF n] in \<open>auto simp: NODE_WORDS_def\<close>)+
      then have "node_entry ?n j = node_entries n ! j"
        using jn(2) by (simp only: nth_node_entries node_entry_def)
      then show ?thesis using e False by (simp add: es nth_append nth_Cons')
    qed
  qed
  have "ascending (A @ (key, v) # B)"
    using leaf_okD(6) [OF n] unfolding es by (simp add: ascending_append ascending_Cons)
  then have "leaf_ok ?n"
    using n len num ent by (simp add: leaf_ok_def isLeaf_def next_leaf_def keep)
  moreover have "set_value n (int ?p) v = Inr ?n" using p1 by (simp add: set_value_def MAX_KEYS_def)
  ultimately show thesis using ent by (intro that)
qed

lemma leaf_remove_ok:
  assumes n: "leaf_ok n" and es: "node_entries n = A @ e # B"
  obtains n' where "shift_down n [int (length A)..numKeys n - 2] = Inr n'"
    "leaf_ok (set_numKeys n' (numKeys n' - 1))" "node_entries (set_numKeys n' (numKeys n' - 1)) = A @ B"
proof -
  let ?p = "length A" and ?m = "length A + length B"
  have len: "length n = NODE_WORDS" using n by (rule leaf_okD)
  have num: "numKeys n = int ?m + 1" and m: "?m < 128"
    using arg_cong [OF es, of length] leaf_okD(3,4) [OF n] by simp_all
  have "?p \<le> ?m" by simp
  then obtain n1 where n1: "shift_down n [int ?p..int ?m - 1] = Inr n1" "length n1 = NODE_WORDS"
    "\<forall>w < NODE_WORDS. n1 ! w = (if 2 + ?p \<le> w \<and> w < 2 + ?m then n ! (w + 1)
       else if 130 + 2 * ?p \<le> w \<and> w < 130 + 2 * ?m then n ! (w + 2) else n ! w)"
    using shift_down_ok [of ?p ?m n] m len by blast
  have k1: "n1 ! 0 = n ! 0" "n1 ! 1 = n ! 1" "n1 ! 386 = n ! 386"
    using n1(3) m by (auto simp: NODE_WORDS_def)
  then have num1: "numKeys n1 = int ?m + 1" using num by (simp add: numKeys_def)
  define n2 where "n2 = set_numKeys n1 (numKeys n1 - 1)"
  have n2w: "n2 ! w = (if w = 1 then word_of_int (int ?m) else n1 ! w)" if "w < NODE_WORDS" for w
    using that n1(2) by (simp add: n2_def set_numKeys_def num1 nth_list_update)
  have keep: "n2 ! 0 = n ! 0" "n2 ! 386 = n ! 386"
    using n2w [of 0] n2w [of 386] k1 by (auto simp: NODE_WORDS_def)
  have len2: "length n2 = NODE_WORDS" using n1(2) by (simp add: n2_def set_numKeys_def)
  have num2: "numKeys n2 = int ?m"
  proof -
    have "n2 ! 1 = word_of_int (int ?m)" by (subst n2w) (simp_all add: NODE_WORDS_def)
    moreover have "sint (word_of_int (int ?m) :: int32) = int ?m" using m by (intro sint_int32) simp_all
    ultimately show ?thesis by (simp only: numKeys_def)
  qed
  have ent: "node_entries n2 = A @ B"
  proof (rule nth_equalityI)
    show "length (node_entries n2) = length (A @ B)" using num2 by simp
    fix j assume "j < length (node_entries n2)"
    then have j: "j < nat (numKeys n2)" "j < ?m" using num2 by simp_all
    have wj: "133 + 2 * j < NODE_WORDS" using j(2) m by (simp add: NODE_WORDS_def)
    have e: "node_entries n2 ! j = node_entry n2 j" using j(1) by (rule nth_node_entries)
    show "node_entries n2 ! j = (A @ B) ! j"
    proof (cases "j < ?p")
      case True
      then have "node_entry n2 j = node_entries n ! j"
        using wj n2w n1(3) num m by (simp add: node_entry_def nth_node_entries NODE_WORDS_def)
      then show ?thesis using e True by (simp add: es nth_append)
    next
      case False
      have "n2 ! (2 + j) = n ! (2 + Suc j)" "n2 ! (130 + 2 * j) = n ! (130 + 2 * Suc j)" "n2 ! (131 + 2 * j) = n ! (131 + 2 * Suc j)"
        using wj n2w n1(3) False j(2) m by (simp_all add: NODE_WORDS_def)
      then have "node_entry n2 j = node_entry n (Suc j)" by (simp add: node_entry_def)
      also have "\<dots> = node_entries n ! Suc j" using j(2) num by (simp add: nth_node_entries)
      also have "\<dots> = (A @ B) ! j" using False by (simp add: es nth_append Suc_diff_le)
      finally show ?thesis using e by simp
    qed
  qed
  have "ascending (A @ B)"
    using leaf_okD(6) [OF n] unfolding es by (simp add: ascending_append ascending_Cons)
  then have "leaf_ok n2"
    using n len2 num2 m ent by (simp add: leaf_ok_def isLeaf_def next_leaf_def keep MAX_KEYS_def)
  with n1(1) ent show thesis by (intro that [of n1]) (simp_all add: num n2_def)
qed

subsection \<open>Nodes on pages\<close>

lemma take_word:
  "w < length n \<Longrightarrow> take 4 (drop (4 * w) (concat (map int32_bytes n) @ rest)) = int32_bytes (n ! w)"
proof (induction n arbitrary: w)
  case (Cons x n)
  then show ?case by (cases w) simp_all
qed simp

lemma length_words [simp]: "length (concat (map int32_bytes n)) = 4 * length n"
  by (induction n) simp_all

lemma page_node_page [simp]:
  "length n = NODE_WORDS \<Longrightarrow> page_node (node_page n page) = n"
  using take_word [of _ n "drop (4 * length n) page"]
  by (intro nth_equalityI) (simp_all add: page_node_def node_page_def overwrite_def)

lemma length_node_page [simp]:
  "length n = NODE_WORDS \<Longrightarrow> length page = PAGE_SIZE \<Longrightarrow> length (node_page n page) = PAGE_SIZE"
  by (simp add: node_page_def NODE_WORDS_def PAGE_SIZE_def)

lemma length_page_node [simp]: "length (page_node page) = NODE_WORDS"
  by (simp add: page_node_def)

lemma readNode_ok:
  assumes "bm_idle F s" "f \<in> F" "p < length (bm_pages F s f)"
  obtains t where "readNode f (int p) s = (Inr (page_node (bm_pages F s f ! p)), t)" "bm_idle F t"
    "bm_pages F t = bm_pages F s" "bm_keep t = bm_keep s"
proof -
  have "(\<lambda>page. Leave (page_node page)) (bm_pages F s f ! p) = Leave (page_node (bm_pages F s f ! p))" ..
  from with_page_leave [where visit = "\<lambda>page. Leave (page_node page)", OF assms this]
  show thesis using that unfolding readNode_def by blast
qed

lemma writeNode_ok:
  assumes "bm_idle F s" "f \<in> F" "p < length (bm_pages F s f)" "length n = NODE_WORDS"
  obtains t where "writeNode f (int p) n s = (Inr (), t)" "bm_idle F t"
    "bm_pages F t = (bm_pages F s)(f := (bm_pages F s f)[p := node_page n (bm_pages F s f ! p)])" "bm_keep t = bm_keep s"
proof -
  let ?v = "\<lambda>page. Dirty () (node_page n page)"
  have "?v (bm_pages F s f ! p) = Dirty () (node_page n (bm_pages F s f ! p))" ..
  moreover have "length (node_page n (bm_pages F s f ! p)) = PAGE_SIZE"
    using assms pool.page_length [OF assms(1-3)] by simp
  ultimately show thesis
    using with_page_dirty [where visit = ?v, OF assms(1-3)] that unfolding writeNode_def by blast
qed

subsection \<open>A tree with one leaf\<close>

text \<open>
  \<open>tree_inv F tr s\<close>: the tree's root is its only leaf, and the header page names it. \<open>tree_map\<close> is the
  finite map it holds. \<open>tree_change F tr s t m\<close>: \<open>t\<close> is a state after an operation that left the map \<open>m\<close>
  and touched no other file.
\<close>

definition tree_leaf :: "int set \<Rightarrow> BPlusTree \<Rightarrow> 'a bm_state_scheme \<Rightarrow> Node" where
  "tree_leaf F tr s = page_node (bm_pages F s (tfile tr) ! nat (troot tr))"

definition tree_inv :: "int set \<Rightarrow> BPlusTree \<Rightarrow> 'a bm_state_scheme \<Rightarrow> bool" where
  "tree_inv F tr s \<longleftrightarrow> bm_idle F s \<and> tfile tr \<in> F \<and> 0 < troot tr \<and>
     nat (troot tr) < length (bm_pages F s (tfile tr)) \<and> header_root (bm_pages F s (tfile tr) ! 0) = troot tr \<and>
     leaf_ok (tree_leaf F tr s)"

definition tree_map :: "int set \<Rightarrow> BPlusTree \<Rightarrow> 'a bm_state_scheme \<Rightarrow> int32 \<rightharpoonup> RecordID" where
  "tree_map F tr s = map_of (node_entries (tree_leaf F tr s))"

definition tree_change ::
  "int set \<Rightarrow> BPlusTree \<Rightarrow> 'a bm_state_scheme \<Rightarrow> 'a bm_state_scheme \<Rightarrow> (int32 \<rightharpoonup> RecordID) \<Rightarrow> bool" where
  "tree_change F tr s t m \<longleftrightarrow> tree_inv F tr t \<and> tree_map F tr t = m \<and> bm_keep t = bm_keep s \<and>
     (\<forall>g. g \<noteq> tfile tr \<longrightarrow> bm_pages F t g = bm_pages F s g)"

lemma tree_invE:
  assumes "tree_inv F tr s"
  obtains r where "bm_idle F s" "tfile tr \<in> F" "troot tr = int r" "0 < r" "r < length (bm_pages F s (tfile tr))"
    "header_root (bm_pages F s (tfile tr) ! 0) = int r" "leaf_ok (tree_leaf F tr s)"
    "tree_leaf F tr s = page_node (bm_pages F s (tfile tr) ! r)"
  using assms by (intro that [of "nat (troot tr)"]) (auto simp: tree_inv_def tree_leaf_def)

lemma tree_same:
  assumes "tree_inv F tr s" "bm_idle F t" "bm_pages F t = bm_pages F s" "bm_keep t = bm_keep s"
  shows "tree_change F tr s t (tree_map F tr s)"
  using assms by (simp add: tree_change_def tree_inv_def tree_map_def tree_leaf_def)

lemma tree_write:
  assumes inv: "tree_inv F tr s" and n: "leaf_ok n"
  obtains t where "writeNode (tfile tr) (troot tr) n s = (Inr (), t)"
    "tree_change F tr s t (map_of (node_entries n))"
proof -
  let ?f = "tfile tr"
  obtain r where r: "bm_idle F s" "?f \<in> F" "troot tr = int r" "0 < r" "r < length (bm_pages F s ?f)"
    "header_root (bm_pages F s ?f ! 0) = int r"
    using inv by (rule tree_invE)
  obtain t where t: "writeNode ?f (int r) n s = (Inr (), t)" "bm_idle F t"
    "bm_pages F t = (bm_pages F s)(?f := (bm_pages F s ?f)[r := node_page n (bm_pages F s ?f ! r)])"
    "bm_keep t = bm_keep s"
    using r(1,2,5) leaf_okD(1) [OF n] by (rule writeNode_ok)
  have "tree_leaf F tr t = n" using r t(3) leaf_okD(1) [OF n] by (simp add: tree_leaf_def)
  then have "tree_change F tr s t (map_of (node_entries n))"
    using r t n by (simp add: tree_change_def tree_inv_def tree_map_def)
  with t(1) r(3) show thesis by (intro that) simp_all
qed

lemma tree_trans:
  "tree_change F tr s t m \<Longrightarrow> tree_change F tr t u k \<Longrightarrow> tree_change F tr s u k"
  by (auto simp: tree_change_def)

lemma read_leaf:
  assumes inv: "tree_inv F tr s"
  obtains t where "readNode (tfile tr) (troot tr) s = (Inr (tree_leaf F tr s), t)"
    "tree_change F tr s t (tree_map F tr s)" "tree_leaf F tr t = tree_leaf F tr s"
proof -
  obtain r where r: "bm_idle F s" "tfile tr \<in> F" "troot tr = int r" "r < length (bm_pages F s (tfile tr))"
    "tree_leaf F tr s = page_node (bm_pages F s (tfile tr) ! r)"
    using inv by (rule tree_invE)
  obtain t where "readNode (tfile tr) (int r) s = (Inr (page_node (bm_pages F s (tfile tr) ! r)), t)" "bm_idle F t"
    "bm_pages F t = bm_pages F s" "bm_keep t = bm_keep s"
    using r(1,2,4) by (rule readNode_ok)
  with r(3,5) tree_same [OF inv] show thesis by (intro that [of t]) (simp_all add: tree_leaf_def)
qed

lemma find_leaf:
  assumes inv: "tree_inv F tr s"
  obtains t where "findLeafPage stack_depth (tfile tr) (troot tr) key s = (Inr (troot tr), t)"
    "tree_change F tr s t (tree_map F tr s)" "tree_leaf F tr t = tree_leaf F tr s"
proof -
  obtain t where t: "readNode (tfile tr) (troot tr) s = (Inr (tree_leaf F tr s), t)"
    "tree_change F tr s t (tree_map F tr s)" "tree_leaf F tr t = tree_leaf F tr s"
    using inv by (rule read_leaf)
  have "isLeaf (tree_leaf F tr s)" using inv by (simp add: tree_inv_def leaf_ok_def)
  with t show thesis by (intro that [of t]) (simp_all only: stack_depth_def findLeafPage.simps bindM_Inr if_True retM_run)
qed

text \<open>Both together: the leaf of a key as \<open>find\<close>, \<open>remove\<close> and \<open>rangeScan\<close> reach it.\<close>

lemma reach_leaf:
  assumes inv: "tree_inv F tr s"
  obtains t where "tree_change F tr s t (tree_map F tr s)" "tree_leaf F tr t = tree_leaf F tr s" "0 \<le> troot tr"
    "bindM (findLeafPage stack_depth (tfile tr) (troot tr) key) (\<lambda>p. bindM (readNode (tfile tr) p) (g p)) s =
      g (troot tr) (tree_leaf F tr s) t"
proof -
  obtain t where t: "findLeafPage stack_depth (tfile tr) (troot tr) key s = (Inr (troot tr), t)"
    "tree_change F tr s t (tree_map F tr s)" "tree_leaf F tr t = tree_leaf F tr s"
    using inv by (rule find_leaf)
  have it: "tree_inv F tr t" using t(2) by (simp add: tree_change_def)
  obtain u where u: "readNode (tfile tr) (troot tr) t = (Inr (tree_leaf F tr t), u)"
    "tree_change F tr t u (tree_map F tr t)" "tree_leaf F tr u = tree_leaf F tr t"
    using it by (rule read_leaf)
  have "tree_map F tr t = tree_map F tr s" using t(2) by (simp add: tree_change_def)
  with t u tree_trans [OF t(2) u(2)] inv show thesis
    by (intro that [of u]) (simp_all add: tree_inv_def)
qed

subsection \<open>The operations on the map\<close>

lemma map_of_nth: "map_of (map (\<lambda>i. es ! i) [0..<length es]) = map_of es"
  by (simp add: map_nth)

lemma find_in_ok:
  assumes n: "leaf_ok n"
  shows "find_in n key [0..numKeys n - 1] = Inr (map_of (node_entries n) key)"
proof -
  have "find_in n key (map int is) = Inr (map_of (map (\<lambda>i. node_entries n ! i) is) key)"
    if "\<forall>i \<in> set is. i < length (node_entries n)" for "is"
    using that leaf_okD(4) [OF n]
  proof (induction "is")
    case (Cons i "is")
    then have "key_at n (int i) = Inr (fst (node_entries n ! i))" "value_at n (int i) = Inr (snd (node_entries n ! i))"
      by (simp_all add: key_at_entry value_at_entry del: length_node_entries)
    with Cons show ?case by (cases "node_entries n ! i") auto
  qed simp
  from this [of "[0..<length (node_entries n)]"]
  have "find_in n key (map int [0..<length (node_entries n)]) = Inr (map_of (node_entries n) key)"
    by (simp add: map_of_nth del: length_node_entries)
  then show ?thesis by (simp only: leaf_okD(7) [OF n] int_upto)
qed

lemma find_ok:
  assumes inv: "tree_inv F tr s"
  obtains t where "find_key tr key s = (Inr (tree_map F tr s key), t)" "tree_change F tr s t (tree_map F tr s)"
proof -
  let ?g = "\<lambda>(_ :: int) n. liftM (find_in n key [0..numKeys n - 1])"
  obtain t where t: "tree_change F tr s t (tree_map F tr s)" "tree_leaf F tr t = tree_leaf F tr s" "0 \<le> troot tr"
    "bindM (findLeafPage stack_depth (tfile tr) (troot tr) key) (\<lambda>p. bindM (readNode (tfile tr) p) (?g p)) s =
      ?g (troot tr) (tree_leaf F tr s) t"
    using inv by (rule reach_leaf [where key = key and g = ?g])
  have "leaf_ok (tree_leaf F tr s)" using inv by (simp add: tree_inv_def)
  then show thesis
    using t by (intro that [of t]) (simp_all add: find_key_def find_in_ok tree_map_def)
qed

text \<open>The entry of a key in a sorted list.\<close>

lemma map_of_above:
  assumes "ascending es"
  shows "map_of es key = (case above key es of [] \<Rightarrow> None | e # B \<Rightarrow> if fst e = key then Some (snd e) else None)"
proof -
  have b: "map_of (below key es) key = None"
    using below_less [of _ key es] by (fastforce simp: map_of_eq_None_iff)
  have "map_of es key = map_of (above key es) key"
    using b by (subst below_above [symmetric, of es key], subst map_of_append) (simp add: map_add_def split: option.split)
  also have "\<dots> = (case above key es of [] \<Rightarrow> None | e # B \<Rightarrow> if fst e = key then Some (snd e) else None)"
  proof (cases "above key es")
    case (Cons e B)
    have "ascending (above key es)" using assms below_above [of key es] by (metis ascending_append)
    then have "map_of B key = None" if "fst e \<noteq> key"
      using that above_not_less [OF assms, of e key] Cons
      by (fastforce simp: map_of_eq_None_iff ascending_Cons signed_word_eqI)
    with Cons show ?thesis by (cases e) auto
  qed simp
  finally show ?thesis .
qed

lemma map_of_insert: "key \<notin> fst ` set A \<Longrightarrow> map_of (A @ (key, v) # B) = (map_of (A @ B))(key \<mapsto> v)"
  by (rule ext) (auto simp: map_add_def map_of_eq_None_iff [symmetric] split: option.split)

lemma map_of_remove:
  "key \<notin> fst ` set A \<Longrightarrow> key \<notin> fst ` set B \<Longrightarrow> map_of (A @ B) = (map_of (A @ (key, v) # B))(key := None)"
  by (rule ext) (auto simp: map_add_def map_of_eq_None_iff [symmetric] split: option.split)

lemma card_entries: "ascending es \<Longrightarrow> card (dom (map_of es)) = length es"
  using ascending_distinct [of es] distinct_card [of "map fst es"] by (simp add: dom_map_of_conv_image_fst)

text \<open>The leaf's entries around a key.\<close>

lemma leaf_split:
  assumes "leaf_ok n" "tree_leaf F tr s = n" "tree_map F tr s = m"
  obtains (found) A old B where "node_entries n = A @ (key, old) # B" "length A = length (below key (node_entries n))"
      "m key = Some old" "key \<notin> fst ` set A" "key \<notin> fst ` set B"
      "int (length A) < numKeys n" "key_at n (int (length A)) = Inr key"
  | (fresh) A B where "node_entries n = A @ B" "length A = length (below key (node_entries n))" "m key = None"
      "key \<notin> fst ` set A" "\<forall>e \<in> set A. sint (fst e) < sint key" "\<forall>e \<in> set B. sint key < sint (fst e)"
      "int (length A) < numKeys n \<longrightarrow> (\<exists>k. key_at n (int (length A)) = Inr k \<and> k \<noteq> key)"
proof -
  let ?es = "node_entries n"
  have asc: "ascending ?es" using assms(1) by (rule leaf_okD)
  have m: "m key = (case above key ?es of [] \<Rightarrow> None | e # B \<Rightarrow> if fst e = key then Some (snd e) else None)"
    using map_of_above [OF asc] assms(2,3) by (auto simp: tree_map_def)
  have A: "key \<notin> fst ` set (below key ?es)" using below_less by fastforce
  have ab: "ascending (above key ?es)" using asc below_above [of key ?es] by (metis ascending_append)
  show thesis
  proof (cases "m key")
    case None
    have gt: "sint key < sint (fst e)" if e: "e \<in> set (above key ?es)" for e
    proof -
      obtain x B where x: "above key ?es = x # B" using e by (cases "above key ?es") auto
      then have "fst x \<noteq> key" using None m by (auto split: if_splits)
      then have "sint key < sint (fst x)"
        using above_not_less [OF asc, of x key] x by (metis linorder_neqE_linordered_idom list.set_intros(1) signed_word_eqI)
      then show ?thesis using e ab x by (auto simp: ascending_Cons)
    qed
    have "\<exists>k. key_at n (int (length (below key ?es))) = Inr k \<and> k \<noteq> key" if "int (length (below key ?es)) < numKeys n"
    proof -
      have len: "length (below key ?es) < length ?es" using that leaf_okD(7) [OF assms(1)] by linarith
      have mem: "?es ! length (below key ?es) \<in> set (above key ?es)"
        using len by (subst below_above [symmetric, of ?es key], subst nth_append) (metis add_diff_inverse_nat append.right_neutral
          below_above diff_self_eq_0 length_0_conv length_append less_irrefl_nat less_nat_zero_code linorder_neqE_nat nth_mem)
      show ?thesis using gt [OF mem] key_at_entry [OF len leaf_okD(4) [OF assms(1)]] by auto
    qed
    then show thesis
      using gt None A below_less [of _ key ?es] by (intro fresh [of "below key ?es" "above key ?es"]) auto
  next
    case (Some old)
    then obtain B where B: "above key ?es = (key, old) # B"
      using m by (cases "above key ?es") (auto split: if_splits)
    then have kB: "key \<notin> fst ` set B" using ab by (fastforce simp: ascending_Cons)
    have es: "?es = below key ?es @ (key, old) # B" using B below_above [of key ?es] by simp
    have len: "length (below key ?es) < length ?es" using arg_cong [OF es, of length] by simp
    have "?es ! length (below key ?es) = (key, old)" by (subst (1) es) simp
    then have "key_at n (int (length (below key ?es))) = Inr key"
      using key_at_entry [OF len leaf_okD(4) [OF assms(1)]] by simp
    moreover have "int (length (below key ?es)) < numKeys n" using len leaf_okD(7) [OF assms(1)] by linarith
    ultimately show thesis
      using Some A kB es by (intro found [of "below key ?es" old B]) auto
  qed
qed

lemma insert_run:
  assumes inv: "tree_inv F tr s"
  obtains t where "tree_change F tr s t (tree_map F tr s)" "tree_leaf F tr t = tree_leaf F tr s"
    "insertRecursive stack_depth (tfile tr) (troot tr) key v s = insert_leaf (tfile tr) (troot tr) (tree_leaf F tr s) key v t"
proof -
  obtain t where t: "readNode (tfile tr) (troot tr) s = (Inr (tree_leaf F tr s), t)"
    "tree_change F tr s t (tree_map F tr s)" "tree_leaf F tr t = tree_leaf F tr s"
    using inv by (rule read_leaf)
  have "isLeaf (tree_leaf F tr s)" using inv by (simp add: tree_inv_def leaf_ok_def)
  with t show thesis by (intro that [of t]) (simp_all only: stack_depth_def insertRecursive.simps bindM_Inr if_True)
qed

lemma insert_ok_key:
  assumes inv: "tree_inv F tr s" and v: "rid_ok v"
    and room: "tree_map F tr s key \<noteq> None \<or> card (dom (tree_map F tr s)) < 128"
  obtains t where "insert_key tr key v s = (Inr tr, t)" "tree_change F tr s t ((tree_map F tr s)(key \<mapsto> v))"
proof -
  let ?n = "tree_leaf F tr s"
  have n: "leaf_ok ?n" using inv by (simp add: tree_inv_def)
  obtain t where t: "tree_change F tr s t (tree_map F tr s)" "tree_leaf F tr t = ?n"
    "insertRecursive stack_depth (tfile tr) (troot tr) key v s = insert_leaf (tfile tr) (troot tr) ?n key v t"
    using inv by (rule insert_run)
  have it: "tree_inv F tr t" using t(1) by (simp add: tree_change_def)
  note lb = lower_bound_ok [OF n, of key]
  have "\<exists>n'. leaf_ok n' \<and> map_of (node_entries n') = (tree_map F tr s)(key \<mapsto> v) \<and>
    insert_leaf (tfile tr) (troot tr) ?n key v t = bindM (writeNode (tfile tr) (troot tr) n') (\<lambda>_. retM None) t"
    using n refl refl
  proof (cases rule: leaf_split [where key = key])
    case (found A old B)
    obtain n' where n': "set_value ?n (int (length A)) v = Inr n'" "leaf_ok n'" "node_entries n' = A @ (key, v) # B"
      using n found(1) v by (rule leaf_set_ok)
    have "map_of (node_entries n') = (tree_map F tr s)(key \<mapsto> v)"
      unfolding tree_map_def found(1) n'(3) by (simp only: map_of_insert [OF found(4)] fun_upd_upd)
    moreover have "insert_leaf (tfile tr) (troot tr) ?n key v t = bindM (writeNode (tfile tr) (troot tr) n') (\<lambda>_. retM None) t"
      using lb found(6,7) n'(1) by (simp add: insert_leaf_def found(2) [symmetric])
    ultimately show ?thesis using n'(2) by blast
  next
    case (fresh A B)
    have c: "card (dom (tree_map F tr s)) = length (node_entries ?n)"
      using card_entries [OF leaf_okD(6) [OF n]] by (simp add: tree_map_def)
    have num: "numKeys ?n = int (length (node_entries ?n))" "length (node_entries ?n) < 128"
      using room c fresh(3) leaf_okD(7) [OF n] by (auto simp del: length_node_entries)
    obtain n' where n': "leaf_add ?n (int (length A)) key v = Inr n'" "length n' = NODE_WORDS" "isLeaf n' = isLeaf ?n"
      "next_leaf n' = next_leaf ?n" "numKeys n' = int (length (node_entries ?n)) + 1" "node_entries n' = A @ (key, v) # B"
      using leaf_okD(1) [OF n] num fresh(1) v by (rule leaf_add_ok)
    have nf: "(if int (length A) < numKeys ?n then bindE (key_at ?n (int (length A))) (\<lambda>k. Inr (k = key)) else Inr False) = Inr False"
      using fresh(7) by auto
    have "ascending (A @ (key, v) # B)"
      using leaf_okD(6) [OF n] fresh(5,6) unfolding fresh(1) by (auto simp: ascending_append ascending_Cons)
    then have "leaf_ok n'"
      using n' num leaf_okD(2,5) [OF n] by (simp add: leaf_ok_def MAX_KEYS_def del: length_node_entries)
    moreover have "map_of (node_entries n') = (tree_map F tr s)(key \<mapsto> v)"
      unfolding tree_map_def fresh(1) n'(6) using fresh(4) by (rule map_of_insert)
    moreover have "insert_leaf (tfile tr) (troot tr) ?n key v t = bindM (writeNode (tfile tr) (troot tr) n') (\<lambda>_. retM None) t"
      using lb nf n'(1,5) num by (simp add: insert_leaf_def fresh(2) [symmetric] MAX_KEYS_def del: length_node_entries)
    ultimately show ?thesis by blast
  qed
  then obtain n' where n': "leaf_ok n'" "map_of (node_entries n') = (tree_map F tr s)(key \<mapsto> v)"
    "insert_leaf (tfile tr) (troot tr) ?n key v t = bindM (writeNode (tfile tr) (troot tr) n') (\<lambda>_. retM None) t" by blast
  obtain u where u: "writeNode (tfile tr) (troot tr) n' t = (Inr (), u)" "tree_change F tr t u (map_of (node_entries n'))"
    using it n'(1) by (rule tree_write)
  have "insert_key tr key v s = (Inr tr, u)"
    using t(3) n'(3) u(1) by (simp add: insert_key_def)
  with tree_trans [OF t(1) u(2)] show thesis by (intro that [of u]) (simp_all add: n'(2))
qed

lemma full_leaf:
  assumes inv: "tree_inv F tr s" and full: "tree_map F tr s key = None" "card (dom (tree_map F tr s)) = 128"
  obtains t where "insert_key tr key v s = (Inl outside_array, t)"
proof -
  let ?n = "tree_leaf F tr s"
  have n: "leaf_ok ?n" using inv by (simp add: tree_inv_def)
  obtain t where t: "tree_change F tr s t (tree_map F tr s)" "tree_leaf F tr t = ?n"
    "insertRecursive stack_depth (tfile tr) (troot tr) key v s = insert_leaf (tfile tr) (troot tr) ?n key v t"
    using inv by (rule insert_run)
  have "card (dom (tree_map F tr s)) = length (node_entries ?n)"
    using card_entries [OF leaf_okD(6) [OF n]] by (simp add: tree_map_def)
  then have num: "length (node_entries ?n) = 128" "numKeys ?n = 128"
    using full(2) leaf_okD(7) [OF n] by (simp_all del: length_node_entries)
  note lb = lower_bound_ok [OF n, of key]
  have "insert_leaf (tfile tr) (troot tr) ?n key v t = (Inl outside_array, t)"
    using n refl refl
  proof (cases rule: leaf_split [where key = key])
    case (found A old B)
    with full show ?thesis by simp
  next
    case (fresh A B)
    have la: "length A \<le> 128" using arg_cong [OF fresh(1), of length] num(1) by simp
    have add: "leaf_add ?n (int (length A)) key v = Inl outside_array"
    proof (cases "length A = 128")
      case True
      then show ?thesis by (simp add: leaf_add_def num(2) set_key_def MAX_KEYS_def)
    next
      case False
      have "[int (length A) + 1..128] = [int (length A) + 1..127] @ [128]"
        using upto_rec2 [of "int (length A) + 1" 128] la False by simp
      then show ?thesis by (simp add: leaf_add_def num(2) key_at_def set_key_def MAX_KEYS_def)
    qed
    have nf: "(if int (length A) < numKeys ?n then bindE (key_at ?n (int (length A))) (\<lambda>k. Inr (k = key)) else Inr False) = Inr False"
      using fresh(7) by auto
    show ?thesis
      using lb nf add by (simp add: insert_leaf_def fresh(2) [symmetric])
  qed
  then show thesis using t(3) by (intro that [of t]) (simp add: insert_key_def)
qed

lemma remove_ok:
  assumes inv: "tree_inv F tr s"
  obtains t where "remove_key tr key s = (Inr (tree_map F tr s key \<noteq> None), t)"
    "tree_change F tr s t ((tree_map F tr s)(key := None))"
proof -
  let ?n = "tree_leaf F tr s"
  have n: "leaf_ok ?n" using inv by (simp add: tree_inv_def)
  let ?g = "\<lambda>p n. bindM (liftM (lower_bound n key)) (\<lambda>pos.
     bindM (liftM (if pos \<ge> numKeys n then Inr False else bindE (key_at n pos) (\<lambda>k. Inr (k = key)))) (\<lambda>found.
     if \<not> found then retM False
     else bindM (liftM (shift_down n [pos..numKeys n - 2])) (\<lambda>n.
          bindM (writeNode (tfile tr) p (set_numKeys n (numKeys n - 1))) (\<lambda>_. retM True))))"
  obtain t where t: "tree_change F tr s t (tree_map F tr s)" "tree_leaf F tr t = ?n" "0 \<le> troot tr"
    "bindM (findLeafPage stack_depth (tfile tr) (troot tr) key) (\<lambda>p. bindM (readNode (tfile tr) p) (?g p)) s = ?g (troot tr) ?n t"
    using inv by (rule reach_leaf [where key = key and g = ?g])
  have it: "tree_inv F tr t" using t(1) by (simp add: tree_change_def)
  have run: "remove_key tr key s = ?g (troot tr) ?n t" using t(4) by (simp add: remove_key_def)
  note lb = lower_bound_ok [OF n, of key]
  show thesis
    using n refl refl
  proof (cases rule: leaf_split [where key = key])
    case (found A old B)
    obtain n' where n': "shift_down ?n [int (length A)..numKeys ?n - 2] = Inr n'"
      "leaf_ok (set_numKeys n' (numKeys n' - 1))" "node_entries (set_numKeys n' (numKeys n' - 1)) = A @ B"
      using n found(1) by (rule leaf_remove_ok)
    obtain u where u: "writeNode (tfile tr) (troot tr) (set_numKeys n' (numKeys n' - 1)) t = (Inr (), u)"
      "tree_change F tr t u (map_of (A @ B))"
      using it n'(2) unfolding n'(3) [symmetric] by (rule tree_write)
    have "?g (troot tr) ?n t = (Inr True, u)"
      using lb found(6,7) n'(1) u(1) by (simp add: found(2) [symmetric])
    moreover have "map_of (A @ B) = (tree_map F tr s)(key := None)"
      unfolding tree_map_def found(1) using found(4,5) by (rule map_of_remove)
    ultimately show thesis using run tree_trans [OF t(1) u(2)] found(3) by (intro that [of u]) simp_all
  next
    case (fresh A B)
    have nf: "(if int (length A) \<ge> numKeys ?n then Inr False else bindE (key_at ?n (int (length A))) (\<lambda>k. Inr (k = key))) = Inr False"
      using fresh(7) by auto
    have "?g (troot tr) ?n t = (Inr False, t)"
      using lb nf by (simp add: fresh(2) [symmetric])
    moreover have "(tree_map F tr s)(key := None) = tree_map F tr s" using fresh(3) by auto
    ultimately show thesis using run t(1) fresh(3) by (intro that [of t]) simp_all
  qed
qed

lemma scan_leaf_ok:
  assumes n: "leaf_ok n"
  shows "\<exists>stop. scan_leaf n low high [0..numKeys n - 1] =
    Inr (map snd (filter (\<lambda>e. sint low \<le> sint (fst e) \<and> sint (fst e) \<le> sint high) (node_entries n)), stop)"
proof -
  let ?es = "node_entries n" and ?P = "\<lambda>e. sint low \<le> sint (fst e) \<and> sint (fst e) \<le> sint high"
  have all: "\<exists>stop. scan_leaf n low high (map int is) = Inr (map snd (filter ?P (map ((!) ?es) is)), stop)"
    if "\<forall>i \<in> set is. i < length ?es" "ascending (map ((!) ?es) is)" for "is"
    using that
  proof (induction "is")
    case (Cons i "is")
    have at: "key_at n (int i) = Inr (fst (?es ! i))" "value_at n (int i) = Inr (snd (?es ! i))"
      using Cons.prems(1) leaf_okD(4) [OF n] by (simp_all add: key_at_entry value_at_entry del: length_node_entries)
    obtain stop where IH: "scan_leaf n low high (map int is) = Inr (map snd (filter ?P (map ((!) ?es) is)), stop)"
      using Cons by (auto simp: ascending_Cons)
    show ?case
    proof (cases "sint (fst (?es ! i)) > sint high")
      case True
      have "filter ?P (map ((!) ?es) is) = []"
        using True Cons.prems(2) by (auto simp: ascending_Cons filter_empty_conv)
      then show ?thesis using True at by auto
    qed (use at IH in auto)
  qed auto
  have "\<exists>stop. scan_leaf n low high (map int [0..<length ?es]) = Inr (map snd (filter ?P ?es), stop)"
    using all [of "[0..<length ?es]"] leaf_okD(6) [OF n] unfolding map_nth by simp
  then show ?thesis by (simp only: leaf_okD(7) [OF n] int_upto)
qed

lemma rangeScan_ok:
  assumes inv: "tree_inv F tr s" and fuel: "0 < fuel"
  obtains t where "rangeScan fuel tr low high s = (Inr (map snd (filter (\<lambda>e. sint low \<le> sint (fst e) \<and> sint (fst e) \<le> sint high)
      (node_entries (tree_leaf F tr s)))), t)" "tree_change F tr s t (tree_map F tr s)"
proof -
  let ?n = "tree_leaf F tr s"
  have n: "leaf_ok ?n" using inv by (simp add: tree_inv_def)
  let ?g = "\<lambda>(_ :: int) n. scan_leaves fuel (tfile tr) n low high"
  obtain t where t: "tree_change F tr s t (tree_map F tr s)" "tree_leaf F tr t = ?n" "0 \<le> troot tr"
    "bindM (findLeafPage stack_depth (tfile tr) (troot tr) low) (\<lambda>p. bindM (readNode (tfile tr) p) (?g p)) s = ?g (troot tr) ?n t"
    using inv by (rule reach_leaf [where key = low and g = ?g])
  obtain stop where "scan_leaf ?n low high [0..numKeys ?n - 1] =
    Inr (map snd (filter (\<lambda>e. sint low \<le> sint (fst e) \<and> sint (fst e) \<le> sint high) (node_entries ?n)), stop)"
    using scan_leaf_ok [OF n] by blast
  then show thesis
    using t fuel leaf_okD(5) [OF n] by (intro that [of t]) (simp_all add: rangeScan_def gr0_conv_Suc, auto)
qed

subsection \<open>Opening a tree\<close>

text \<open>A fetched page that is unpinned and fetched again: only the hit counter moves.\<close>

lemma unpin_fetch:
  assumes "pageTable s (f, p) = Some i" "i < length (frames s)" "0 < pinCount (frames s ! i)"
  shows "bindM (unpinPage f p) (\<lambda>_. fetchPage f p) s = (Inr i, s\<lparr>bufferHits := bufferHits s + 1\<rparr>)"
  using assms by (simp add: unpinPage_def fetchPage_def incBufferHit_def upd_frame_def nth_list_update list_update_same_conv)

lemma probe_run:
  assumes "fetchPage f 0 s = (Inr i, t)" "pageTable t (f, 0) = Some i" "i < length (frames t)" "0 < pinCount (frames t ! i)"
  shows "probe_header f s = (Inr (), t\<lparr>bufferHits := bufferHits t + 2\<rparr>)"
proof -
  let ?u = "t\<lparr>bufferHits := bufferHits t + 1\<rparr>"
  have a: "bindM (unpinPage f 0) (\<lambda>_. fetchPage f 0) t = (Inr i, ?u)" using assms(2-4) by (rule unpin_fetch)
  have b: "bindM (unpinPage f 0) (\<lambda>_. fetchPage f 0) ?u = (Inr i, ?u\<lparr>bufferHits := bufferHits ?u + 1\<rparr>)"
    using assms(2-4) by (intro unpin_fetch) simp_all
  have "probe_header f s = bindM (bindM (unpinPage f 0) (\<lambda>_. fetchPage f 0)) (\<lambda>_.
      bindM (bindM (unpinPage f 0) (\<lambda>_. fetchPage f 0)) (\<lambda>_. retM ())) t"
    using assms(1) by (simp add: probe_header_def bindM_assoc)
  then show ?thesis using a b by simp
qed

lemma hits_idle:
  "bm_idle F (t\<lparr>bufferHits := c\<rparr>) = bm_idle F t" "bm_pages F (t\<lparr>bufferHits := c\<rparr>) = bm_pages F t"
  "bm_keep (t\<lparr>bufferHits := c\<rparr>) = bm_keep t" "pins (t\<lparr>bufferHits := c\<rparr>) = pins t"
proof -
  have v: "view (t\<lparr>bufferHits := c\<rparr>) = view t" "pins (t\<lparr>bufferHits := c\<rparr>) = pins t"
    by (auto simp: fun_eq_iff view_def pins_def split: option.split)
  show "pins (t\<lparr>bufferHits := c\<rparr>) = pins t" by (rule v)
  show "bm_idle F (t\<lparr>bufferHits := c\<rparr>) = bm_idle F t"
    by (simp add: bm_idle_def pinned_pages_def bm_inv_def pool_ok_def cached_ok_def v)
  show "bm_pages F (t\<lparr>bufferHits := c\<rparr>) = bm_pages F t" by (simp add: bm_pages_def fun_eq_iff v)
  show "bm_keep (t\<lparr>bufferHits := c\<rparr>) = bm_keep t" by (simp add: bm_keep_def bm_rest_def v)
qed

text \<open>The constructor's probe of a page that exists: it leaks one pin and changes nothing else.\<close>

lemma held_idle:
  assumes h: "bm_held F t f p i (bm_keep s)" and room: "pinned_pages s + 1 < poolSize s"
  shows "bm_idle F t" "pins t = (pins s)((f, int p) := pins s (f, int p) + 1)" "bm_rest t = bm_rest s"
    "pageTable t (f, int p) = Some i" "i < length (frames t)" "0 < pinCount (frames t ! i)"
proof -
  have inv: "bm_inv F t" and pn: "pins t = (pins s)((f, int p) := pins s (f, int p) + 1)" "bm_rest t = bm_rest s"
    and k: "pageTable t (f, int p) = Some i" and z: "0 \<le> pins s (f, int p)" and P: "pool_ok t"
    using h by (auto simp: bm_held_def bm_keep_def dest: bm_invD)
  show "pins t = (pins s)((f, int p) := pins s (f, int p) + 1)" "bm_rest t = bm_rest s" "pageTable t (f, int p) = Some i"
    using pn k by simp_all
  show "i < length (frames t)" using pool_tableD [OF P k] pool_len [OF P] by simp
  have "pins t (f, int p) = pinCount (frames t ! i)" using k by (simp add: pins_def)
  with pn z show "0 < pinCount (frames t ! i)" by simp
  have "{k. pins s k \<noteq> 0} \<subseteq> {k. pins t k \<noteq> 0}" using z by (auto simp: pn)
  then have fin: "finite {k. pins s k \<noteq> 0}" using pinned_finite [OF P] by (rule finite_subset)
  have "pinned_pages t \<le> card (insert (f, int p) {k. pins s k \<noteq> 0})"
    unfolding pinned_pages_def using fin by (intro card_mono) (auto simp: pn)
  also have "\<dots> \<le> pinned_pages s + 1" by (simp add: pinned_pages_def card_insert_le_m1 fin card_insert_if)
  finally have "pinned_pages t < poolSize s" using room by simp
  moreover have "poolSize t = poolSize s" using pn(2) by (simp add: bm_rest_def)
  ultimately show "bm_idle F t" using inv by (simp add: bm_idle_def)
qed

lemma probe_present:
  assumes "bm_idle F s" "f \<in> F" "0 < length (bm_pages F s f)" "pinned_pages s + 1 < poolSize s"
  obtains t where "probe_header f s = (Inr (), t)" "bm_idle F t" "bm_pages F t = bm_pages F s" "bm_rest t = bm_rest s"
    "pins t = (pins s)((f, 0) := pins s (f, 0) + 1)"
proof -
  obtain i t where t: "fetchPage f (int 0) s = (Inr i, t)" "bm_held F t f 0 i (bm_keep s)" "bm_pages F t = bm_pages F s"
    using pool_fetch [OF assms(1-3)] by blast
  note h = held_idle [OF t(2) assms(4)]
  have "probe_header f s = (Inr (), t\<lparr>bufferHits := bufferHits t + 2\<rparr>)"
    by (rule probe_run) (use t(1) h(4-6) in simp_all)
  moreover have "bm_rest (t\<lparr>bufferHits := bufferHits t + 2\<rparr>) = bm_rest t" by (simp add: bm_rest_def)
  ultimately show thesis using h t(3) by (intro that [of "t\<lparr>bufferHits := bufferHits t + 2\<rparr>"]) (simp_all add: hits_idle)
qed

text \<open>
  The first use: page 0 does not exist when it is fetched, so the pool caches a page of zeros for it,
  and the file gets its page 0 only afterwards. The two steps commute: the state is the one that
  fetching the page after allocating it gives. \<open>with_zero path\<close> is the allocation's effect on an
  empty file.
\<close>

definition with_zero :: "string \<Rightarrow> 'a bm_state_scheme \<Rightarrow> 'a bm_state_scheme" where
  "with_zero path s = s\<lparr>disk := (disk s)(path \<mapsto> zero_page)\<rparr>"

lemma with_zero_simps [simp]:
  "frames (with_zero path s) = frames s" "pageTable (with_zero path s) = pageTable s"
  "poolSize (with_zero path s) = poolSize s" "files (with_zero path s) = files s"
  "clockHand (with_zero path s) = clockHand s" "bufferHits (with_zero path s) = bufferHits s"
  "contents (with_zero path s) q = (if q = path then zero_page else contents s q)"
  by (simp_all add: with_zero_def)

lemma with_zero_commute:
  "with_zero path (s\<lparr>clockHand := h\<rparr>) = (with_zero path s)\<lparr>clockHand := h\<rparr>"
  "with_zero path (s\<lparr>pageTable := T\<rparr>) = (with_zero path s)\<lparr>pageTable := T\<rparr>"
  "with_zero path (s\<lparr>frames := fs\<rparr>) = (with_zero path s)\<lparr>frames := fs\<rparr>"
  "with_zero path (s\<lparr>bufferHits := n\<rparr>) = (with_zero path s)\<lparr>bufferHits := n\<rparr>"
  "with_zero path (upd_frame i g s) = upd_frame i g (with_zero path s)"
  "with_zero path (install_frame i k b s) = install_frame i k b (with_zero path s)"
  by (simp_all add: with_zero_def upd_frame_def install_frame_def)

lemma select_loop_zero:
  "select_loop n (with_zero path s) = apsnd (with_zero path) (select_loop n s)"
  by (induction n arbitrary: s) (simp_all add: Let_def with_zero_commute [symmetric])

lemma evict_zero:
  assumes "evict_frame h s = (Inr (), t)"
    and "\<And>e. isValid (frames s ! h) \<Longrightarrow> files s (fst (pid (frames s ! h))) = Some e \<Longrightarrow> \<not> failbit e \<and> fpath e \<noteq> path"
    and "isValid (frames s ! h) \<Longrightarrow> 0 \<le> snd (pid (frames s ! h))"
  shows "evict_frame h (with_zero path s) = (Inr (), with_zero path t) \<and> files t = files s \<and> contents t path = contents s path"
proof (cases "isValid (frames s ! h) \<and> isDirty (frames s ! h)")
  case True
  let ?g = "fst (pid (frames s ! h))" and ?p = "snd (pid (frames s ! h))" and ?d = "fdata (frames s ! h)"
  obtain e where e: "files s ?g = Some e"
  proof (cases "files s ?g")
    case None
    then have "writePage ?g ?p ?d s = (Inl (Runtime_Error ''Invalid fileId''), s)" by (simp add: writePage_def)
    with True assms(1) show thesis by (simp add: evict_frame_def Let_def)
  qed
  have ok: "\<not> failbit e" "fpath e \<noteq> path" "\<not> ?p < 0" using assms(2) [OF _ e] assms(3) True by auto
  let ?w = "\<lambda>s. s\<lparr>disk := (disk s)(fpath e \<mapsto> write_bytes (nat ?p * PAGE_SIZE) ?d (contents s (fpath e)))\<rparr>"
  have w: "writePage ?g ?p ?d s = (Inr (), ?w s)" "writePage ?g ?p ?d (with_zero path s) = (Inr (), with_zero path (?w s))"
    using e ok by (simp_all add: writePage_def) (simp add: with_zero_def fun_upd_twist)
  from True assms(1) w ok show ?thesis
    by (simp add: evict_frame_def Let_def with_zero_commute [symmetric]) (auto simp: contents_def)
next
  case False
  with assms(1) show ?thesis
    by (auto simp: evict_frame_def Let_def with_zero_commute contents_def split: if_splits)
qed

lemma probe_absent:
  assumes idle: "bm_idle F s" and f: "f \<in> F" and empty: "bm_pages F s f = []" and room: "pinned_pages s + 1 < poolSize s"
  obtains t u where "probe_header f s = (Inr (), t)" "getPageCount f t = (Inr 0, t)" "allocatePage f t = (Inr 0, u)"
    "bm_idle F u" "bm_pages F u = (bm_pages F s)(f := [zero_page])" "bm_rest u = bm_rest s"
    "pins u = (pins s)((f, 0) := pins s (f, 0) + 1)"
proof -
  have inv: "bm_inv F s" and P: "pool_ok s" and FO: "files_ok F s" and C: "cached_ok F s"
    using idle by (auto simp: bm_idle_def dest: bm_invD)
  have ok: "file_ok s f" and fl: "freeList (the (files s f)) = []" and cnt: "fcount s f = 0"
    using FO f empty by (auto simp: files_ok_def bm_pages_def)
  obtain e where e: "files s f = Some e" "\<not> failbit e" "file_path s f = fpath e"
    "length (contents s (fpath e)) = fcount s f * PAGE_SIZE"
    using ok by (rule file_okE)
  let ?A = "with_zero (fpath e)"
  have c0: "contents s (fpath e) = []" using e(4) cnt by simp
  have none: "pageTable s (f, 0) = None"
  proof (rule ccontr)
    assume "pageTable s (f, 0) \<noteq> None"
    then obtain j where "pageTable s (f, 0) = Some j" by auto
    from pool_tableD [OF P this] C cnt show False by (auto simp: cached_ok_def)
  qed
  obtain j where "j < poolSize s" "evictable s j" using idle_evictable [OF idle] by blast
  then obtain h where sel: "selectVictimFrame s = (Inr h, s\<lparr>clockHand := h\<rparr>)" and h: "h < poolSize s" "evictable s h"
    by (rule selectVictim_ok)
  let ?s = "s\<lparr>clockHand := h\<rparr>"
  have inv1: "bm_inv F ?s" using inv by (simp add: bm_inv_def pool_ok_def cached_ok_def)
  have h1: "h < poolSize ?s" "evictable ?s h" using h by simp_all
  obtain t1 where ev: "evict_frame h ?s = (Inr (), t1)" "bm_inv F (free_frame h t1)" "same_view F ?s (free_frame h t1)"
    using inv1 h1 by (rule evict_ok)
  have vic: "fst (pid (frames s ! h)) \<in> F \<and> fst (pid (frames s ! h)) \<noteq> f \<and> 0 \<le> snd (pid (frames s ! h))"
    if "isValid (frames s ! h)"
    using C h(1) that cnt by (auto simp: cached_ok_def)
  have path: "\<not> failbit e' \<and> fpath e' \<noteq> fpath e" if "g \<in> F" "g \<noteq> f" "files s g = Some e'" for g e'
    using FO f that e by (auto simp: files_ok_def file_ok_def inj_on_def file_path_def)
  have evA: "evict_frame h (?A ?s) = (Inr (), ?A t1) \<and> files t1 = files ?s \<and> contents t1 (fpath e) = contents ?s (fpath e)"
    using ev(1) by (rule evict_zero) (use vic path in auto)
  define t where "t = install_frame h (f, 0) zero_page t1"
  have rd: "readPage f 0 t1 = (Inr zero_page, t1)"
    using evA e(1,2) c0 by (simp add: readPage_def read_bytes_def page_count_def contents_def to_int32_def)
  have rdA: "readPage f 0 (?A t1) = (Inr zero_page, ?A t1)"
    using evA e(1,2) by (simp add: readPage_def read_bytes_def page_count_def to_int32_def Let_def)
  have ft: "fetchPage f 0 s = (Inr h, t)"
    using none sel ev(1) rd by (simp add: fetchPage_def t_def)
  have ftA: "fetchPage f 0 (?A s) = (Inr h, ?A t)"
  proof -
    have "selectVictimFrame (?A s) = (Inr h, ?A ?s)"
      using sel by (simp add: selectVictimFrame_def select_loop_zero)
    then show ?thesis using none evA rdA by (simp add: fetchPage_def t_def with_zero_commute)
  qed
  have al: "allocatePage f x = (Inr 0, ?A x)" if "files x f = Some e" "contents x (fpath e) = []" for x :: "'a bm_state_scheme"
    using that e(2) fl e(1)
    by (simp add: allocatePage_def getPageCount_def page_count_def to_int32_def writePage_def write_bytes_def
        overwrite_def with_zero_def)
  obtain w where w: "allocatePage f s = (Inr (int (length (bm_pages F s f))), w)" "bm_idle F w"
    "bm_pages F w = (bm_pages F s)(f := bm_pages F s f @ [zero_page])" "bm_keep w = bm_keep s"
    using pool_alloc [OF idle f] empty by auto
  have wA: "w = ?A s" using w(1) al [OF e(1) c0] empty by simp
  have wk: "bm_rest w = bm_rest s" "pins w = pins s" using bm_keepD [OF w(4)] by auto
  have roomw: "pinned_pages w + 1 < poolSize w"
    using room wk(2) wA by (simp add: pinned_pages_def)
  have p0: "0 < length (bm_pages F w f)" using w(3) empty by simp
  obtain i v where v: "fetchPage f (int 0) w = (Inr i, v)" "bm_held F v f 0 i (bm_keep w)" "bm_pages F v = bm_pages F w"
    using pool_fetch [OF w(2) f p0] by blast
  have iv: "i = h" "v = ?A t" using v(1) ftA wA by simp_all
  note hd = held_idle [OF v(2) roomw, unfolded iv, simplified]
  let ?t = "t\<lparr>bufferHits := bufferHits t + 2\<rparr>"
  have pr: "probe_header f s = (Inr (), ?t)"
    by (rule probe_run [OF ft]) (use hd(4-6) in simp_all)
  have tf: "files ?t f = Some e" "contents ?t (fpath e) = []"
    using evA e(1) c0 by (simp_all add: t_def install_frame_def contents_def)
  have gc: "getPageCount f ?t = (Inr 0, ?t)"
    using tf e(2) by (simp add: getPageCount_def page_count_def to_int32_def)
  have u: "?A ?t = (?A t)\<lparr>bufferHits := bufferHits (?A t) + 2\<rparr>" by (simp add: with_zero_commute)
  have keep: "bm_rest ((?A t)\<lparr>bufferHits := bufferHits (?A t) + 2\<rparr>) = bm_rest (?A t)" by (simp add: bm_rest_def)
  show thesis
    by (rule that [OF pr gc al [OF tf]]) (use hd(1-3) v(3) w(3) wk empty iv keep in \<open>simp_all add: u hits_idle\<close>)
qed

lemma new_tree_ok:
  assumes idle: "bm_idle F s" and f: "f \<in> F" and empty: "bm_pages F s f = []" and room: "pinned_pages s + 1 < poolSize s"
  obtains t where "new_BPlusTree f s = (Inr \<lparr>tfile = f, troot = 1\<rparr>, t)" "tree_inv F \<lparr>tfile = f, troot = 1\<rparr> t"
    "tree_map F \<lparr>tfile = f, troot = 1\<rparr> t = Map.empty" "bm_rest t = bm_rest s"
    "pins t = (pins s)((f, 0) := pins s (f, 0) + 1)" "\<forall>g. g \<noteq> f \<longrightarrow> bm_pages F t g = bm_pages F s g"
proof -
  let ?root = "set_next (set_numKeys (set_leaf zero_node) 0) (- 1)"
  obtain t u where a: "probe_header f s = (Inr (), t)" "getPageCount f t = (Inr 0, t)" "allocatePage f t = (Inr 0, u)"
    "bm_idle F u" "bm_pages F u = (bm_pages F s)(f := [zero_page])" "bm_rest u = bm_rest s"
    "pins u = (pins s)((f, 0) := pins s (f, 0) + 1)"
    using assms by (rule probe_absent)
  obtain v where v: "allocatePage f u = (Inr 1, v)" "bm_idle F v" "bm_pages F v = (bm_pages F u)(f := [zero_page, zero_page])"
    "bm_keep v = bm_keep u"
    using pool_alloc [OF a(4) f] a(5) by auto
  have rl: "length ?root = NODE_WORDS" by (simp add: set_next_def set_numKeys_def set_leaf_def zero_node_def)
  have p1: "1 < length (bm_pages F v f)" using v(3) by simp
  obtain w where w: "writeNode f (int 1) ?root v = (Inr (), w)" "bm_idle F w"
    "bm_pages F w = (bm_pages F v)(f := (bm_pages F v f)[1 := node_page ?root (bm_pages F v f ! 1)])" "bm_keep w = bm_keep v"
    using v(2) f p1 rl by (rule writeNode_ok)
  have pw: "bm_pages F w f = [zero_page, node_page ?root zero_page]" using w(3) v(3) by simp
  let ?h = "\<lambda>page. Dirty () (overwrite 0 (int32_bytes (word_of_int 1)) page)"
  let ?hp = "overwrite 0 (int32_bytes (word_of_int 1)) zero_page"
  have p0: "0 < length (bm_pages F w f)" using pw by simp
  have vis: "?h (bm_pages F w f ! 0) = Dirty () ?hp" using pw by simp
  have hl: "length ?hp = PAGE_SIZE" by (simp add: PAGE_SIZE_def)
  obtain x where x: "with_page f (int 0) ?h w = (Inr (), x)" "bm_idle F x"
    "bm_pages F x = (bm_pages F w)(f := (bm_pages F w f)[0 := ?hp])" "bm_keep x = bm_keep w"
    using with_page_dirty [where visit = ?h, OF w(2) f p0 vis hl] by blast
  have px: "bm_pages F x f = [?hp, node_page ?root zero_page]" using x(3) pw by simp
  let ?tr = "\<lparr>tfile = f, troot = 1\<rparr>"
  have leaf: "tree_leaf F ?tr x = ?root" using rl by (simp add: tree_leaf_def px)
  have ents: "node_entries ?root = []"
    by (simp add: node_entries_def numKeys_def set_next_def set_numKeys_def set_leaf_def zero_node_def NODE_WORDS_def)
  have "leaf_ok ?root"
    unfolding leaf_ok_def ents using rl
    by (simp add: isLeaf_def numKeys_def next_leaf_def set_next_def set_numKeys_def set_leaf_def zero_node_def NODE_WORDS_def
        ascending_def MAX_KEYS_def)
  moreover have "header_root ?hp = 1"
    using overwrite_same [of 0 "int32_bytes 1" zero_page] by (simp add: header_root_def PAGE_SIZE_def)
  ultimately have "tree_inv F ?tr x" using x(2) f px leaf by (simp add: tree_inv_def)
  moreover have "tree_map F ?tr x = Map.empty" by (simp add: tree_map_def leaf ents)
  moreover have "bm_rest x = bm_rest s" "pins x = pins u"
    using bm_keepD [OF x(4)] bm_keepD [OF w(4)] bm_keepD [OF v(4)] a(6) by auto
  moreover have "new_BPlusTree f s = (Inr ?tr, x)"
    using a(1-3) v(1) w(1) x(1) by (simp add: new_BPlusTree_def writeHeader_def HEADER_PAGE_def Let_def)
  moreover have "\<forall>g. g \<noteq> f \<longrightarrow> bm_pages F x g = bm_pages F s g" using x(3) w(3) v(3) a(5) by simp
  ultimately show thesis using a(7) by (intro that [of x]) simp_all
qed

lemma open_tree_ok:
  assumes inv: "tree_inv F tr s" and room: "pinned_pages s + 1 < poolSize s"
  obtains t where "new_BPlusTree (tfile tr) s = (Inr tr, t)" "tree_inv F tr t" "tree_map F tr t = tree_map F tr s"
    "bm_rest t = bm_rest s" "pins t = (pins s)((tfile tr, 0) := pins s (tfile tr, 0) + 1)"
    "\<forall>g. bm_pages F t g = bm_pages F s g"
proof -
  let ?f = "tfile tr"
  obtain r where r: "bm_idle F s" "?f \<in> F" "troot tr = int r" "0 < r" "r < length (bm_pages F s ?f)"
    "header_root (bm_pages F s ?f ! 0) = int r"
    using inv by (rule tree_invE)
  have p0: "0 < length (bm_pages F s ?f)" using r(5) by linarith
  obtain t where t: "probe_header ?f s = (Inr (), t)" "bm_idle F t" "bm_pages F t = bm_pages F s" "bm_rest t = bm_rest s"
    "pins t = (pins s)((?f, 0) := pins s (?f, 0) + 1)"
    using r(1,2) p0 room by (rule probe_present)
  have c: "getPageCount ?f t = (Inr (int (length (bm_pages F s ?f))), t)"
    using pool_count [OF t(2) r(2)] t(3) by simp
  have q0: "0 < length (bm_pages F t ?f)" using p0 t(3) by simp
  let ?v = "\<lambda>page. Leave (header_root page)"
  obtain u where u: "with_page ?f (int 0) ?v t = (Inr (header_root (bm_pages F t ?f ! 0)), u)" "bm_idle F u"
    "bm_pages F u = bm_pages F t" "bm_keep u = bm_keep t"
    using with_page_leave [where visit = ?v, OF t(2) r(2) q0 refl] by blast
  have tr: "\<lparr>tfile = ?f, troot = int r\<rparr> = tr" using r(3) by (cases tr) simp
  have "new_BPlusTree ?f s = (Inr tr, u)"
    using t(1) c u(1) r(5,6) t(3) tr p0 by (simp add: new_BPlusTree_def loadHeader_def HEADER_PAGE_def)
  moreover have "tree_inv F tr u" "tree_map F tr u = tree_map F tr s"
    using inv u(2,3) t(3) by (simp_all add: tree_inv_def tree_map_def tree_leaf_def)
  ultimately show thesis using u(3) t(3-5) bm_keepD [OF u(4)] by (intro that [of u]) simp_all
qed

subsection \<open>The contract of a key index\<close>

lemma tree_card: "tree_inv F tr s \<Longrightarrow> finite (dom (tree_map F tr s)) \<and> card (dom (tree_map F tr s)) \<le> 128"
  using leaf_okD(6,8) [of "tree_leaf F tr s"] card_entries [of "node_entries (tree_leaf F tr s)"]
  by (simp add: tree_inv_def tree_map_def finite_dom_map_of del: length_node_entries)

definition put_key :: "BPlusTree \<Rightarrow> int32 \<Rightarrow> RecordID \<Rightarrow> ('a bm_state_scheme, unit) io" where
  "put_key tr key v = bindM (insert_key tr key v) (\<lambda>_. retM ())"

interpretation tree: key_index "tree_inv F tr" "tree_map F tr" rid_ok 128 outside_array
    "find_key tr" "put_key tr" "remove_key tr" for F tr
proof (unfold_locales, goal_cases)
  case (1 s k)
  then obtain t where "find_key tr k s = (Inr (tree_map F tr s k), t)" "tree_change F tr s t (tree_map F tr s)"
    by (rule find_ok)
  then show ?case by (auto simp: tree_change_def)
next
  case (2 s v k)
  then obtain t where "insert_key tr k v s = (Inr tr, t)" "tree_change F tr s t ((tree_map F tr s)(k \<mapsto> v))"
    by (rule insert_ok_key)
  then show ?case by (auto simp: put_key_def tree_change_def)
next
  case (3 s k v)
  then have "card (dom (tree_map F tr s)) = 128" using tree_card [of F tr s] by simp
  with 3 obtain t where "insert_key tr k v s = (Inl outside_array, t)" by (metis full_leaf)
  then show ?case by (auto simp: put_key_def)
next
  case (4 s k)
  then obtain t where "remove_key tr k s = (Inr (tree_map F tr s k \<noteq> None), t)"
    "tree_change F tr s t ((tree_map F tr s)(k := None))"
    by (rule remove_ok)
  then show ?case by (auto simp: tree_change_def)
qed


subsection \<open>Properties\<close>

text \<open>A tree on a new file, for the witnesses; the pool has four frames.\<close>

definition ex_fm4 :: fm_state where
  "ex_fm4 = \<lparr>bufferHits = 0, bufferMisses = 0, queryCount = 0, totalQueryLatencyUs = 0, txCommitted = 0,
     txAborted = 0, disk = [''i.idx'' \<mapsto> []], denied = (\<lambda>_. False),
     files = [1 \<mapsto> \<lparr>fpath = ''i.idx'', freeList = [], failbit = False\<rparr>], nextFileId = 2\<rparr>"

definition ex_bm4 :: bm_state where
  "ex_bm4 = bm_init ex_fm4 4 (\<lambda>_. zero_page)"

lemma ex_bm4_ok: "bm_idle {1} ex_bm4" "bm_pages {1} ex_bm4 1 = []" "pinned_pages ex_bm4 = 0" "poolSize ex_bm4 = 4"
proof -
  have F: "files_ok {1} ex_fm4" "fcount ex_fm4 1 = 0"
    by (simp_all add: files_ok_def file_ok_def ex_fm4_def contents_def fcount_def file_path_def)
  show "bm_idle {1} ex_bm4" unfolding ex_bm4_def by (rule bm_init_ok) (simp_all add: F)
  show "bm_pages {1} ex_bm4 1 = []" unfolding ex_bm4_def by (subst bm_init_ok(2)) (simp_all add: F)
  have "pins ex_bm4 = (\<lambda>_. 0)" by (simp add: fun_eq_iff pins_def ex_bm4_def bm_init_fields)
  then show "pinned_pages ex_bm4 = 0" by (simp add: pinned_pages_def)
  show "poolSize ex_bm4 = 4" by (simp add: ex_bm4_def bm_init_fields)
qed

lemma ex_tree:
  obtains t :: bm_state where "new_BPlusTree 1 ex_bm4 = (Inr \<lparr>tfile = 1, troot = 1\<rparr>, t)"
    "tree_inv {1} \<lparr>tfile = 1, troot = 1\<rparr> t" "tree_map {1} \<lparr>tfile = 1, troot = 1\<rparr> t = Map.empty"
    "pinned_pages t + 1 < poolSize t"
proof -
  obtain t where t: "new_BPlusTree 1 ex_bm4 = (Inr \<lparr>tfile = 1, troot = 1\<rparr>, t)"
    "tree_inv {1} \<lparr>tfile = 1, troot = 1\<rparr> t" "tree_map {1} \<lparr>tfile = 1, troot = 1\<rparr> t = Map.empty"
    "bm_rest t = bm_rest ex_bm4" "pins t = (pins ex_bm4)((1, 0) := pins ex_bm4 (1, 0) + 1)"
    using new_tree_ok [OF ex_bm4_ok(1), of 1] ex_bm4_ok(2-4) by auto
  have "pins ex_bm4 = (\<lambda>_. 0)" by (simp add: fun_eq_iff pins_def ex_bm4_def bm_init_fields)
  then have "{k. pins t k \<noteq> 0} = {(1, 0)}" by (auto simp: t(5))
  then have "pinned_pages t = 1" by (simp add: pinned_pages_def)
  moreover have "poolSize t = 4" using t(4) ex_bm4_ok(4) by (simp add: bm_rest_def)
  ultimately show thesis using t by (intro that [of t]) simp_all
qed

text \<open>
  C11: The index is a finite map of at most 128 keys: any sequence of lookups, insertions and removals on a
  tree returns what the same operations on a map return, up to the first insertion of a new key into a
  map of 128 keys, which writes past the arrays of the node. So no sequence without undefined behaviour
  ever splits a node.
\<close>

theorem index_refines_map:
  assumes "tree_inv F tr s" "list_all (op_ok rid_ok) cs"
  shows "fst (run_ops (find_key tr) (put_key tr) (remove_key tr) cs s) =
    spec_ops 128 outside_array cs (tree_map F tr s)"
  using assms by (rule tree.run_ops_correct)

theorem index_refines_map_witness:
  "\<exists>tr (s :: bm_state). fst (run_ops (find_key tr) (put_key tr) (remove_key tr)
     [Put 7 (RecordID 0 2), Find 7, Remove 7, Find 7, Remove 7] s) =
     Inr [Done, Found (Some (RecordID 0 2)), Removed True, Found None, Removed False]"
proof -
  obtain s :: bm_state where s: "tree_inv {1} \<lparr>tfile = 1, troot = 1\<rparr> s" "tree_map {1} \<lparr>tfile = 1, troot = 1\<rparr> s = Map.empty"
    by (rule ex_tree)
  have "list_all (op_ok rid_ok) [Put (7 :: int32) (RecordID 0 2), Find 7, Remove 7, Find 7, Remove 7]"
    by (simp add: op_ok_def rid_ok_def)
  from index_refines_map [OF s(1) this] s(2) show ?thesis by (intro exI) auto
qed

text \<open>
  C38: The 129th key is an out-of-bounds write: inserting a key that is not in a tree of 128 keys has
  undefined behaviour, although the code that splits a full leaf follows a few lines later.
\<close>

theorem full_leaf_overflows:
  assumes "tree_inv F tr s" "tree_map F tr s key = None" "card (dom (tree_map F tr s)) = 128"
  shows "\<exists>t. insert_key tr key v s = (Inl (Undefined_Behaviour ''array index''), t)"
  using full_leaf [OF assms] unfolding outside_array_def by blast

lemma fill_tree:
  assumes "tree_inv F tr (s :: 'a bm_state_scheme)" "tree_map F tr s = Map.empty" "n \<le> 128"
  shows "\<exists>t :: 'a bm_state_scheme. tree_inv F tr t \<and> dom (tree_map F tr t) = word_of_nat ` {..<n}"
  using assms(3)
proof (induction n)
  case 0
  with assms show ?case by (intro exI [of _ s]) simp
next
  case (Suc n)
  then obtain t :: "'a bm_state_scheme" where t: "tree_inv F tr t" "dom (tree_map F tr t) = word_of_nat ` {..<n}" by auto
  have "card (dom (tree_map F tr t)) < 128"
    unfolding t(2) using Suc.prems card_image_le [of "{..<n}" "word_of_nat :: nat \<Rightarrow> int32"] by simp
  then obtain u where "tree_change F tr t u ((tree_map F tr t)(word_of_nat n \<mapsto> RecordID 0 0))"
    using insert_ok_key [OF t(1), of "RecordID 0 0" "word_of_nat n"] by (auto simp: rid_ok_def)
  then have "tree_inv F tr u" "tree_map F tr u = (tree_map F tr t)(word_of_nat n \<mapsto> RecordID 0 0)"
    by (simp_all add: tree_change_def)
  moreover from this have "dom (tree_map F tr u) = word_of_nat ` {..<Suc n}" by (simp add: t(2) lessThan_Suc)
  ultimately show ?case by blast
qed

theorem full_leaf_overflows_witness:
  "\<exists>tr (s :: bm_state) t. insert_key tr 500 (RecordID 0 0) s = (Inl (Undefined_Behaviour ''array index''), t)"
proof -
  let ?tr = "\<lparr>tfile = 1, troot = 1\<rparr>"
  obtain s :: bm_state where s: "tree_inv {1} ?tr s" "tree_map {1} ?tr s = Map.empty" by (rule ex_tree)
  obtain t :: bm_state where t: "tree_inv {1} ?tr t" "dom (tree_map {1} ?tr t) = word_of_nat ` {..<128}"
    using fill_tree [OF s, of 128] by auto
  have inj: "inj_on (word_of_nat :: nat \<Rightarrow> int32) {..<501}"
    by (rule inj_onI) (simp add: word_of_nat_eq_iff take_bit_nat_eq_self)
  then have "card (dom (tree_map {1} ?tr t)) = 128"
    unfolding t(2) by (subst card_image) (auto intro: inj_on_subset)
  moreover have n: "(500 :: int32) \<notin> dom (tree_map {1} ?tr t)"
  proof
    assume "(500 :: int32) \<in> dom (tree_map {1} ?tr t)"
    then obtain i where i: "i < 128" "word_of_nat 500 = (word_of_nat i :: int32)" unfolding t(2) by auto
    with inj_onD [OF inj, of 500 i] show False by simp
  qed
  moreover have "tree_map {1} ?tr t 500 = None" using n by (simp only: domIff not_not)
  ultimately show ?thesis using full_leaf_overflows [OF t(1), of 500 "RecordID 0 0"] by blast
qed

text \<open>
  C37: A range scan returns the values of exactly the keys between its bounds, in ascending signed order of
  the keys, and leaves the index as it is.
\<close>

theorem rangeScan_sorted:
  assumes "tree_inv F tr s" "0 < fuel"
  shows "\<exists>ks t. rangeScan fuel tr low high s = (Inr (map (\<lambda>k. the (tree_map F tr s k)) ks), t) \<and>
    sorted_wrt (\<lambda>a b. sint a < sint b) ks \<and>
    set ks = {k \<in> dom (tree_map F tr s). sint low \<le> sint k \<and> sint k \<le> sint high} \<and>
    tree_map F tr t = tree_map F tr s"
proof -
  let ?es = "node_entries (tree_leaf F tr s)"
  let ?in = "\<lambda>e. sint low \<le> sint (fst e) \<and> sint (fst e) \<le> sint high"
  obtain t where t: "rangeScan fuel tr low high s = (Inr (map snd (filter ?in ?es)), t)" "tree_change F tr s t (tree_map F tr s)"
    using assms by (rule rangeScan_ok)
  have asc: "ascending ?es" using assms(1) by (simp add: tree_inv_def leaf_ok_def)
  have dist: "distinct (map fst ?es)" by (rule ascending_distinct [OF asc])
  have "map snd (filter ?in ?es) = map (\<lambda>k. the (tree_map F tr s k)) (map fst (filter ?in ?es))"
    using dist by (auto simp: tree_map_def)
  moreover have "sorted_wrt (\<lambda>a b. sint a < sint b) (map fst (filter ?in ?es))"
    using asc by (simp add: ascending_def sorted_wrt_map sorted_wrt_filter)
  moreover have "set (map fst (filter ?in ?es)) = {k \<in> dom (tree_map F tr s). sint low \<le> sint k \<and> sint k \<le> sint high}"
    by (auto simp: tree_map_def dom_map_of_conv_image_fst)
  ultimately show ?thesis
    using t by (intro exI [of _ "map fst (filter ?in ?es)"] exI [of _ t]) (simp add: tree_change_def)
qed

theorem rangeScan_sorted_witness:
  "\<exists>tr (s :: bm_state) t. rangeScan 1 tr 0 9 s = (Inr [], t)"
proof -
  obtain s :: bm_state where s: "tree_inv {1} \<lparr>tfile = 1, troot = 1\<rparr> s" "tree_map {1} \<lparr>tfile = 1, troot = 1\<rparr> s = Map.empty"
    by (rule ex_tree)
  from rangeScan_sorted [OF s(1), of 1 0 9] s(2) show ?thesis by auto
qed

text \<open>
  Opening an index on an empty file makes an empty index, and opening it again on the same file finds
  the map it held; but the constructor fetches the header page once more than it unpins it, so that
  each opening leaves a page of the pool pinned for good.
\<close>

theorem open_index_leaks_pin:
  assumes "bm_idle F s" "f \<in> F" "pinned_pages s + 1 < poolSize s"
    and "bm_pages F s f = [] \<or> tree_inv F \<lparr>tfile = f, troot = r\<rparr> s"
  shows "\<exists>tr t. new_BPlusTree f s = (Inr tr, t) \<and> tree_inv F tr t \<and>
    tree_map F tr t = (if bm_pages F s f = [] then Map.empty else tree_map F \<lparr>tfile = f, troot = r\<rparr> s) \<and>
    pins t = (pins s)((f, 0) := pins s (f, 0) + 1)"
proof (cases "bm_pages F s f = []")
  case True
  obtain t where "new_BPlusTree f s = (Inr \<lparr>tfile = f, troot = 1\<rparr>, t)" "tree_inv F \<lparr>tfile = f, troot = 1\<rparr> t"
    "tree_map F \<lparr>tfile = f, troot = 1\<rparr> t = Map.empty" "bm_rest t = bm_rest s"
    "pins t = (pins s)((f, 0) := pins s (f, 0) + 1)" "\<forall>g. g \<noteq> f \<longrightarrow> bm_pages F t g = bm_pages F s g"
    using assms(1,2) True assms(3) by (rule new_tree_ok)
  with True show ?thesis by (intro exI) auto
next
  case False
  with assms(4) have inv: "tree_inv F \<lparr>tfile = f, troot = r\<rparr> s" by simp
  obtain t where "new_BPlusTree (tfile \<lparr>tfile = f, troot = r\<rparr>) s = (Inr \<lparr>tfile = f, troot = r\<rparr>, t)"
    "tree_inv F \<lparr>tfile = f, troot = r\<rparr> t" "tree_map F \<lparr>tfile = f, troot = r\<rparr> t = tree_map F \<lparr>tfile = f, troot = r\<rparr> s"
    "bm_rest t = bm_rest s" "pins t = (pins s)((tfile \<lparr>tfile = f, troot = r\<rparr>, 0) := pins s (tfile \<lparr>tfile = f, troot = r\<rparr>, 0) + 1)"
    "\<forall>g. bm_pages F t g = bm_pages F s g"
    using inv assms(3) by (rule open_tree_ok)
  with False show ?thesis by (intro exI [of _ "\<lparr>tfile = f, troot = r\<rparr>"] exI [of _ t]) simp
qed

theorem open_index_leaks_pin_witness:
  "\<exists>tr t. new_BPlusTree 1 ex_bm4 = (Inr tr, t) \<and> pins t (1, 0) = pins ex_bm4 (1, 0) + 1"
  using open_index_leaks_pin [OF ex_bm4_ok(1), of 1 0] ex_bm4_ok(2-4) by fastforce

end
