(* ===== verification/WAL.thy ===== *)
theory WAL
  imports TableHeap
begin

section \<open>The write-ahead log\<close>

text \<open>
  \<open>_WALManager/WALManager\<close>: the log records and their text, the log stream, and recovery. The stream
  is the file's bytes, the bytes still in the stream's buffer, and its fail bit: \<open>flush\<close> moves the
  buffer to the file, and a failed stream drops what is written to it. \<open>recover\<close> takes the storage
  engine's three redo operations as parameters, since the engine is built on top of the log.
\<close>

datatype LogOp = L_INSERT | L_DELETE | L_UPDATE | L_COMMIT | L_ABORT

record LogRecord =
  lop :: LogOp
  ltxId :: int
  ltable :: string
  lrid :: RecordID
  loldValues :: "FieldValue list"
  lnewValues :: "FieldValue list"

record wal_state =
  wal_file :: string
  wal_buffer :: string
  wal_failed :: bool

subsection \<open>Writing\<close>

definition new_WAL :: "string \<Rightarrow> wal_state" where
  "new_WAL bytes = \<lparr>wal_file = bytes, wal_buffer = [], wal_failed = False\<rparr>"

definition wal_write :: "string \<Rightarrow> (wal_state, unit) io" where
  "wal_write text = modifyM (\<lambda>w. if wal_failed w then w else w\<lparr>wal_buffer := wal_buffer w @ text\<rparr>)"

definition wal_flush :: "(wal_state, unit) io" where
  "wal_flush = modifyM (\<lambda>w. if wal_failed w then w
     else w\<lparr>wal_file := wal_file w @ wal_buffer w, wal_buffer := []\<rparr>)"

definition fvToString :: "FieldValue \<Rightarrow> string" where
  "fvToString fv = (case fv of FInt i \<Rightarrow> ''I:'' @ to_string (sint i) | FStr s \<Rightarrow> ''S:'' @ s)"

text \<open>What the three data records start with, and the values after a comma each.\<close>

definition line_head :: "string \<Rightarrow> int \<Rightarrow> string \<Rightarrow> RecordID \<Rightarrow> string" where
  "line_head op tx tbl rid = op @ '','' @ to_string tx @ '','' @ tbl @ '','' @ to_string (pageId rid) @
     '','' @ to_string (slotNum rid)"

definition line_values :: "FieldValue list \<Rightarrow> string" where
  "line_values vs = concat (map (\<lambda>v. '','' @ fvToString v) vs)"

definition insert_line :: "int \<Rightarrow> string \<Rightarrow> RecordID \<Rightarrow> FieldValue list \<Rightarrow> string" where
  "insert_line tx tbl rid nv = line_head ''INSERT'' tx tbl rid @ line_values nv"

definition delete_line :: "int \<Rightarrow> string \<Rightarrow> RecordID \<Rightarrow> FieldValue list \<Rightarrow> string" where
  "delete_line tx tbl rid ov = line_head ''DELETE'' tx tbl rid @ line_values ov"

definition update_line :: "int \<Rightarrow> string \<Rightarrow> RecordID \<Rightarrow> FieldValue list \<Rightarrow> FieldValue list \<Rightarrow> string" where
  "update_line tx tbl rid ov nv = line_head ''UPDATE'' tx tbl rid @ line_values ov @ '';'' @ line_values nv"

definition logInsert :: "int \<Rightarrow> string \<Rightarrow> RecordID \<Rightarrow> FieldValue list \<Rightarrow> (wal_state, unit) io" where
  "logInsert tx tbl rid nv = wal_write (insert_line tx tbl rid nv @ [newline])"

definition logDelete :: "int \<Rightarrow> string \<Rightarrow> RecordID \<Rightarrow> FieldValue list \<Rightarrow> (wal_state, unit) io" where
  "logDelete tx tbl rid ov = wal_write (delete_line tx tbl rid ov @ [newline])"

definition logUpdate :: "int \<Rightarrow> string \<Rightarrow> RecordID \<Rightarrow> FieldValue list \<Rightarrow> FieldValue list \<Rightarrow> (wal_state, unit) io" where
  "logUpdate tx tbl rid ov nv = wal_write (update_line tx tbl rid ov nv @ [newline])"

definition logCommit :: "int \<Rightarrow> (wal_state, unit) io" where
  "logCommit tx = wal_write (''COMMIT,'' @ to_string tx @ [newline])"

definition logAbort :: "int \<Rightarrow> (wal_state, unit) io" where
  "logAbort tx = wal_write (''ABORT,'' @ to_string tx @ [newline])"

subsection \<open>Reading\<close>

definition parseFV :: "string \<Rightarrow> FieldValue res" where
  "parseFV tok =
     (if length tok > 2 \<and> tok ! 1 = CHR '':'' then
        if tok ! 0 = CHR ''I'' then bindE (stoi (drop 2 tok)) (\<lambda>i. Inr (FInt (word_of_int i)))
        else Inr (FStr (drop 2 tok))
      else Inl (Runtime_Error (''Bad FV token: '' @ tok)))"

fun parse_values :: "string list \<Rightarrow> FieldValue list res" where
  "parse_values [] = Inr []"
| "parse_values (tok # toks) = bindE (parseFV tok) (\<lambda>v. bindE (parse_values toks) (\<lambda>vs. Inr (v # vs)))"

text \<open>\<open>parts[i]\<close>; out of range it is undefined behaviour.\<close>

definition part :: "string list \<Rightarrow> nat \<Rightarrow> string res" where
  "part parts i = (if i < length parts then Inr (parts ! i) else Inl (Undefined_Behaviour ''vector index''))"

definition control_record :: "LogOp \<Rightarrow> int \<Rightarrow> LogRecord" where
  "control_record op tx = \<lparr>lop = op, ltxId = tx, ltable = [], lrid = RecordID 0 0, loldValues = [], lnewValues = []\<rparr>"

text \<open>\<open>line.find(';')\<close> and the two substrings; without a semicolon both are the line.\<close>

definition before_semi :: "string \<Rightarrow> string" where
  "before_semi line = takeWhile (\<lambda>c. c \<noteq> CHR '';'') line"

definition after_semi :: "string \<Rightarrow> string" where
  "after_semi line = (if CHR '';'' \<in> set line then drop 1 (dropWhile (\<lambda>c. c \<noteq> CHR '';'') line) else line)"

definition parse_line :: "string \<Rightarrow> LogRecord option res" where
  "parse_line line =
     (let parts = split_at CHR '','' line in
      bindE (part parts 0) (\<lambda>op.
      bindE (bindE (part parts 1) stoll) (\<lambda>tx.
      if op = ''COMMIT'' then Inr (Some (control_record L_COMMIT tx))
      else if op = ''ABORT'' then Inr (Some (control_record L_ABORT tx))
      else
        bindE (part parts 2) (\<lambda>tbl.
        bindE (bindE (part parts 3) stoll) (\<lambda>pg.
        bindE (bindE (part parts 4) stoll) (\<lambda>sl.
        let rid = RecordID (to_int32 pg) (to_int32 sl) in
        if op = ''INSERT'' then
          bindE (parse_values (drop 5 parts)) (\<lambda>nv.
            Inr (Some \<lparr>lop = L_INSERT, ltxId = tx, ltable = tbl, lrid = rid, loldValues = [], lnewValues = nv\<rparr>))
        else if op = ''DELETE'' then
          bindE (parse_values (drop 5 parts)) (\<lambda>ov.
            Inr (Some \<lparr>lop = L_DELETE, ltxId = tx, ltable = tbl, lrid = rid, loldValues = ov, lnewValues = []\<rparr>))
        else if op = ''UPDATE'' then
          bindE (parse_values (drop 5 (split_at CHR '','' (before_semi line)))) (\<lambda>ov.
          bindE (parse_values (drop 1 (split_at CHR '','' (after_semi line)))) (\<lambda>nv.
            Inr (Some \<lparr>lop = L_UPDATE, ltxId = tx, ltable = tbl, lrid = rid, loldValues = ov, lnewValues = nv\<rparr>)))
        else Inr None))))))"

fun parse_lines :: "string list \<Rightarrow> LogRecord list res" where
  "parse_lines [] = Inr []"
| "parse_lines (line # lines) =
     (if line = [] then parse_lines lines
      else bindE (parse_line line) (\<lambda>r.
           bindE (parse_lines lines) (\<lambda>rs. Inr (case r of None \<Rightarrow> rs | Some rec \<Rightarrow> rec # rs))))"

definition read_log :: "string \<Rightarrow> LogRecord list res" where
  "read_log bytes = parse_lines (split_at newline bytes)"

subsection \<open>Recovery\<close>

definition committed_txs :: "LogRecord list \<Rightarrow> int set" where
  "committed_txs rs = set (map ltxId (filter (\<lambda>r. lop r = L_COMMIT) rs))"

definition aborted_txs :: "LogRecord list \<Rightarrow> int set" where
  "aborted_txs rs = set (map ltxId (filter (\<lambda>r. lop r = L_ABORT) rs))"

type_synonym 's redo_ops =
  "(string \<Rightarrow> RecordID \<Rightarrow> FieldValue list \<Rightarrow> ('s, unit) io) \<times> (string \<Rightarrow> RecordID \<Rightarrow> ('s, unit) io) \<times>
   (string \<Rightarrow> RecordID \<Rightarrow> FieldValue list \<Rightarrow> ('s, unit) io)"

definition redo_record :: "'s redo_ops \<Rightarrow> LogRecord \<Rightarrow> ('s, unit) io" where
  "redo_record ops r = (case ops of (redoInsert, redoDelete, redoUpdate) \<Rightarrow>
     case lop r of
       L_INSERT \<Rightarrow> redoInsert (ltable r) (lrid r) (lnewValues r)
     | L_DELETE \<Rightarrow> redoDelete (ltable r) (lrid r)
     | L_UPDATE \<Rightarrow> redoUpdate (ltable r) (lrid r) (lnewValues r)
     | _ \<Rightarrow> retM ())"

definition undo_record :: "'s redo_ops \<Rightarrow> LogRecord \<Rightarrow> ('s, unit) io" where
  "undo_record ops r = (case ops of (redoInsert, redoDelete, redoUpdate) \<Rightarrow>
     case lop r of
       L_INSERT \<Rightarrow> redoDelete (ltable r) (lrid r)
     | L_DELETE \<Rightarrow> redoInsert (ltable r) (lrid r) (loldValues r)
     | L_UPDATE \<Rightarrow> redoUpdate (ltable r) (lrid r) (loldValues r)
     | _ \<Rightarrow> retM ())"

fun run_records :: "(LogRecord \<Rightarrow> ('s, unit) io) \<Rightarrow> LogRecord list \<Rightarrow> ('s, unit) io" where
  "run_records f [] = retM ()"
| "run_records f (r # rs) = bindM (f r) (\<lambda>_. run_records f rs)"

definition replay :: "'s redo_ops \<Rightarrow> LogRecord list \<Rightarrow> ('s, unit) io" where
  "replay ops rs =
     (let committed = committed_txs rs; aborted = aborted_txs rs in
      bindM (run_records (redo_record ops) (filter (\<lambda>r. ltxId r \<in> committed) rs)) (\<lambda>_.
        run_records (undo_record ops)
          (filter (\<lambda>r. \<not> (ltxId r \<in> committed \<or> ltxId r \<in> aborted)) (rev rs))))"

text \<open>
  The log stream is open when \<open>recover\<close> opens it once more: the second open fails and sets the
  stream's fail bit.
\<close>

definition recover :: "'s redo_ops \<Rightarrow> (wal_state \<times> 's, unit) io" where
  "recover ops = (\<lambda>(w, s). case read_log (wal_file w) of
     Inl e \<Rightarrow> (Inl e, (w, s))
   | Inr rs \<Rightarrow> (case replay ops rs s of
       (Inl e, s') \<Rightarrow> (Inl e, (w, s'))
     | (Inr _, s') \<Rightarrow> (Inr (), (w\<lparr>wal_file := [], wal_failed := True\<rparr>, s'))))"

subsection \<open>The text of a record\<close>

text \<open>
  \<open>plain s\<close>: the text has none of the three characters the format uses. \<open>record_ok\<close>: the fields of a
  record are what its kind has, its numbers fit their types, and its texts are plain and, as values,
  not empty.
\<close>

definition plain :: "string \<Rightarrow> bool" where
  "plain s \<longleftrightarrow> CHR '','' \<notin> set s \<and> CHR '';'' \<notin> set s \<and> newline \<notin> set s"

fun value_ok :: "FieldValue \<Rightarrow> bool" where
  "value_ok (FInt i) = True"
| "value_ok (FStr s) = (s \<noteq> [] \<and> plain s)"

definition int64 :: "int \<Rightarrow> bool" where
  "int64 i \<longleftrightarrow> - (2 ^ 63) \<le> i \<and> i < 2 ^ 63"

definition record_ok :: "LogRecord \<Rightarrow> bool" where
  "record_ok r \<longleftrightarrow> int64 (ltxId r) \<and> (case lop r of
     L_INSERT \<Rightarrow> plain (ltable r) \<and> rid_ok (lrid r) \<and> loldValues r = [] \<and> list_all value_ok (lnewValues r)
   | L_DELETE \<Rightarrow> plain (ltable r) \<and> rid_ok (lrid r) \<and> lnewValues r = [] \<and> list_all value_ok (loldValues r)
   | L_UPDATE \<Rightarrow> plain (ltable r) \<and> rid_ok (lrid r) \<and> list_all value_ok (loldValues r) \<and>
       list_all value_ok (lnewValues r)
   | _ \<Rightarrow> r = control_record (lop r) (ltxId r))"

definition record_line :: "LogRecord \<Rightarrow> string" where
  "record_line r = (case lop r of
     L_INSERT \<Rightarrow> insert_line (ltxId r) (ltable r) (lrid r) (lnewValues r)
   | L_DELETE \<Rightarrow> delete_line (ltxId r) (ltable r) (lrid r) (loldValues r)
   | L_UPDATE \<Rightarrow> update_line (ltxId r) (ltable r) (lrid r) (loldValues r) (lnewValues r)
   | L_COMMIT \<Rightarrow> ''COMMIT,'' @ to_string (ltxId r)
   | L_ABORT \<Rightarrow> ''ABORT,'' @ to_string (ltxId r))"

definition log_record :: "LogRecord \<Rightarrow> (wal_state, unit) io" where
  "log_record r = (case lop r of
     L_INSERT \<Rightarrow> logInsert (ltxId r) (ltable r) (lrid r) (lnewValues r)
   | L_DELETE \<Rightarrow> logDelete (ltxId r) (ltable r) (lrid r) (loldValues r)
   | L_UPDATE \<Rightarrow> logUpdate (ltxId r) (ltable r) (lrid r) (loldValues r) (lnewValues r)
   | L_COMMIT \<Rightarrow> logCommit (ltxId r)
   | L_ABORT \<Rightarrow> logAbort (ltxId r))"

lemma log_record_write: "log_record r = wal_write (record_line r @ [newline])"
  by (simp add: log_record_def record_line_def logInsert_def logDelete_def logUpdate_def logCommit_def
      logAbort_def split: LogOp.split)

lemma to_string_plain [simp]: "plain (to_string i)"
  using to_string_chars [of "CHR '',''" i] to_string_chars [of "CHR '';''" i] to_string_chars [of newline i]
  by (auto simp: plain_def newline_def isdigit_def)

lemma fvToString_plain: "value_ok v \<Longrightarrow> plain (fvToString v)"
  using to_string_plain by (cases v) (auto simp: fvToString_def plain_def newline_def)

lemma fvToString_not_Nil [simp]: "fvToString v \<noteq> []"
  by (cases v) (simp_all add: fvToString_def)

lemma parseFV_inverse: "value_ok v \<Longrightarrow> parseFV (fvToString v) = Inr v"
proof (cases v)
  case (FInt i)
  have "0 < length (to_string (sint i))" by (simp only: length_greater_0_conv to_string_not_Nil not_False_eq_True)
  moreover have "stoi (to_string (sint i)) = Inr (sint i)"
    using sint_lt [of i] sint_ge [of i] by (intro stoi_to_string) simp_all
  ultimately show ?thesis by (simp add: parseFV_def fvToString_def FInt)
next
  case (FStr s)
  assume "value_ok v"
  then show ?thesis by (auto simp: parseFV_def fvToString_def FStr)
qed

lemma parse_values_inverse: "list_all value_ok vs \<Longrightarrow> parse_values (map fvToString vs) = Inr vs"
  by (induction vs) (simp_all add: parseFV_inverse)

lemma line_values_join: "x @ line_values vs = join_with CHR '','' (x # map fvToString vs)"
  by (simp add: line_values_def join_with_Cons_concat comp_def)

lemma join_with_Cons: "x @ d # join_with d (y # ys) = join_with d (x # y # ys)"
  by simp

lemma head_values_join:
  "line_head op tx tbl rid @ line_values vs = join_with CHR '',''
     (op # to_string tx # tbl # to_string (pageId rid) # to_string (slotNum rid) # map fvToString vs)"
  using line_values_join [of "to_string (slotNum rid)" vs] by (simp add: line_head_def)

lemma split_line:
  assumes "plain op" "op \<noteq> []" "plain tbl" "list_all value_ok vs"
  shows "split_at CHR '','' (line_head op tx tbl rid @ line_values vs) =
    op # to_string tx # tbl # to_string (pageId rid) # to_string (slotNum rid) # map fvToString vs"
  unfolding head_values_join
proof (rule split_at_join)
  fix p assume "p \<in> set (op # to_string tx # tbl # to_string (pageId rid) # to_string (slotNum rid) # map fvToString vs)"
  then have "plain p"
    using assms fvToString_plain by (auto simp: list_all_iff)
  then show "CHR '','' \<notin> set p" by (simp add: plain_def)
next
  show "last (op # to_string tx # tbl # to_string (pageId rid) # to_string (slotNum rid) # map fvToString vs) \<noteq> []"
    by (cases "vs = []") (simp_all add: last_map)
qed simp

lemma split_values:
  "list_all value_ok vs \<Longrightarrow> split_at CHR '','' (line_values vs) = (if vs = [] then [] else [] # map fvToString vs)"
proof (cases "vs = []")
  case False
  assume ok: "list_all value_ok vs"
  have "split_at CHR '','' (join_with CHR '','' ([] # map fvToString vs)) = [] # map fvToString vs"
  proof (rule split_at_join)
    fix p assume "p \<in> set ([] # map fvToString vs)"
    then have "plain p" using ok fvToString_plain by (auto simp: list_all_iff plain_def)
    then show "CHR '','' \<notin> set p" by (simp add: plain_def)
  qed (use False in \<open>simp_all add: last_map\<close>)
  with False show ?thesis using line_values_join [of "[]" vs] by simp
qed (simp add: line_values_def)

lemma plain_values: "list_all value_ok vs \<Longrightarrow> CHR '';'' \<notin> set (line_values vs) \<and> newline \<notin> set (line_values vs)"
  using fvToString_plain by (auto simp: line_values_def plain_def list_all_iff newline_def)

lemma plain_head:
  "plain op \<Longrightarrow> plain tbl \<Longrightarrow> CHR '';'' \<notin> set (line_head op tx tbl rid) \<and> newline \<notin> set (line_head op tx tbl rid)"
  using to_string_plain by (auto simp: line_head_def plain_def newline_def)

lemma part_simps [simp]: "part (x # xs) 0 = Inr x" "part (x # xs) (Suc n) = part xs n"
  by (simp_all add: part_def)

lemma part_numeral [simp]: "part (x # xs) (numeral n) = part xs (pred_numeral n)"
  by (simp add: part_def numeral_eq_Suc)

lemma tx_number: "int64 i \<Longrightarrow> stoll (to_string i) = Inr i"
  by (simp add: int64_def stoll_to_string)

text \<open>
  In the line of an update the slot number is followed by a comma or by the semicolon, which \<open>stoll\<close>
  does not read.
\<close>

lemma split_update_line:
  assumes "plain tbl" "rid_ok rid"
  shows "\<exists>sl rest. split_at CHR '','' (update_line tx tbl rid ov nv) =
      ''UPDATE'' # to_string tx # tbl # to_string (pageId rid) # sl # rest \<and> stoll sl = Inr (slotNum rid)"
proof -
  let ?Y = "line_values ov @ '';'' @ line_values nv"
  let ?X = "to_string (slotNum rid) @ ?Y"
  obtain ps where ps: "split_at CHR '','' ?X = takeWhile (\<lambda>c. c \<noteq> CHR '','') ?X # ps"
    using split_at_hd [of ?X "CHR '',''"] by auto
  have pl: "CHR '','' \<notin> set (to_string i)" for i using to_string_plain [of i] by (simp add: plain_def)
  have tw: "takeWhile (\<lambda>c. c \<noteq> CHR '','') ?X = to_string (slotNum rid) @ takeWhile (\<lambda>c. c \<noteq> CHR '','') ?Y"
    by (rule takeWhile_append2) (use pl in auto)
  have "\<not> isdigit c" if "takeWhile (\<lambda>c. c \<noteq> CHR '','') ?Y = c # cs" for c cs
    using that by (cases ov) (auto simp: line_values_def isdigit_def)
  then have "stoll (takeWhile (\<lambda>c. c \<noteq> CHR '','') ?X) = Inr (slotNum rid)"
    using assms(2) unfolding tw stoll_def rid_ok_def by (intro parse_integer_to_string_rest) simp_all
  moreover have "split_at CHR '','' (update_line tx tbl rid ov nv) =
      ''UPDATE'' # to_string tx # tbl # to_string (pageId rid) # split_at CHR '','' ?X"
  proof -
    have "update_line tx tbl rid ov nv = ''UPDATE'' @ CHR '','' # to_string tx @ CHR '','' # tbl @ CHR '','' #
        to_string (pageId rid) @ CHR '','' # ?X"
      by (simp add: update_line_def line_head_def)
    then show ?thesis using pl assms(1) by (simp only:) (simp add: split_at_Cons plain_def del: append_Cons)
  qed
  ultimately show ?thesis using ps by auto
qed

lemma rid_numbers: "rid_ok rid \<Longrightarrow> stoll (to_string (pageId rid)) = Inr (pageId rid) \<and>
    stoll (to_string (slotNum rid)) = Inr (slotNum rid) \<and> to_int32 (pageId rid) = pageId rid \<and>
    to_int32 (slotNum rid) = slotNum rid"
  by (simp add: rid_ok_def stoll_to_string to_int32_id)

lemma parse_line_inverse:
  assumes "record_ok r"
  shows "parse_line (record_line r) = Inr (Some r)"
proof -
  have pl: "plain ''INSERT''" "plain ''DELETE''" "plain ''UPDATE''"
    by (simp_all add: plain_def newline_def)
  show ?thesis
  proof (cases "lop r")
    case L_INSERT
    with assms show ?thesis
      by (cases r) (auto simp: record_ok_def record_line_def insert_line_def parse_line_def Let_def split_line pl
          parse_values_inverse rid_numbers tx_number)
  next
    case L_DELETE
    with assms show ?thesis
      by (cases r) (auto simp: record_ok_def record_line_def delete_line_def parse_line_def Let_def split_line pl
          parse_values_inverse rid_numbers tx_number)
  next
    case L_COMMIT
    have "split_at CHR '','' (''COMMIT'' @ CHR '','' # to_string (ltxId r)) = [''COMMIT'', to_string (ltxId r)]"
      using to_string_plain [of "ltxId r"] by (subst split_at_Cons) (simp_all add: split_at_last plain_def)
    with assms L_COMMIT show ?thesis
      by (simp add: tx_number record_ok_def record_line_def parse_line_def Let_def)
  next
    case L_ABORT
    have "split_at CHR '','' (''ABORT'' @ CHR '','' # to_string (ltxId r)) = [''ABORT'', to_string (ltxId r)]"
      using to_string_plain [of "ltxId r"] by (subst split_at_Cons) (simp_all add: split_at_last plain_def)
    with assms L_ABORT show ?thesis
      by (simp add: tx_number record_ok_def record_line_def parse_line_def Let_def)
  next
    case L_UPDATE
    let ?head = "line_head ''UPDATE'' (ltxId r) (ltable r) (lrid r)"
    let ?line = "update_line (ltxId r) (ltable r) (lrid r) (loldValues r) (lnewValues r)"
    have ok: "int64 (ltxId r)" "plain (ltable r)" "rid_ok (lrid r)" "list_all value_ok (loldValues r)"
      "list_all value_ok (lnewValues r)"
      using assms L_UPDATE by (simp_all add: record_ok_def)
    have semi: "CHR '';'' \<notin> set (?head @ line_values (loldValues r))"
      using plain_head [OF pl(3) ok(2)] plain_values [OF ok(4)] by simp
    have line: "?line = (?head @ line_values (loldValues r)) @ CHR '';'' # line_values (lnewValues r)"
      by (simp add: update_line_def)
    have b: "before_semi ?line = ?head @ line_values (loldValues r)"
      unfolding before_semi_def line using semi by (subst takeWhile_append2) auto
    have a: "after_semi ?line = line_values (lnewValues r)"
      unfolding after_semi_def line using semi by (subst dropWhile_append2) auto
    obtain sl rest where sp: "split_at CHR '','' ?line =
        ''UPDATE'' # to_string (ltxId r) # ltable r # to_string (pageId (lrid r)) # sl # rest"
      "stoll sl = Inr (slotNum (lrid r))"
      using split_update_line [OF ok(2,3)] by blast
    have "parse_values (drop 1 (split_at CHR '','' (line_values (lnewValues r)))) = Inr (lnewValues r)"
      using ok(5) by (simp add: split_values parse_values_inverse)
    moreover have "parse_values (drop 5 (split_at CHR '','' (?head @ line_values (loldValues r)))) = Inr (loldValues r)"
      using ok by (simp add: split_line pl parse_values_inverse)
    moreover have "\<lparr>lop = L_UPDATE, ltxId = ltxId r, ltable = ltable r, lrid = lrid r,
        loldValues = loldValues r, lnewValues = lnewValues r\<rparr> = r"
      using L_UPDATE by (cases r) simp
    ultimately show ?thesis
      using ok(1) rid_numbers [OF ok(3)] sp L_UPDATE
      by (simp add: record_line_def parse_line_def Let_def a b tx_number)
  qed
qed

subsection \<open>The text of a log\<close>

definition log_text :: "LogRecord list \<Rightarrow> string" where
  "log_text rs = concat (map (\<lambda>r. record_line r @ [newline]) rs)"

lemma record_line_not_Nil [simp]: "record_line r \<noteq> []"
  by (simp add: record_line_def insert_line_def delete_line_def update_line_def line_head_def split: LogOp.split)

lemma record_line_newline: "record_ok r \<Longrightarrow> newline \<notin> set (record_line r)"
proof -
  assume ok: "record_ok r"
  have pl: "plain ''INSERT''" "plain ''DELETE''" "plain ''UPDATE''"
    by (simp_all add: plain_def newline_def)
  have n: "newline \<notin> set (to_string i)" for i using to_string_plain [of i] by (simp add: plain_def)
  show ?thesis
    using ok n [of "ltxId r"] plain_head [OF pl(1), of "ltable r" "ltxId r" "lrid r"]
      plain_head [OF pl(2), of "ltable r" "ltxId r" "lrid r"] plain_head [OF pl(3), of "ltable r" "ltxId r" "lrid r"]
      plain_values [of "loldValues r"] plain_values [of "lnewValues r"]
    by (cases "lop r")
      (auto simp: record_ok_def record_line_def insert_line_def delete_line_def update_line_def newline_def)
qed

lemma read_log_text: "list_all record_ok rs \<Longrightarrow> read_log (log_text rs) = Inr rs"
proof -
  assume ok: "list_all record_ok rs"
  have "split_at newline (log_text rs) = map record_line rs"
    using ok by (induction rs) (simp_all add: log_text_def split_at_Cons record_line_newline)
  moreover have "parse_lines (map record_line rs) = Inr rs"
    using ok by (induction rs) (simp_all add: parse_line_inverse)
  ultimately show ?thesis by (simp add: read_log_def)
qed

lemma run_log:
  "\<not> wal_failed w \<Longrightarrow>
     run_records log_record rs w = (Inr (), w\<lparr>wal_buffer := wal_buffer w @ log_text rs\<rparr>)"
  by (induction rs arbitrary: w) (simp_all add: log_record_write wal_write_def log_text_def)

subsection \<open>Replay on one record identifier\<close>

text \<open>
  What redoing and undoing a record does to the value at its identifier. An update is an overwrite in
  place: it does not revive a tombstone.
\<close>

definition redo_value :: "LogRecord \<Rightarrow> FieldValue list option \<Rightarrow> FieldValue list option" where
  "redo_value r x = (case lop r of
     L_INSERT \<Rightarrow> Some (lnewValues r) | L_DELETE \<Rightarrow> None
   | L_UPDATE \<Rightarrow> (case x of None \<Rightarrow> None | Some _ \<Rightarrow> Some (lnewValues r)) | _ \<Rightarrow> x)"

definition undo_value :: "LogRecord \<Rightarrow> FieldValue list option \<Rightarrow> FieldValue list option" where
  "undo_value r x = (case lop r of
     L_INSERT \<Rightarrow> None | L_DELETE \<Rightarrow> Some (loldValues r)
   | L_UPDATE \<Rightarrow> (case x of None \<Rightarrow> None | Some _ \<Rightarrow> Some (loldValues r)) | _ \<Rightarrow> x)"

definition is_data :: "LogRecord \<Rightarrow> bool" where
  "is_data r \<longleftrightarrow> lop r \<in> {L_INSERT, L_DELETE, L_UPDATE}"

definition at_key :: "string \<times> RecordID \<Rightarrow> LogRecord \<Rightarrow> bool" where
  "at_key k r \<longleftrightarrow> is_data r \<and> (ltable r, lrid r) = k"

text \<open>
  \<open>history x rs y\<close>: executing the records from value \<open>x\<close> gives \<open>y\<close>, every record having logged the value
  it found. \<open>visited x rs\<close> are the values on the way, \<open>x\<close> and \<open>y\<close> included.
\<close>

fun history :: "FieldValue list option \<Rightarrow> LogRecord list \<Rightarrow> FieldValue list option \<Rightarrow> bool" where
  "history x [] y = (y = x)"
| "history x (r # rs) y = ((case lop r of
     L_INSERT \<Rightarrow> x = None | L_DELETE \<Rightarrow> x = Some (loldValues r) | L_UPDATE \<Rightarrow> x = Some (loldValues r) | _ \<Rightarrow> False) \<and>
     history (redo_value r x) rs y)"

fun visited :: "FieldValue list option \<Rightarrow> LogRecord list \<Rightarrow> FieldValue list option set" where
  "visited x [] = {x}"
| "visited x (r # rs) = insert x (visited (redo_value r x) rs)"

definition only_updates :: "LogRecord list \<Rightarrow> bool" where
  "only_updates rs \<longleftrightarrow> (\<forall>r \<in> set rs. lop r = L_UPDATE)"

lemma history_append: "history x (rs @ qs) z \<longleftrightarrow> (\<exists>y. history x rs y \<and> history y qs z)"
  by (induction rs arbitrary: x) auto

lemma visited_append: "history x rs y \<Longrightarrow> visited x (rs @ qs) = visited x rs \<union> visited y qs"
proof (induction rs arbitrary: x)
  case Nil
  then show ?case by (cases qs) auto
qed auto

lemma updates_present: "history x rs y \<Longrightarrow> only_updates rs \<Longrightarrow> rs \<noteq> [] \<Longrightarrow> None \<notin> visited x rs \<and> y \<noteq> None"
proof (induction rs arbitrary: x)
  case (Cons r rs)
  then have r: "lop r = L_UPDATE" "x = Some (loldValues r)" by (auto simp: only_updates_def)
  show ?case
  proof (cases "rs = []")
    case False
    with Cons show ?thesis using r by (auto simp: only_updates_def)
  qed (use Cons.prems r in \<open>auto simp: redo_value_def\<close>)
qed simp

lemma redo_history:
  "history x rs y \<Longrightarrow> rs \<noteq> [] \<Longrightarrow>
     fold redo_value rs w = y \<or> (w = None \<and> only_updates rs \<and> fold redo_value rs w = None)"
proof (induction rs arbitrary: y rule: rev_induct)
  case (snoc r rs)
  then obtain v where v: "history x rs v" "history v [r] y" by (auto simp: history_append)
  show ?case
  proof (cases "lop r = L_UPDATE")
    case False
    with v(2) show ?thesis by (auto simp: redo_value_def split: LogOp.splits)
  next
    case True
    with v(2) have vs: "v = Some (loldValues r)" "y = Some (lnewValues r)" by (auto simp: redo_value_def)
    show ?thesis
    proof (cases "rs = []")
      case True
      with \<open>lop r = L_UPDATE\<close> vs show ?thesis by (cases w) (auto simp: redo_value_def only_updates_def)
    next
      case False
      with snoc.IH [OF v(1)] \<open>lop r = L_UPDATE\<close> vs show ?thesis
        by (auto simp: redo_value_def only_updates_def)
    qed
  qed
qed simp

lemma undo_history:
  "history x rs y \<Longrightarrow> rs \<noteq> [] \<Longrightarrow>
     fold undo_value (rev rs) w = x \<or> (w = None \<and> only_updates rs \<and> fold undo_value (rev rs) w = None)"
proof (induction rs arbitrary: x)
  case (Cons r rs)
  have h: "history (redo_value r x) rs y" using Cons.prems(1) by simp
  show ?case
  proof (cases "lop r = L_UPDATE")
    case False
    with Cons.prems(1) show ?thesis by (auto simp: undo_value_def split: LogOp.splits)
  next
    case True
    with Cons.prems(1) have xs: "x = Some (loldValues r)" "redo_value r x = Some (lnewValues r)"
      by (auto simp: redo_value_def)
    show ?thesis
    proof (cases "rs = []")
      case True
      with \<open>lop r = L_UPDATE\<close> xs show ?thesis by (cases w) (auto simp: undo_value_def only_updates_def)
    next
      case False
      with Cons.IH [OF h] \<open>lop r = L_UPDATE\<close> xs show ?thesis
        by (auto simp: undo_value_def only_updates_def)
    qed
  qed
qed simp

text \<open>
  Winners first, then losers: from any value that was visited, redoing the winners and undoing the losers
  backwards ends at the value the winners left.
\<close>

lemma recover_value:
  assumes c: "history x cs y" and u: "history y us z" and w: "w \<in> visited x (cs @ us)"
  shows "fold undo_value (rev us) (fold redo_value cs w) = y"
proof -
  have vis: "visited x (cs @ us) = visited x cs \<union> visited y us" using c by (rule visited_append)
  have single: "visited x cs = {x}" if "cs = []" using that by simp
  show ?thesis
  proof (cases "fold redo_value cs w = y")
    case True
    then show ?thesis
      using undo_history [OF u, of y] by (cases "us = []") auto
  next
    case False
    have "us \<noteq> []"
    proof
      assume us: "us = []"
      then have "cs \<noteq> []" using False w c by (cases cs) auto
      with redo_history [OF c, of w] False have "w = None" "only_updates cs" by auto
      with updates_present [OF c _ \<open>cs \<noteq> []\<close>] w us vis show False by auto
    qed
    moreover have "\<not> (fold redo_value cs w = None \<and> only_updates us)"
    proof
      assume a: "fold redo_value cs w = None \<and> only_updates us"
      then have n: "None \<notin> visited y us" using updates_present [OF u _ \<open>us \<noteq> []\<close>] by simp
      show False
      proof (cases "cs = []")
        case True
        with a n w vis c show False by (cases us) auto
      next
        case False
        with redo_history [OF c False, of w] \<open>fold redo_value cs w \<noteq> y\<close> have "w = None" "only_updates cs" by auto
        with updates_present [OF c _ False] w vis n show False by auto
      qed
    qed
    ultimately show ?thesis using undo_history [OF u] by blast
  qed
qed

subsection \<open>The contract of the storage below\<close>

text \<open>The places and rows of a record are ones the storage can redo and undo.\<close>

definition replayable ::
  "(string \<Rightarrow> RecordID \<Rightarrow> bool) \<Rightarrow> (string \<Rightarrow> FieldValue list \<Rightarrow> bool) \<Rightarrow> LogRecord \<Rightarrow> bool" where
  "replayable place good r \<longleftrightarrow> (is_data r \<longrightarrow> place (ltable r) (lrid r) \<and>
     (lop r \<noteq> L_DELETE \<longrightarrow> good (ltable r) (lnewValues r)) \<and>
     (lop r \<noteq> L_INSERT \<longrightarrow> good (ltable r) (loldValues r)))"

text \<open>A record whose transaction neither committed nor aborted.\<close>

definition loser :: "LogRecord list \<Rightarrow> LogRecord \<Rightarrow> bool" where
  "loser rs r \<longleftrightarrow> \<not> (ltxId r \<in> committed_txs rs \<or> ltxId r \<in> aborted_txs rs)"

text \<open>
  What recovery needs of the redo operations: on the places and rows in use (\<open>place\<close>, \<open>good\<close>) they
  succeed and change the value of one record identifier, an update only if it holds a row. Then a
  replay computes, for every identifier, the fold of the values of its records.
\<close>

locale redo_storage =
  fixes inv :: "'s \<Rightarrow> bool"
    and rows :: "'s \<Rightarrow> string \<times> RecordID \<rightharpoonup> FieldValue list"
    and place :: "string \<Rightarrow> RecordID \<Rightarrow> bool"
    and good :: "string \<Rightarrow> FieldValue list \<Rightarrow> bool"
    and redoI :: "string \<Rightarrow> RecordID \<Rightarrow> FieldValue list \<Rightarrow> ('s, unit) io"
    and redoD :: "string \<Rightarrow> RecordID \<Rightarrow> ('s, unit) io"
    and redoU :: "string \<Rightarrow> RecordID \<Rightarrow> FieldValue list \<Rightarrow> ('s, unit) io"
  assumes redoI_law: "inv s \<Longrightarrow> place t r \<Longrightarrow> good t v \<Longrightarrow>
      \<exists>u. redoI t r v s = (Inr (), u) \<and> inv u \<and> rows u = (rows s)((t, r) \<mapsto> v)"
    and redoD_law: "inv s \<Longrightarrow> place t r \<Longrightarrow>
      \<exists>u. redoD t r s = (Inr (), u) \<and> inv u \<and> rows u = (rows s)((t, r) := None)"
    and redoU_law: "inv s \<Longrightarrow> place t r \<Longrightarrow> good t v \<Longrightarrow>
      \<exists>u. redoU t r v s = (Inr (), u) \<and> inv u \<and>
        rows u = (if rows s (t, r) = None then rows s else (rows s)((t, r) \<mapsto> v))"
begin

abbreviation ops :: "'s redo_ops" where
  "ops \<equiv> (redoI, redoD, redoU)"

lemma redo_record_ok:
  assumes "inv s" "replayable place good r"
  shows "\<exists>t. redo_record ops r s = (Inr (), t) \<and> inv t \<and>
    (\<forall>k. rows t k = (if at_key k r then redo_value r (rows s k) else rows s k))"
  using assms redoI_law [of s "ltable r" "lrid r" "lnewValues r"] redoD_law [of s "ltable r" "lrid r"]
    redoU_law [of s "ltable r" "lrid r" "lnewValues r"]
  by (cases "lop r") (auto simp: replayable_def is_data_def redo_record_def at_key_def redo_value_def split: option.split)

lemma undo_record_ok:
  assumes "inv s" "replayable place good r"
  shows "\<exists>t. undo_record ops r s = (Inr (), t) \<and> inv t \<and>
    (\<forall>k. rows t k = (if at_key k r then undo_value r (rows s k) else rows s k))"
  using assms redoI_law [of s "ltable r" "lrid r" "loldValues r"] redoD_law [of s "ltable r" "lrid r"]
    redoU_law [of s "ltable r" "lrid r" "loldValues r"]
  by (cases "lop r") (auto simp: replayable_def is_data_def undo_record_def at_key_def undo_value_def split: option.split)

lemma run_records_ok:
  assumes step: "\<And>s r. inv s \<Longrightarrow> replayable place good r \<Longrightarrow> \<exists>t. f r s = (Inr (), t) \<and> inv t \<and>
      (\<forall>k. rows t k = (if at_key k r then g r (rows s k) else rows s k))"
  shows "inv s \<Longrightarrow> list_all (replayable place good) rs \<Longrightarrow> \<exists>t. run_records f rs s = (Inr (), t) \<and> inv t \<and>
    (\<forall>k. rows t k = fold g (filter (at_key k) rs) (rows s k))"
proof (induction rs arbitrary: s)
  case (Cons r rs)
  obtain t where t: "f r s = (Inr (), t)" "inv t"
    "\<forall>k. rows t k = (if at_key k r then g r (rows s k) else rows s k)"
    using step [OF Cons.prems(1), of r] Cons.prems(2) by (auto simp del: split_paired_All)
  obtain u where u: "run_records f rs t = (Inr (), u)" "inv u"
    "\<forall>k. rows u k = fold g (filter (at_key k) rs) (rows t k)"
    using Cons.IH [OF t(2)] Cons.prems(2) by auto
  with t show ?case by (simp del: split_paired_All)
qed simp

lemma replay_rows:
  assumes "inv s" "list_all (replayable place good) rs"
  shows "\<exists>t. replay ops rs s = (Inr (), t) \<and> inv t \<and>
    (\<forall>k. rows t k = fold undo_value (rev (filter (\<lambda>r. at_key k r \<and> loser rs r) rs))
      (fold redo_value (filter (\<lambda>r. at_key k r \<and> ltxId r \<in> committed_txs rs) rs) (rows s k)))"
proof -
  let ?C = "filter (\<lambda>r. ltxId r \<in> committed_txs rs) rs"
  let ?U = "filter (loser rs) (rev rs)"
  obtain t where t: "run_records (redo_record ops) ?C s = (Inr (), t)" "inv t"
    "\<forall>k. rows t k = fold redo_value (filter (at_key k) ?C) (rows s k)"
    using run_records_ok [OF redo_record_ok assms(1), of ?C] assms(2) by (auto simp: list_all_iff simp del: split_paired_All)
  obtain u where u: "run_records (undo_record ops) ?U t = (Inr (), u)" "inv u"
    "\<forall>k. rows u k = fold undo_value (filter (at_key k) ?U) (rows t k)"
    using run_records_ok [OF undo_record_ok t(2), of ?U] assms(2) by (auto simp: list_all_iff simp del: split_paired_All)
  have "replay ops rs s = (Inr (), u)"
    using t(1) u(1) by (simp add: replay_def Let_def loser_def [abs_def])
  then show ?thesis using t(3) u(2,3) by (simp add: rev_filter conj_commute del: split_paired_All)
qed

text \<open>
  Recovery of one identifier whose winners were followed by its losers: whatever value of its history
  reached the disk, it ends with the value the winners left. One that only aborted transactions wrote
  keeps the value that reached the disk.
\<close>

lemma replay_correct:
  assumes "inv s" "list_all (replayable place good) rs"
  shows "\<exists>t. replay ops rs s = (Inr (), t) \<and> inv t \<and>
    (\<forall>k cs us x y z. filter (at_key k) rs = cs @ us \<longrightarrow>
       (\<forall>r \<in> set cs. ltxId r \<in> committed_txs rs) \<longrightarrow> (\<forall>r \<in> set us. loser rs r) \<longrightarrow>
       history x cs y \<longrightarrow> history y us z \<longrightarrow> rows s k \<in> visited x (cs @ us) \<longrightarrow> rows t k = y) \<and>
    (\<forall>k. (\<forall>r \<in> set (filter (at_key k) rs). ltxId r \<in> aborted_txs rs - committed_txs rs) \<longrightarrow> rows t k = rows s k)"
proof -
  obtain t where t: "replay ops rs s = (Inr (), t)" "inv t"
    "\<forall>k. rows t k = fold undo_value (rev (filter (\<lambda>r. at_key k r \<and> loser rs r) rs))
      (fold redo_value (filter (\<lambda>r. at_key k r \<and> ltxId r \<in> committed_txs rs) rs) (rows s k))"
    using replay_rows [OF assms] by blast
  have two: "filter (\<lambda>r. at_key k r \<and> P r) rs = filter P (filter (at_key k) rs)" for k P by simp
  have "rows t k = y"
    if k: "filter (at_key k) rs = cs @ us" and c: "\<forall>r \<in> set cs. ltxId r \<in> committed_txs rs"
      and u: "\<forall>r \<in> set us. loser rs r"
      and h: "history x cs y" "history y us z" "rows s k \<in> visited x (cs @ us)" for k cs us x y z
  proof -
    have "filter (\<lambda>r. at_key k r \<and> ltxId r \<in> committed_txs rs) rs = cs"
      unfolding two k using c u by (auto simp: filter_empty_conv loser_def)
    moreover have "filter (\<lambda>r. at_key k r \<and> loser rs r) rs = us"
      unfolding two k using c u by (auto simp: filter_empty_conv loser_def)
    ultimately show ?thesis using recover_value [OF h] by (simp add: t(3) [rule_format, of k])
  qed
  moreover have "rows t k = rows s k"
    if "\<forall>r \<in> set (filter (at_key k) rs). ltxId r \<in> aborted_txs rs - committed_txs rs" for k
  proof -
    have "filter (\<lambda>r. at_key k r \<and> ltxId r \<in> committed_txs rs) rs = []" "filter (\<lambda>r. at_key k r \<and> loser rs r) rs = []"
      using that by (auto simp: filter_empty_conv loser_def)
    then show ?thesis by (simp add: t(3) [rule_format, of k])
  qed
  ultimately show ?thesis using t(1,2) by blast
qed

end

subsection \<open>Properties\<close>

text \<open>
  C19: The log can be read back: any sequence of records whose texts avoid the three separator characters
  and whose string values are not empty, written to a log that already holds such records and
  flushed, is the sequence that recovery reads.
\<close>

theorem log_roundtrip:
  assumes "list_all record_ok old" "list_all record_ok rs"
  shows "\<exists>w. bindM (run_records log_record rs) (\<lambda>_. wal_flush) (new_WAL (log_text old)) = (Inr (), w) \<and>
    read_log (wal_file w) = Inr (old @ rs)"
proof -
  have "read_log (log_text (old @ rs)) = Inr (old @ rs)"
    using assms by (intro read_log_text) simp
  then show ?thesis
    by (simp add: run_log new_WAL_def wal_flush_def log_text_def)
qed

definition ex_record :: LogRecord where
  "ex_record = \<lparr>lop = L_UPDATE, ltxId = 3, ltable = ''users'', lrid = RecordID 0 2,
     loldValues = [FInt 1, FStr ''ann''], lnewValues = [FInt 1, FStr ''bob'']\<rparr>"

theorem log_roundtrip_witness:
  "\<exists>w. bindM (run_records log_record [ex_record, control_record L_COMMIT 3]) (\<lambda>_. wal_flush) (new_WAL []) = (Inr (), w) \<and>
     read_log (wal_file w) = Inr [ex_record, control_record L_COMMIT 3]"
proof -
  have "record_ok ex_record" "record_ok (control_record L_COMMIT 3)"
    by (simp_all add: record_ok_def ex_record_def control_record_def int64_def plain_def newline_def rid_ok_def)
  then show ?thesis using log_roundtrip [of "[]" "[ex_record, control_record L_COMMIT 3]"] by (simp add: log_text_def)
qed

text \<open>
  An empty string value makes the log unreadable: the token \<open>S:\<close> is too short for the parser, so
  that a recovery that meets such a record throws before it has redone or undone anything, committed
  or not, and does so again on every start.
\<close>

theorem empty_string_blocks_recovery:
  assumes "int64 tx" "plain tbl" "rid_ok rid" "list_all value_ok vs" "list_all record_ok old"
    and "wal_file w = log_text old @ insert_line tx tbl rid (vs @ [FStr []]) @ [newline] @ post"
  shows "recover ops (w, s) = (Inl (Runtime_Error ''Bad FV token: S:''), (w, s))"
proof -
  have pv: "parse_values (map fvToString (vs @ [FStr []])) = Inl (Runtime_Error ''Bad FV token: S:'')"
    using assms(4) by (induction vs) (simp_all add: parseFV_inverse, simp add: parseFV_def fvToString_def)
  have pl: "plain ''INSERT''" by (simp add: plain_def newline_def)
  let ?line = "insert_line tx tbl rid (vs @ [FStr []])"
  have vals: "\<forall>v \<in> set (vs @ [FStr []]). plain (fvToString v)"
    using assms(4) fvToString_plain by (auto simp: list_all_iff fvToString_def plain_def newline_def)
  have "split_at CHR '','' ?line = ''INSERT'' # to_string tx # tbl # to_string (pageId rid) #
      to_string (slotNum rid) # map fvToString (vs @ [FStr []])"
    unfolding insert_line_def head_values_join
  proof (rule split_at_join)
    fix p assume "p \<in> set (''INSERT'' # to_string tx # tbl # to_string (pageId rid) # to_string (slotNum rid) #
        map fvToString (vs @ [FStr []]))"
    then have "plain p" using vals pl assms(2) to_string_plain by auto
    then show "CHR '','' \<notin> set p" by (simp add: plain_def)
  qed simp_all
  then have line: "parse_line ?line = Inl (Runtime_Error ''Bad FV token: S:'')"
    using assms(1,3) pv by (simp add: parse_line_def tx_number rid_numbers)
  have "newline \<notin> set ?line"
    using plain_head [OF pl assms(2), of tx rid] vals
    by (auto simp: insert_line_def line_values_def plain_def newline_def)
  then have "split_at newline (?line @ newline # post) = ?line # split_at newline post"
    by (rule split_at_Cons)
  moreover have "?line \<noteq> []" by (simp add: insert_line_def line_head_def)
  ultimately have tail: "read_log (?line @ newline # post) = Inl (Runtime_Error ''Bad FV token: S:'')"
    using line by (simp add: read_log_def)
  have "read_log (log_text old @ ?line @ newline # post) = Inl (Runtime_Error ''Bad FV token: S:'')"
    using assms(5)
  proof (induction old)
    case (Cons r rs)
    then show ?case
      by (simp add: log_text_def read_log_def split_at_Cons record_line_newline parse_line_inverse)
  qed (simp add: log_text_def tail)
  then show ?thesis using assms(6) by (simp add: recover_def)
qed

theorem empty_string_blocks_recovery_witness:
  "recover ((\<lambda>_ _ _. retM ()), (\<lambda>_ _. retM ()), (\<lambda>_ _ _. retM ()))
     (new_WAL (insert_line 1 ''users'' (RecordID 0 0) [FInt 7, FStr []] @ [newline]), 0 :: nat) =
     (Inl (Runtime_Error ''Bad FV token: S:''),
      (new_WAL (insert_line 1 ''users'' (RecordID 0 0) [FInt 7, FStr []] @ [newline]), 0))"
  using empty_string_blocks_recovery [of 1 "''users''" "RecordID 0 0" "[FInt 7]" "[]"
      "new_WAL (insert_line 1 ''users'' (RecordID 0 0) [FInt 7, FStr []] @ [newline])" "[]"]
  by (simp add: int64_def plain_def newline_def rid_ok_def new_WAL_def log_text_def)

text \<open>
  After a successful recovery the log is dead: the log is emptied and its stream has failed, so no
  record written and flushed afterwards reaches the file, and a crash after that recovers nothing.
\<close>

theorem recovery_disables_log:
  assumes "recover ops (w, s) = (Inr (), (w', s'))"
  shows "bindM (run_records log_record rs) (\<lambda>_. wal_flush) w' = (Inr (), w') \<and> wal_file w' = []"
proof -
  have f: "wal_failed w'" "wal_file w' = []"
    using assms by (auto simp: recover_def split: sum.splits prod.splits)
  then have "run_records log_record rs w' = (Inr (), w')"
    by (induction rs) (simp_all add: log_record_write wal_write_def)
  with f show ?thesis by (simp add: wal_flush_def)
qed

theorem recovery_disables_log_witness:
  "\<exists>w'. recover ((\<lambda>_ _ _. retM ()), (\<lambda>_ _. retM ()), (\<lambda>_ _ _. retM ())) (new_WAL [], 0 :: nat) = (Inr (), (w', 0)) \<and>
     bindM (run_records log_record [ex_record]) (\<lambda>_. wal_flush) w' = (Inr (), w')"
proof -
  let ?ops = "((\<lambda>_ _ _. retM ()), (\<lambda>_ _. retM ()), (\<lambda>_ _ _. retM ())) :: nat redo_ops"
  have "recover ?ops (new_WAL [], 0) = (Inr (), ((new_WAL [])\<lparr>wal_failed := True\<rparr>, 0))"
    by (simp add: recover_def new_WAL_def read_log_def replay_def)
  from recovery_disables_log [OF this, of "[ex_record]"] this show ?thesis by blast
qed

end
