(* ===== verification/StorageEngine.thy ===== *)
theory StorageEngine
  imports BPlusTree WAL
begin

section \<open>The storage engine\<close>

text \<open>
  \<open>storageEngine/StorageEngine\<close>: tables by name, each a heap of rows and an index from its primary key to
  the rows' identifiers. The state record extends the pool's with the map of tables. The operations
  that the recovery calls are at the end.
\<close>

record TableInfo =
  tschema :: Schema
  theap :: TableHeap
  tindex :: BPlusTree
  tpkCol :: int

record engine_state = bm_state +
  tables :: "string \<rightharpoonup> TableInfo"

subsection \<open>The operations\<close>

definition table_of :: "string \<Rightarrow> ('a engine_state_scheme, TableInfo) io" where
  "table_of name = (\<lambda>s. case tables s name of
       None \<Rightarrow> (Inl (Runtime_Error (''Unknown table: '' @ name)), s) | Some ti \<Rightarrow> (Inr ti, s))"

definition table_at :: "string \<Rightarrow> ('a engine_state_scheme, TableInfo) io" where
  "table_at name = (\<lambda>s. case tables s name of
       None \<Rightarrow> (Inl (Out_Of_Range ''unordered_map::at''), s) | Some ti \<Rightarrow> (Inr ti, s))"

fun pk_position :: "string \<Rightarrow> Column list \<Rightarrow> int \<Rightarrow> int" where
  "pk_position name [] i = - 1"
| "pk_position name (c # cs) i = (if cname c = name then i else pk_position name cs (i + 1))"

definition registerTable :: "string \<Rightarrow> Schema \<Rightarrow> string \<Rightarrow> string \<Rightarrow> string \<Rightarrow> ('a engine_state_scheme, unit) io" where
  "registerTable tableName schema dataFile indexFile primaryKeyColumn = (\<lambda>s.
     if tables s tableName \<noteq> None
     then (Inl (Runtime_Error (''Table already registered: '' @ tableName)), s)
     else
       bindM (openFile dataFile) (\<lambda>_.
       bindM (openFile indexFile) (\<lambda>_.
       bindM (new_TableHeap dataFile schema) (\<lambda>heap.
       bindM (openFile indexFile) (\<lambda>f.
       bindM (new_BPlusTree f) (\<lambda>idx.
       let pkIdx = pk_position primaryKeyColumn (scolumns schema) 0 in
       if pkIdx < 0 then throwM (Runtime_Error (''Primary key column not found: '' @ primaryKeyColumn))
       else modifyM (\<lambda>s. s\<lparr>tables := emplace (tables s) tableName
              \<lparr>tschema = schema, theap = heap, tindex = idx, tpkCol = pkIdx\<rparr>\<rparr>)))))) s)"

text \<open>The key in the field \<open>values[ti.pkColIdx]\<close>.\<close>

definition int_key :: "error \<Rightarrow> FieldValue \<Rightarrow> int32 res" where
  "int_key e fv = (case fv of FInt k \<Rightarrow> Inr k | FStr _ \<Rightarrow> Inl e)"

definition set_index :: "string \<Rightarrow> BPlusTree \<Rightarrow> ('a engine_state_scheme, unit) io" where
  "set_index name tr = modifyM (\<lambda>s. case tables s name of None \<Rightarrow> s
     | Some ti \<Rightarrow> s\<lparr>tables := (tables s)(name \<mapsto> ti\<lparr>tindex := tr\<rparr>)\<rparr>)"

definition index_put :: "string \<Rightarrow> TableInfo \<Rightarrow> int32 \<Rightarrow> RecordID \<Rightarrow> ('a engine_state_scheme, unit) io" where
  "index_put name ti key rid = bindM (insert_key (tindex ti) key rid) (set_index name)"

definition se_insertRecord :: "string \<Rightarrow> FieldValue list \<Rightarrow> ('a engine_state_scheme, RecordID) io" where
  "se_insertRecord tableName values =
     bindM (table_of tableName) (\<lambda>ti.
     bindM (insertRecord (theap ti) values) (\<lambda>rid.
     bindM (liftM (bindE (field_at values (tpkCol ti)) (int_key (Runtime_Error ''Primary key must be INT'')))) (\<lambda>key.
     bindM (index_put tableName ti key rid) (\<lambda>_. retM rid))))"

definition deleteByKey :: "string \<Rightarrow> int32 \<Rightarrow> ('a engine_state_scheme, bool) io" where
  "deleteByKey tableName key =
     bindM (table_of tableName) (\<lambda>ti.
     bindM (find_key (tindex ti) key) (\<lambda>r. case r of
       None \<Rightarrow> retM False
     | Some rid \<Rightarrow>
         bindM (deleteRecord (theap ti) rid) (\<lambda>ok.
           if ok then bindM (remove_key (tindex ti) key) (\<lambda>_. retM ok) else retM ok)))"

definition updateByKey :: "string \<Rightarrow> int32 \<Rightarrow> FieldValue list \<Rightarrow> ('a engine_state_scheme, bool) io" where
  "updateByKey tableName key values =
     bindM (table_of tableName) (\<lambda>ti.
     bindM (find_key (tindex ti) key) (\<lambda>r. case r of
       None \<Rightarrow> retM False
     | Some rid \<Rightarrow>
         bindM (liftM (field_at values (tpkCol ti))) (\<lambda>pkfv.
           if pkfv \<noteq> FInt key then throwM (Runtime_Error ''Updating primary key is not supported'')
           else updateRecord (theap ti) rid values)))"

definition findByKey :: "string \<Rightarrow> int32 \<Rightarrow> ('a engine_state_scheme, RecordID option) io" where
  "findByKey tableName key = bindM (table_of tableName) (\<lambda>ti. find_key (tindex ti) key)"

definition scanTable :: "string \<Rightarrow> ('a engine_state_scheme, RecordID list) io" where
  "scanTable tableName = bindM (table_of tableName) (\<lambda>ti. tableScan (theap ti))"

definition fetchRecord :: "string \<Rightarrow> RecordID \<Rightarrow> ('a engine_state_scheme, FieldValue list) io" where
  "fetchRecord tableName rid =
     bindM (table_of tableName) (\<lambda>ti. bindM (getRecord (theap ti) rid) (\<lambda>r. retM (getValues r)))"

definition redoInsert :: "string \<Rightarrow> RecordID \<Rightarrow> FieldValue list \<Rightarrow> ('a engine_state_scheme, unit) io" where
  "redoInsert table rid vals =
     bindM (table_at table) (\<lambda>td.
     bindM (insertAt (theap td) rid vals) (\<lambda>_.
     bindM (liftM (bindE (field_at vals (tpkCol td)) (int_key Bad_Variant_Access))) (\<lambda>pk.
       index_put table td pk rid)))"

definition redoDelete :: "string \<Rightarrow> RecordID \<Rightarrow> ('a engine_state_scheme, unit) io" where
  "redoDelete table rid = bindM (table_at table) (\<lambda>td. deleteAt (theap td) rid)"

definition redoUpdate :: "string \<Rightarrow> RecordID \<Rightarrow> FieldValue list \<Rightarrow> ('a engine_state_scheme, unit) io" where
  "redoUpdate table rid vals = bindM (table_at table) (\<lambda>td. updateAt (theap td) rid vals)"

subsection \<open>The contract of a keyed table\<close>

text \<open>
  A row store and a key index on one state, whose operations do not disturb each other: the index maps
  keys to identifiers of the store. \<open>sound s\<close>: every entry of the index leads to a row with its key.
  \<open>keyed s\<close> is the map from keys to rows that the two hold together; \<open>rest\<close> is what none of the
  operations changes.
\<close>

locale keyed_table =
  store: row_store inv room rows accept stored ins del upd get scan +
  index: key_index inv imap good cap full look put rem
  for inv :: "'s \<Rightarrow> bool"
    and room :: "'s \<Rightarrow> bool"
    and rows :: "'s \<Rightarrow> 'r::linorder \<rightharpoonup> 'v"
    and accept :: "'v \<Rightarrow> bool"
    and stored :: "'v \<Rightarrow> 'v"
    and ins :: "'v \<Rightarrow> ('s, 'r) io"
    and del :: "'r \<Rightarrow> ('s, bool) io"
    and upd :: "'r \<Rightarrow> 'v \<Rightarrow> ('s, bool) io"
    and get :: "'r \<Rightarrow> ('s, 'v) io"
    and scan :: "('s, 'r list) io"
    and imap :: "'s \<Rightarrow> 'k \<rightharpoonup> 'r"
    and good :: "'r \<Rightarrow> bool"
    and cap :: nat
    and full :: error
    and look :: "'k \<Rightarrow> ('s, 'r option) io"
    and put :: "'k \<Rightarrow> 'r \<Rightarrow> ('s, unit) io"
    and rem :: "'k \<Rightarrow> ('s, bool) io" +
  fixes key :: "'v \<Rightarrow> 'k"
    and rest :: "'s \<Rightarrow> 'x"
  assumes stored_key: "accept v \<Longrightarrow> key (stored v) = key v"
    and ins_frame: "inv s \<Longrightarrow> accept v \<Longrightarrow> room s \<Longrightarrow> ins v s = (Inr rid, t) \<Longrightarrow>
      imap t = imap s \<and> good rid \<and> rest t = rest s"
    and del_frame: "inv s \<Longrightarrow> del rid s = (r, t) \<Longrightarrow> imap t = imap s \<and> rest t = rest s"
    and upd_frame: "inv s \<Longrightarrow> accept v \<Longrightarrow> upd rid v s = (r, t) \<Longrightarrow> imap t = imap s \<and> rest t = rest s"
    and look_frame: "inv s \<Longrightarrow> look k s = (r', t) \<Longrightarrow> rows t = rows s \<and> rest t = rest s"
    and put_frame: "inv s \<Longrightarrow> good rid \<Longrightarrow> put k rid s = (Inr (), t) \<Longrightarrow> rows t = rows s \<and> rest t = rest s"
    and rem_frame: "inv s \<Longrightarrow> rem k s = (r, t) \<Longrightarrow> rows t = rows s \<and> rest t = rest s"
begin

abbreviation sound :: "'s \<Rightarrow> bool" where
  "sound s \<equiv> \<forall>k rid. imap s k = Some rid \<longrightarrow> (\<exists>v. rows s rid = Some v \<and> key v = k)"

abbreviation keyed :: "'s \<Rightarrow> 'k \<rightharpoonup> 'v" where
  "keyed s \<equiv> (\<lambda>k. Option.bind (imap s k) (rows s))"

lemma insert_correct:
  assumes "inv s" "sound s" "accept v" "room s" "imap s (key v) \<noteq> None \<or> card (dom (imap s)) < cap"
  shows "\<exists>rid t. bindM (ins v) (\<lambda>rid. bindM (put (key v) rid) (\<lambda>_. retM rid)) s = (Inr rid, t) \<and>
    inv t \<and> sound t \<and> keyed t = (keyed s)(key v \<mapsto> stored v) \<and> rest t = rest s \<and>
    rows s rid = None \<and> rows t = (rows s)(rid \<mapsto> stored v) \<and> imap t = (imap s)(key v \<mapsto> rid)"
proof -
  obtain rid t where t: "ins v s = (Inr rid, t)" "rows s rid = None" "inv t" "rows t = (rows s)(rid \<mapsto> stored v)"
    using store.ins_law [OF assms(1,3,4)] by auto
  note f = ins_frame [OF assms(1,3,4) t(1)]
  obtain u where u: "put (key v) rid t = (Inr (), u)" "inv u" "imap u = (imap t)(key v \<mapsto> rid)"
    using index.ins_law [OF t(3), of rid "key v"] f assms(5) by auto
  have g: "rows u = rows t \<and> rest u = rest t" by (rule put_frame [OF t(3) _ u(1)]) (use f in simp)
  have old: "rid' \<noteq> rid" if "imap s k = Some rid'" for k rid' using assms(2) [rule_format, OF that] t(2) by auto
  have "sound u" using assms(2) old stored_key [OF assms(3)] g f t(4) u(3) by auto
  moreover have "keyed u = (keyed s)(key v \<mapsto> stored v)"
  proof
    fix k
    show "keyed u k = ((keyed s)(key v \<mapsto> stored v)) k"
      using g f t(4) u(3) old [of k] by (cases "imap s k") auto
  qed
  ultimately show ?thesis using t u f g by (intro exI [of _ rid] exI [of _ u]) simp
qed

lemma find_correct:
  assumes "inv s"
  shows "\<exists>t. look k s = (Inr (imap s k), t) \<and> inv t \<and> imap t = imap s \<and> rows t = rows s \<and> rest t = rest s"
proof -
  obtain t where t: "look k s = (Inr (imap s k), t)" "inv t" "imap t = imap s"
    using index.get_law [OF assms] by blast
  with look_frame [OF assms t(1)] show ?thesis by blast
qed

lemma delete_correct:
  assumes "inv s" "sound s"
  shows "\<exists>t. bindM (look k) (\<lambda>r. case r of None \<Rightarrow> retM False
      | Some rid \<Rightarrow> bindM (del rid) (\<lambda>ok. if ok then bindM (rem k) (\<lambda>_. retM ok) else retM ok)) s =
      (Inr (keyed s k \<noteq> None), t) \<and>
    inv t \<and> sound t \<and> keyed t = (keyed s)(k := None) \<and> rest t = rest s \<and>
    rows t = (case imap s k of None \<Rightarrow> rows s | Some rid \<Rightarrow> (rows s)(rid := None))"
proof -
  obtain t where t: "look k s = (Inr (imap s k), t)" "inv t" "imap t = imap s" "rows t = rows s" "rest t = rest s"
    using find_correct [OF assms(1)] by blast
  show ?thesis
  proof (cases "imap s k")
    case None
    then have "(keyed s)(k := None) = keyed s" by auto
    with t None assms(2) show ?thesis by (intro exI [of _ t]) simp
  next
    case (Some rid)
    then obtain v where v: "rows s rid = Some v" "key v = k" using assms(2) by blast
    obtain u where u: "del rid t = (Inr (rows t rid \<noteq> None), u)" "inv u" "rows u = (rows t)(rid := None)"
      using store.del_law [OF t(2)] by blast
    have fu: "imap u = imap t \<and> rest u = rest t" by (rule del_frame [OF t(2) u(1)])
    obtain w where w: "rem k u = (Inr (imap u k \<noteq> None), w)" "inv w" "imap w = (imap u)(k := None)"
      using index.del_law [OF u(2)] by blast
    have fw: "rows w = rows u \<and> rest w = rest u" by (rule rem_frame [OF u(2) w(1)])
    have other: "rid' \<noteq> rid" if "imap s k' = Some rid'" "k' \<noteq> k" for k' rid' using assms(2) [rule_format, OF that(1)] v that(2) by auto
    have run: "bindM (look k) (\<lambda>r. case r of None \<Rightarrow> retM False
      | Some rid \<Rightarrow> bindM (del rid) (\<lambda>ok. if ok then bindM (rem k) (\<lambda>_. retM ok) else retM ok)) s =
      (Inr (keyed s k \<noteq> None), w)"
      using t(1,4) u(1) w(1) Some v(1) by (simp add: bindM_def)
    have "sound w" using assms(2) other fu fw t(3,4) u(3) w(3) by (auto simp: fun_upd_def)
    moreover have "keyed w = (keyed s)(k := None)"
    proof
      fix k'
      show "keyed w k' = ((keyed s)(k := None)) k'"
        using fu fw t(3,4) u(3) w(3) other [of k'] by (cases "imap s k'") auto
    qed
    ultimately show ?thesis
      using run w(2) fu fw t u Some by (intro exI [of _ w]) simp
  qed
qed

lemma update_correct:
  assumes "inv s" "sound s" "accept v" "key v = k"
  shows "\<exists>t. bindM (look k) (\<lambda>r. case r of None \<Rightarrow> retM False | Some rid \<Rightarrow> upd rid v) s =
      (Inr (keyed s k \<noteq> None), t) \<and>
    inv t \<and> sound t \<and> rest t = rest s \<and> imap t = imap s \<and>
    keyed t = (if keyed s k = None then keyed s else (keyed s)(k \<mapsto> stored v))"
proof -
  obtain t where t: "look k s = (Inr (imap s k), t)" "inv t" "imap t = imap s" "rows t = rows s" "rest t = rest s"
    using find_correct [OF assms(1)] by blast
  show ?thesis
  proof (cases "imap s k")
    case None
    with t assms(2) show ?thesis by (intro exI [of _ t]) simp
  next
    case (Some rid)
    then obtain w where w: "rows s rid = Some w" "key w = k" using assms(2) by blast
    obtain u where u: "upd rid v t = (Inr (rows t rid \<noteq> None), u)" "inv u"
      "rows u = (if rows t rid = None then rows t else (rows t)(rid \<mapsto> stored v))"
      using store.upd_law [OF t(2) assms(3)] by blast
    have fu: "imap u = imap t \<and> rest u = rest t" by (rule upd_frame [OF t(2) assms(3) u(1)])
    have other: "rid' \<noteq> rid" if "imap s k' = Some rid'" "k' \<noteq> k" for k' rid' using assms(2) [rule_format, OF that(1)] w that(2) by auto
    have ru: "rows u = (rows s)(rid \<mapsto> stored v)" using u(3) t(4) w(1) by simp
    have "bindM (look k) (\<lambda>r. case r of None \<Rightarrow> retM False | Some rid \<Rightarrow> upd rid v) s = (Inr (keyed s k \<noteq> None), u)"
      using t(1,4) u(1) Some w(1) by (simp add: bindM_def)
    moreover have "sound u" using assms(2,4) stored_key [OF assms(3)] Some other fu t(3) ru by auto
    moreover have "keyed u = (keyed s)(k \<mapsto> stored v)"
    proof
      fix k'
      show "keyed u k' = ((keyed s)(k \<mapsto> stored v)) k'"
        using fu t(3) ru Some other [of k'] by (cases "imap s k'") auto
    qed
    ultimately show ?thesis using u(2) fu t(3,5) Some w(1) by (intro exI [of _ u]) simp
  qed
qed

end

subsection \<open>Tables of the engine\<close>

text \<open>
  \<open>table_inv F s ti\<close>: the heap and the index of a table are well formed, in different files, and the key
  column is one of the schema's. \<open>table_key\<close> is the key of a row. \<open>tab_inv\<close> adds the table's entry in
  the engine's map.
\<close>

definition table_inv :: "int set \<Rightarrow> 'a bm_state_scheme \<Rightarrow> TableInfo \<Rightarrow> bool" where
  "table_inv F s ti \<longleftrightarrow> heap_inv F (theap ti) s \<and> tree_inv F (tindex ti) s \<and>
     hfileId (theap ti) \<noteq> tfile (tindex ti) \<and> hschema (theap ti) = tschema ti \<and>
     0 \<le> tpkCol ti \<and> nat (tpkCol ti) < length (scolumns (tschema ti))"

definition tab_inv :: "int set \<Rightarrow> string \<Rightarrow> TableInfo \<Rightarrow> 'a engine_state_scheme \<Rightarrow> bool" where
  "tab_inv F name ti s \<longleftrightarrow> tables s name = Some ti \<and> table_inv F s ti"

definition table_key :: "TableInfo \<Rightarrow> FieldValue list \<Rightarrow> int32" where
  "table_key ti vs = (case vs ! nat (tpkCol ti) of FInt k \<Rightarrow> k | FStr _ \<Rightarrow> 0)"

definition keyed_row :: "TableInfo \<Rightarrow> FieldValue list \<Rightarrow> bool" where
  "keyed_row ti vs \<longleftrightarrow> row_ok (tschema ti) vs \<and> vs ! nat (tpkCol ti) = FInt (table_key ti vs)"

definition table_rest :: "int set \<Rightarrow> TableInfo \<Rightarrow> 'a bm_state_scheme \<Rightarrow> _" where
  "table_rest F ti s = (bm_keep s, \<lambda>g. if g = hfileId (theap ti) \<or> g = tfile (tindex ti) then [] else bm_pages F s g)"

lemma bm_rest_tables: "bm_rest t = bm_rest s \<Longrightarrow> tables t = tables s"
  by (cases s; cases t) (simp add: bm_rest_def bm_state.defs)

lemma heap_keeps_tree:
  assumes "tree_inv F tr s" "heap_change F th s t m" "tfile tr \<noteq> hfileId th"
  shows "tree_inv F tr t" "tree_map F tr t = tree_map F tr s"
  using assms by (auto simp: tree_inv_def tree_map_def tree_leaf_def heap_change_def heap_inv_def)

lemma tree_keeps_heap:
  assumes "heap_inv F th s" "tree_change F tr s t m" "hfileId th \<noteq> tfile tr"
  shows "heap_inv F th t" "heap_rows F th t = heap_rows F th s" "heap_pages F th t = heap_pages F th s"
  using assms by (auto simp: tree_inv_def tree_change_def heap_inv_def heap_rows_def heap_pages_def)

lemma tab_heap:
  assumes "tab_inv F name ti s" "heap_change F (theap ti) s t m"
  shows "tab_inv F name ti t" "tree_map F (tindex ti) t = tree_map F (tindex ti) s" "table_rest F ti t = table_rest F ti s"
    "heap_rows F (theap ti) t = m"
proof -
  have T: "table_inv F s ti" "tables s name = Some ti" using assms(1) by (simp_all add: tab_inv_def)
  have ne: "tfile (tindex ti) \<noteq> hfileId (theap ti)" using T(1) by (auto simp: table_inv_def)
  have k: "bm_keep t = bm_keep s" and h: "heap_inv F (theap ti) t"
    and p: "\<forall>g. g \<noteq> hfileId (theap ti) \<longrightarrow> bm_pages F t g = bm_pages F s g"
    using assms(2) by (simp_all add: heap_change_def)
  have tr: "tree_inv F (tindex ti) s" using T(1) by (simp add: table_inv_def)
  note K = heap_keeps_tree [OF tr assms(2) ne]
  show "tree_map F (tindex ti) t = tree_map F (tindex ti) s" by (rule K)
  show "tab_inv F name ti t"
    using T K h bm_rest_tables [of t s] bm_keepD [OF k] by (simp add: tab_inv_def table_inv_def)
  show "table_rest F ti t = table_rest F ti s" using k p by (auto simp: table_rest_def)
  show "heap_rows F (theap ti) t = m" using assms(2) by (simp add: heap_change_def)
qed

lemma tab_tree:
  assumes "tab_inv F name ti s" "tree_change F (tindex ti) s t m"
  shows "tab_inv F name ti t" "heap_rows F (theap ti) t = heap_rows F (theap ti) s" "table_rest F ti t = table_rest F ti s"
    "tree_map F (tindex ti) t = m" "tables t = tables s" "heap_pages F (theap ti) t = heap_pages F (theap ti) s"
proof -
  have T: "table_inv F s ti" "tables s name = Some ti" using assms(1) by (simp_all add: tab_inv_def)
  have ne: "hfileId (theap ti) \<noteq> tfile (tindex ti)" using T(1) by (auto simp: table_inv_def)
  have k: "bm_keep t = bm_keep s" and tr: "tree_inv F (tindex ti) t"
    and p: "\<forall>g. g \<noteq> tfile (tindex ti) \<longrightarrow> bm_pages F t g = bm_pages F s g"
    using assms(2) by (simp_all add: tree_change_def)
  have h: "heap_inv F (theap ti) s" using T(1) by (simp add: table_inv_def)
  note K = tree_keeps_heap [OF h assms(2) ne]
  show "heap_rows F (theap ti) t = heap_rows F (theap ti) s" "heap_pages F (theap ti) t = heap_pages F (theap ti) s"
    by (rule K)+
  show tabs: "tables t = tables s" using bm_rest_tables [of t s] bm_keepD [OF k] by simp
  show "tab_inv F name ti t" using T K tr tabs by (simp add: tab_inv_def table_inv_def)
  show "table_rest F ti t = table_rest F ti s" using k p by (auto simp: table_rest_def)
  show "tree_map F (tindex ti) t = m" using assms(2) by (simp add: tree_change_def)
qed

lemma index_put_ok:
  assumes inv: "tab_inv F name ti s" and v: "rid_ok v"
    and room: "tree_map F (tindex ti) s key \<noteq> None \<or> card (dom (tree_map F (tindex ti) s)) < 128"
  obtains t where "index_put name ti key v s = (Inr (), t)"
    "tree_change F (tindex ti) s t ((tree_map F (tindex ti) s)(key \<mapsto> v))"
proof -
  have tr: "tree_inv F (tindex ti) s" using inv by (simp add: tab_inv_def table_inv_def)
  obtain t where t: "insert_key (tindex ti) key v s = (Inr (tindex ti), t)"
    "tree_change F (tindex ti) s t ((tree_map F (tindex ti) s)(key \<mapsto> v))"
    using tr v room by (rule insert_ok_key)
  have "tables t name = Some ti" using tab_tree(5) [OF inv t(2)] inv by (simp add: tab_inv_def)
  moreover from this have "(tables t)(name \<mapsto> ti) = tables t" by auto
  ultimately have "set_index name (tindex ti) t = (Inr (), t)" by (simp add: set_index_def)
  with t show thesis by (intro that [of t]) (simp_all add: index_put_def)
qed

lemma tab_inv_rows:
  assumes "tab_inv F name ti s"
  shows "heap_inv F (theap ti) s" "tree_inv F (tindex ti) s" "hschema (theap ti) = tschema ti"
  using assms by (simp_all add: tab_inv_def table_inv_def)

lemma stored_pk: "keyed_row ti vs \<Longrightarrow> nat (tpkCol ti) < length (scolumns (tschema ti)) \<Longrightarrow>
    map stored_value vs ! nat (tpkCol ti) = FInt (table_key ti vs)"
  by (auto simp: keyed_row_def row_ok_def list_all2_lengthD)

interpretation tab: keyed_table "tab_inv F name ti" "\<lambda>s. int (heap_pages F (theap ti) s) + 1 < 2 ^ 31"
    "heap_rows F (theap ti)" "\<lambda>vs. keyed_row ti vs \<and> nat (tpkCol ti) < length (scolumns (tschema ti))" "map stored_value"
    "insertRecord (theap ti)" "deleteRecord (theap ti)" "updateRecord (theap ti)" "getRow (theap ti)" "tableScan (theap ti)"
    "tree_map F (tindex ti)" rid_ok 128 outside_array "find_key (tindex ti)" "index_put name ti" "remove_key (tindex ti)"
    "table_key ti" "table_rest F ti" for F name ti
proof (unfold_locales, goal_cases)
  case (1 s v)
  note I = tab_inv_rows [OF 1(1)]
  have "row_ok (hschema (theap ti)) v" using 1(2) I(3) by (simp add: keyed_row_def)
  then obtain rid t where "insertRecord (theap ti) v s = (Inr rid, t)" "heap_rows F (theap ti) s rid = None"
    "heap_change F (theap ti) s t ((heap_rows F (theap ti) s)(rid \<mapsto> map stored_value v))"
    using insert_ok [OF I(1) _ 1(3)] by metis
  with tab_heap [OF 1(1)] show ?case by blast
next
  case (2 s rid)
  note I = tab_inv_rows [OF 2]
  from I(1) obtain t where "deleteRecord (theap ti) rid s = (Inr (heap_rows F (theap ti) s rid \<noteq> None), t)"
    "heap_change F (theap ti) s t ((heap_rows F (theap ti) s)(rid := None))" by (rule delete_ok)
  with tab_heap [OF 2] show ?case by blast
next
  case (3 s v rid)
  note I = tab_inv_rows [OF 3(1)]
  have "row_ok (hschema (theap ti)) v" using 3(2) I(3) by (simp add: keyed_row_def)
  with I(1) obtain t where "updateRecord (theap ti) rid v s = (Inr (heap_rows F (theap ti) s rid \<noteq> None), t)"
    "heap_change F (theap ti) s t (if heap_rows F (theap ti) s rid = None then heap_rows F (theap ti) s
       else (heap_rows F (theap ti) s)(rid \<mapsto> map stored_value v))" by (rule update_ok)
  with tab_heap [OF 3(1)] show ?case by blast
next
  case (4 s rid v)
  note I = tab_inv_rows [OF 4(1)]
  from I(1) 4(2) obtain t where "getRow (theap ti) rid s = (Inr v, t)"
    "heap_change F (theap ti) s t (heap_rows F (theap ti) s)" by (rule getRow_ok)
  with tab_heap [OF 4(1)] show ?case by blast
next
  case (5 s)
  note I = tab_inv_rows [OF 5]
  from I(1) obtain rids t where "tableScan (theap ti) s = (Inr rids, t)" "heap_change F (theap ti) s t (heap_rows F (theap ti) s)"
    "sorted_wrt (<) rids" "set rids = dom (heap_rows F (theap ti) s)" by (rule scan_ok)
  with tab_heap [OF 5] show ?case by blast
next
  case (6 s k)
  note I = tab_inv_rows [OF 6]
  from I(2) obtain t where "find_key (tindex ti) k s = (Inr (tree_map F (tindex ti) s k), t)"
    "tree_change F (tindex ti) s t (tree_map F (tindex ti) s)" by (rule find_ok)
  with tab_tree [OF 6] show ?case by blast
next
  case (7 s v k)
  then obtain t where "index_put name ti k v s = (Inr (), t)"
    "tree_change F (tindex ti) s t ((tree_map F (tindex ti) s)(k \<mapsto> v))" by (rule index_put_ok)
  with tab_tree [OF 7(1)] show ?case by blast
next
  case (8 s k v)
  note I = tab_inv_rows [OF 8(1)]
  have "card (dom (tree_map F (tindex ti) s)) = 128" using 8(3) tree_card [OF I(2)] by simp
  with I(2) 8(2) obtain t where "insert_key (tindex ti) k v s = (Inl outside_array, t)" by (rule full_leaf)
  then show ?case by (simp add: index_put_def)
next
  case (9 s k)
  note I = tab_inv_rows [OF 9]
  from I(2) obtain t where "remove_key (tindex ti) k s = (Inr (tree_map F (tindex ti) s k \<noteq> None), t)"
    "tree_change F (tindex ti) s t ((tree_map F (tindex ti) s)(k := None))" by (rule remove_ok)
  with tab_tree [OF 9] show ?case by blast
next
  case (10 v)
  then show ?case using stored_pk [of ti v] by (simp add: table_key_def)
next
  case (11 s v rid t)
  note I = tab_inv_rows [OF 11(1)]
  have "row_ok (hschema (theap ti)) v" using 11(2) I(3) by (simp add: keyed_row_def)
  then have c: "heap_change F (theap ti) s t ((heap_rows F (theap ti) s)(rid \<mapsto> map stored_value v))"
    using insert_ok [OF I(1) _ 11(3)] 11(4) by (metis Pair_inject sum.inject(2))
  from tab_heap [OF 11(1) c] heap_rid_ok [of F "theap ti" t rid] show ?case
    using tab_inv_rows(1) by fastforce
next
  case (12 s rid r t)
  note I = tab_inv_rows [OF 12(1)]
  from I(1) obtain u where "deleteRecord (theap ti) rid s = (Inr (heap_rows F (theap ti) s rid \<noteq> None), u)"
    "heap_change F (theap ti) s u ((heap_rows F (theap ti) s)(rid := None))" by (rule delete_ok)
  with tab_heap [OF 12(1)] 12(2) show ?case by auto
next
  case (13 s v rid r t)
  note I = tab_inv_rows [OF 13(1)]
  have "row_ok (hschema (theap ti)) v" using 13(2) I(3) by (simp add: keyed_row_def)
  with I(1) obtain u where "updateRecord (theap ti) rid v s = (Inr (heap_rows F (theap ti) s rid \<noteq> None), u)"
    "heap_change F (theap ti) s u (if heap_rows F (theap ti) s rid = None then heap_rows F (theap ti) s
       else (heap_rows F (theap ti) s)(rid \<mapsto> map stored_value v))" by (rule update_ok)
  with tab_heap [OF 13(1)] 13(3) show ?case by (metis Pair_inject)
next
  case (14 s k r t)
  note I = tab_inv_rows [OF 14(1)]
  from I(2) obtain u where "find_key (tindex ti) k s = (Inr (tree_map F (tindex ti) s k), u)"
    "tree_change F (tindex ti) s u (tree_map F (tindex ti) s)" by (rule find_ok)
  with tab_tree [OF 14(1)] 14(2) show ?case by auto
next
  case (15 s rid k t)
  note I = tab_inv_rows [OF 15(1)]
  show ?case
  proof (cases "tree_map F (tindex ti) s k \<noteq> None \<or> card (dom (tree_map F (tindex ti) s)) < 128")
    case True
    obtain u where "index_put name ti k rid s = (Inr (), u)"
      "tree_change F (tindex ti) s u ((tree_map F (tindex ti) s)(k \<mapsto> rid))"
      using 15(1,2) True by (rule index_put_ok)
    with tab_tree [OF 15(1)] 15(3) show ?thesis by auto
  next
    case False
    then have "tree_map F (tindex ti) s k = None" "card (dom (tree_map F (tindex ti) s)) = 128"
      using tree_card [OF I(2)] by auto
    with I(2) obtain u where "insert_key (tindex ti) k rid s = (Inl outside_array, u)" by (rule full_leaf)
    with 15(3) show ?thesis by (simp add: index_put_def)
  qed
next
  case (16 s k r t)
  note I = tab_inv_rows [OF 16(1)]
  from I(2) obtain u where "remove_key (tindex ti) k s = (Inr (tree_map F (tindex ti) s k \<noteq> None), u)"
    "tree_change F (tindex ti) s u ((tree_map F (tindex ti) s)(k := None))" by (rule remove_ok)
  with tab_tree [OF 16(1)] 16(2) show ?case by auto
qed

end
