(* ===== verification/EngineTables.thy ===== *)
theory EngineTables
  imports StorageEngine
begin

section \<open>Tables of the engine: registration and keyed access\<close>

text \<open>
  What the storage engine's operations promise, on top of the heap and the index: a table registered on
  new files is empty, and a registered table is a map from primary keys to rows, with an operation on
  one table leaving the others as they were.
\<close>

subsection \<open>Registering a table\<close>

text \<open>The engine opens both files once for nothing: the handle is not used again.\<close>

lemma openFile_unused:
  assumes idle: "bm_idle F s" and new: "files s (nextFileId s) = None" "\<not> denied s path"
  obtains u where "openFile path s = (Inr (nextFileId s), u)" "bm_idle F u" "bm_pages F u = bm_pages F s"
    "bm_state.more u = bm_state.more s" "poolSize u = poolSize s" "pins u = pins s"
    "nextFileId u = nextFileId s + 1" "denied u = denied s"
    "files u = (files s)(nextFileId s \<mapsto> \<lparr>fpath = path, freeList = [], failbit = False\<rparr>)"
    "\<forall>q. contents u q = contents s q"
proof -
  let ?fid = "nextFileId s"
  define u where "u = s\<lparr>nextFileId := ?fid + 1, disk := (disk s)(path \<mapsto> contents s path),
    files := (files s)(?fid \<mapsto> \<lparr>fpath = path, freeList = [], failbit = False\<rparr>)\<rparr>"
  have run: "openFile path s = (Inr ?fid, u)"
    using new by (simp add: openFile_def Let_def u_def contents_def)
  have inv: "bm_inv F s" using idle by (simp add: bm_idle_def)
  have P: "pool_ok s" and FO: "files_ok F s" and C: "cached_ok F s" using inv by (rule bm_invD)+
  have gF: "h \<noteq> ?fid" if "h \<in> F" for h using FO new(1) that by (auto simp: files_ok_def file_ok_def)
  have c: "contents u = contents s" by (auto simp: fun_eq_iff contents_def u_def)
  have fp: "file_path u g = (if g = ?fid then path else file_path s g)" for g
    by (simp add: file_path_def u_def)
  have g: "fcount u g = fcount s g" "fpage u g = fpage s g" "file_ok u g = file_ok s g"
    "freeList (the (files u g)) = freeList (the (files s g))" if "g \<noteq> ?fid" for g
    using that by (simp_all add: fun_eq_iff fcount_def fpage_def file_ok_def c fp) (simp_all add: u_def)
  have fr: "frames u = frames s" "pageTable u = pageTable s" "poolSize u = poolSize s"
    by (simp_all add: u_def)
  have "files_ok F u" using FO gF g(3,4) by (auto simp: files_ok_def inj_on_def fp)
  moreover have "cached_ok F u" using C g(1,2) gF unfolding cached_ok_def fr by metis
  moreover have "pool_ok u" using P by (simp add: pool_ok_def fr)
  moreover have pu: "pins u = pins s" by (simp add: fun_eq_iff pins_def fr split: option.split)
  ultimately have "bm_idle F u" using idle by (simp add: bm_idle_def pinned_pages_def bm_inv_def fr)
  moreover have "view u h = view s h" if "h \<noteq> ?fid" for h
    using g(2) [OF that] by (simp add: fun_eq_iff view_def fr split: option.split)
  then have "bm_pages F u = bm_pages F s"
    using g(1) gF by (auto simp: fun_eq_iff bm_pages_def)
  ultimately show thesis using run pu by (intro that [of u]) (simp_all add: fr c, simp_all add: u_def)
qed

text \<open>A file without pages can be left out of the files in use.\<close>

lemma leave_file:
  assumes idle: "bm_idle F s" and none: "bm_pages F s f = []"
  shows "bm_idle (F - {f}) s" "bm_pages (F - {f}) s = bm_pages F s"
proof -
  have inv: "bm_inv F s" using idle by (simp add: bm_idle_def)
  have P: "pool_ok s" and FO: "files_ok F s" and C: "cached_ok F s" using inv by (rule bm_invD)+
  have c0: "fcount s f = 0" if "f \<in> F" using none that by (simp add: bm_pages_def)
  have "cached_ok (F - {f}) s"
    unfolding cached_ok_def
  proof (intro allI impI)
    fix i assume i: "i < poolSize s" "isValid (frames s ! i)"
    with C have a: "fst (pid (frames s ! i)) \<in> F \<and> 0 \<le> snd (pid (frames s ! i)) \<and>
     nat (snd (pid (frames s ! i))) < fcount s (fst (pid (frames s ! i))) \<and>
     (\<not> isDirty (frames s ! i) \<longrightarrow>
        fdata (frames s ! i) = fpage s (fst (pid (frames s ! i))) (nat (snd (pid (frames s ! i)))))"
      by (simp add: cached_ok_def)
    with c0 have "fst (pid (frames s ! i)) \<noteq> f" by auto
    with a show "fst (pid (frames s ! i)) \<in> F - {f} \<and> 0 \<le> snd (pid (frames s ! i)) \<and>
     nat (snd (pid (frames s ! i))) < fcount s (fst (pid (frames s ! i))) \<and>
     (\<not> isDirty (frames s ! i) \<longrightarrow>
        fdata (frames s ! i) = fpage s (fst (pid (frames s ! i))) (nat (snd (pid (frames s ! i)))))" by simp
  qed
  moreover have "files_ok (F - {f}) s" using FO by (auto simp: files_ok_def inj_on_def)
  ultimately show "bm_idle (F - {f}) s" using idle P by (simp add: bm_idle_def bm_inv_def)
  show "bm_pages (F - {f}) s = bm_pages F s"
    using c0 by (auto simp: fun_eq_iff bm_pages_def)
qed

lemma pk_position_range: "pk_position name cs i = - 1 \<or> i \<le> pk_position name cs i \<and> pk_position name cs i < i + int (length cs)"
proof (induction cs arbitrary: i)
  case (Cons c cs)
  show ?case using Cons.IH [of "i + 1"] by auto
qed simp
text \<open>The fields beyond the pool's do not matter to the pool.\<close>

lemma same_pool:
  fixes s :: "'a bm_state_scheme" and t :: "'b bm_state_scheme"
  assumes "frames t = frames s" "pageTable t = pageTable s" "poolSize t = poolSize s" "disk t = disk s" "files t = files s"
  shows "bm_pages F t = bm_pages F s" "bm_idle F t = bm_idle F s" "pins t = pins s" "pinned_pages t = pinned_pages s"
proof -
  have c: "contents t = contents s" by (simp add: fun_eq_iff contents_def assms)
  have f: "file_path t = file_path s" by (simp add: fun_eq_iff file_path_def assms)
  have p: "fcount t = fcount s" "fpage t = fpage s" by (simp_all add: fun_eq_iff fcount_def fpage_def c f)
  show "bm_pages F t = bm_pages F s"
    by (simp add: fun_eq_iff bm_pages_def view_def p assms split: option.split)
  show "pins t = pins s" by (simp add: fun_eq_iff pins_def assms split: option.split)
  then show pp: "pinned_pages t = pinned_pages s" by (simp add: pinned_pages_def)
  have "bm_inv F t = bm_inv F s"
    by (simp add: bm_inv_def pool_ok_def files_ok_def cached_ok_def file_ok_def p c f assms)
  then show "bm_idle F t = bm_idle F s" by (simp add: bm_idle_def pp assms)
qed

lemma tables_upd [simp]:
  fixes s :: "'a engine_state_scheme"
  shows "bm_pages F (s\<lparr>tables := T\<rparr>) = bm_pages F s" "bm_idle F (s\<lparr>tables := T\<rparr>) = bm_idle F s"
    "pins (s\<lparr>tables := T\<rparr>) = pins s" "pinned_pages (s\<lparr>tables := T\<rparr>) = pinned_pages s"
    "heap_inv F th (s\<lparr>tables := T\<rparr>) = heap_inv F th s" "heap_rows F th (s\<lparr>tables := T\<rparr>) = heap_rows F th s"
    "heap_pages F th (s\<lparr>tables := T\<rparr>) = heap_pages F th s" "tree_inv F tr (s\<lparr>tables := T\<rparr>) = tree_inv F tr s"
    "tree_map F tr (s\<lparr>tables := T\<rparr>) = tree_map F tr s"
  by (simp_all add: same_pool [of "s\<lparr>tables := T\<rparr>" s] heap_inv_def heap_rows_def heap_pages_def tree_inv_def
      tree_map_def tree_leaf_def)

lemma new_file_pages:
  assumes "bm_idle F s" "f \<in> F" "bm_pages F s f = []" "files s f = Some \<lparr>fpath = path, freeList = [], failbit = False\<rparr>"
  shows "contents s path = []"
proof -
  have "file_ok s f" using assms(1,2) by (auto simp: bm_idle_def files_ok_def dest: bm_invD)
  then obtain e where "files s f = Some e" "length (contents s (fpath e)) = fcount s f * PAGE_SIZE"
    by (rule file_okE)
  with assms(2-4) show ?thesis by (simp add: bm_pages_def)
qed

text \<open>The handles that a registration opens: the table uses the last two of them.\<close>

definition opened :: "int \<Rightarrow> string \<Rightarrow> string \<Rightarrow> (int \<rightharpoonup> FileEntry) \<Rightarrow> (int \<rightharpoonup> FileEntry)" where
  "opened n df xf D = D(n \<mapsto> \<lparr>fpath = df, freeList = [], failbit = False\<rparr>, n + 1 \<mapsto> \<lparr>fpath = xf, freeList = [], failbit = False\<rparr>,
     n + 2 \<mapsto> \<lparr>fpath = df, freeList = [], failbit = False\<rparr>, n + 3 \<mapsto> \<lparr>fpath = xf, freeList = [], failbit = False\<rparr>)"

lemma one_more_pin:
  assumes "bm_idle F s" "pins v = (pins s)(k := x)"
  shows "pinned_pages v \<le> pinned_pages s + 1"
proof -
  let ?P = "{k. pins s k \<noteq> 0}"
  have "finite ?P" by (rule pinned_finite) (use assms(1) in \<open>auto simp: bm_idle_def dest: bm_invD\<close>)
  then have "card {k. pins v k \<noteq> 0} \<le> card (insert k ?P)" by (intro card_mono) (auto simp: assms(2))
  also have "\<dots> \<le> card ?P + 1" using \<open>finite ?P\<close> by (simp add: card_insert_if)
  finally show ?thesis by (simp only: pinned_pages_def)
qed

lemma registerTable_handles:
  assumes idle: "bm_idle F s" and fresh: "\<forall>k \<ge> nextFileId s. files s k = None"
    and paths: "\<not> denied s df" "\<not> denied s xf" "contents s df = []" "contents s xf = []" "df \<noteq> xf"
      "df \<notin> file_path s ` F" "xf \<notin> file_path s ` F"
    and sch: "schema_ok schema" "getRecordSize schema + 5 \<le> PAGE_SIZE"
    and pk: "pk_position pk (scolumns schema) 0 = int k" and room: "pinned_pages s + 1 < poolSize s"
    and name: "tables s name = None"
  obtains ti t where "registerTable name schema df xf pk s = (Inr (), t)"
    "tables t = (tables s)(name \<mapsto> ti)" "tschema ti = schema" "tpkCol ti = int k"
    "hfileId (theap ti) = nextFileId s + 2" "tfile (tindex ti) = nextFileId s + 3"
    "table_inv ({nextFileId s + 2, nextFileId s + 3} \<union> F) t ti"
    "heap_rows ({nextFileId s + 2, nextFileId s + 3} \<union> F) (theap ti) t = Map.empty"
    "tree_map ({nextFileId s + 2, nextFileId s + 3} \<union> F) (tindex ti) t = Map.empty"
    "heap_pages ({nextFileId s + 2, nextFileId s + 3} \<union> F) (theap ti) t = 1"
    "\<forall>g \<in> F. bm_pages ({nextFileId s + 2, nextFileId s + 3} \<union> F) t g = bm_pages F s g"
    "pinned_pages t \<le> pinned_pages s + 1" "poolSize t = poolSize s"
    "files t = opened (nextFileId s) df xf (files s)" "denied t = denied s"
proof -
  define n where "n = nextFileId s"
  have nF: "g \<notin> F" if "n \<le> g" for g
    using idle fresh that by (auto simp: n_def bm_idle_def bm_inv_def files_ok_def file_ok_def)
  let ?e = "\<lambda>p. \<lparr>fpath = p, freeList = [], failbit = False\<rparr>"
  obtain a where a: "openFile df s = (Inr n, a)" "bm_idle F a" "bm_pages F a = bm_pages F s"
    "bm_state.more a = bm_state.more s" "poolSize a = poolSize s" "pins a = pins s"
    "nextFileId a = n + 1" "denied a = denied s" "files a = (files s)(n \<mapsto> ?e df)" "\<forall>q. contents a q = contents s q"
    using openFile_unused [OF idle, of df] fresh paths(1) unfolding n_def by blast
  have pa: "file_path a g = file_path s g" if "g \<in> F" for g using nF [of n] that by (auto simp: file_path_def a(9))
  have F1: "files a (nextFileId a) = None" "\<not> denied a xf" "contents a xf = []" "xf \<notin> file_path a ` F"
    using fresh paths pa by (auto simp: a(7-10) n_def image_iff)
  let ?F1 = "insert (n + 1) F"
  obtain b where b: "openFile xf a = (Inr (n + 1), b)" "bm_idle ?F1 b" "bm_pages ?F1 b = (bm_pages F a)(n + 1 := [])"
    "bm_state.more b = bm_state.more a" "poolSize b = poolSize a" "pins b = pins a"
    "nextFileId b = n + 1 + 1" "denied b = denied a" "files b = (files a)(n + 1 \<mapsto> ?e xf)" "\<forall>q. contents b q = contents a q"
    using openFile_new [OF a(2) F1] unfolding a(7) by blast
  have pb: "file_path b g = file_path s g" if "g \<in> F" for g
    using nF [of "n + 1"] pa [OF that] that by (auto simp: file_path_def b(9))
  have F2: "files b (nextFileId b) = None" "\<not> denied b df" "contents b df = []" "df \<notin> file_path b ` ?F1"
  proof -
    show "files b (nextFileId b) = None" "\<not> denied b df" "contents b df = []" using fresh paths by (simp_all add: a b n_def)
    have "file_path b (n + 1) = xf" by (simp add: file_path_def b(9))
    then show "df \<notin> file_path b ` ?F1" using paths(5,6) pb by auto
  qed
  let ?F2 = "insert (n + 1 + 1) ?F1"
  obtain th c where c: "new_TableHeap df schema b = (Inr th, c)" "hfileId th = n + 1 + 1" "hschema th = schema" "heap_inv ?F2 th c"
    "heap_rows ?F2 th c = Map.empty" "heap_pages ?F2 th c = 1"
    "\<forall>g. g \<noteq> n + 1 + 1 \<longrightarrow> bm_pages ?F2 c g = bm_pages ?F1 b g"
    "bm_state.more c = bm_state.more b" "poolSize c = poolSize b" "pins c = pins b" "nextFileId c = n + 1 + 1 + 1"
    "denied c = denied b" "files c = (files b)(n + 1 + 1 \<mapsto> ?e df)"
    using new_TableHeap_ok [OF b(2) F2 sch] unfolding b(7) by blast
  have c0: "bm_pages ?F2 c (n + 1) = []" using c(7) b(3) by simp
  have ci: "bm_idle ?F2 c" using c(4) by (simp add: heap_inv_def)
  let ?F3 = "insert (n + 2) F"
  have f3: "?F2 - {n + 1} = ?F3" using nF [of "n + 1"] by auto
  note d = leave_file [OF ci c0, unfolded f3]
  have cx: "contents c xf = []"
    by (rule new_file_pages [OF ci _ c0]) (simp_all add: c(13) b(9))
  have pc: "file_path c g = file_path s g" if "g \<in> F" for g
    using nF [of "n + 1 + 1"] pb [OF that] that by (auto simp: file_path_def c(13))
  have "xf \<notin> file_path c ` ?F3"
  proof -
    have "file_path c (n + 2) = df" by (simp add: file_path_def c(13))
    then show ?thesis using paths(5,7) pc by auto
  qed
  then have F3: "files c (nextFileId c) = None" "\<not> denied c xf" "contents c xf = []" "xf \<notin> file_path c ` ?F3"
    using fresh paths cx by (auto simp: a b c n_def)
  let ?F4 = "insert (n + 1 + 1 + 1) ?F3"
  obtain u where u: "openFile xf c = (Inr (n + 1 + 1 + 1), u)" "bm_idle ?F4 u" "bm_pages ?F4 u = (bm_pages ?F3 c)(n + 1 + 1 + 1 := [])"
    "bm_state.more u = bm_state.more c" "poolSize u = poolSize c" "pins u = pins c"
    "nextFileId u = n + 1 + 1 + 1 + 1" "denied u = denied c" "files u = (files c)(n + 1 + 1 + 1 \<mapsto> ?e xf)" "\<forall>q. contents u q = contents c q"
    using openFile_new [OF d(1) F3] unfolding c(11) by blast
  have u0: "bm_pages ?F4 u (n + 1 + 1 + 1) = []" using u(3) by simp
  have ps: "pins u = pins s" "poolSize u = poolSize s" by (simp_all add: a b c u)
  then have roomu: "pinned_pages u + 1 < poolSize u" using room by (simp add: pinned_pages_def)
  let ?tr = "\<lparr>tfile = n + 1 + 1 + 1, troot = 1\<rparr>"
  obtain v where v: "new_BPlusTree (n + 1 + 1 + 1) u = (Inr ?tr, v)" "tree_inv ?F4 ?tr v"
    "tree_map ?F4 ?tr v = Map.empty" "bm_rest v = bm_rest u"
    "pins v = (pins u)((n + 1 + 1 + 1, 0) := pins u (n + 1 + 1 + 1, 0) + 1)" "\<forall>g. g \<noteq> n + 1 + 1 + 1 \<longrightarrow> bm_pages ?F4 v g = bm_pages ?F4 u g"
    using u(2) insertI1 u0 roomu by (rule new_tree_ok)
  have q2: "bm_pages ?F4 v (n + 2) = bm_pages ?F2 c (n + 2)" using v(6) u(3) d(2) by simp
  have heap: "heap_inv ?F4 th v" "heap_rows ?F4 th v = Map.empty" "heap_pages ?F4 th v = 1"
    using c(2,4-6) v(2) q2 by (simp_all add: heap_inv_def heap_rows_def heap_pages_def tree_inv_def add.commute)
  define ti where "ti = \<lparr>tschema = schema, theap = th, tindex = ?tr, tpkCol = int k\<rparr>"
  define t where "t = v\<lparr>tables := (tables s)(name \<mapsto> ti)\<rparr>"
  have tabs: "tables v = tables s"
    using bm_rest_tables [OF v(4)] u(4) c(8) b(4) a(4) by (cases a; cases b; cases c; cases u; cases s) (simp add: bm_state.defs)
  have k: "nat (int k) < length (scolumns schema)"
    using pk_position_range [of pk "scolumns schema" 0] pk by auto
  have run: "registerTable name schema df xf pk s = (Inr (), t)"
    using name a(1) b(1) c(1) u(1) v(1) pk tabs by (simp add: registerTable_def Let_def t_def ti_def)
  have pinned: "pinned_pages v \<le> pinned_pages s + 1" by (rule one_more_pin [OF idle v(5) [unfolded ps(1)]])
  have F: "{nextFileId s + 2, nextFileId s + 3} \<union> F = ?F4" by (auto simp: n_def)
  have ext: "bm_pages ?F4 t g = bm_pages F s g" if "g \<in> F" for g
  proof -
    have "g < n" using nF [of g] that by linarith
    then show ?thesis using v(6) u(3) d(2) c(7) b(3) a(3) by (simp add: t_def)
  qed
  have fl: "files t = opened (nextFileId s) df xf (files s)" "denied t = denied s"
    using v(4) a(8,9) b(8,9) c(12,13) u(8,9) by (simp_all add: t_def bm_rest_def opened_def n_def add.assoc)
  show thesis
    by (rule that [OF run, of ti, unfolded F])
      (use heap v(2,3,4) k pinned ps(2) ext c(2,3) u(5) fl in
        \<open>auto simp: t_def ti_def table_inv_def n_def bm_rest_def\<close>)
qed

lemma registerTable_new:
  assumes idle: "bm_idle F s" and fresh: "\<forall>k \<ge> nextFileId s. files s k = None"
    and paths: "\<not> denied s df" "\<not> denied s xf" "contents s df = []" "contents s xf = []" "df \<noteq> xf"
      "df \<notin> file_path s ` F" "xf \<notin> file_path s ` F"
    and sch: "schema_ok schema" "getRecordSize schema + 5 \<le> PAGE_SIZE"
    and pk: "pk_position pk (scolumns schema) 0 = int k" and room: "pinned_pages s + 1 < poolSize s"
    and name: "tables s name = None"
  obtains ti t where "registerTable name schema df xf pk s = (Inr (), t)"
    "tables t = (tables s)(name \<mapsto> ti)" "tschema ti = schema" "tpkCol ti = int k"
    "hfileId (theap ti) = nextFileId s + 2" "tfile (tindex ti) = nextFileId s + 3"
    "table_inv ({nextFileId s + 2, nextFileId s + 3} \<union> F) t ti"
    "heap_rows ({nextFileId s + 2, nextFileId s + 3} \<union> F) (theap ti) t = Map.empty"
    "tree_map ({nextFileId s + 2, nextFileId s + 3} \<union> F) (tindex ti) t = Map.empty"
    "heap_pages ({nextFileId s + 2, nextFileId s + 3} \<union> F) (theap ti) t = 1"
    "\<forall>g \<in> F. bm_pages ({nextFileId s + 2, nextFileId s + 3} \<union> F) t g = bm_pages F s g"
    "pinned_pages t \<le> pinned_pages s + 1" "poolSize t = poolSize s"
  by (rule registerTable_handles [OF assms]) (rule that)

subsection \<open>A registered table as a map\<close>

text \<open>
  \<open>keyed_sound\<close>: every entry of a table's index leads to a row with its key. \<open>keyed_map\<close> is the map from
  primary keys to rows that heap and index hold together.
\<close>

definition keyed_sound :: "int set \<Rightarrow> TableInfo \<Rightarrow> 'a bm_state_scheme \<Rightarrow> bool" where
  "keyed_sound F ti s \<longleftrightarrow> (\<forall>k rid. tree_map F (tindex ti) s k = Some rid \<longrightarrow>
     (\<exists>v. heap_rows F (theap ti) s rid = Some v \<and> table_key ti v = k))"

definition keyed_map :: "int set \<Rightarrow> TableInfo \<Rightarrow> 'a bm_state_scheme \<Rightarrow> int32 \<rightharpoonup> FieldValue list" where
  "keyed_map F ti s = (\<lambda>k. Option.bind (tree_map F (tindex ti) s k) (heap_rows F (theap ti) s))"

datatype table_op = T_Insert "FieldValue list" | T_Find int32 | T_Delete int32 | T_Update int32 "FieldValue list"

datatype table_result = T_Done | T_Row "FieldValue list option" | T_Flag bool

fun run_table :: "string \<Rightarrow> table_op \<Rightarrow> ('a engine_state_scheme, table_result) io" where
  "run_table name (T_Insert vs) = bindM (se_insertRecord name vs) (\<lambda>_. retM T_Done)"
| "run_table name (T_Find k) = bindM (findByKey name k) (\<lambda>r. case r of None \<Rightarrow> retM (T_Row None)
     | Some rid \<Rightarrow> bindM (fetchRecord name rid) (\<lambda>vs. retM (T_Row (Some vs))))"
| "run_table name (T_Delete k) = bindM (deleteByKey name k) (\<lambda>b. retM (T_Flag b))"
| "run_table name (T_Update k vs) = bindM (updateByKey name k vs) (\<lambda>b. retM (T_Flag b))"

text \<open>The same operations on a map.\<close>

fun spec_table :: "TableInfo \<Rightarrow> table_op \<Rightarrow> (int32 \<rightharpoonup> FieldValue list) \<Rightarrow> table_result res \<times> (int32 \<rightharpoonup> FieldValue list)" where
  "spec_table ti (T_Insert vs) m = (Inr T_Done, m(table_key ti vs \<mapsto> map stored_value vs))"
| "spec_table ti (T_Find k) m = (Inr (T_Row (m k)), m)"
| "spec_table ti (T_Delete k) m = (Inr (T_Flag (m k \<noteq> None)), m(k := None))"
| "spec_table ti (T_Update k vs) m =
     (if m k = None then (Inr (T_Flag False), m)
      else if table_key ti vs \<noteq> k then (Inl (Runtime_Error ''Updating primary key is not supported''), m)
      else (Inr (T_Flag True), m(k \<mapsto> map stored_value vs)))"

text \<open>Rows must fit the schema and have an integer key; an insertion needs room in the index and the file.\<close>

fun table_op_ok :: "int set \<Rightarrow> TableInfo \<Rightarrow> 'a bm_state_scheme \<Rightarrow> table_op \<Rightarrow> bool" where
  "table_op_ok F ti s (T_Insert vs) \<longleftrightarrow> keyed_row ti vs \<and> int (heap_pages F (theap ti) s) + 1 < 2 ^ 31 \<and>
     (tree_map F (tindex ti) s (table_key ti vs) \<noteq> None \<or> card (dom (tree_map F (tindex ti) s)) < 128)"
| "table_op_ok F ti s (T_Update k vs) \<longleftrightarrow> keyed_row ti vs"
| "table_op_ok F ti s _ \<longleftrightarrow> True"

lemma key_field:
  assumes "tab_inv F name ti s" "keyed_row ti vs"
  shows "field_at vs (tpkCol ti) = Inr (FInt (table_key ti vs))" "nat (tpkCol ti) < length (scolumns (tschema ti))"
  using assms by (auto simp: field_at_def keyed_row_def row_ok_def tab_inv_def table_inv_def dest: list_all2_lengthD)

lemma table_of_ok: "tables s name = Some ti \<Longrightarrow> table_of name s = (Inr ti, s)"
  by (simp add: table_of_def)

text \<open>The operations, on a registered table, as the composition that the contract describes.\<close>

lemma engine_ops:
  assumes "tab_inv F name ti s"
  shows "keyed_row ti vs \<Longrightarrow> se_insertRecord name vs s =
      bindM (insertRecord (theap ti) vs) (\<lambda>rid. bindM (index_put name ti (table_key ti vs) rid) (\<lambda>_. retM rid)) s"
    and "deleteByKey name k s = bindM (find_key (tindex ti) k) (\<lambda>r. case r of None \<Rightarrow> retM False
      | Some rid \<Rightarrow> bindM (deleteRecord (theap ti) rid) (\<lambda>ok.
          if ok then bindM (remove_key (tindex ti) k) (\<lambda>_. retM ok) else retM ok)) s"
    and "keyed_row ti vs \<Longrightarrow> table_key ti vs = k \<Longrightarrow> updateByKey name k vs s =
      bindM (find_key (tindex ti) k) (\<lambda>r. case r of None \<Rightarrow> retM False | Some rid \<Rightarrow> updateRecord (theap ti) rid vs) s"
    and "findByKey name k s = find_key (tindex ti) k s"
    and "scanTable name s = tableScan (theap ti) s"
    and "fetchRecord name rid s = getRow (theap ti) rid s"
proof -
  have t: "tables s name = Some ti" using assms by (simp add: tab_inv_def)
  note a = table_of_ok [OF t]
  show "deleteByKey name k s = bindM (find_key (tindex ti) k) (\<lambda>r. case r of None \<Rightarrow> retM False
      | Some rid \<Rightarrow> bindM (deleteRecord (theap ti) rid) (\<lambda>ok.
          if ok then bindM (remove_key (tindex ti) k) (\<lambda>_. retM ok) else retM ok)) s"
    "findByKey name k s = find_key (tindex ti) k s" "scanTable name s = tableScan (theap ti) s"
    "fetchRecord name rid s = getRow (theap ti) rid s"
    using a by (simp_all add: deleteByKey_def findByKey_def scanTable_def fetchRecord_def getRow_def)
  show "se_insertRecord name vs s =
      bindM (insertRecord (theap ti) vs) (\<lambda>rid. bindM (index_put name ti (table_key ti vs) rid) (\<lambda>_. retM rid)) s"
    if "keyed_row ti vs"
    using a key_field(1) [OF assms that] by (simp add: se_insertRecord_def int_key_def)
  show "updateByKey name k vs s =
      bindM (find_key (tindex ti) k) (\<lambda>r. case r of None \<Rightarrow> retM False | Some rid \<Rightarrow> updateRecord (theap ti) rid vs) s"
    if "keyed_row ti vs" "table_key ti vs = k"
    using a key_field(1) [OF assms that(1)] that(2) by (simp add: updateByKey_def cong: option.case_cong)
qed

lemma keyed_update_rejected:
  assumes "tab_inv F name ti s" "keyed_row ti vs" "table_key ti vs \<noteq> k"
  obtains t where "updateByKey name k vs s = (if tree_map F (tindex ti) s k = None then Inr False
       else Inl (Runtime_Error ''Updating primary key is not supported''), t)"
    "tree_change F (tindex ti) s t (tree_map F (tindex ti) s)"
proof -
  have t: "tables s name = Some ti" using assms by (simp add: tab_inv_def)
  from tab_inv_rows(2) [OF assms(1)] obtain u where "find_key (tindex ti) k s = (Inr (tree_map F (tindex ti) s k), u)"
    "tree_change F (tindex ti) s u (tree_map F (tindex ti) s)" by (rule find_ok)
  with table_of_ok [OF t] key_field(1) [OF assms(1,2)] assms(3) show thesis
    by (intro that [of u]) (simp_all add: updateByKey_def split: option.split)
qed

text \<open>What an operation on one table keeps of the others: their files are not touched.\<close>

lemma other_table:
  assumes "table_rest F ti t = table_rest F ti s" "bm_idle F t" "table_inv F s tj"
    "{hfileId (theap tj), tfile (tindex tj)} \<inter> {hfileId (theap ti), tfile (tindex ti)} = {}"
  shows "table_inv F t tj" "heap_rows F (theap tj) t = heap_rows F (theap tj) s" "tree_map F (tindex tj) t = tree_map F (tindex tj) s"
    "heap_pages F (theap tj) t = heap_pages F (theap tj) s"
proof -
  have "(if g = hfileId (theap ti) \<or> g = tfile (tindex ti) then [] else bm_pages F t g) =
      (if g = hfileId (theap ti) \<or> g = tfile (tindex ti) then [] else bm_pages F s g)" for g
    using assms(1) by (simp add: table_rest_def fun_eq_iff)
  then have p: "bm_pages F t g = bm_pages F s g" if "g \<in> {hfileId (theap tj), tfile (tindex tj)}" for g
    using that assms(4) by (auto split: if_splits dest: meta_spec [of _ g])
  show "table_inv F t tj"
    using assms(2,3) p by (simp add: table_inv_def heap_inv_def tree_inv_def tree_leaf_def)
  show "heap_rows F (theap tj) t = heap_rows F (theap tj) s" "tree_map F (tindex tj) t = tree_map F (tindex tj) s"
    "heap_pages F (theap tj) t = heap_pages F (theap tj) s"
    using p by (simp_all add: heap_rows_def heap_pages_def tree_map_def tree_leaf_def)
qed
lemma op_step:
  assumes inv: "tab_inv F name ti s" and sound: "keyed_sound F ti s" and ok: "table_op_ok F ti s op"
  obtains t where "run_table name op s = (fst (spec_table ti op (keyed_map F ti s)), t)" "tab_inv F name ti t"
    "keyed_sound F ti t" "keyed_map F ti t = snd (spec_table ti op (keyed_map F ti s))" "table_rest F ti t = table_rest F ti s"
proof -
  note defs = keyed_sound_def keyed_map_def
  have snd: "\<forall>k rid. tree_map F (tindex ti) s k = Some rid \<longrightarrow>
      (\<exists>v. heap_rows F (theap ti) s rid = Some v \<and> table_key ti v = k)"
    using sound by (simp add: defs)
  show thesis
  proof (cases op)
    case (T_Insert vs)
    with ok key_field(2) [OF inv, of vs] have a: "keyed_row ti vs \<and> nat (tpkCol ti) < length (scolumns (tschema ti))"
      "int (heap_pages F (theap ti) s) + 1 < 2 ^ 31"
      "tree_map F (tindex ti) s (table_key ti vs) \<noteq> None \<or> card (dom (tree_map F (tindex ti) s)) < 128" by simp_all
    obtain rid t where "se_insertRecord name vs s = (Inr rid, t)" "tab_inv F name ti t" "keyed_sound F ti t"
      "keyed_map F ti t = (keyed_map F ti s)(table_key ti vs \<mapsto> map stored_value vs)" "table_rest F ti t = table_rest F ti s"
      using tab.insert_correct [OF inv snd a] engine_ops(1) [OF inv] a(1) unfolding defs by auto
    with T_Insert show thesis by (intro that [of t]) simp_all
  next
    case (T_Find k)
    obtain t where t: "find_key (tindex ti) k s = (Inr (tree_map F (tindex ti) s k), t)" "tab_inv F name ti t"
      "tree_map F (tindex ti) t = tree_map F (tindex ti) s" "heap_rows F (theap ti) t = heap_rows F (theap ti) s"
      "table_rest F ti t = table_rest F ti s"
      using tab.find_correct [OF inv, of k] by blast
    show thesis
    proof (cases "tree_map F (tindex ti) s k")
      case None
      with T_Find t sound show thesis
        by (intro that [of t]) (simp_all add: engine_ops(4) [OF inv] defs)
    next
      case (Some rid)
      then obtain v where v: "heap_rows F (theap ti) t rid = Some v" using snd t(4) by auto
      obtain u where u: "getRow (theap ti) rid t = (Inr v, u)" "heap_change F (theap ti) t u (heap_rows F (theap ti) t)"
        using tab_inv_rows(1) [OF t(2)] v by (rule getRow_ok)
      note k = tab_heap [OF t(2) u(2)]
      have "keyed_sound F ti u" "keyed_map F ti u = keyed_map F ti s"
        using sound k(2,4) t(3,4) by (simp_all add: defs)
      moreover have "run_table name op s = (Inr (T_Row (Some v)), u)"
        using T_Find t(1) Some u(1) by (simp add: engine_ops(4) [OF inv] engine_ops(6) [OF t(2)])
      moreover have "keyed_map F ti s k = Some v" using Some v t(4) by (simp add: defs)
      ultimately show thesis using T_Find k(1,3) t(5) by (intro that [of u]) simp_all
    qed
  next
    case (T_Delete k)
    obtain t where "deleteByKey name k s = (Inr (keyed_map F ti s k \<noteq> None), t)" "tab_inv F name ti t" "keyed_sound F ti t"
      "keyed_map F ti t = (keyed_map F ti s)(k := None)" "table_rest F ti t = table_rest F ti s"
      using tab.delete_correct [OF inv snd, of k] unfolding engine_ops(2) [OF inv] defs by auto
    with T_Delete show thesis by (intro that [of t]) simp_all
  next
    case (T_Update k vs)
    show thesis
    proof (cases "table_key ti vs = k")
      case True
      with T_Update ok key_field(2) [OF inv, of vs] have a: "keyed_row ti vs \<and> nat (tpkCol ti) < length (scolumns (tschema ti))"
        by simp
      obtain t where "updateByKey name k vs s = (Inr (keyed_map F ti s k \<noteq> None), t)" "tab_inv F name ti t" "keyed_sound F ti t"
        "keyed_map F ti t = (if keyed_map F ti s k = None then keyed_map F ti s else (keyed_map F ti s)(k \<mapsto> map stored_value vs))"
        "table_rest F ti t = table_rest F ti s"
        using tab.update_correct [OF inv snd a True] engine_ops(3) [OF inv _ True] a unfolding defs by auto
      with T_Update True show thesis by (intro that [of t]) (auto split: if_splits)
    next
      case False
      with T_Update ok obtain t where t: "updateByKey name k vs s = (if tree_map F (tindex ti) s k = None then Inr False
          else Inl (Runtime_Error ''Updating primary key is not supported''), t)"
        "tree_change F (tindex ti) s t (tree_map F (tindex ti) s)"
        using keyed_update_rejected [OF inv, of vs k] by auto
      note k = tab_tree [OF inv t(2)]
      have n: "keyed_map F ti s k = None \<longleftrightarrow> tree_map F (tindex ti) s k = None" using snd by (auto simp: defs split: bind_splits)
      have "keyed_sound F ti t" "keyed_map F ti t = keyed_map F ti s" using sound k(2,4) by (simp_all add: defs)
      with T_Update False t(1) k(1,3) n show thesis by (intro that [of t]) auto
    qed
  qed
qed
text \<open>The constructor of the engine over a pool, and one with no file open, for the witnesses.\<close>

definition engine_init :: "bm_state \<Rightarrow> engine_state" where
  "engine_init bm = bm_state.extend bm (engine_state.fields Map.empty)"

lemma engine_init_fields:
  "tables (engine_init bm) = Map.empty" "files (engine_init bm) = files bm" "nextFileId (engine_init bm) = nextFileId bm"
  "denied (engine_init bm) = denied bm" "disk (engine_init bm) = disk bm" "poolSize (engine_init bm) = poolSize bm"
  "frames (engine_init bm) = frames bm" "pageTable (engine_init bm) = pageTable bm"
  by (simp_all add: engine_init_def bm_state.defs engine_state.defs)

definition ex_engine :: engine_state where
  "ex_engine = engine_init (bm_init \<lparr>bufferHits = 0, bufferMisses = 0, queryCount = 0, totalQueryLatencyUs = 0,
     txCommitted = 0, txAborted = 0, disk = Map.empty, denied = (\<lambda>_. False), files = Map.empty, nextFileId = 1\<rparr>
     4 (\<lambda>_. zero_page))"

lemma ex_engine_ok:
  "bm_idle {} ex_engine" "pinned_pages ex_engine = 0" "poolSize ex_engine = 4" "tables ex_engine = Map.empty"
  "files ex_engine = Map.empty" "nextFileId ex_engine = 1" "denied ex_engine = (\<lambda>_. False)" "contents ex_engine p = []"
proof -
  define fm :: fm_state where "fm = \<lparr>bufferHits = 0, bufferMisses = 0, queryCount = 0, totalQueryLatencyUs = 0,
     txCommitted = 0, txAborted = 0, disk = Map.empty, denied = (\<lambda>_. False), files = Map.empty, nextFileId = 1\<rparr>"
  have e: "ex_engine = engine_init (bm_init fm 4 (\<lambda>_. zero_page))" by (simp add: ex_engine_def fm_def)
  note s = same_pool [of "ex_engine" "bm_init fm 4 (\<lambda>_. zero_page)"]
  have "bm_idle {} (bm_init fm 4 (\<lambda>_. zero_page))" by (rule bm_init_ok) (simp_all add: files_ok_def)
  then show "bm_idle {} ex_engine" using s(2) by (simp add: e engine_init_fields)
  have "pins (bm_init fm 4 (\<lambda>_. zero_page)) = (\<lambda>_. 0)" by (simp add: fun_eq_iff pins_def bm_init_fields)
  then have "pinned_pages (bm_init fm 4 (\<lambda>_. zero_page)) = 0" by (simp add: pinned_pages_def)
  then show "pinned_pages ex_engine = 0" using s(4) by (simp add: e engine_init_fields)
  show "poolSize ex_engine = 4" "tables ex_engine = Map.empty" "files ex_engine = Map.empty"
    "nextFileId ex_engine = 1" "denied ex_engine = (\<lambda>_. False)" "contents ex_engine p = []"
    by (simp_all add: e engine_init_fields bm_init_fields contents_def fm_def)
      (simp_all add: bm_init_def fm_state.defs bm_state.defs)
qed

lemma grow_tables:
  assumes "table_inv F s tj" "F \<subseteq> G" "bm_idle G t" "\<forall>g \<in> F. bm_pages G t g = bm_pages F s g"
  shows "table_inv G t tj" "heap_rows G (theap tj) t = heap_rows F (theap tj) s" "tree_map G (tindex tj) t = tree_map F (tindex tj) s"
  using assms by (auto simp: table_inv_def heap_inv_def tree_inv_def tree_leaf_def heap_rows_def tree_map_def)

subsection \<open>Properties\<close>

text \<open>
  C18: Registering a table on two new files creates an empty table with the key column that was named,
  whatever the pool holds, and the tables that were registered before keep their rows and keys. One
  page more stays pinned.
\<close>

theorem registerTable_empty:
  assumes "bm_idle F s" "\<forall>k \<ge> nextFileId s. files s k = None" "\<not> denied s df" "\<not> denied s xf"
    "contents s df = []" "contents s xf = []" "df \<noteq> xf" "df \<notin> file_path s ` F" "xf \<notin> file_path s ` F"
    "new_Schema cols = Inr schema" "getRecordSize schema + 5 \<le> PAGE_SIZE"
    "pk_position pk (scolumns schema) 0 = int k" "pinned_pages s + 1 < poolSize s" "tables s name = None"
  shows "\<exists>ti t G. registerTable name schema df xf pk s = (Inr (), t) \<and> tables t = (tables s)(name \<mapsto> ti) \<and>
    tschema ti = schema \<and> tpkCol ti = int k \<and> F \<subseteq> G \<and> table_inv G t ti \<and>
    heap_rows G (theap ti) t = Map.empty \<and> tree_map G (tindex ti) t = Map.empty \<and> pinned_pages t \<le> pinned_pages s + 1 \<and>
    (\<forall>tj. table_inv F s tj \<longrightarrow> table_inv G t tj \<and> heap_rows G (theap tj) t = heap_rows F (theap tj) s \<and>
      tree_map G (tindex tj) t = tree_map F (tindex tj) s)"
proof -
  have sch: "schema_ok schema" using assms(10) by (simp add: new_Schema_ok)
  let ?G = "{nextFileId s + 2, nextFileId s + 3} \<union> F"
  obtain ti t where t: "registerTable name schema df xf pk s = (Inr (), t)"
    "tables t = (tables s)(name \<mapsto> ti)" "tschema ti = schema" "tpkCol ti = int k"
    "hfileId (theap ti) = nextFileId s + 2" "tfile (tindex ti) = nextFileId s + 3"
    "table_inv ?G t ti" "heap_rows ?G (theap ti) t = Map.empty" "tree_map ?G (tindex ti) t = Map.empty"
    "heap_pages ?G (theap ti) t = 1" "\<forall>g \<in> F. bm_pages ?G t g = bm_pages F s g"
    "pinned_pages t \<le> pinned_pages s + 1" "poolSize t = poolSize s"
    using assms(1-9) sch assms(11-14) by (rule registerTable_new)
  have i: "bm_idle ?G t" using t(7) by (simp add: table_inv_def heap_inv_def)
  have "\<forall>tj. table_inv F s tj \<longrightarrow> table_inv ?G t tj \<and> heap_rows ?G (theap tj) t = heap_rows F (theap tj) s \<and>
      tree_map ?G (tindex tj) t = tree_map F (tindex tj) s"
    using grow_tables [OF _ _ i t(11)] by blast
  with t show ?thesis by (intro exI [of _ ti] exI [of _ t] exI [of _ ?G]) (simp, blast)
qed

theorem registerTable_empty_witness:
  "\<exists>ti t G. registerTable ''u'' ex_schema ''u.dat'' ''u.idx'' ''id'' ex_engine = (Inr (), t) \<and> table_inv G t ti \<and>
     heap_rows G (theap ti) t = Map.empty"
proof -
  have "getRecordSize ex_schema + 5 \<le> PAGE_SIZE" "pk_position ''id'' (scolumns ex_schema) 0 = int 0"
    by (simp_all add: getRecordSize_def ex_schema_def PAGE_SIZE_def ex_cols_def)
  from registerTable_empty [OF ex_engine_ok(1) _ _ _ _ _ _ _ _ ex_schema_ok(1) this, of "''u.dat''" "''u.idx''" "''u''"]
  show ?thesis by (simp add: ex_engine_ok) blast
qed

lemma ex_table:
  obtains ti and s :: engine_state where "tab_inv {4, 3} ''u'' ti s" "tschema ti = ex_schema" "tpkCol ti = 0"
    "heap_rows {4, 3} (theap ti) s = Map.empty" "tree_map {4, 3} (tindex ti) s = Map.empty" "heap_pages {4, 3} (theap ti) s = 1"
    "tables s = [''u'' \<mapsto> ti]"
proof -
  have a: "getRecordSize ex_schema + 5 \<le> PAGE_SIZE" "pk_position ''id'' (scolumns ex_schema) 0 = int 0"
    by (simp_all add: getRecordSize_def ex_schema_def PAGE_SIZE_def ex_cols_def)
  have b: "\<forall>k \<ge> nextFileId ex_engine. files ex_engine k = None" "\<not> denied ex_engine ''u.dat''" "\<not> denied ex_engine ''u.idx''"
    "''u.dat'' \<noteq> ''u.idx''" "''u.dat'' \<notin> file_path ex_engine ` {}" "''u.idx'' \<notin> file_path ex_engine ` {}"
    "pinned_pages ex_engine + 1 < poolSize ex_engine" "tables ex_engine ''u'' = None" by (simp_all add: ex_engine_ok)
  have G: "{nextFileId ex_engine + 2, nextFileId ex_engine + 3} \<union> {} = {4, 3}" by (auto simp: ex_engine_ok)
  let ?G = "{nextFileId ex_engine + 2, nextFileId ex_engine + 3} \<union> {}"
  obtain ti t where "registerTable ''u'' ex_schema ''u.dat'' ''u.idx'' ''id'' ex_engine = (Inr (), t)"
    "tables t = (tables ex_engine)(''u'' \<mapsto> ti)" "tschema ti = ex_schema" "tpkCol ti = int 0"
    "hfileId (theap ti) = nextFileId ex_engine + 2" "tfile (tindex ti) = nextFileId ex_engine + 3"
    "table_inv ?G t ti" "heap_rows ?G (theap ti) t = Map.empty" "tree_map ?G (tindex ti) t = Map.empty"
    "heap_pages ?G (theap ti) t = 1" "\<forall>g \<in> {}. bm_pages ?G t g = bm_pages {} ex_engine g"
    "pinned_pages t \<le> pinned_pages ex_engine + 1" "poolSize t = poolSize ex_engine"
    using ex_engine_ok(1) b(1-3) ex_engine_ok(8,8) b(4-6) ex_schema_ok(2) a b(7,8) by (rule registerTable_new)
  then show thesis unfolding G by (intro that [of ti t]) (simp_all add: tab_inv_def ex_engine_ok)
qed
text \<open>
  C1: A registered table is a map from primary keys to rows: insertion, lookup with the fetch that
  follows it, deletion and update return what the map's operations return, a change of the key
  included, and leave heap and index in agreement, with the map's new value. The other registered
  tables, in other files, keep their rows and keys.
\<close>

theorem table_refines_map:
  assumes "tab_inv F name ti s" "keyed_sound F ti s" "table_op_ok F ti s op"
  shows "\<exists>t. run_table name op s = (fst (spec_table ti op (keyed_map F ti s)), t) \<and> tab_inv F name ti t \<and>
    keyed_sound F ti t \<and> keyed_map F ti t = snd (spec_table ti op (keyed_map F ti s)) \<and> tables t = tables s \<and>
    (\<forall>tj. table_inv F s tj \<longrightarrow>
       {hfileId (theap tj), tfile (tindex tj)} \<inter> {hfileId (theap ti), tfile (tindex ti)} = {} \<longrightarrow>
       table_inv F t tj \<and> heap_rows F (theap tj) t = heap_rows F (theap tj) s \<and>
       tree_map F (tindex tj) t = tree_map F (tindex tj) s)"
proof -
  obtain t where t: "run_table name op s = (fst (spec_table ti op (keyed_map F ti s)), t)" "tab_inv F name ti t"
    "keyed_sound F ti t" "keyed_map F ti t = snd (spec_table ti op (keyed_map F ti s))" "table_rest F ti t = table_rest F ti s"
    using assms by (rule op_step)
  have i: "bm_idle F t" using tab_inv_rows(1) [OF t(2)] by (simp add: heap_inv_def)
  have "bm_keep t = bm_keep s" using t(5) by (simp add: table_rest_def)
  from bm_keepD [OF this] have "tables t = tables s" by (intro bm_rest_tables) simp
  moreover have "\<forall>tj. table_inv F s tj \<longrightarrow>
       {hfileId (theap tj), tfile (tindex tj)} \<inter> {hfileId (theap ti), tfile (tindex ti)} = {} \<longrightarrow>
       table_inv F t tj \<and> heap_rows F (theap tj) t = heap_rows F (theap tj) s \<and>
       tree_map F (tindex tj) t = tree_map F (tindex tj) s"
    by (intro allI impI conjI) (rule other_table [OF t(5) i]; assumption)+
  ultimately show ?thesis using t(1-4) by (intro exI [of _ t]) simp
qed

lemma ex_row:
  assumes "tab_inv {4, 3} ''u'' ti s" "tschema ti = ex_schema" "tpkCol ti = 0"
    "heap_pages {4, 3} (theap ti) s = 1" "tree_map {4, 3} (tindex ti) s = Map.empty"
  shows "table_op_ok {4, 3} ti s (T_Insert [FInt 7, FStr ''abc''])" "keyed_row ti [FInt 7, FStr ''abc'']"
    "table_key ti [FInt 7, FStr ''abc''] = 7"
  using assms ex_schema_ok(3) by (simp_all add: keyed_row_def table_key_def)

theorem table_refines_map_witness:
  "\<exists>F ti (s :: engine_state) t. run_table ''u'' (T_Insert [FInt 7, FStr ''abc'']) s = (Inr T_Done, t) \<and>
     keyed_map F ti t = [7 \<mapsto> [FInt 7, FStr ''abc'']]"
proof -
  obtain ti and s :: engine_state where s: "tab_inv {4, 3} ''u'' ti s" "tschema ti = ex_schema" "tpkCol ti = 0"
    "heap_rows {4, 3} (theap ti) s = Map.empty" "tree_map {4, 3} (tindex ti) s = Map.empty" "heap_pages {4, 3} (theap ti) s = 1"
    "tables s = [''u'' \<mapsto> ti]"
    by (rule ex_table)
  note r = ex_row [OF s(1-3,6,5)]
  have "keyed_sound {4, 3} ti s" "keyed_map {4, 3} ti s = Map.empty" using s(5) by (simp_all add: keyed_sound_def keyed_map_def)
  with table_refines_map [OF s(1) _ r(1)] r(3) show ?thesis
    by (simp add: zero_byte_def) blast
qed

text \<open>
  C39: A duplicate key leaves a row that no key reaches: inserting a row whose key the table has already
  is accepted and redirects the index to the new row. Deleting the key then reports success, the key is
  gone from the index, and the old row is still in the table's scan.
\<close>

theorem duplicate_key_orphans:
  assumes "tab_inv F name ti s" "keyed_sound F ti s" "table_op_ok F ti s (T_Insert vs)"
    "tree_map F (tindex ti) s (table_key ti vs) = Some rid"
  shows "\<exists>rid' t u v w x rids. se_insertRecord name vs s = (Inr rid', t) \<and> rid' \<noteq> rid \<and>
    deleteByKey name (table_key ti vs) t = (Inr True, u) \<and> findByKey name (table_key ti vs) u = (Inr None, v) \<and>
    scanTable name v = (Inr rids, w) \<and> rid \<in> set rids \<and>
    fetchRecord name rid w = (Inr (the (heap_rows F (theap ti) s rid)), x)"
proof -
  let ?k = "table_key ti vs" and ?m = "\<lambda>s. heap_rows F (theap ti) s"
  have snd: "\<forall>k rid. tree_map F (tindex ti) s k = Some rid \<longrightarrow> (\<exists>v. ?m s rid = Some v \<and> table_key ti v = k)"
    using assms(2) by (simp add: keyed_sound_def)
  with assms(4) obtain old where old: "?m s rid = Some old" by blast
  have a: "keyed_row ti vs \<and> nat (tpkCol ti) < length (scolumns (tschema ti))" "int (heap_pages F (theap ti) s) + 1 < 2 ^ 31"
    "tree_map F (tindex ti) s ?k \<noteq> None \<or> card (dom (tree_map F (tindex ti) s)) < 128"
    using assms(3) key_field(2) [OF assms(1), of vs] by simp_all
  obtain rid' t where t: "se_insertRecord name vs s = (Inr rid', t)" "tab_inv F name ti t"
    "\<forall>k rid. tree_map F (tindex ti) t k = Some rid \<longrightarrow> (\<exists>v. ?m t rid = Some v \<and> table_key ti v = k)"
    "?m s rid' = None" "?m t = (?m s)(rid' \<mapsto> map stored_value vs)" "tree_map F (tindex ti) t = (tree_map F (tindex ti) s)(?k \<mapsto> rid')"
    using tab.insert_correct [OF assms(1) snd a] engine_ops(1) [OF assms(1)] a(1) by auto
  have ne: "rid' \<noteq> rid" using t(4) old by auto
  obtain u where u: "deleteByKey name ?k t = (Inr True, u)" "tab_inv F name ti u" "?m u = (?m t)(rid' := None)"
    "Option.bind (tree_map F (tindex ti) u ?k) (?m u) = None"
    "\<forall>k rid. tree_map F (tindex ti) u k = Some rid \<longrightarrow> (\<exists>v. ?m u rid = Some v \<and> table_key ti v = k)"
    using tab.delete_correct [OF t(2,3), of ?k] unfolding engine_ops(2) [OF t(2)] by (auto simp: t(5,6) fun_eq_iff)
  have n: "tree_map F (tindex ti) u ?k = None"
  proof (rule ccontr)
    assume "tree_map F (tindex ti) u ?k \<noteq> None"
    then obtain r where "tree_map F (tindex ti) u ?k = Some r" by blast
    with u(4) u(5) [rule_format, OF this] show False by auto
  qed
  obtain v where v: "findByKey name ?k u = (Inr None, v)" "tab_inv F name ti v" "?m v = ?m u"
    using tab.find_correct [OF u(2), of ?k] unfolding engine_ops(4) [OF u(2)] n by auto
  obtain rids w where w: "scanTable name v = (Inr rids, w)" "heap_change F (theap ti) v w (?m v)" "set rids = dom (?m v)"
    using tab_inv_rows(1) [OF v(2)] unfolding engine_ops(5) [OF v(2)] by (rule scan_ok)
  note kw = tab_heap [OF v(2) w(2)]
  have r: "?m v rid = Some old" using v(3) u(3) t(5) ne old by simp
  then have rw: "?m w rid = Some old" using kw(4) by simp
  obtain x where x: "getRow (theap ti) rid w = (Inr old, x)" "heap_change F (theap ti) w x (?m w)"
    using tab_inv_rows(1) [OF kw(1)] rw by (rule getRow_ok)
  have "rid \<in> set rids" using w(3) r by auto
  with t(1) ne u(1) v(1) w(1) x(1) engine_ops(6) [OF kw(1)] old show ?thesis by (metis option.sel)
qed

theorem duplicate_key_orphans_witness:
  "\<exists>(s :: engine_state) rid rid' t u v w x rids. se_insertRecord ''u'' [FInt 7, FStr ''abc''] s = (Inr rid', t) \<and> rid' \<noteq> rid \<and>
    deleteByKey ''u'' 7 t = (Inr True, u) \<and> findByKey ''u'' 7 u = (Inr None, v) \<and> scanTable ''u'' v = (Inr rids, w) \<and>
    rid \<in> set rids \<and> fetchRecord ''u'' rid w = (Inr [FInt 7, FStr ''abc''], x)"
proof -
  obtain ti and s :: engine_state where s: "tab_inv {4, 3} ''u'' ti s" "tschema ti = ex_schema" "tpkCol ti = 0"
    "heap_rows {4, 3} (theap ti) s = Map.empty" "tree_map {4, 3} (tindex ti) s = Map.empty" "heap_pages {4, 3} (theap ti) s = 1"
    "tables s = [''u'' \<mapsto> ti]"
    by (rule ex_table)
  let ?vs = "[FInt 7, FStr ''abc'']"
  note r = ex_row [OF s(1-3,6,5)]
  have row: "row_ok (hschema (theap ti)) ?vs"
    using s(2) ex_schema_ok(3) tab_inv_rows(3) [OF s(1)] by simp
  have room: "int (heap_pages {4, 3} (theap ti) s) + 1 < 2 ^ 31" using s(6) by simp
  obtain rid t where t: "insertRecord (theap ti) ?vs s = (Inr rid, t)"
    "heap_change {4, 3} (theap ti) s t ((heap_rows {4, 3} (theap ti) s)(rid \<mapsto> map stored_value ?vs))" "heap_pages {4, 3} (theap ti) t \<le> 1 + 1"
    using insert_ok [OF tab_inv_rows(1) [OF s(1)] row room] s(6) by metis
  note kt = tab_heap [OF s(1) t(2)]
  have rid: "rid_ok rid" by (rule heap_rid_ok [OF tab_inv_rows(1) [OF kt(1)], of rid]) (use kt(4) in simp)
  have e: "tree_map {4, 3} (tindex ti) t = Map.empty" using kt(2) s(5) by simp
  obtain u where u: "index_put ''u'' ti 7 rid t = (Inr (), u)"
    "tree_change {4, 3} (tindex ti) t u ((tree_map {4, 3} (tindex ti) t)(7 \<mapsto> rid))"
    by (rule index_put_ok [OF kt(1) rid, of 7]) (simp_all add: e)
  note ku = tab_tree [OF kt(1) u(2)]
  have m: "heap_rows {4, 3} (theap ti) u rid = Some ?vs" "tree_map {4, 3} (tindex ti) u = [7 \<mapsto> rid]"
    using ku(2,4) kt(4) e by (simp_all add: zero_byte_def)
  have "keyed_sound {4, 3} ti u" using m r(3) by (simp add: keyed_sound_def)
  moreover have "table_op_ok {4, 3} ti u (T_Insert ?vs)" using r(2,3) t(3) ku(6) m(2) by simp
  moreover have "tree_map {4, 3} (tindex ti) u (table_key ti ?vs) = Some rid" using m(2) r(3) by simp
  ultimately have "\<exists>rid' t v w x y rids. se_insertRecord ''u'' ?vs u = (Inr rid', t) \<and> rid' \<noteq> rid \<and>
    deleteByKey ''u'' (table_key ti ?vs) t = (Inr True, v) \<and> findByKey ''u'' (table_key ti ?vs) v = (Inr None, w) \<and>
    scanTable ''u'' w = (Inr rids, x) \<and> rid \<in> set rids \<and>
    fetchRecord ''u'' rid x = (Inr (the (heap_rows {4, 3} (theap ti) u rid)), y)"
    by (rule duplicate_key_orphans [OF ku(1)])
  then show ?thesis unfolding m(1) r(3) option.sel by (rule exI [of _ u, OF exI [of _ rid]])
qed

end
