(* ===== verification/Recovery.thy ===== *)
theory Recovery
  imports EngineTables
begin

section \<open>Recovery of the engine's tables\<close>

text \<open>
  The write-ahead log's contract with the storage below it (\<open>redo_storage\<close>) holds of the engine's redo
  operations: on registered tables, with record identifiers inside their files and a bounded set of
  keys. With it, \<open>recover\<close> on the engine is the replay that the log's theory describes.
\<close>

text \<open>
  \<open>db_inv F T N K s\<close>: the registered tables are those of \<open>T\<close>, well formed and in different files; the
  file of table \<open>n\<close> has at least \<open>N n\<close> pages and its index has keys from \<open>K n\<close> only, at most as many as
  fit. \<open>db_rows\<close> is the rows of all tables.
\<close>

definition db_files :: "TableInfo \<Rightarrow> int set" where
  "db_files ti = {hfileId (theap ti), tfile (tindex ti)}"

definition db_inv :: "int set \<Rightarrow> (string \<rightharpoonup> TableInfo) \<Rightarrow> (string \<Rightarrow> nat) \<Rightarrow> (string \<Rightarrow> int32 set) \<Rightarrow>
    'a engine_state_scheme \<Rightarrow> bool" where
  "db_inv F T N K s \<longleftrightarrow> tables s = T \<and>
     (\<forall>n ti. T n = Some ti \<longrightarrow> table_inv F s ti \<and> N n \<le> heap_pages F (theap ti) s \<and>
        dom (tree_map F (tindex ti) s) \<subseteq> K n \<and> finite (K n) \<and> card (K n) \<le> 128) \<and>
     (\<forall>n m ti tj. T n = Some ti \<longrightarrow> T m = Some tj \<longrightarrow> n \<noteq> m \<longrightarrow> db_files tj \<inter> db_files ti = {})"

definition db_rows :: "int set \<Rightarrow> (string \<rightharpoonup> TableInfo) \<Rightarrow> 'a bm_state_scheme \<Rightarrow> string \<times> RecordID \<rightharpoonup> FieldValue list" where
  "db_rows F T s = (\<lambda>(n, rid). case T n of None \<Rightarrow> None | Some ti \<Rightarrow> heap_rows F (theap ti) s rid)"

definition db_place :: "(string \<rightharpoonup> TableInfo) \<Rightarrow> (string \<Rightarrow> nat) \<Rightarrow> string \<Rightarrow> RecordID \<Rightarrow> bool" where
  "db_place T N n rid \<longleftrightarrow> (\<exists>ti p i. T n = Some ti \<and> rid = RecordID (int p) (int i) \<and> p < N n \<and> i < max_slots (theap ti))"

definition db_row :: "(string \<rightharpoonup> TableInfo) \<Rightarrow> (string \<Rightarrow> int32 set) \<Rightarrow> string \<Rightarrow> FieldValue list \<Rightarrow> bool" where
  "db_row T K n vs \<longleftrightarrow> (\<exists>ti. T n = Some ti \<and> keyed_row ti vs \<and> table_key ti vs \<in> K n \<and> map stored_value vs = vs)"

lemma db_tab: "db_inv F T N K s \<Longrightarrow> T n = Some ti \<Longrightarrow> tab_inv F n ti s"
  by (simp add: db_inv_def tab_inv_def)

lemma db_table:
  assumes "db_inv F T N K s" "T n = Some ti"
  shows "N n \<le> heap_pages F (theap ti) s" "dom (tree_map F (tindex ti) s) \<subseteq> K n" "finite (K n)" "card (K n) \<le> 128"
  using assms by (simp_all add: db_inv_def)

lemma db_rows_at: "T n = Some ti \<Longrightarrow> db_rows F T s (n, rid) = heap_rows F (theap ti) s rid"
  by (simp add: db_rows_def)

text \<open>A change of one table that keeps its bounds.\<close>

lemma db_step:
  assumes inv: "db_inv F T N K s" and n: "T n = Some ti" and tab: "tab_inv F n ti t"
    and rest: "table_rest F ti t = table_rest F ti s" and pages: "heap_pages F (theap ti) s \<le> heap_pages F (theap ti) t"
    and keys: "dom (tree_map F (tindex ti) t) \<subseteq> K n"
  shows "db_inv F T N K t" "db_rows F T t (m, rid) = (if m = n then heap_rows F (theap ti) t rid else db_rows F T s (m, rid))"
proof -
  have i: "bm_idle F t" using tab_inv_rows(1) [OF tab] by (simp add: heap_inv_def)
  have keep: "bm_keep t = bm_keep s" using rest by (simp add: table_rest_def)
  have tabs: "tables t = T" using bm_rest_tables [of t s] bm_keepD [OF keep] inv by (simp add: db_inv_def)
  have other: "table_inv F t tj \<and> heap_rows F (theap tj) t = heap_rows F (theap tj) s \<and>
      tree_map F (tindex tj) t = tree_map F (tindex tj) s \<and> heap_pages F (theap tj) t = heap_pages F (theap tj) s"
    if "T m = Some tj" "m \<noteq> n" for m tj
  proof -
    have "db_files tj \<inter> db_files ti = {}" "table_inv F s tj" using inv n that unfolding db_inv_def by blast+
    then show ?thesis using other_table [OF rest i] unfolding db_files_def by blast
  qed
  have "table_inv F t tj \<and> N m \<le> heap_pages F (theap tj) t \<and> dom (tree_map F (tindex tj) t) \<subseteq> K m \<and>
      finite (K m) \<and> card (K m) \<le> 128" if "T m = Some tj" for m tj
  proof (cases "m = n")
    case True
    with that n have "tj = ti" by simp
    with True tab pages keys db_table [OF inv n] show ?thesis by (simp add: tab_inv_def)
  next
    case False
    with other [OF that False] db_table [OF inv that] show ?thesis by simp
  qed
  with inv tabs show "db_inv F T N K t" by (simp add: db_inv_def)
  show "db_rows F T t (m, rid) = (if m = n then heap_rows F (theap ti) t rid else db_rows F T s (m, rid))"
    using n other by (auto simp: db_rows_def split: option.split)
qed

lemma db_heap_step:
  assumes inv: "db_inv F T N K s" and n: "T n = Some ti" and c: "heap_change F (theap ti) s t ((heap_rows F (theap ti) s)(rid := x))"
  shows "db_inv F T N K t" "db_rows F T t = (db_rows F T s)((n, rid) := x)" "tree_map F (tindex ti) t = tree_map F (tindex ti) s"
proof -
  note k = tab_heap [OF db_tab [OF inv n] c]
  have p: "heap_pages F (theap ti) s \<le> heap_pages F (theap ti) t" using c by (simp add: heap_change_def)
  have d: "dom (tree_map F (tindex ti) t) \<subseteq> K n" using db_table(2) [OF inv n] k(2) by simp
  note st = db_step [OF inv n k(1,3) p d]
  show "db_inv F T N K t" "tree_map F (tindex ti) t = tree_map F (tindex ti) s" by (rule st k)+
  show "db_rows F T t = (db_rows F T s)((n, rid) := x)"
    using k(4) by (intro ext) (auto simp: st(2) db_rows_at [of T n ti, OF n] split: if_splits)
qed

interpretation engine: redo_storage "db_inv F T N K" "db_rows F T" "db_place T N" "db_row T K" redoInsert redoDelete redoUpdate
  for F T N K
proof (unfold_locales, goal_cases)
  case (1 s n rid v)
  obtain ti p i where n: "T n = Some ti" and r: "rid = RecordID (int p) (int i)" "p < N n" "i < max_slots (theap ti)"
    using 1(2) by (auto simp: db_place_def)
  have v: "keyed_row ti v" "table_key ti v \<in> K n" "map stored_value v = v" using 1(3) n by (auto simp: db_row_def)
  note T = db_tab [OF 1(1) n]
  have row: "row_ok (hschema (theap ti)) v" using v(1) tab_inv_rows(3) [OF T] by (simp add: keyed_row_def)
  have p: "p < heap_pages F (theap ti) s" using r(2) db_table(1) [OF 1(1) n] by simp
  obtain t where t: "insertAt (theap ti) rid v s = (Inr (), t)"
    "heap_change F (theap ti) s t ((heap_rows F (theap ti) s)(rid \<mapsto> v))"
    using insertAt_ok [OF tab_inv_rows(1) [OF T] row p r(3)] unfolding r(1) v(3) by blast
  note h = db_heap_step [OF 1(1) n t(2)]
  note Tt = db_tab [OF h(1) n]
  let ?m = "tree_map F (tindex ti) t"
  have room: "?m (table_key ti v) \<noteq> None \<or> card (dom ?m) < 128"
  proof (cases "?m (table_key ti v)")
    case None
    then have "dom ?m \<subset> K n" using db_table(2) [OF h(1) n] v(2) by auto
    with psubset_card_mono [OF db_table(3) [OF h(1) n] this] db_table(4) [OF h(1) n] show ?thesis by simp
  qed simp
  have rid: "rid_ok rid"
    by (rule heap_rid_ok [OF tab_inv_rows(1) [OF Tt], of rid]) (use t(2) in \<open>simp add: heap_change_def\<close>)
  obtain u where u: "index_put n ti (table_key ti v) rid t = (Inr (), u)"
    "tree_change F (tindex ti) t u (?m(table_key ti v \<mapsto> rid))"
    using Tt rid room by (rule index_put_ok)
  note k = tab_tree [OF Tt u(2)]
  have d: "dom (tree_map F (tindex ti) u) \<subseteq> K n" using k(4) db_table(2) [OF h(1) n] v(2) by auto
  have pg: "heap_pages F (theap ti) t \<le> heap_pages F (theap ti) u" using k(6) by simp
  note st = db_step [OF h(1) n k(1,3) pg d]
  have "db_rows F T u = db_rows F T t" using k(2) by (intro ext) (auto simp: st(2) db_rows_at [of T n ti, OF n])
  moreover have "redoInsert n rid v s = (Inr (), u)"
    using T t(1) u(1) key_field(1) [OF T v(1)]
    by (simp add: redoInsert_def table_at_def tab_inv_def int_key_def)
  ultimately show ?case using st(1) h(2) by (intro exI [of _ u]) simp
next
  case (2 s n rid)
  obtain ti p i where n: "T n = Some ti" and r: "rid = RecordID (int p) (int i)" "p < N n" "i < max_slots (theap ti)"
    using 2(2) by (auto simp: db_place_def)
  note T = db_tab [OF 2(1) n]
  have p: "p < heap_pages F (theap ti) s" using r(2) db_table(1) [OF 2(1) n] by simp
  obtain t where t: "deleteAt (theap ti) rid s = (Inr (), t)"
    "heap_change F (theap ti) s t ((heap_rows F (theap ti) s)(rid := None))"
    using deleteAt_ok [OF tab_inv_rows(1) [OF T] p r(3)] unfolding r(1) by blast
  have "redoDelete n rid s = (Inr (), t)" using T t(1) by (simp add: redoDelete_def table_at_def tab_inv_def)
  with db_heap_step [OF 2(1) n t(2)] show ?case by (intro exI [of _ t]) simp
next
  case (3 s n rid v)
  obtain ti p i where n: "T n = Some ti" and r: "rid = RecordID (int p) (int i)" "p < N n" "i < max_slots (theap ti)"
    using 3(2) by (auto simp: db_place_def)
  have v: "keyed_row ti v" "map stored_value v = v" using 3(3) n by (auto simp: db_row_def)
  note T = db_tab [OF 3(1) n]
  have row: "row_ok (hschema (theap ti)) v" using v(1) tab_inv_rows(3) [OF T] by (simp add: keyed_row_def)
  have p: "p < heap_pages F (theap ti) s" using r(2) db_table(1) [OF 3(1) n] by simp
  obtain t where t: "updateAt (theap ti) rid v s = (Inr (), t)"
    "heap_change F (theap ti) s t ((heap_rows F (theap ti) s)(rid := if heap_rows F (theap ti) s rid = None then None else Some v))"
    using updateAt_ok [OF tab_inv_rows(1) [OF T] row p r(3)] unfolding r(1) v(2) by blast
  have "redoUpdate n rid v s = (Inr (), t)" using T t(1) by (simp add: redoUpdate_def table_at_def tab_inv_def)
  with db_heap_step [OF 3(1) n t(2)] show ?case
    by (intro exI [of _ t]) (auto simp: fun_eq_iff, simp_all add: db_rows_def n)
qed
subsection \<open>Properties\<close>

text \<open>
  C7: Recovery restores the committed state: take a log that was written and flushed, whose records name
  places and rows of the registered tables, and any state of those tables. Recovery succeeds, and at
  every record identifier that committed transactions wrote before unfinished ones did, whichever of
  the values of that history had reached the disk, it leaves the value the committed ones left.
\<close>

theorem recovery_correct:
  assumes "db_inv F T N K s" "list_all record_ok rs" "wal_file w = log_text rs"
    "list_all (replayable (db_place T N) (db_row T K)) rs"
  shows "\<exists>w' t. recover (redoInsert, redoDelete, redoUpdate) (w, s) = (Inr (), (w', t)) \<and> db_inv F T N K t \<and>
    (\<forall>n rid cs us x y z. filter (at_key (n, rid)) rs = cs @ us \<longrightarrow>
       (\<forall>r \<in> set cs. ltxId r \<in> committed_txs rs) \<longrightarrow> (\<forall>r \<in> set us. loser rs r) \<longrightarrow>
       history x cs y \<longrightarrow> history y us z \<longrightarrow> db_rows F T s (n, rid) \<in> visited x (cs @ us) \<longrightarrow>
       db_rows F T t (n, rid) = y)"
proof -
  obtain t where t: "replay (redoInsert, redoDelete, redoUpdate) rs s = (Inr (), t)" "db_inv F T N K t"
    "\<forall>k cs us x y z. filter (at_key k) rs = cs @ us \<longrightarrow>
       (\<forall>r \<in> set cs. ltxId r \<in> committed_txs rs) \<longrightarrow> (\<forall>r \<in> set us. loser rs r) \<longrightarrow>
       history x cs y \<longrightarrow> history y us z \<longrightarrow> db_rows F T s k \<in> visited x (cs @ us) \<longrightarrow> db_rows F T t k = y"
    using engine.replay_correct [OF assms(1,4)] by blast
  have "read_log (wal_file w) = Inr rs" using read_log_text [OF assms(2)] assms(3) by simp
  with t show ?thesis by (simp add: recover_def)
qed

text \<open>A table whose first slot has been written by transaction 1 and then by transaction 2.\<close>

definition ex_log :: "LogRecord list" where
  "ex_log = [\<lparr>lop = L_INSERT, ltxId = 1, ltable = ''u'', lrid = RecordID 0 0, loldValues = [], lnewValues = [FInt 7, FStr ''abc'']\<rparr>,
     control_record L_COMMIT 1,
     \<lparr>lop = L_UPDATE, ltxId = 2, ltable = ''u'', lrid = RecordID 0 0, loldValues = [FInt 7, FStr ''abc''], lnewValues = [FInt 7, FStr ''xyz'']\<rparr>]"

lemma ex_db:
  obtains ti and s :: engine_state where "db_inv {4, 3} [''u'' \<mapsto> ti] (\<lambda>_. 1) (\<lambda>_. {7}) s"
    "db_rows {4, 3} [''u'' \<mapsto> ti] s = Map.empty" "db_place [''u'' \<mapsto> ti] (\<lambda>_. 1) ''u'' (RecordID 0 0)"
    "db_row [''u'' \<mapsto> ti] (\<lambda>_. {7}) ''u'' [FInt 7, FStr ''abc'']" "db_row [''u'' \<mapsto> ti] (\<lambda>_. {7}) ''u'' [FInt 7, FStr ''xyz'']" "tschema ti = ex_schema"
proof -
  obtain ti and s :: engine_state where s: "tab_inv {4, 3} ''u'' ti s" "tschema ti = ex_schema" "tpkCol ti = 0"
    "heap_rows {4, 3} (theap ti) s = Map.empty" "tree_map {4, 3} (tindex ti) s = Map.empty" "heap_pages {4, 3} (theap ti) s = 1"
    "tables s = [''u'' \<mapsto> ti]"
    by (rule ex_table)
  have "0 < max_slots (theap ti)"
    using heap_invD(3) [OF tab_inv_rows(1) [OF s(1)]] by (rule heap_okD)
  then have place: "db_place [''u'' \<mapsto> ti] (\<lambda>_. 1) ''u'' (RecordID 0 0)"
    unfolding db_place_def by (intro exI [of _ ti] exI [of _ 0]) simp
  have row: "db_row [''u'' \<mapsto> ti] (\<lambda>_. {7}) ''u'' [FInt 7, FStr x]" if "length x = 3" "zero_byte \<notin> set x" for x
    using that s(2,3)
    by (auto simp: db_row_def keyed_row_def table_key_def row_ok_def ex_schema_def ex_cols_def takeWhile_eq_all_conv)
  show thesis
    by (rule that [OF _ _ place row row s(2)])
      (use s in \<open>auto simp: db_inv_def db_rows_def tab_inv_def fun_eq_iff zero_byte_def split: option.split\<close>)
qed

theorem recovery_correct_witness:
  "\<exists>F T (s :: engine_state) w' t. recover (redoInsert, redoDelete, redoUpdate) (new_WAL (log_text ex_log), s) = (Inr (), (w', t)) \<and>
     db_rows F T s (''u'', RecordID 0 0) = None \<and> db_rows F T t (''u'', RecordID 0 0) = Some [FInt 7, FStr ''abc'']"
proof -
  obtain ti and s :: engine_state where s: "db_inv {4, 3} [''u'' \<mapsto> ti] (\<lambda>_. 1) (\<lambda>_. {7}) s"
    "db_rows {4, 3} [''u'' \<mapsto> ti] s = Map.empty" "db_place [''u'' \<mapsto> ti] (\<lambda>_. 1) ''u'' (RecordID 0 0)"
    "db_row [''u'' \<mapsto> ti] (\<lambda>_. {7}) ''u'' [FInt 7, FStr ''abc'']" "db_row [''u'' \<mapsto> ti] (\<lambda>_. {7}) ''u'' [FInt 7, FStr ''xyz'']" "tschema ti = ex_schema"
    by (rule ex_db)
  have ok: "list_all record_ok ex_log"
    by (simp add: ex_log_def record_ok_def control_record_def int64_def plain_def newline_def rid_ok_def)
  have rep: "list_all (replayable (db_place [''u'' \<mapsto> ti] (\<lambda>_. 1)) (db_row [''u'' \<mapsto> ti] (\<lambda>_. {7}))) ex_log"
    using s(3-5) by (simp add: ex_log_def replayable_def is_data_def control_record_def)
  have w: "wal_file (new_WAL (log_text ex_log)) = log_text ex_log" by (simp add: new_WAL_def)
  obtain w' t where t: "recover (redoInsert, redoDelete, redoUpdate) (new_WAL (log_text ex_log), s) = (Inr (), (w', t))"
    "\<And>n rid cs us x y z. filter (at_key (n, rid)) ex_log = cs @ us \<Longrightarrow>
       \<forall>r \<in> set cs. ltxId r \<in> committed_txs ex_log \<Longrightarrow> \<forall>r \<in> set us. loser ex_log r \<Longrightarrow>
       history x cs y \<Longrightarrow> history y us z \<Longrightarrow> db_rows {4, 3} [''u'' \<mapsto> ti] s (n, rid) \<in> visited x (cs @ us) \<Longrightarrow>
       db_rows {4, 3} [''u'' \<mapsto> ti] t (n, rid) = y"
    using recovery_correct [OF s(1) ok w rep] by blast
  have "db_rows {4, 3} [''u'' \<mapsto> ti] t (''u'', RecordID 0 0) = Some [FInt 7, FStr ''abc'']"
    by (rule t(2) [where cs = "[ex_log ! 0]" and us = "[ex_log ! 2]" and x = None])
      (use s(2) in \<open>simp_all add: ex_log_def at_key_def is_data_def control_record_def committed_txs_def aborted_txs_def
        loser_def redo_value_def\<close>)
  with t(1) s(2) show ?thesis
    by (intro exI [of _ "{4, 3}"] exI [of _ "[''u'' \<mapsto> ti]"] exI [of _ s] exI [of _ w'] exI [of _ t]) simp
qed

text \<open>
  C40: Recovery does not undo aborted transactions: at every record identifier that only aborted
  transactions wrote, it leaves what it finds, so that a row of theirs that reached the disk survives.
\<close>

theorem aborted_changes_survive:
  assumes "db_inv F T N K s" "list_all record_ok rs" "wal_file w = log_text rs"
    "list_all (replayable (db_place T N) (db_row T K)) rs"
  shows "\<exists>w' t. recover (redoInsert, redoDelete, redoUpdate) (w, s) = (Inr (), (w', t)) \<and>
    (\<forall>n rid. (\<forall>r \<in> set (filter (at_key (n, rid)) rs). ltxId r \<in> aborted_txs rs - committed_txs rs) \<longrightarrow>
       db_rows F T t (n, rid) = db_rows F T s (n, rid))"
proof -
  obtain t where t: "replay (redoInsert, redoDelete, redoUpdate) rs s = (Inr (), t)"
    "\<forall>k. (\<forall>r \<in> set (filter (at_key k) rs). ltxId r \<in> aborted_txs rs - committed_txs rs) \<longrightarrow> db_rows F T t k = db_rows F T s k"
    using engine.replay_correct [OF assms(1,4)] by blast
  have "read_log (wal_file w) = Inr rs" using read_log_text [OF assms(2)] assms(3) by simp
  with t show ?thesis by (simp add: recover_def)
qed

definition ex_aborted :: "LogRecord list" where
  "ex_aborted = [\<lparr>lop = L_INSERT, ltxId = 3, ltable = ''u'', lrid = RecordID 0 0, loldValues = [], lnewValues = [FInt 7, FStr ''abc'']\<rparr>,
     control_record L_ABORT 3]"

theorem aborted_changes_survive_witness:
  "\<exists>F T (s :: engine_state) w' t. recover (redoInsert, redoDelete, redoUpdate) (new_WAL (log_text ex_aborted), s) = (Inr (), (w', t)) \<and>
     db_rows F T t (''u'', RecordID 0 0) = Some [FInt 7, FStr ''abc'']"
proof -
  obtain ti and s0 :: engine_state where s0: "db_inv {4, 3} [''u'' \<mapsto> ti] (\<lambda>_. 1) (\<lambda>_. {7}) s0"
    "db_rows {4, 3} [''u'' \<mapsto> ti] s0 = Map.empty" "db_place [''u'' \<mapsto> ti] (\<lambda>_. 1) ''u'' (RecordID 0 0)"
    "db_row [''u'' \<mapsto> ti] (\<lambda>_. {7}) ''u'' [FInt 7, FStr ''abc'']" "db_row [''u'' \<mapsto> ti] (\<lambda>_. {7}) ''u'' [FInt 7, FStr ''xyz'']" "tschema ti = ex_schema"
    by (rule ex_db)
  obtain s :: engine_state where s: "db_inv {4, 3} [''u'' \<mapsto> ti] (\<lambda>_. 1) (\<lambda>_. {7}) s"
    "db_rows {4, 3} [''u'' \<mapsto> ti] s = (db_rows {4, 3} [''u'' \<mapsto> ti] s0)((''u'', RecordID 0 0) \<mapsto> [FInt 7, FStr ''abc''])"
    using engine.redoI_law [OF s0(1,3,4)] by blast
  have ok: "list_all record_ok ex_aborted"
    by (simp add: ex_aborted_def record_ok_def control_record_def int64_def plain_def newline_def rid_ok_def)
  have rep: "list_all (replayable (db_place [''u'' \<mapsto> ti] (\<lambda>_. 1)) (db_row [''u'' \<mapsto> ti] (\<lambda>_. {7}))) ex_aborted"
    using s0(3-5) by (simp add: ex_aborted_def replayable_def is_data_def control_record_def)
  have w: "wal_file (new_WAL (log_text ex_aborted)) = log_text ex_aborted" by (simp add: new_WAL_def)
  obtain w' t where t: "recover (redoInsert, redoDelete, redoUpdate) (new_WAL (log_text ex_aborted), s) = (Inr (), (w', t))"
    "\<And>n rid. \<forall>r \<in> set (filter (at_key (n, rid)) ex_aborted). ltxId r \<in> aborted_txs ex_aborted - committed_txs ex_aborted \<Longrightarrow>
       db_rows {4, 3} [''u'' \<mapsto> ti] t (n, rid) = db_rows {4, 3} [''u'' \<mapsto> ti] s (n, rid)"
    using aborted_changes_survive [OF s(1) ok w rep] by blast
  have "db_rows {4, 3} [''u'' \<mapsto> ti] t (''u'', RecordID 0 0) = db_rows {4, 3} [''u'' \<mapsto> ti] s (''u'', RecordID 0 0)"
    by (rule t(2)) (simp add: ex_aborted_def at_key_def is_data_def control_record_def committed_txs_def aborted_txs_def)
  with t(1) s(2) show ?thesis
    by (intro exI [of _ "{4, 3}"] exI [of _ "[''u'' \<mapsto> ti]"] exI [of _ s] exI [of _ w'] exI [of _ t]) simp
qed

end
