(* ===== verification/Catalog.thy ===== *)
theory Catalog
  imports RecordFormat
begin

section \<open>The catalog\<close>

text \<open>
  \<open>catalog/Catalog\<close>: the schemas, indexes and row counts of the tables by name, and the text file that
  \<open>save\<close> writes and \<open>load\<close> reads. The file is the text it holds, or nothing when it does not exist or
  does not open. A hash map is iterated in an order that the language does not fix; \<open>save_text\<close> takes
  the entries in that order. The input streams are modelled with what the code can observe of them: the
  text left, and whether the stream has failed or reached the end, after which a read leaves its
  variable as it was; a number read by such a read is not initialised, and using it is undefined
  behaviour.
\<close>

subsection \<open>Input streams\<close>

type_synonym text_in = "string \<times> bool"

text \<open>\<open>std::getline(in, line)\<close>: whether it succeeded, the value of \<open>line\<close>, the stream.\<close>

fun getline :: "string \<Rightarrow> text_in \<Rightarrow> bool \<times> string \<times> text_in" where
  "getline line (rest, ended) =
     (if ended then (False, line, (rest, True))
      else if rest = [] then (False, [], ([], True))
      else if newline \<in> set rest then
        (True, takeWhile (\<lambda>c. c \<noteq> newline) rest, (drop 1 (dropWhile (\<lambda>c. c \<noteq> newline) rest), False))
      else (True, rest, ([], True)))"

text \<open>\<open>in >> word\<close> into an empty string, and \<open>in >> n\<close> into a \<open>size_t\<close>.\<close>

fun get_word :: "text_in \<Rightarrow> string \<times> text_in" where
  "get_word (s, bad) =
     (let t = dropWhile isspace s in
      if bad \<or> t = [] then ([], ([], True))
      else (takeWhile (\<lambda>c. \<not> isspace c) t, (dropWhile (\<lambda>c. \<not> isspace c) t, False)))"

fun get_size :: "text_in \<Rightarrow> nat option \<times> text_in" where
  "get_size (s, bad) =
     (let t = dropWhile isspace s in
      if bad \<or> t = [] then (None, ([], True))
      else
        let u = (if hd t = CHR ''-'' \<or> hd t = CHR ''+'' then tl t else t);
            ds = takeWhile isdigit u; rest = dropWhile isdigit u; m = scan_digits 0 ds in
        if ds = [] then (Some 0, (rest, True))
        else if m \<ge> 2 ^ 64 then (Some (2 ^ 64 - 1), (rest, True))
        else (Some (if hd t = CHR ''-'' then (2 ^ 64 - m) mod 2 ^ 64 else m), (rest, False)))"

definition uninitialised :: error where
  "uninitialised = Undefined_Behaviour ''uninitialised value''"

definition sized :: "nat option \<Rightarrow> nat res" where
  "sized n = (case n of None \<Rightarrow> Inl uninitialised | Some k \<Rightarrow> Inr k)"

subsection \<open>Tables\<close>

record IndexInfo =
  iname :: string
  icolumns :: "string list"

record TableMeta =
  mschema :: Schema
  mindexes :: "IndexInfo list"
  mrowCount :: nat

type_synonym catalog = "string \<rightharpoonup> TableMeta"

definition no_table :: "string \<Rightarrow> error" where
  "no_table tableName = Runtime_Error (''Table not found: '' @ tableName)"

definition getTable :: "catalog \<Rightarrow> string \<Rightarrow> Schema res" where
  "getTable cat tableName = (case cat tableName of None \<Rightarrow> Inl (no_table tableName) | Some m \<Rightarrow> Inr (mschema m))"

definition addTable :: "string \<Rightarrow> Schema \<Rightarrow> (catalog, unit) io" where
  "addTable tableName schema = (\<lambda>cat.
     if cat tableName \<noteq> None then (Inl (Runtime_Error (''Table already exists: '' @ tableName)), cat)
     else (Inr (), cat(tableName \<mapsto> \<lparr>mschema = schema, mindexes = [], mrowCount = 0\<rparr>)))"

definition dropTable :: "string \<Rightarrow> (catalog, unit) io" where
  "dropTable tableName = (\<lambda>cat.
     if cat tableName = None then (Inl (no_table tableName), cat) else (Inr (), cat(tableName := None)))"

fun find_column :: "string \<Rightarrow> Column list \<Rightarrow> Column res" where
  "find_column columnName [] = Inl (Runtime_Error (''Column not found: '' @ columnName))"
| "find_column columnName (c # cs) = (if cname c = columnName then Inr c else find_column columnName cs)"

definition getColumnInfo :: "catalog \<Rightarrow> string \<Rightarrow> string \<Rightarrow> Column res" where
  "getColumnInfo cat tableName columnName =
     bindE (getTable cat tableName) (\<lambda>schema. find_column columnName (scolumns schema))"

definition registerIndex :: "string \<Rightarrow> string \<Rightarrow> string list \<Rightarrow> (catalog, unit) io" where
  "registerIndex tableName indexName columns = (\<lambda>cat. case cat tableName of
       None \<Rightarrow> (Inl (no_table tableName), cat)
     | Some m \<Rightarrow> (Inr (), cat(tableName \<mapsto> m\<lparr>mindexes := mindexes m @ [\<lparr>iname = indexName, icolumns = columns\<rparr>]\<rparr>)))"

definition getIndexes :: "catalog \<Rightarrow> string \<Rightarrow> IndexInfo list res" where
  "getIndexes cat tableName = (case cat tableName of None \<Rightarrow> Inl (no_table tableName) | Some m \<Rightarrow> Inr (mindexes m))"

definition updateTableStats :: "string \<Rightarrow> nat \<Rightarrow> (catalog, unit) io" where
  "updateTableStats tableName rowCount = (\<lambda>cat. case cat tableName of
       None \<Rightarrow> (Inl (no_table tableName), cat)
     | Some m \<Rightarrow> (Inr (), cat(tableName \<mapsto> m\<lparr>mrowCount := rowCount\<rparr>)))"

definition dataTypeToString :: "DataType \<Rightarrow> string" where
  "dataTypeToString dt = (case dt of INT_T \<Rightarrow> ''INT'' | STRING_T \<Rightarrow> ''STRING'')"

definition stringToDataType :: "string \<Rightarrow> DataType res" where
  "stringToDataType s = (if s = ''INT'' then Inr INT_T else if s = ''STRING'' then Inr STRING_T
     else Inl (Runtime_Error (''Unknown DataType: '' @ s)))"

subsection \<open>Saving\<close>

definition column_line :: "Column \<Rightarrow> string" where
  "column_line c = cname c @ '' '' @ dataTypeToString (ctype c) @ '' '' @ show_nat (clength c) @ [newline]"

definition index_line :: "IndexInfo \<Rightarrow> string" where
  "index_line i = iname i @ '' '' @ show_nat (length (icolumns i)) @
     concat (map (\<lambda>col. '' '' @ col) (icolumns i)) @ [newline]"

definition table_text :: "string \<times> TableMeta \<Rightarrow> string" where
  "table_text = (\<lambda>(tableName, m).
     ''TABLE '' @ tableName @ [newline] @
     ''COLUMNS '' @ show_nat (numColumns (mschema m)) @ [newline] @
     concat (map column_line (scolumns (mschema m))) @
     ''INDEXES '' @ show_nat (length (mindexes m)) @ [newline] @
     concat (map index_line (mindexes m)) @
     ''STATS '' @ show_nat (mrowCount m) @ [newline] @
     ''END'' @ [newline])"

definition save_text :: "(string \<times> TableMeta) list \<Rightarrow> string" where
  "save_text entries = concat (map table_text entries)"

subsection \<open>Loading\<close>

text \<open>A line whose success is not checked.\<close>

definition next_line :: "string \<Rightarrow> text_in \<Rightarrow> (string \<times> text_in) res" where
  "next_line line i = Inr (snd (getline line i))"

text \<open>A header line \<open>TAG n\<close>; the tag is not looked at.\<close>

definition header_size :: "string \<Rightarrow> nat res" where
  "header_size line = sized (fst (get_size (snd (get_word (line, False)))))"

definition parse_column :: "string \<Rightarrow> Column res" where
  "parse_column line =
     (case get_word (line, False) of (colName, s) \<Rightarrow>
      case get_word s of (dt, s) \<Rightarrow>
      bindE (stringToDataType dt) (\<lambda>t.
      bindE (sized (fst (get_size s))) (\<lambda>n. Inr \<lparr>cname = colName, ctype = t, clength = n\<rparr>)))"

fun load_columns :: "nat \<Rightarrow> string \<Rightarrow> text_in \<Rightarrow> (Column list \<times> string \<times> text_in) res" where
  "load_columns 0 line i = Inr ([], line, i)"
| "load_columns (Suc n) line i = bindE (next_line line i) (\<lambda>(line, i).
     bindE (parse_column line) (\<lambda>c. bindE (load_columns n line i) (\<lambda>(cs, r). Inr (c # cs, r))))"

fun get_words :: "nat \<Rightarrow> text_in \<Rightarrow> string list" where
  "get_words 0 s = []"
| "get_words (Suc n) s = (case get_word s of (w, s) \<Rightarrow> w # get_words n s)"

definition parse_index :: "string \<Rightarrow> IndexInfo res" where
  "parse_index line =
     (case get_word (line, False) of (idxName, s) \<Rightarrow>
      case get_size s of (cnt, s) \<Rightarrow>
      bindE (sized cnt) (\<lambda>n. Inr \<lparr>iname = idxName, icolumns = get_words n s\<rparr>))"

fun load_indexes :: "nat \<Rightarrow> string \<Rightarrow> text_in \<Rightarrow> (IndexInfo list \<times> string \<times> text_in) res" where
  "load_indexes 0 line i = Inr ([], line, i)"
| "load_indexes (Suc n) line i = bindE (next_line line i) (\<lambda>(line, i).
     bindE (parse_index line) (\<lambda>x. bindE (load_indexes n line i) (\<lambda>(xs, r). Inr (x # xs, r))))"

text \<open>The lines of one table, after its first.\<close>

definition load_table :: "string \<Rightarrow> text_in \<Rightarrow> (TableMeta \<times> text_in) res" where
  "load_table line i =
     bindE (next_line line i) (\<lambda>(line, i).
     bindE (header_size line) (\<lambda>numCols.
     bindE (load_columns numCols line i) (\<lambda>(cols, line, i).
     bindE (new_Schema cols) (\<lambda>schema.
     bindE (next_line line i) (\<lambda>(line, i).
     bindE (header_size line) (\<lambda>numIdx.
     bindE (load_indexes numIdx line i) (\<lambda>(idxs, line, i).
     bindE (next_line line i) (\<lambda>(line, i).
     bindE (header_size line) (\<lambda>rowCount.
     bindE (next_line line i) (\<lambda>(line, i).
       Inr (\<lparr>mschema = schema, mindexes = idxs, mrowCount = rowCount\<rparr>, i)))))))))))"

declare getline.simps [simp del] get_word.simps [simp del] get_size.simps [simp del]

lemma getline_shrinks:
  "getline line i = (ok, line', i') \<Longrightarrow> length (fst i') \<le> length (fst i) \<and> (ok \<longrightarrow> length (fst i') < length (fst i))"
proof (cases i)
  case (Pair rest ended)
  have "length (drop 1 (dropWhile (\<lambda>c. c \<noteq> newline) rest)) < length rest" if "rest \<noteq> []"
    using that length_dropWhile_le [of "\<lambda>c. c \<noteq> newline" rest] by (cases rest) auto
  moreover assume "getline line i = (ok, line', i')"
  ultimately show ?thesis using Pair by (auto simp: getline.simps split: if_splits)
qed

lemma next_line_shrinks: "next_line line i = Inr (line', i') \<Longrightarrow> length (fst i') \<le> length (fst i)"
  using getline_shrinks [of line i] by (cases "getline line i") (auto simp: next_line_def)

lemma load_columns_shrinks:
  "load_columns n line i = Inr (cs, line', i') \<Longrightarrow> length (fst i') \<le> length (fst i)"
proof (induction n arbitrary: line i cs)
  case (Suc n)
  then obtain l j ds where "next_line line i = Inr (l, j)" "load_columns n l j = Inr (ds, line', i')"
    by (auto simp: bindE_eq_Inr)
  with Suc.IH [of l j ds] next_line_shrinks [of line i l j] show ?case by simp
qed simp

lemma load_indexes_shrinks:
  "load_indexes n line i = Inr (xs, line', i') \<Longrightarrow> length (fst i') \<le> length (fst i)"
proof (induction n arbitrary: line i xs)
  case (Suc n)
  then obtain l j ys where "next_line line i = Inr (l, j)" "load_indexes n l j = Inr (ys, line', i')"
    by (auto simp: bindE_eq_Inr)
  with Suc.IH [of l j ys] next_line_shrinks [of line i l j] show ?case by simp
qed simp

lemma load_table_shrinks: "load_table line i = Inr (m, i') \<Longrightarrow> length (fst i') \<le> length (fst i)"
  by (auto simp: load_table_def bindE_eq_Inr dest!: next_line_shrinks load_columns_shrinks load_indexes_shrinks)

function load_loop :: "text_in \<Rightarrow> (catalog, unit) io" where
  "load_loop i cat =
     (case getline [] i of (ok, line, i) \<Rightarrow>
      if \<not> ok then (Inr (), cat)
      else if take 6 line \<noteq> ''TABLE '' then load_loop i cat
      else case load_table line i of
        Inl e \<Rightarrow> (Inl e, cat)
      | Inr (m, i) \<Rightarrow> load_loop i (cat(drop 6 line \<mapsto> m)))"
  by pat_completeness auto
termination
  by (relation "measure (\<lambda>(i, cat). length (fst i))")
    (auto dest!: getline_shrinks [OF sym] load_table_shrinks)

definition load :: "string option \<Rightarrow> (catalog, unit) io" where
  "load file = (\<lambda>cat. case file of None \<Rightarrow> (Inr (), cat) | Some text \<Rightarrow> load_loop (text, False) Map.empty)"
subsection \<open>Reading what was written\<close>

definition word_text :: "string \<Rightarrow> bool" where
  "word_text w \<longleftrightarrow> w \<noteq> [] \<and> (\<forall>c \<in> set w. \<not> isspace c)"

definition ends_word :: "string \<Rightarrow> bool" where
  "ends_word rest \<longleftrightarrow> (case rest of [] \<Rightarrow> True | c # _ \<Rightarrow> isspace c)"

lemma ends_word_simps [simp]: "ends_word []" "ends_word (CHR '' '' # s)"
  by (simp_all add: ends_word_def isspace_def)

lemma isspace_blank [simp]: "isspace CHR '' ''"
  by (simp add: isspace_def)

lemma get_word_blank [simp]: "get_word (CHR '' '' # s, b) = get_word (s, b)"
  by (simp add: get_word.simps)

lemma get_size_blank [simp]: "get_size (CHR '' '' # s, b) = get_size (s, b)"
  by (simp add: get_size.simps)

lemma takeWhile_word: "\<forall>c \<in> set w. P c \<Longrightarrow> (\<And>c cs. rest = c # cs \<Longrightarrow> \<not> P c) \<Longrightarrow>
    takeWhile P (w @ rest) = w \<and> dropWhile P (w @ rest) = rest"
  by (induction w) (cases rest, auto)+

lemma get_word_text:
  assumes "word_text w" "ends_word rest"
  shows "get_word (w @ rest, False) = (w, (rest, False))"
proof -
  obtain c cs where w: "w = c # cs" "\<not> isspace c" using assms(1) by (cases w) (auto simp: word_text_def)
  have "takeWhile (\<lambda>c. \<not> isspace c) (w @ rest) = w \<and> dropWhile (\<lambda>c. \<not> isspace c) (w @ rest) = rest"
    using assms by (intro takeWhile_word) (auto simp: word_text_def ends_word_def)
  then show ?thesis using w by (simp add: get_word.simps)
qed

lemma get_size_text:
  assumes "n < 2 ^ 64" "ends_word rest"
  shows "get_size (show_nat n @ rest, False) = (Some n, (rest, False))"
proof -
  obtain c cs where w: "show_nat n = c # cs" by (cases "show_nat n") auto
  then have d: "isdigit c" by (rule show_nat_hd)
  have "takeWhile isdigit (show_nat n @ rest) = show_nat n \<and> dropWhile isdigit (show_nat n @ rest) = rest"
    using assms(2) by (intro takeWhile_word) (auto simp: show_nat_digits ends_word_def dest: isdigit_not_isspace)
  then have t: "takeWhile isdigit (c # cs @ rest) = c # cs" "dropWhile isdigit (c # cs @ rest) = rest"
    by (simp_all add: w)
  show ?thesis
    using assms(1) d isdigit_not_isspace [OF d] isdigit_neq [OF d] t scan_show_nat [of n]
    by (simp add: get_size.simps w del: takeWhile.simps dropWhile.simps scan_digits.simps)
      (simp add: Let_def)
qed

lemma show_nat_plain: "newline \<notin> set (show_nat n)"
  using show_nat_digits [of newline n] by (auto simp: newline_def isdigit_def)

lemma word_text_plain: "word_text w \<Longrightarrow> newline \<notin> set w"
  by (auto simp: word_text_def newline_def isspace_def)

lemma header_size_text:
  assumes "word_text tag" "n < 2 ^ 64"
  shows "header_size (tag @ CHR '' '' # show_nat n) = Inr n"
  using get_word_text [OF assms(1), of "CHR '' '' # show_nat n"] get_size_text [OF assms(2), of "[]"]
  by (simp add: header_size_def sized_def)

definition column_ok :: "Column \<Rightarrow> bool" where
  "column_ok c \<longleftrightarrow> word_text (cname c) \<and> clength c < 2 ^ 64"

definition index_ok :: "IndexInfo \<Rightarrow> bool" where
  "index_ok i \<longleftrightarrow> word_text (iname i) \<and> list_all word_text (icolumns i) \<and> length (icolumns i) < 2 ^ 64"

definition meta_ok :: "TableMeta \<Rightarrow> bool" where
  "meta_ok m \<longleftrightarrow> schema_ok (mschema m) \<and> list_all column_ok (scolumns (mschema m)) \<and> numColumns (mschema m) < 2 ^ 64 \<and>
     list_all index_ok (mindexes m) \<and> length (mindexes m) < 2 ^ 64 \<and> mrowCount m < 2 ^ 64"

lemma type_word: "word_text (dataTypeToString t)" "stringToDataType (dataTypeToString t) = Inr t"
  by (simp_all add: dataTypeToString_def stringToDataType_def word_text_def isspace_def split: DataType.split)

lemma parse_column_text:
  assumes "column_ok c"
  shows "parse_column (cname c @ CHR '' '' # dataTypeToString (ctype c) @ CHR '' '' # show_nat (clength c)) = Inr c"
proof -
  have c: "word_text (cname c)" "clength c < 2 ^ 64" using assms by (simp_all add: column_ok_def)
  show ?thesis
    using get_word_text [OF c(1), of "CHR '' '' # dataTypeToString (ctype c) @ CHR '' '' # show_nat (clength c)"]
      get_word_text [OF type_word(1), of "CHR '' '' # show_nat (clength c)" "ctype c"] get_size_text [OF c(2), of "[]"]
    by (simp add: parse_column_def type_word(2) sized_def)
qed

lemma get_words_text:
  "list_all word_text ws \<Longrightarrow> get_words (length ws) (concat (map (\<lambda>w. CHR '' '' # w) ws), False) = ws"
proof (induction ws)
  case (Cons w ws)
  have "ends_word (concat (map (\<lambda>w. CHR '' '' # w) ws))" by (cases ws) simp_all
  with Cons show ?case by (simp add: get_word_text)
qed simp

lemma parse_index_text:
  assumes "index_ok i"
  shows "parse_index (iname i @ CHR '' '' # show_nat (length (icolumns i)) @ concat (map (\<lambda>w. CHR '' '' # w) (icolumns i))) = Inr i"
proof -
  have i: "word_text (iname i)" "list_all word_text (icolumns i)" "length (icolumns i) < 2 ^ 64"
    using assms by (simp_all add: index_ok_def)
  have e: "ends_word (concat (map (\<lambda>w. CHR '' '' # w) (icolumns i)))" by (cases "icolumns i") simp_all
  show ?thesis
    using get_word_text [OF i(1), of "CHR '' '' # show_nat (length (icolumns i)) @ concat (map (\<lambda>w. CHR '' '' # w) (icolumns i))"]
      get_size_text [OF i(3) e] get_words_text [OF i(2)]
    by (simp add: parse_index_def sized_def)
qed

lemma next_line_text:
  assumes "newline \<notin> set l"
  shows "getline x (l @ newline # rest, False) = (True, l, (rest, False))"
    and "next_line x (l @ newline # rest, False) = Inr (l, (rest, False))"
proof -
  have "takeWhile (\<lambda>c. c \<noteq> newline) (l @ newline # rest) = l \<and> dropWhile (\<lambda>c. c \<noteq> newline) (l @ newline # rest) = newline # rest"
    using assms by (intro takeWhile_word) auto
  then show "getline x (l @ newline # rest, False) = (True, l, (rest, False))" by (simp add: getline.simps)
  then show "next_line x (l @ newline # rest, False) = Inr (l, (rest, False))" by (simp add: next_line_def)
qed

lemma load_columns_text:
  "list_all column_ok cs \<Longrightarrow> \<exists>l. load_columns (length cs) x (concat (map column_line cs) @ rest, False) = Inr (cs, l, (rest, False))"
proof (induction cs arbitrary: x)
  case (Cons c cs)
  let ?l = "cname c @ CHR '' '' # dataTypeToString (ctype c) @ CHR '' '' # show_nat (clength c)"
  have "newline \<notin> set ?l"
    using Cons.prems word_text_plain type_word(1) show_nat_plain by (auto simp: column_ok_def) (simp add: newline_def)+
  note n = next_line_text(2) [OF this, of x "concat (map column_line cs) @ rest"]
  from Cons obtain l where "load_columns (length cs) ?l (concat (map column_line cs) @ rest, False) = Inr (cs, l, (rest, False))"
    by fastforce
  with n parse_column_text [of c] Cons.prems show ?case by (simp add: column_line_def [of c])
qed simp

lemma load_indexes_text:
  "list_all index_ok xs \<Longrightarrow> \<exists>l. load_indexes (length xs) x (concat (map index_line xs) @ rest, False) = Inr (xs, l, (rest, False))"
proof (induction xs arbitrary: x)
  case (Cons i xs)
  let ?l = "iname i @ CHR '' '' # show_nat (length (icolumns i)) @ concat (map (\<lambda>w. CHR '' '' # w) (icolumns i))"
  have "newline \<notin> set ?l"
    using Cons.prems word_text_plain show_nat_plain
    by (auto simp: index_ok_def list_all_iff) (simp_all add: newline_def)
  note n = next_line_text(2) [OF this, of x "concat (map index_line xs) @ rest"]
  from Cons obtain l where "load_indexes (length xs) ?l (concat (map index_line xs) @ rest, False) = Inr (xs, l, (rest, False))"
    by fastforce
  with n parse_index_text [of i] Cons.prems show ?case by (simp add: index_line_def [of i])
qed simp
lemma load_table_text:
  assumes "meta_ok m"
  shows "load_table x (''COLUMNS '' @ show_nat (numColumns (mschema m)) @ newline # concat (map column_line (scolumns (mschema m))) @
      ''INDEXES '' @ show_nat (length (mindexes m)) @ newline # concat (map index_line (mindexes m)) @
      ''STATS '' @ show_nat (mrowCount m) @ newline # ''END'' @ newline # rest, False) = Inr (m, (rest, False))"
proof -
  have m: "schema_ok (mschema m)" "list_all column_ok (scolumns (mschema m))" "numColumns (mschema m) < 2 ^ 64"
    "list_all index_ok (mindexes m)" "length (mindexes m) < 2 ^ 64" "mrowCount m < 2 ^ 64"
    using assms by (simp_all add: meta_ok_def)
  have line: "next_line x ((tag @ CHR '' '' # show_nat n) @ newline # r, False) = Inr (tag @ CHR '' '' # show_nat n, (r, False))"
    if "tag \<in> {''COLUMNS'', ''INDEXES'', ''STATS''}" for x tag n r
    by (rule next_line_text(2)) (use that show_nat_plain in \<open>auto simp: newline_def\<close>)
  have tag: "word_text ''COLUMNS''" "word_text ''INDEXES''" "word_text ''STATS''" by (simp_all add: word_text_def isspace_def)
  let ?r3 = "''END'' @ newline # rest"
  let ?r2 = "concat (map index_line (mindexes m)) @ ''STATS'' @ CHR '' '' # show_nat (mrowCount m) @ newline # ?r3"
  let ?r1 = "concat (map column_line (scolumns (mschema m))) @ ''INDEXES'' @ CHR '' '' # show_nat (length (mindexes m)) @ newline # ?r2"
  obtain l1 where l1: "load_columns (numColumns (mschema m)) (''COLUMNS'' @ CHR '' '' # show_nat (numColumns (mschema m))) (?r1, False) =
      Inr (scolumns (mschema m), l1, (''INDEXES'' @ CHR '' '' # show_nat (length (mindexes m)) @ newline # ?r2, False))"
    using load_columns_text [OF m(2)] by (metis numColumns_def)
  obtain l2 where l2: "load_indexes (length (mindexes m)) (''INDEXES'' @ CHR '' '' # show_nat (length (mindexes m))) (?r2, False) =
      Inr (mindexes m, l2, (''STATS'' @ CHR '' '' # show_nat (mrowCount m) @ newline # ?r3, False))"
    using load_indexes_text [OF m(4)] by metis
  have sch: "new_Schema (scolumns (mschema m)) = Inr (mschema m)" using m(1) by (simp add: new_Schema_ok)
  have "newline \<notin> set ''END''" by (simp add: newline_def)
  note fin = next_line_text(2) [OF this, of "''STATS'' @ CHR '' '' # show_nat (mrowCount m)" rest]
  show ?thesis
    using line [of "''COLUMNS''" x "numColumns (mschema m)" ?r1] line [of "''INDEXES''" l1 "length (mindexes m)" ?r2]
      line [of "''STATS''" l2 "mrowCount m" ?r3] l1 l2 sch fin
      header_size_text [OF tag(1) m(3)] header_size_text [OF tag(2) m(5)] header_size_text [OF tag(3) m(6)]
    by (simp add: load_table_def)
qed

declare load_loop.simps [simp del]

lemma load_loop_text:
  "list_all (\<lambda>(n, m). newline \<notin> set n \<and> meta_ok m) entries \<Longrightarrow>
     load_loop (save_text entries, False) cat = (Inr (), cat ++ map_of (rev entries))"
proof (induction entries arbitrary: cat)
  case Nil
  then show ?case by (simp add: save_text_def load_loop.simps [of "([], False)"] getline.simps)
next
  case (Cons e entries)
  obtain n m where e: "e = (n, m)" by force
  with Cons.prems have n: "newline \<notin> set (''TABLE '' @ n)" and m: "meta_ok m"
    by (auto simp: newline_def)
  let ?body = "''COLUMNS '' @ show_nat (numColumns (mschema m)) @ newline # concat (map column_line (scolumns (mschema m))) @
      ''INDEXES '' @ show_nat (length (mindexes m)) @ newline # concat (map index_line (mindexes m)) @
      ''STATS '' @ show_nat (mrowCount m) @ newline # ''END'' @ newline # save_text entries"
  have saved: "save_text (e # entries) = (''TABLE '' @ n) @ newline # ?body"
    by (simp add: save_text_def table_text_def e)
  have "load_loop ((''TABLE '' @ n) @ newline # ?body, False) cat = load_loop (save_text entries, False) (cat(n \<mapsto> m))"
    using load_table_text [OF m, of "''TABLE '' @ n" "save_text entries"]
    by (subst load_loop.simps) (simp add: next_line_text(1) [OF n, simplified])
  also have "\<dots> = (Inr (), cat(n \<mapsto> m) ++ map_of (rev entries))"
    using Cons by simp
  also have "cat(n \<mapsto> m) ++ map_of (rev entries) = cat ++ map_of (rev (e # entries))" by (simp add: e)
  finally show ?case by (simp only: saved)
qed

subsection \<open>Properties\<close>

text \<open>
  C16: The catalog file can be read back: whatever order the tables were saved in, loading the file gives
  the catalog that was saved, if table names have no line break, column and index names are words, and
  numbers fit their type. What the catalog held before the load is gone.
\<close>

theorem catalog_roundtrip:
  assumes "map_of entries = cat" "distinct (map fst entries)"
    "\<forall>n m. cat n = Some m \<longrightarrow> newline \<notin> set n \<and> meta_ok m"
  shows "load (Some (save_text entries)) old = (Inr (), cat)"
proof -
  have "list_all (\<lambda>(n, m). newline \<notin> set n \<and> meta_ok m) entries"
    using assms by (auto simp: list_all_iff)
  moreover have "map_of (rev entries) = cat" using assms(1,2) by (auto simp: map_of_inject_set rev_map [symmetric])
  ultimately show ?thesis by (simp add: load_def load_loop_text)
qed

definition ex_meta :: TableMeta where
  "ex_meta = \<lparr>mschema = ex_schema, mindexes = [\<lparr>iname = ''pk'', icolumns = [''id'', ''name'']\<rparr>], mrowCount = 42\<rparr>"

theorem catalog_roundtrip_witness:
  "load (Some (save_text [(''my table'', ex_meta)])) Map.empty = (Inr (), [''my table'' \<mapsto> ex_meta])"
proof (rule catalog_roundtrip)
  show "\<forall>n m. [''my table'' \<mapsto> ex_meta] n = Some m \<longrightarrow> newline \<notin> set n \<and> meta_ok m"
    using ex_schema_ok(2)
    by (simp add: meta_ok_def ex_meta_def index_ok_def column_ok_def numColumns_def ex_schema_def ex_cols_def word_text_def
        isspace_def newline_def)
qed simp_all

end
