(* ===== verification/Ast.thy ===== *)
theory Ast
  imports Text
begin

section \<open>Abstract syntax\<close>

text \<open>
  \<open>catalog/AST.h\<close>: the expressions and statements that the parser builds and the binder checks. The
  tagged struct \<open>Expr\<close> is a datatype with one constructor per tag, the fields that belong to the tag
  as its arguments; a null pointer is \<open>None\<close>; the root, of which exactly one pointer is set, is the
  union of the statements.
\<close>

datatype Expr =
    Column_Ref string
  | Int_Literal int32
  | Str_Literal string
  | Binary_Op string Expr Expr
  | Function_Call string "Expr list"

record SelectStmt =
  selectList :: "Expr list"
  sel_tables :: "string list"
  sel_where :: "Expr option"

record InsertStmt =
  ins_table :: string
  ins_columns :: "string list"
  ins_values :: "Expr list"

record UpdateStmt =
  upd_table :: string
  assignments :: "(string \<times> Expr) list"
  upd_where :: "Expr option"

record DeleteStmt =
  del_table :: string
  del_where :: "Expr option"

record CreateTableStmt =
  cre_table :: string
  cre_columns :: "(string \<times> string \<times> int32) list"

datatype AST =
    Select SelectStmt
  | Insert InsertStmt
  | Update UpdateStmt
  | Delete DeleteStmt
  | Create_Table CreateTableStmt
  | Begin
  | Commit

end
