(* ===== verification/Evaluator.thy ===== *)
theory Evaluator
  imports Ast RecordFormat "HOL-Library.Signed_Division"
begin

section \<open>Functions and expressions\<close>

text \<open>
  \<open>functionRegistry/FunctionRegistry\<close>: user-defined functions by upper-case name. A function is a
  parameter of the model, from argument lists to a value or an exception; it is taken to have no side
  effect. \<open>physicalOperator/expressionEvaluator/ExpressionEvaluator\<close>: the value of an expression on a
  row, with the positions of the columns. Overflow of \<open>int\<close>, a division that has no result and a
  position outside the row are undefined behaviour.
\<close>

subsection \<open>The registry\<close>

type_synonym udf = "FieldValue list \<Rightarrow> FieldValue res"

type_synonym registry = "string \<rightharpoonup> udf"

definition normalize :: "string \<Rightarrow> string" where
  "normalize s = map toupper s"

definition registerFunction :: "string \<Rightarrow> udf \<Rightarrow> (registry, unit) io" where
  "registerFunction name f = modifyM (\<lambda>reg. reg(normalize name \<mapsto> f))"

definition hasFunction :: "registry \<Rightarrow> string \<Rightarrow> bool" where
  "hasFunction reg name \<longleftrightarrow> reg (normalize name) \<noteq> None"

definition getFunction :: "registry \<Rightarrow> string \<Rightarrow> udf res" where
  "getFunction reg name = (case reg (normalize name) of
     None \<Rightarrow> Inl (Runtime_Error (''Unknown function: '' @ name)) | Some f \<Rightarrow> Inr f)"

lemma registry_case_insensitive:
  "registerFunction name f reg = (Inr (), reg') \<Longrightarrow> getFunction reg' (map toupper name) = Inr f"
  by (auto simp: registerFunction_def getFunction_def normalize_def toupper_idem comp_def)

subsection \<open>Evaluation\<close>

definition of_bool32 :: "bool \<Rightarrow> FieldValue" where
  "of_bool32 b = FInt (if b then 1 else 0)"

text \<open>The result of \<open>int\<close> arithmetic, if it fits.\<close>

definition int_result :: "int \<Rightarrow> FieldValue res" where
  "int_result i = (if - (2 ^ 31) \<le> i \<and> i < 2 ^ 31 then Inr (FInt (word_of_int i))
                   else Inl (Undefined_Behaviour ''integer overflow''))"

text \<open>The operators on two integers and on two strings; \<open>None\<close> when none applies.\<close>

definition int_op :: "string \<Rightarrow> int \<Rightarrow> int \<Rightarrow> FieldValue res option" where
  "int_op op lv rv =
     (if op = ''+'' then Some (int_result (lv + rv))
      else if op = ''-'' then Some (int_result (lv - rv))
      else if op = ''*'' then Some (int_result (lv * rv))
      else if op = ''/'' then Some (if rv = 0 then Inl (Undefined_Behaviour ''division by zero'') else int_result (lv sdiv rv))
      else if op = ''='' then Some (Inr (of_bool32 (lv = rv)))
      else if op = ''<>'' then Some (Inr (of_bool32 (lv \<noteq> rv)))
      else if op = ''<'' then Some (Inr (of_bool32 (lv < rv)))
      else if op = ''>'' then Some (Inr (of_bool32 (lv > rv)))
      else if op = ''<='' then Some (Inr (of_bool32 (lv \<le> rv)))
      else if op = ''>='' then Some (Inr (of_bool32 (lv \<ge> rv)))
      else None)"

definition string_op :: "string \<Rightarrow> string \<Rightarrow> string \<Rightarrow> FieldValue res option" where
  "string_op op ls rs =
     (if op = ''='' then Some (Inr (of_bool32 (ls = rs)))
      else if op = ''<>'' then Some (Inr (of_bool32 (ls \<noteq> rs)))
      else if op = ''<'' then Some (Inr (of_bool32 (ls < rs)))
      else if op = ''>'' then Some (Inr (of_bool32 (ls > rs)))
      else if op = ''<='' then Some (Inr (of_bool32 (ls \<le> rs)))
      else if op = ''>='' then Some (Inr (of_bool32 (ls \<ge> rs)))
      else None)"

definition value_op :: "string \<Rightarrow> FieldValue \<Rightarrow> FieldValue \<Rightarrow> FieldValue res option" where
  "value_op op l r = (case (l, r) of
     (FInt a, FInt b) \<Rightarrow> int_op op (sint a) (sint b)
   | (FStr a, FStr b) \<Rightarrow> string_op op a b
   | _ \<Rightarrow> None)"

text \<open>The test at the end of \<open>evalBoolean\<close>.\<close>

definition truth :: "FieldValue \<Rightarrow> bool res" where
  "truth v = (case v of FInt i \<Rightarrow> Inr (i \<noteq> 0) | FStr _ \<Rightarrow> Inl (Runtime_Error ''Non-boolean result in predicate eval''))"

function (sequential) eval :: "registry \<Rightarrow> FieldValue list \<Rightarrow> (string \<rightharpoonup> int) \<Rightarrow> Expr \<Rightarrow> FieldValue res"
  and evalBoolean :: "registry \<Rightarrow> FieldValue list \<Rightarrow> (string \<rightharpoonup> int) \<Rightarrow> Expr \<Rightarrow> bool res"
  and eval_args :: "registry \<Rightarrow> FieldValue list \<Rightarrow> (string \<rightharpoonup> int) \<Rightarrow> Expr list \<Rightarrow> FieldValue list res" where
  "eval reg row colIdx (Int_Literal i) = Inr (FInt i)"
| "eval reg row colIdx (Str_Literal s) = Inr (FStr s)"
| "eval reg row colIdx (Column_Ref c) = (case colIdx c of
     None \<Rightarrow> Inl (Runtime_Error (''Unknown column in eval: '' @ c)) | Some i \<Rightarrow> field_at row i)"
| "eval reg row colIdx (Binary_Op op le ri) =
     bindE (eval reg row colIdx le) (\<lambda>l.
     bindE (eval reg row colIdx ri) (\<lambda>r.
     case value_op op l r of
       Some res \<Rightarrow> res
     | None \<Rightarrow>
         if op = ''AND'' then
           bindE (evalBoolean reg row colIdx le) (\<lambda>a.
             if \<not> a then Inr (of_bool32 False)
             else bindE (evalBoolean reg row colIdx ri) (\<lambda>b. Inr (of_bool32 b)))
         else if op = ''OR'' then
           bindE (evalBoolean reg row colIdx le) (\<lambda>a.
             if a then Inr (of_bool32 True)
             else bindE (evalBoolean reg row colIdx ri) (\<lambda>b. Inr (of_bool32 b)))
         else Inl (Runtime_Error (''Unsupported operator in eval: '' @ op))))"
| "eval reg row colIdx (Function_Call f args) =
     bindE (eval_args reg row colIdx args) (\<lambda>vs. bindE (getFunction reg f) (\<lambda>udf. udf vs))"
| "evalBoolean reg row colIdx e = bindE (eval reg row colIdx e) truth"
| "eval_args reg row colIdx [] = Inr []"
| "eval_args reg row colIdx (e # es) =
     bindE (eval reg row colIdx e) (\<lambda>v. bindE (eval_args reg row colIdx es) (\<lambda>vs. Inr (v # vs)))"
  by pat_completeness auto
termination
  by (relation "measure (case_sum (\<lambda>(reg, row, ci, e). 2 * size e)
      (case_sum (\<lambda>(reg, row, ci, e). 2 * size e + 1) (\<lambda>(reg, row, ci, es). 2 * size_list size es)))") auto

end
