(* ===== verification/Binder.thy ===== *)
theory Binder
  imports Catalog Evaluator
begin

section \<open>The binder\<close>

text \<open>
  \<open>binder/Binder\<close>: names in a statement are resolved against the catalog and operands of comparisons are
  checked for their types. The statement is rewritten in place; it is returned here, and an exception
  drops it with the exception's unwinding. The catalog is read only.
\<close>

subsection \<open>Names\<close>

text \<open>The parts of a name before and after its first dot; without a dot both are the name.\<close>

definition before_dot :: "string \<Rightarrow> string" where
  "before_dot s = takeWhile (\<lambda>c. c \<noteq> CHR ''.'') s"

definition after_dot :: "string \<Rightarrow> string" where
  "after_dot s = (if CHR ''.'' \<in> set s then drop 1 (dropWhile (\<lambda>c. c \<noteq> CHR ''.'') s) else s)"

definition qual_name :: "string \<Rightarrow> string \<Rightarrow> string" where
  "qual_name t c = t @ ''.'' @ c"

text \<open>
  The search of an unqualified name. The exception for a second match is thrown inside the block that
  catches everything, so the first match stays.
\<close>

fun search_tables :: "catalog \<Rightarrow> string \<Rightarrow> string list \<Rightarrow> string \<Rightarrow> string" where
  "search_tables cat col [] found = found"
| "search_tables cat col (t # ts) found =
     search_tables cat col ts
       (case getColumnInfo cat t col of
          Inl _ \<Rightarrow> found
        | Inr _ \<Rightarrow> if found \<noteq> [] then found else qual_name t col)"

definition qualifyColumn :: "catalog \<Rightarrow> string list \<Rightarrow> string \<Rightarrow> string res" where
  "qualifyColumn cat tables col =
     (if CHR ''.'' \<in> set col then
        bindE (getTable cat (before_dot col)) (\<lambda>_.
        bindE (getColumnInfo cat (before_dot col) (after_dot col)) (\<lambda>_.
          Inr (qual_name (before_dot col) (after_dot col))))
      else
        let found = search_tables cat col tables [] in
        if found = [] then Inl (Runtime_Error (''Column not found: '' @ col)) else Inr found)"

fun resolveColumnsInExpr :: "catalog \<Rightarrow> registry \<Rightarrow> string list \<Rightarrow> Expr \<Rightarrow> Expr res"
  and resolve_args :: "catalog \<Rightarrow> registry \<Rightarrow> string list \<Rightarrow> Expr list \<Rightarrow> Expr list res" where
  "resolveColumnsInExpr cat reg tables (Column_Ref c) = bindE (qualifyColumn cat tables c) (\<lambda>q. Inr (Column_Ref q))"
| "resolveColumnsInExpr cat reg tables (Binary_Op op l r) =
     bindE (resolveColumnsInExpr cat reg tables l) (\<lambda>l.
     bindE (resolveColumnsInExpr cat reg tables r) (\<lambda>r. Inr (Binary_Op op l r)))"
| "resolveColumnsInExpr cat reg tables (Function_Call f args) =
     bindE (resolve_args cat reg tables args) (\<lambda>args.
       if hasFunction reg f then Inr (Function_Call f args) else Inl (Runtime_Error (''Unknown function: '' @ f)))"
| "resolveColumnsInExpr cat reg tables (Int_Literal i) = Inr (Int_Literal i)"
| "resolveColumnsInExpr cat reg tables (Str_Literal s) = Inr (Str_Literal s)"
| "resolve_args cat reg tables [] = Inr []"
| "resolve_args cat reg tables (e # es) =
     bindE (resolveColumnsInExpr cat reg tables e) (\<lambda>e. bindE (resolve_args cat reg tables es) (\<lambda>es. Inr (e # es)))"

subsection \<open>Types\<close>

text \<open>The lambda \<open>getType\<close>.\<close>

fun expr_type :: "catalog \<Rightarrow> Expr \<Rightarrow> DataType res" where
  "expr_type cat (Int_Literal i) = Inr INT_T"
| "expr_type cat (Str_Literal s) = Inr STRING_T"
| "expr_type cat (Column_Ref c) = bindE (getColumnInfo cat (before_dot c) (after_dot c)) (\<lambda>col. Inr (ctype col))"
| "expr_type cat _ = Inl (Runtime_Error ''Invalid expression in type checking'')"

definition comparison :: "string \<Rightarrow> bool" where
  "comparison op \<longleftrightarrow> op \<in> {''='', ''<>'', ''<'', ''>'', ''<='', ''>=''}"

fun typeCheckExpr :: "catalog \<Rightarrow> Expr \<Rightarrow> unit res" and typeCheck_args :: "catalog \<Rightarrow> Expr list \<Rightarrow> unit res" where
  "typeCheckExpr cat (Binary_Op op l r) =
     bindE (typeCheckExpr cat l) (\<lambda>_.
     bindE (typeCheckExpr cat r) (\<lambda>_.
     bindE (expr_type cat l) (\<lambda>lt.
     bindE (expr_type cat r) (\<lambda>rt.
       if comparison op then
         if lt \<noteq> rt then Inl (Runtime_Error (''Type mismatch in comparison: '' @ op)) else Inr ()
       else if op = ''AND'' \<or> op = ''OR'' then Inr ()
       else Inl (Runtime_Error (''Unsupported operator in WHERE: '' @ op))))))"
| "typeCheckExpr cat (Function_Call f args) = typeCheck_args cat args"
| "typeCheckExpr cat e = Inr ()"
| "typeCheck_args cat [] = Inr ()"
| "typeCheck_args cat (e # es) = bindE (typeCheckExpr cat e) (\<lambda>_. typeCheck_args cat es)"

subsection \<open>Statements\<close>

definition column_refs :: "string \<Rightarrow> Schema \<Rightarrow> Expr list" where
  "column_refs t schema = map (\<lambda>c. Column_Ref (t @ ''.'' @ cname c)) (scolumns schema)"

fun star_columns :: "catalog \<Rightarrow> string list \<Rightarrow> Expr list res" where
  "star_columns cat [] = Inr []"
| "star_columns cat (t # ts) =
     bindE (getTable cat t) (\<lambda>schema. bindE (star_columns cat ts) (\<lambda>es. Inr (column_refs t schema @ es)))"

fun expandStar :: "catalog \<Rightarrow> string list \<Rightarrow> Expr list \<Rightarrow> Expr list res" where
  "expandStar cat tables [] = Inr []"
| "expandStar cat tables (e # es) =
     bindE (if e = Column_Ref ''*'' then star_columns cat tables else Inr [e]) (\<lambda>xs.
     bindE (expandStar cat tables es) (\<lambda>ys. Inr (xs @ ys)))"

definition bind_expr :: "catalog \<Rightarrow> registry \<Rightarrow> string list \<Rightarrow> Expr \<Rightarrow> Expr res" where
  "bind_expr cat reg tables e =
     bindE (resolveColumnsInExpr cat reg tables e) (\<lambda>e. bindE (typeCheckExpr cat e) (\<lambda>_. Inr e))"

fun bind_list :: "catalog \<Rightarrow> registry \<Rightarrow> string list \<Rightarrow> Expr list \<Rightarrow> Expr list res" where
  "bind_list cat reg tables [] = Inr []"
| "bind_list cat reg tables (e # es) =
     bindE (bind_expr cat reg tables e) (\<lambda>e. bindE (bind_list cat reg tables es) (\<lambda>es. Inr (e # es)))"

definition bind_where :: "catalog \<Rightarrow> registry \<Rightarrow> string list \<Rightarrow> Expr option \<Rightarrow> Expr option res" where
  "bind_where cat reg tables w = (case w of None \<Rightarrow> Inr None
     | Some e \<Rightarrow> bindE (bind_expr cat reg tables e) (\<lambda>e. Inr (Some e)))"

fun check_tables :: "catalog \<Rightarrow> string list \<Rightarrow> unit res" where
  "check_tables cat [] = Inr ()"
| "check_tables cat (t # ts) = bindE (getTable cat t) (\<lambda>_. check_tables cat ts)"

definition bindSelect :: "catalog \<Rightarrow> registry \<Rightarrow> SelectStmt \<Rightarrow> SelectStmt res" where
  "bindSelect cat reg stmt =
     (if sel_tables stmt = [] then Inl (Runtime_Error ''SELECT requires at least one table'')
      else
        bindE (check_tables cat (sel_tables stmt)) (\<lambda>_.
        bindE (expandStar cat (sel_tables stmt) (selectList stmt)) (\<lambda>es.
        bindE (bind_list cat reg (sel_tables stmt) es) (\<lambda>es.
        bindE (bind_where cat reg (sel_tables stmt) (sel_where stmt)) (\<lambda>w.
          Inr (stmt\<lparr>selectList := es, sel_where := w\<rparr>))))))"

fun check_insert :: "catalog \<Rightarrow> string \<Rightarrow> string list \<Rightarrow> Expr list \<Rightarrow> unit res" where
  "check_insert cat table (colName # cols) (e # es) =
     bindE (getColumnInfo cat table colName) (\<lambda>col.
       if (case e of Column_Ref _ \<Rightarrow> True | _ \<Rightarrow> False)
       then Inl (Runtime_Error ''INSERT VALUES must be literals or expressions, not column refs'')
       else if (ctype col = INT_T \<and> (case e of Int_Literal _ \<Rightarrow> False | _ \<Rightarrow> True)) \<or>
         (ctype col = STRING_T \<and> (case e of Str_Literal _ \<Rightarrow> False | _ \<Rightarrow> True))
       then Inl (Runtime_Error (''Type mismatch for column '' @ colName))
       else check_insert cat table cols es)"
| "check_insert cat table _ _ = Inr ()"

definition bindInsert :: "catalog \<Rightarrow> InsertStmt \<Rightarrow> InsertStmt res" where
  "bindInsert cat stmt =
     bindE (getTable cat (ins_table stmt)) (\<lambda>schema.
     let cols = (if ins_columns stmt = [] then map cname (scolumns schema) else ins_columns stmt) in
     if length (ins_values stmt) \<noteq> length cols
     then Inl (Runtime_Error ''Column count does not match VALUES count'')
     else bindE (check_insert cat (ins_table stmt) cols (ins_values stmt)) (\<lambda>_. Inr (stmt\<lparr>ins_columns := cols\<rparr>)))"

fun bind_assignments :: "catalog \<Rightarrow> registry \<Rightarrow> string \<Rightarrow> (string \<times> Expr) list \<Rightarrow> (string \<times> Expr) list res" where
  "bind_assignments cat reg table [] = Inr []"
| "bind_assignments cat reg table ((colName, e) # as) =
     bindE (getColumnInfo cat table colName) (\<lambda>col.
     bindE (bind_expr cat reg [table] e) (\<lambda>e.
       if ((case e of Int_Literal _ \<Rightarrow> True | _ \<Rightarrow> False) \<and> ctype col \<noteq> INT_T) \<or>
         ((case e of Str_Literal _ \<Rightarrow> True | _ \<Rightarrow> False) \<and> ctype col \<noteq> STRING_T)
       then Inl (Runtime_Error (''Type mismatch for column '' @ colName))
       else bindE (bind_assignments cat reg table as) (\<lambda>as. Inr ((colName, e) # as))))"

definition bindUpdate :: "catalog \<Rightarrow> registry \<Rightarrow> UpdateStmt \<Rightarrow> UpdateStmt res" where
  "bindUpdate cat reg stmt =
     bindE (getTable cat (upd_table stmt)) (\<lambda>_.
     bindE (bind_assignments cat reg (upd_table stmt) (assignments stmt)) (\<lambda>as.
     bindE (bind_where cat reg [upd_table stmt] (upd_where stmt)) (\<lambda>w.
       Inr (stmt\<lparr>assignments := as, upd_where := w\<rparr>))))"

definition bindDelete :: "catalog \<Rightarrow> registry \<Rightarrow> DeleteStmt \<Rightarrow> DeleteStmt res" where
  "bindDelete cat reg stmt =
     bindE (getTable cat (del_table stmt)) (\<lambda>_.
     bindE (bind_where cat reg [del_table stmt] (del_where stmt)) (\<lambda>w. Inr (stmt\<lparr>del_where := w\<rparr>)))"

definition bind_statement :: "catalog \<Rightarrow> registry \<Rightarrow> AST \<Rightarrow> AST res" where
  "bind_statement cat reg ast = (case ast of
     Select s \<Rightarrow> bindE (bindSelect cat reg s) (\<lambda>s. Inr (Select s))
   | Insert s \<Rightarrow> bindE (bindInsert cat s) (\<lambda>s. Inr (Insert s))
   | Update s \<Rightarrow> bindE (bindUpdate cat reg s) (\<lambda>s. Inr (Update s))
   | Delete s \<Rightarrow> bindE (bindDelete cat reg s) (\<lambda>s. Inr (Delete s))
   | _ \<Rightarrow> Inr ast)"
subsection \<open>Bound expressions\<close>

definition leaf :: "Expr \<Rightarrow> bool" where
  "leaf e \<longleftrightarrow> (case e of Binary_Op _ _ _ \<Rightarrow> False | Function_Call _ _ \<Rightarrow> False | _ \<Rightarrow> True)"

lemma expr_type_leaf: "expr_type cat e = Inr t \<Longrightarrow> leaf e"
  by (cases e) (simp_all add: leaf_def)

text \<open>Only literals and columns can stand beside an operator.\<close>

lemma checked_operands:
  "typeCheckExpr cat (Binary_Op op l r) = Inr () \<Longrightarrow> leaf l \<and> leaf r \<and> (comparison op \<or> op = ''AND'' \<or> op = ''OR'') \<and>
     (\<exists>lt rt. expr_type cat l = Inr lt \<and> expr_type cat r = Inr rt \<and> (comparison op \<longrightarrow> lt = rt))"
  by (auto simp: bindE_eq_Inr dest: expr_type_leaf split: if_splits)

fun no_calls :: "Expr \<Rightarrow> bool" where
  "no_calls (Function_Call f args) = False"
| "no_calls (Binary_Op op l r) = (no_calls l \<and> no_calls r)"
| "no_calls _ = True"

fun columns :: "Expr \<Rightarrow> string list" where
  "columns (Column_Ref c) = [c]"
| "columns (Binary_Op op l r) = columns l @ columns r"
| "columns _ = []"

fun value_type :: "FieldValue \<Rightarrow> DataType" where
  "value_type (FInt i) = INT_T"
| "value_type (FStr s) = STRING_T"

text \<open>The columns of a row are where the position map says, with the types of the catalog.\<close>

definition row_fits :: "catalog \<Rightarrow> (string \<rightharpoonup> int) \<Rightarrow> FieldValue list \<Rightarrow> string \<Rightarrow> bool" where
  "row_fits cat colIdx row c \<longleftrightarrow> (\<exists>t i v. expr_type cat (Column_Ref c) = Inr t \<and> colIdx c = Some i \<and>
     field_at row i = Inr v \<and> value_type v = t)"

lemma eval_leaf:
  assumes "leaf e" "list_all (row_fits cat colIdx row) (columns e)"
  shows "\<exists>v. eval reg row colIdx e = Inr v \<and> expr_type cat e = Inr (value_type v)"
proof (cases e)
  case (Column_Ref c)
  with assms(2) have "row_fits cat colIdx row c" by simp
  then obtain t i v where "expr_type cat (Column_Ref c) = Inr t" "colIdx c = Some i" "field_at row i = Inr v" "value_type v = t"
    unfolding row_fits_def by blast
  then show ?thesis by (simp add: Column_Ref del: expr_type.simps)
qed (use assms(1) in \<open>simp_all add: leaf_def\<close>)

lemma value_op_comparison:
  "comparison op \<Longrightarrow> value_type l = value_type r \<Longrightarrow> \<exists>b. value_op op l r = Some (Inr (of_bool32 b))"
proof -
  assume c: "comparison op" and t: "value_type l = value_type r"
  have i: "\<exists>b. int_op op x y = Some (Inr (of_bool32 b))" for x y
    using c unfolding comparison_def insert_iff empty_iff by (elim disjE) (auto simp: int_op_def)
  have s: "\<exists>b. string_op op x y = Some (Inr (of_bool32 b))" for x y
    using c unfolding comparison_def insert_iff empty_iff by (elim disjE) (auto simp: string_op_def)
  show ?thesis
  proof (cases l)
    case (FInt a)
    with t obtain b where "r = FInt b" by (cases r) simp_all
    with FInt i [of "sint a" "sint b"] show ?thesis by (simp only: value_op_def prod.case FieldValue.case)
  next
    case (FStr a)
    with t obtain b where "r = FStr b" by (cases r) simp_all
    with FStr s [of a b] show ?thesis by (simp only: value_op_def prod.case FieldValue.case)
  qed
qed

lemma value_op_logic: "op = ''AND'' \<or> op = ''OR'' \<Longrightarrow> value_op op l r = None"
proof -
  assume op: "op = ''AND'' \<or> op = ''OR''"
  have "int_op op x y = None" for x y using op by (elim disjE) (simp_all add: int_op_def)
  moreover have "string_op op x y = None" for x y using op by (elim disjE) (simp_all add: string_op_def)
  ultimately show ?thesis by (cases l; cases r) (simp_all only: value_op_def prod.case FieldValue.case)
qed

lemma truth_of_bool32 [simp]: "truth (of_bool32 b) = Inr b"
  by (simp add: truth_def of_bool32_def)

definition non_boolean :: error where
  "non_boolean = Runtime_Error ''Non-boolean result in predicate eval''"

lemma truth_cases: "(\<exists>b. truth v = Inr b) \<or> (truth v = Inl non_boolean \<and> value_type v = STRING_T)"
  by (cases v) (simp_all add: truth_def non_boolean_def)

text \<open>What a checked predicate can evaluate to.\<close>

definition predicate_result :: "catalog \<Rightarrow> Expr \<Rightarrow> bool res \<Rightarrow> bool" where
  "predicate_result cat e r \<longleftrightarrow> (\<exists>b. r = Inr b) \<or> (r = Inl non_boolean \<and>
     (case e of Binary_Op op a b \<Rightarrow> \<not> comparison op \<and> (expr_type cat a = Inr STRING_T \<or> expr_type cat b = Inr STRING_T)
      | _ \<Rightarrow> expr_type cat e = Inr STRING_T))"

lemma checked_predicate:
  assumes chk: "typeCheckExpr cat e = Inr ()" and calls: "no_calls e"
    and fits: "list_all (row_fits cat colIdx row) (columns e)"
  shows "predicate_result cat e (evalBoolean reg row colIdx e)"
proof (cases "leaf e")
  case True
  then obtain v where v: "eval reg row colIdx e = Inr v" "expr_type cat e = Inr (value_type v)"
    using eval_leaf fits by blast
  with True truth_cases [of v] show ?thesis
    by (cases e) (auto simp: predicate_result_def leaf_def simp del: expr_type.simps)
next
  case False
  with calls obtain op l r where e: "e = Binary_Op op l r" by (cases e) (auto simp: leaf_def)
  note c = checked_operands [OF chk [unfolded e]]
  obtain v w where v: "eval reg row colIdx l = Inr v" "expr_type cat l = Inr (value_type v)"
    and w: "eval reg row colIdx r = Inr w" "expr_type cat r = Inr (value_type w)"
    using eval_leaf c fits e by (metis columns.simps(2) list_all_append)
  show ?thesis
  proof (cases "comparison op")
    case True
    with c v(2) w(2) have "value_type v = value_type w" by simp
    from value_op_comparison [OF True this] v(1) w(1) show ?thesis
      by (auto simp: e predicate_result_def)
  next
    case False
    with c have op: "op = ''AND'' \<or> op = ''OR''" by simp
    note none = value_op_logic [OF op, of v w]
    have str: "expr_type cat l = Inr STRING_T" if "truth v = Inl non_boolean" using that v(2) truth_cases [of v] by auto
    have str': "expr_type cat r = Inr STRING_T" if "truth w = Inl non_boolean" using that w(2) truth_cases [of w] by auto
    have "eval reg row colIdx e = (if op = ''AND'' then bindE (truth v) (\<lambda>a. if \<not> a then Inr (of_bool32 False) else bindE (truth w) (\<lambda>b. Inr (of_bool32 b)))
        else bindE (truth v) (\<lambda>a. if a then Inr (of_bool32 True) else bindE (truth w) (\<lambda>b. Inr (of_bool32 b))))"
      unfolding e using v(1) w(1) none by (rule_tac disjE [OF op]) (simp_all cong: if_cong)
    then have ev: "evalBoolean reg row colIdx e = (if op = ''AND'' then bindE (truth v) (\<lambda>a. if \<not> a then Inr False else truth w)
        else bindE (truth v) (\<lambda>a. if a then Inr True else truth w))"
      by (cases "truth v"; cases "truth w") simp_all
    have "(\<exists>b. evalBoolean reg row colIdx e = Inr b) \<or> evalBoolean reg row colIdx e = Inl non_boolean \<and>
        (truth v = Inl non_boolean \<or> truth w = Inl non_boolean)"
      unfolding ev using truth_cases [of v] truth_cases [of w] by (elim disjE exE conjE; simp; blast)
    with str str' False show ?thesis by (auto simp: e predicate_result_def simp del: expr_type.simps evalBoolean.simps)
  qed
qed

text \<open>Names resolved against one table are columns of the table.\<close>

lemma before_after_dot [simp]: "CHR ''.'' \<notin> set t \<Longrightarrow> before_dot (qual_name t c) = t" "CHR ''.'' \<notin> set t \<Longrightarrow> after_dot (qual_name t c) = c"
proof -
  assume "CHR ''.'' \<notin> set t"
  then have "takeWhile (\<lambda>c. c \<noteq> CHR ''.'') (t @ CHR ''.'' # c) = t \<and> dropWhile (\<lambda>c. c \<noteq> CHR ''.'') (t @ CHR ''.'' # c) = CHR ''.'' # c"
    by (intro takeWhile_word) auto
  then show "before_dot (qual_name t c) = t" "after_dot (qual_name t c) = c"
    by (simp_all add: before_dot_def after_dot_def qual_name_def)
qed

text \<open>The names that a query over one table can use: unqualified ones, and the table's.\<close>

definition plain_column :: "string \<Rightarrow> string \<Rightarrow> bool" where
  "plain_column t c \<longleftrightarrow> CHR ''.'' \<notin> set c \<or> (\<exists>d. c = qual_name t d)"

lemma qualify_one:
  assumes "CHR ''.'' \<notin> set t" "plain_column t c" "qualifyColumn cat [t] c = Inr q"
  shows "\<exists>d col. q = qual_name t d \<and> getColumnInfo cat t d = Inr col"
proof (cases "CHR ''.'' \<in> set c")
  case True
  with assms(2) obtain d where "c = qual_name t d" by (auto simp: plain_column_def)
  with True assms(1,3) show ?thesis by (auto simp: qualifyColumn_def bindE_eq_Inr)
next
  case False
  with assms(3) show ?thesis by (auto simp: qualifyColumn_def Let_def split: sum.splits if_splits)
qed

lemma resolve_one:
  "CHR ''.'' \<notin> set t \<Longrightarrow> resolveColumnsInExpr cat reg [t] e = Inr e' \<Longrightarrow> no_calls e \<Longrightarrow> list_all (plain_column t) (columns e) \<Longrightarrow>
     no_calls e' \<and> list_all (\<lambda>q. \<exists>c col. q = qual_name t c \<and> getColumnInfo cat t c = Inr col) (columns e')"
proof (induction e arbitrary: e')
  case (Column_Ref c)
  then obtain q where "qualifyColumn cat [t] c = Inr q" "e' = Column_Ref q" by (auto simp: bindE_eq_Inr)
  with qualify_one [of t c cat q] Column_Ref show ?case by auto
qed (auto simp: bindE_eq_Inr)

lemma bind_exprD:
  "bind_expr cat reg ts e = Inr e' \<Longrightarrow> resolveColumnsInExpr cat reg ts e = Inr e' \<and> typeCheckExpr cat e' = Inr ()"
  by (auto simp: bind_expr_def bindE_eq_Inr simp del: typeCheckExpr.simps)

text \<open>A name that two tables have is not ambiguous: it is the first table's.\<close>

lemma search_tables_found: "found \<noteq> [] \<Longrightarrow> search_tables cat c ts found = found"
  by (induction ts) (simp_all split: sum.split)

lemma ambiguous_takes_first:
  "CHR ''.'' \<notin> set c \<Longrightarrow> getColumnInfo cat t c = Inr col \<Longrightarrow> qualifyColumn cat (t # ts) c = Inr (qual_name t c)"
  by (simp add: qualifyColumn_def search_tables_found qual_name_def)

end
