(* ===== verification/Operators.thy ===== *)
theory Operators
  imports Evaluator TableHeap
begin

section \<open>Physical operators\<close>

text \<open>
  \<open>physicalOperator/\<close> and \<open>nestedLoopJoin/\<close>: the tree of operators that a query runs, and the executor
  that pulls its rows. The virtual classes are one datatype; the mutable fields of an operator are the
  arguments of its constructor, and \<open>open\<close>, \<open>next\<close> and \<open>close\<close> return the operator changed. The storage
  engine is a pair of functions, the scan of a table and the fetch of a record. The loops of \<open>next\<close>
  pull as long as rows are rejected; they have fuel, and the theorems say that with enough of it the
  rows come out.
\<close>

type_synonym row = "FieldValue list"

datatype phys_op =
    Table_Scan string "RecordID list" nat
  | Filter_Op phys_op Expr "string \<rightharpoonup> int"
  | Project_Op phys_op "Expr list" "string \<rightharpoonup> int"
  | Nested_Loop phys_op phys_op row bool

type_synonym 's row_ops = "(string \<Rightarrow> ('s, RecordID list) io) \<times> (string \<Rightarrow> RecordID \<Rightarrow> ('s, row) io)"

definition out_of_fuel :: error where
  "out_of_fuel = Undefined_Behaviour ''fuel''"

text \<open>The expressions of a projection, in order.\<close>

definition project_row :: "registry \<Rightarrow> (string \<rightharpoonup> int) \<Rightarrow> Expr list \<Rightarrow> row \<Rightarrow> row res" where
  "project_row reg colIdx es row = eval_args reg row colIdx es"

fun op_close :: "phys_op \<Rightarrow> phys_op" where
  "op_close (Table_Scan t rids i) = Table_Scan t [] 0"
| "op_close (Filter_Op c p ci) = Filter_Op (op_close c) p ci"
| "op_close (Project_Op c es ci) = Project_Op (op_close c) es ci"
| "op_close (Nested_Loop l r row d) = Nested_Loop (op_close l) (op_close r) row d"

function op_open :: "'s row_ops \<Rightarrow> registry \<Rightarrow> nat \<Rightarrow> phys_op \<Rightarrow> ('s, phys_op) io"
  and op_next :: "'s row_ops \<Rightarrow> registry \<Rightarrow> nat \<Rightarrow> phys_op \<Rightarrow> ('s, row option \<times> phys_op) io" where
  "op_open ops reg 0 q = throwM out_of_fuel"
| "op_open ops reg (Suc n) (Table_Scan t rids i) = bindM (fst ops t) (\<lambda>rids. retM (Table_Scan t rids 0))"
| "op_open ops reg (Suc n) (Filter_Op c p ci) = bindM (op_open ops reg n c) (\<lambda>c. retM (Filter_Op c p ci))"
| "op_open ops reg (Suc n) (Project_Op c es ci) = bindM (op_open ops reg n c) (\<lambda>c. retM (Project_Op c es ci))"
| "op_open ops reg (Suc n) (Nested_Loop l r row d) =
     bindM (op_open ops reg n l) (\<lambda>l.
     bindM (op_open ops reg n r) (\<lambda>r.
     bindM (op_next ops reg n l) (\<lambda>(res, l).
       retM (case res of None \<Rightarrow> Nested_Loop l r row True | Some row \<Rightarrow> Nested_Loop l r row False))))"
| "op_next ops reg 0 q = throwM out_of_fuel"
| "op_next ops reg (Suc n) (Table_Scan t rids i) =
     (if i < length rids then bindM (snd ops t (rids ! i)) (\<lambda>row. retM (Some row, Table_Scan t rids (i + 1)))
      else retM (None, Table_Scan t rids i))"
| "op_next ops reg (Suc n) (Filter_Op c p ci) =
     bindM (op_next ops reg n c) (\<lambda>(res, c). case res of
       None \<Rightarrow> retM (None, Filter_Op c p ci)
     | Some row \<Rightarrow> bindM (liftM (evalBoolean reg row ci p)) (\<lambda>b.
         if b then retM (Some row, Filter_Op c p ci) else op_next ops reg n (Filter_Op c p ci)))"
| "op_next ops reg (Suc n) (Project_Op c es ci) =
     bindM (op_next ops reg n c) (\<lambda>(res, c). case res of
       None \<Rightarrow> retM (None, Project_Op c es ci)
     | Some row \<Rightarrow> bindM (liftM (project_row reg ci es row)) (\<lambda>vs. retM (Some vs, Project_Op c es ci)))"
| "op_next ops reg (Suc n) (Nested_Loop l r row d) =
     (if d then retM (None, Nested_Loop l r row d)
      else bindM (op_next ops reg n r) (\<lambda>(res, r). case res of
        Some x \<Rightarrow> retM (Some (row @ x), Nested_Loop l r row d)
      | None \<Rightarrow>
          bindM (op_open ops reg n (op_close r)) (\<lambda>r.
          bindM (op_next ops reg n l) (\<lambda>(res, l). case res of
            None \<Rightarrow> retM (None, Nested_Loop l r row True)
          | Some row \<Rightarrow> op_next ops reg n (Nested_Loop l r row d)))))"
  by pat_completeness auto
termination
  by (relation "measure (case_sum (\<lambda>(ops, reg, n, q). n) (\<lambda>(ops, reg, n, q). n))") auto

fun pull_rows :: "'s row_ops \<Rightarrow> registry \<Rightarrow> nat \<Rightarrow> phys_op \<Rightarrow> ('s, row list \<times> phys_op) io" where
  "pull_rows ops reg 0 q = throwM out_of_fuel"
| "pull_rows ops reg (Suc n) q =
     bindM (op_next ops reg n q) (\<lambda>(res, q). case res of
       None \<Rightarrow> retM ([], q)
     | Some row \<Rightarrow> bindM (pull_rows ops reg n q) (\<lambda>(rows, q). retM (row # rows, q)))"

text \<open>The executor closes the tree at the end, which touches the operators only.\<close>

definition execute :: "'s row_ops \<Rightarrow> registry \<Rightarrow> nat \<Rightarrow> phys_op \<Rightarrow> ('s, row list) io" where
  "execute ops reg n root =
     bindM (op_open ops reg n root) (\<lambda>root. bindM (pull_rows ops reg n root) (\<lambda>(rows, root). retM rows))"

subsection \<open>The rows of an operator\<close>

text \<open>
  \<open>all_rows R reg q\<close>: the rows that an operator has from \<open>open\<close> on, over tables with the rows \<open>R\<close>: the
  selections, projections and products of relational algebra on lists. \<open>remaining\<close>: what it has yet to
  yield. \<open>op_ok\<close>: the identifiers it holds are of records, and its expressions have values on its rows.
\<close>

type_synonym db = "string \<Rightarrow> RecordID \<rightharpoonup> row"

definition table_list :: "db \<Rightarrow> string \<Rightarrow> row list" where
  "table_list R t = map (\<lambda>rid. the (R t rid)) (sorted_list_of_set (dom (R t)))"

definition holds :: "registry \<Rightarrow> (string \<rightharpoonup> int) \<Rightarrow> Expr \<Rightarrow> row \<Rightarrow> bool" where
  "holds reg ci p row \<longleftrightarrow> evalBoolean reg row ci p = Inr True"

definition projected :: "registry \<Rightarrow> (string \<rightharpoonup> int) \<Rightarrow> Expr list \<Rightarrow> row \<Rightarrow> row" where
  "projected reg ci es row = projr (project_row reg ci es row)"

definition cross :: "row list \<Rightarrow> row list \<Rightarrow> row list" where
  "cross ls rs = concat (map (\<lambda>l. map (\<lambda>r. l @ r) rs) ls)"

fun all_rows :: "db \<Rightarrow> registry \<Rightarrow> phys_op \<Rightarrow> row list" where
  "all_rows R reg (Table_Scan t rids i) = table_list R t"
| "all_rows R reg (Filter_Op c p ci) = filter (holds reg ci p) (all_rows R reg c)"
| "all_rows R reg (Project_Op c es ci) = map (projected reg ci es) (all_rows R reg c)"
| "all_rows R reg (Nested_Loop l r row d) = cross (all_rows R reg l) (all_rows R reg r)"

fun remaining :: "db \<Rightarrow> registry \<Rightarrow> phys_op \<Rightarrow> row list" where
  "remaining R reg (Table_Scan t rids i) = map (\<lambda>rid. the (R t rid)) (drop i rids)"
| "remaining R reg (Filter_Op c p ci) = filter (holds reg ci p) (remaining R reg c)"
| "remaining R reg (Project_Op c es ci) = map (projected reg ci es) (remaining R reg c)"
| "remaining R reg (Nested_Loop l r row d) = (if d then []
     else map (\<lambda>x. row @ x) (remaining R reg r) @ cross (remaining R reg l) (all_rows R reg r))"

fun op_ok :: "string set \<Rightarrow> db \<Rightarrow> registry \<Rightarrow> phys_op \<Rightarrow> bool" where
  "op_ok T R reg (Table_Scan t rids i) = (t \<in> T \<and> set rids \<subseteq> dom (R t))"
| "op_ok T R reg (Filter_Op c p ci) = (op_ok T R reg c \<and>
     (\<forall>row \<in> set (all_rows R reg c) \<union> set (remaining R reg c). \<exists>b. evalBoolean reg row ci p = Inr b))"
| "op_ok T R reg (Project_Op c es ci) = (op_ok T R reg c \<and>
     (\<forall>row \<in> set (all_rows R reg c) \<union> set (remaining R reg c). \<exists>vs. project_row reg ci es row = Inr vs))"
| "op_ok T R reg (Nested_Loop l r row d) = (op_ok T R reg l \<and> op_ok T R reg r)"

text \<open>The depth of the tree of operators, which \<open>open\<close> and \<open>next\<close> keep.\<close>

fun height :: "phys_op \<Rightarrow> nat" where
  "height (Table_Scan t rids i) = 0"
| "height (Filter_Op c p ci) = Suc (height c)"
| "height (Project_Op c es ci) = Suc (height c)"
| "height (Nested_Loop l r row d) = Suc (max (height l) (height r))"

definition first_row :: "row list \<Rightarrow> row option" where
  "first_row rows = (case rows of [] \<Rightarrow> None | row # _ \<Rightarrow> Some row)"

lemma first_row_simps [simp]: "first_row [] = None" "first_row (row # rows) = Some row"
  by (simp_all add: first_row_def)

lemma close_ok:
  "op_ok T R reg q \<Longrightarrow> op_ok T R reg (op_close q) \<and> all_rows R reg (op_close q) = all_rows R reg q \<and>
     remaining R reg (op_close q) = [] \<and> height (op_close q) = height q"
  by (induction q) (auto simp: cross_def)

subsection \<open>The contract of the storage below\<close>

locale row_source =
  fixes inv :: "'s \<Rightarrow> bool"
    and T :: "string set"
    and R :: "string \<Rightarrow> RecordID \<rightharpoonup> FieldValue list"
    and scan :: "string \<Rightarrow> ('s, RecordID list) io"
    and fetch :: "string \<Rightarrow> RecordID \<Rightarrow> ('s, FieldValue list) io"
  assumes scan_law: "inv s \<Longrightarrow> t \<in> T \<Longrightarrow> \<exists>u. scan t s = (Inr (sorted_list_of_set (dom (R t))), u) \<and> inv u"
    and fetch_law: "inv s \<Longrightarrow> t \<in> T \<Longrightarrow> R t rid = Some row \<Longrightarrow> \<exists>u. fetch t rid s = (Inr row, u) \<and> inv u"
    and finite_rows: "inv s \<Longrightarrow> t \<in> T \<Longrightarrow> finite (dom (R t))"
begin

abbreviation ops :: "'s row_ops" where
  "ops \<equiv> (scan, fetch)"

lemma fuel_Suc: "(\<And>n. N \<le> n \<Longrightarrow> P (Suc n)) \<Longrightarrow> \<forall>n \<ge> Suc N. P n"
  by (metis Suc_le_D Suc_le_mono)

definition opens :: "registry \<Rightarrow> phys_op \<Rightarrow> 's \<Rightarrow> bool" where
  "opens reg q s \<longleftrightarrow> (\<exists>N q' t. (\<forall>n \<ge> N. op_open ops reg n q s = (Inr q', t)) \<and> inv t \<and> op_ok T R reg q' \<and>
     height q' = height q \<and> all_rows R reg q' = all_rows R reg q \<and> remaining R reg q' = all_rows R reg q)"

definition steps :: "registry \<Rightarrow> phys_op \<Rightarrow> 's \<Rightarrow> bool" where
  "steps reg q s \<longleftrightarrow> (\<exists>N q' t. (\<forall>n \<ge> N. op_next ops reg n q s = (Inr (first_row (remaining R reg q), q'), t)) \<and> inv t \<and>
     op_ok T R reg q' \<and> height q' = height q \<and> all_rows R reg q' = all_rows R reg q \<and>
     remaining R reg q' = tl (remaining R reg q))"

lemma opensE:
  assumes "opens reg q s"
  obtains N q' t where "\<forall>n \<ge> N. op_open ops reg n q s = (Inr q', t)" "inv t" "op_ok T R reg q'" "height q' = height q"
    "all_rows R reg q' = all_rows R reg q" "remaining R reg q' = all_rows R reg q"
  using assms unfolding opens_def by blast

lemma stepsE:
  assumes "steps reg q s"
  obtains N q' t where "\<forall>n \<ge> N. op_next ops reg n q s = (Inr (first_row (remaining R reg q), q'), t)" "inv t"
    "op_ok T R reg q'" "height q' = height q" "all_rows R reg q' = all_rows R reg q" "remaining R reg q' = tl (remaining R reg q)"
  using assms unfolding steps_def by blast

lemma opensI:
  "(\<And>n. N \<le> n \<Longrightarrow> op_open ops reg (Suc n) q s = (Inr q', t)) \<Longrightarrow> inv t \<Longrightarrow> op_ok T R reg q' \<Longrightarrow> height q' = height q \<Longrightarrow>
     all_rows R reg q' = all_rows R reg q \<Longrightarrow> remaining R reg q' = all_rows R reg q \<Longrightarrow> opens reg q s"
  unfolding opens_def by (intro exI [of _ "Suc N"] exI [of _ q'] exI [of _ t] conjI fuel_Suc)

lemma stepsI:
  "(\<And>n. N \<le> n \<Longrightarrow> op_next ops reg (Suc n) q s = (Inr (first_row (remaining R reg q), q'), t)) \<Longrightarrow> inv t \<Longrightarrow>
     op_ok T R reg q' \<Longrightarrow> height q' = height q \<Longrightarrow> all_rows R reg q' = all_rows R reg q \<Longrightarrow>
     remaining R reg q' = tl (remaining R reg q) \<Longrightarrow> steps reg q s"
  unfolding steps_def by (intro exI [of _ "Suc N"] exI [of _ q'] exI [of _ t] conjI fuel_Suc)

text \<open>One operator at a time: its rows come out if its children's do.\<close>

lemma filter_steps:
  assumes child: "\<And>c s. inv s \<Longrightarrow> op_ok T R reg c \<Longrightarrow> height c = h \<Longrightarrow> steps reg c s"
  shows "inv s \<Longrightarrow> op_ok T R reg (Filter_Op c p ci) \<Longrightarrow> height c = h \<Longrightarrow> steps reg (Filter_Op c p ci) s"
proof (induction "remaining R reg c" arbitrary: c s)
  case Nil
  obtain N c' t where c: "\<forall>n \<ge> N. op_next ops reg n c s = (Inr (first_row (remaining R reg c), c'), t)" "inv t"
    "op_ok T R reg c'" "height c' = height c" "all_rows R reg c' = all_rows R reg c" "remaining R reg c' = tl (remaining R reg c)"
    by (rule stepsE [OF child [of s c]]) (use Nil in auto)
  show ?case
    by (rule stepsI [of N _ _ _ "Filter_Op c' p ci" t]) (use c Nil in \<open>auto simp: first_row_def\<close>)
next
  case (Cons row rows)
  obtain N c' t where c: "\<forall>n \<ge> N. op_next ops reg n c s = (Inr (first_row (remaining R reg c), c'), t)" "inv t"
    "op_ok T R reg c'" "height c' = height c" "all_rows R reg c' = all_rows R reg c" "remaining R reg c' = tl (remaining R reg c)"
    by (rule stepsE [OF child [of s c]]) (use Cons.prems in auto)
  have r: "remaining R reg c = row # rows" using Cons.hyps(2) by simp
  then obtain b where b: "evalBoolean reg row ci p = Inr b" using Cons.prems(2) by auto
  have ok: "op_ok T R reg (Filter_Op c' p ci)" using Cons.prems(2) c(3,5,6) r by auto
  show ?case
  proof (cases b)
    case True
    show ?thesis
      by (rule stepsI [of N _ _ _ "Filter_Op c' p ci" t])
        (use c r b True ok in \<open>auto simp: first_row_def holds_def simp del: op_ok.simps evalBoolean.simps\<close>)
  next
    case False
    obtain M q u where q: "\<forall>n \<ge> M. op_next ops reg n (Filter_Op c' p ci) t = (Inr (first_row (remaining R reg (Filter_Op c' p ci)), q), u)"
      "inv u" "op_ok T R reg q" "height q = height (Filter_Op c' p ci)" "all_rows R reg q = all_rows R reg (Filter_Op c' p ci)"
      "remaining R reg q = tl (remaining R reg (Filter_Op c' p ci))"
      by (rule stepsE [OF Cons.hyps(1) [of c' t]]) (use c r ok Cons.prems(3) in auto)
    show ?thesis
      by (rule stepsI [of "max N M" _ _ _ q u])
        (use c q r b False in \<open>auto simp: first_row_def holds_def simp del: op_ok.simps evalBoolean.simps\<close>)
  qed
qed

lemma project_steps:
  assumes ok: "op_ok T R reg (Project_Op c es ci)" and child: "steps reg c s"
  shows "steps reg (Project_Op c es ci) s"
proof -
  obtain N c' t where c: "\<forall>n \<ge> N. op_next ops reg n c s = (Inr (first_row (remaining R reg c), c'), t)" "inv t"
    "op_ok T R reg c'" "height c' = height c" "all_rows R reg c' = all_rows R reg c" "remaining R reg c' = tl (remaining R reg c)"
    using child by (rule stepsE)
  have sub: "set (tl (remaining R reg c)) \<subseteq> set (remaining R reg c)" by (cases "remaining R reg c") auto
  have ok': "op_ok T R reg (Project_Op c' es ci)" using ok c(3,5,6) sub by auto
  show ?thesis
  proof (cases "remaining R reg c")
    case Nil
    show ?thesis
      by (rule stepsI [of N _ _ _ "Project_Op c' es ci" t]) (use c Nil ok' in \<open>simp_all del: op_ok.simps\<close>)
  next
    case (Cons row rows)
    with ok obtain vs where v: "project_row reg ci es row = Inr vs" by auto
    show ?thesis
      by (rule stepsI [of N _ _ _ "Project_Op c' es ci" t])
        (use c Cons ok' v in \<open>simp_all add: projected_def del: op_ok.simps\<close>)
  qed
qed

lemma scan_steps:
  assumes ok: "op_ok T R reg (Table_Scan t rids i)" and s: "inv s"
  shows "steps reg (Table_Scan t rids i) s"
proof (cases "i < length rids")
  case True
  with ok obtain row where row: "R t (rids ! i) = Some row" by (auto dest: nth_mem)
  obtain u where u: "fetch t (rids ! i) s = (Inr row, u)" "inv u" using fetch_law [OF s _ row] ok by auto
  have d: "drop i rids = rids ! i # drop (Suc i) rids" using True by (simp add: Cons_nth_drop_Suc)
  show ?thesis
    by (rule stepsI [of 0 _ _ _ "Table_Scan t rids (i + 1)" u]) (use True u row ok d in simp_all)
next
  case False
  show ?thesis
    by (rule stepsI [of 0 _ _ _ "Table_Scan t rids i" s]) (use False s ok in simp_all)
qed

lemma nested_steps:
  assumes left: "\<And>l s. inv s \<Longrightarrow> op_ok T R reg l \<Longrightarrow> height l = hl \<Longrightarrow> steps reg l s"
    and right: "\<And>r s. inv s \<Longrightarrow> op_ok T R reg r \<Longrightarrow> height r = hr \<Longrightarrow> steps reg r s"
    and open_right: "\<And>r s. inv s \<Longrightarrow> op_ok T R reg r \<Longrightarrow> height r = hr \<Longrightarrow> opens reg r s"
  shows "inv s \<Longrightarrow> op_ok T R reg l \<Longrightarrow> op_ok T R reg r \<Longrightarrow> height l = hl \<Longrightarrow> height r = hr \<Longrightarrow>
    steps reg (Nested_Loop l r row d) s"
proof (induction "remaining R reg l" arbitrary: l r row d s)
  case Nil
  show ?case
  proof (cases d)
    case True
    show ?thesis
      by (rule stepsI [of 0 _ _ _ "Nested_Loop l r row d" s]) (use Nil True in simp_all)
  next
    case d: False
    obtain N r' t where r: "\<forall>n \<ge> N. op_next ops reg n r s = (Inr (first_row (remaining R reg r), r'), t)" "inv t"
      "op_ok T R reg r'" "height r' = height r" "all_rows R reg r' = all_rows R reg r" "remaining R reg r' = tl (remaining R reg r)"
      by (rule stepsE [OF right [of s r]]) (use Nil in auto)
    show ?thesis
    proof (cases "remaining R reg r")
      case (Cons x xs)
      show ?thesis
        by (rule stepsI [of N _ _ _ "Nested_Loop l r' row d" t]) (use Nil d r Cons in simp_all)
    next
      case e: Nil
      note k = close_ok [OF r(3)]
      obtain M q u where q: "\<forall>n \<ge> M. op_open ops reg n (op_close r') t = (Inr q, u)" "inv u" "op_ok T R reg q"
        "height q = height (op_close r')" "all_rows R reg q = all_rows R reg (op_close r')" "remaining R reg q = all_rows R reg (op_close r')"
        by (rule opensE [OF open_right [of t "op_close r'"]]) (use k r Nil in auto)
      obtain K l' v where l: "\<forall>n \<ge> K. op_next ops reg n l u = (Inr (first_row (remaining R reg l), l'), v)" "inv v"
        "op_ok T R reg l'" "height l' = height l" "all_rows R reg l' = all_rows R reg l" "remaining R reg l' = tl (remaining R reg l)"
        by (rule stepsE [OF left [of u l]]) (use Nil q in auto)
      show ?thesis
        by (rule stepsI [of "max N (max M K)" _ _ _ "Nested_Loop l' q row True" v])
          (use Nil d r e q l k in \<open>simp_all add: cross_def\<close>)
    qed
  qed
next
  case (Cons lrow lrows)
  show ?case
  proof (cases d)
    case True
    show ?thesis
      by (rule stepsI [of 0 _ _ _ "Nested_Loop l r row d" s]) (use Cons.prems True in simp_all)
  next
    case d: False
    obtain N r' t where r: "\<forall>n \<ge> N. op_next ops reg n r s = (Inr (first_row (remaining R reg r), r'), t)" "inv t"
      "op_ok T R reg r'" "height r' = height r" "all_rows R reg r' = all_rows R reg r" "remaining R reg r' = tl (remaining R reg r)"
      by (rule stepsE [OF right [of s r]]) (use Cons.prems in auto)
    show ?thesis
    proof (cases "remaining R reg r")
      case (Cons x xs)
      show ?thesis
        by (rule stepsI [of N _ _ _ "Nested_Loop l r' row d" t]) (use \<open>op_ok T R reg l\<close> d r Cons in simp_all)
    next
      case e: Nil
      note k = close_ok [OF r(3)]
      obtain M q u where q: "\<forall>n \<ge> M. op_open ops reg n (op_close r') t = (Inr q, u)" "inv u" "op_ok T R reg q"
        "height q = height (op_close r')" "all_rows R reg q = all_rows R reg (op_close r')" "remaining R reg q = all_rows R reg (op_close r')"
        by (rule opensE [OF open_right [of t "op_close r'"]]) (use k r Cons.prems in auto)
      obtain K l' v where l: "\<forall>n \<ge> K. op_next ops reg n l u = (Inr (first_row (remaining R reg l), l'), v)" "inv v"
        "op_ok T R reg l'" "height l' = height l" "all_rows R reg l' = all_rows R reg l" "remaining R reg l' = tl (remaining R reg l)"
        by (rule stepsE [OF left [of u l]]) (use Cons.prems q in auto)
      have lr: "remaining R reg l = lrow # lrows" using Cons.hyps(2) by simp
      obtain J p w where p: "\<forall>n \<ge> J. op_next ops reg n (Nested_Loop l' q lrow d) v =
          (Inr (first_row (remaining R reg (Nested_Loop l' q lrow d)), p), w)" "inv w" "op_ok T R reg p"
        "height p = height (Nested_Loop l' q lrow d)" "all_rows R reg p = all_rows R reg (Nested_Loop l' q lrow d)"
        "remaining R reg p = tl (remaining R reg (Nested_Loop l' q lrow d))"
        by (rule stepsE [OF Cons.hyps(1) [of l' v q lrow d]]) (use l q k r lr Cons.prems in auto)
      have same: "remaining R reg (Nested_Loop l r row d) = remaining R reg (Nested_Loop l' q lrow d)"
        using d e lr l(6) q(5,6) k r(5) by (simp add: cross_def)
      show ?thesis
        by (rule stepsI [of "max (max N J) (max M K)" _ _ _ p w], unfold same)
          (use d r e q l k p lr in simp_all)
    qed
  qed
qed

lemma nested_opens:
  assumes l: "opens reg l s" and r: "\<And>t. inv t \<Longrightarrow> opens reg r t" and ok: "op_ok T R reg l" "op_ok T R reg r"
    and first: "\<And>l t. inv t \<Longrightarrow> op_ok T R reg l \<Longrightarrow> height l = hl \<Longrightarrow> steps reg l t" and h: "height l = hl"
  shows "opens reg (Nested_Loop l r row d) s"
proof -
  obtain N l' t where l: "\<forall>n \<ge> N. op_open ops reg n l s = (Inr l', t)" "inv t" "op_ok T R reg l'" "height l' = height l"
    "all_rows R reg l' = all_rows R reg l" "remaining R reg l' = all_rows R reg l" using l by (rule opensE)
  obtain M r' u where r: "\<forall>n \<ge> M. op_open ops reg n r t = (Inr r', u)" "inv u" "op_ok T R reg r'" "height r' = height r"
    "all_rows R reg r' = all_rows R reg r" "remaining R reg r' = all_rows R reg r" using r [OF l(2)] by (rule opensE)
  obtain K q v where q: "\<forall>n \<ge> K. op_next ops reg n l' u = (Inr (first_row (remaining R reg l'), q), v)" "inv v"
    "op_ok T R reg q" "height q = height l'" "all_rows R reg q = all_rows R reg l'" "remaining R reg q = tl (remaining R reg l')"
    by (rule stepsE [OF first [of u l']]) (use l r h in auto)
  show ?thesis
  proof (cases "all_rows R reg l")
    case Nil
    show ?thesis
      by (rule opensI [of "max N (max M K)" _ _ _ "Nested_Loop q r' row True" v])
        (use l r q Nil in \<open>simp_all add: cross_def\<close>)
  next
    case (Cons x xs)
    show ?thesis
      by (rule opensI [of "max N (max M K)" _ _ _ "Nested_Loop q r' x False" v])
        (use l r q Cons in \<open>simp_all add: cross_def\<close>)
  qed
qed

text \<open>Every operator: by induction on the depth of its tree.\<close>

lemma operator_ok: "inv s \<Longrightarrow> op_ok T R reg q \<Longrightarrow> opens reg q s \<and> steps reg q s"
proof (induction "height q" arbitrary: q s rule: less_induct)
  case less
  show ?case
  proof (cases q)
    case (Table_Scan t rids i)
    obtain u where u: "scan t s = (Inr (sorted_list_of_set (dom (R t))), u)" "inv u"
      using scan_law [OF less.prems(1), of t] less.prems(2) Table_Scan by auto
    have "opens reg q s"
      by (rule opensI [of 0 _ _ _ "Table_Scan t (sorted_list_of_set (dom (R t))) 0" u])
        (use Table_Scan u less.prems(2) finite_rows in \<open>simp_all add: table_list_def\<close>)
    with scan_steps [of reg t rids i s] less.prems Table_Scan show ?thesis by simp
  next
    case (Filter_Op c p ci)
    have c: "opens reg c' t \<and> steps reg c' t" if "inv t" "op_ok T R reg c'" "height c' = height c" for c' t
      using less.hyps [of c' t] that Filter_Op by simp
    obtain N q' t where o: "\<forall>n \<ge> N. op_open ops reg n c s = (Inr q', t)" "inv t" "op_ok T R reg q'" "height q' = height c"
      "all_rows R reg q' = all_rows R reg c" "remaining R reg q' = all_rows R reg c"
      by (rule opensE [of reg c s]) (use c [of s c] less.prems Filter_Op in auto)
    have "opens reg q s"
      by (rule opensI [of N _ _ _ "Filter_Op q' p ci" t]) (use Filter_Op o less.prems(2) in simp_all)
    moreover have "steps reg (Filter_Op c p ci) s"
      by (rule filter_steps [of reg "height c"]) (use c less.prems Filter_Op in auto)
    ultimately show ?thesis using Filter_Op by simp
  next
    case (Project_Op c es ci)
    have c: "opens reg c s" "steps reg c s" using less.hyps [of c s] less.prems Project_Op by simp_all
    obtain N q' t where o: "\<forall>n \<ge> N. op_open ops reg n c s = (Inr q', t)" "inv t" "op_ok T R reg q'" "height q' = height c"
      "all_rows R reg q' = all_rows R reg c" "remaining R reg q' = all_rows R reg c"
      using c(1) by (rule opensE)
    have "opens reg q s"
      by (rule opensI [of N _ _ _ "Project_Op q' es ci" t]) (use Project_Op o less.prems(2) in simp_all)
    with project_steps [of reg c es ci s] c(2) less.prems Project_Op show ?thesis by simp
  next
    case (Nested_Loop l r row d)
    have l: "opens reg l' t \<and> steps reg l' t" if "inv t" "op_ok T R reg l'" "height l' = height l" for l' t
      using less.hyps [of l' t] that Nested_Loop by simp
    have r: "opens reg r' t \<and> steps reg r' t" if "inv t" "op_ok T R reg r'" "height r' = height r" for r' t
      using less.hyps [of r' t] that Nested_Loop by simp
    have ok: "op_ok T R reg l" "op_ok T R reg r" using less.prems(2) Nested_Loop by simp_all
    have "opens reg (Nested_Loop l r row d) s"
      by (rule nested_opens [of _ _ _ _ "height l"]) (use l r ok less.prems(1) in auto)
    moreover have "steps reg (Nested_Loop l r row d) s"
      by (rule nested_steps [of reg "height l" "height r"]) (use l r ok less.prems(1) in auto)
    ultimately show ?thesis using Nested_Loop by simp
  qed
qed

lemma pull_ok: "inv s \<Longrightarrow> op_ok T R reg q \<Longrightarrow>
    \<exists>N q' t. (\<forall>n \<ge> N. pull_rows ops reg n q s = (Inr (remaining R reg q, q'), t)) \<and> inv t"
proof (induction "remaining R reg q" arbitrary: q s)
  case Nil
  obtain N q' t where q: "\<forall>n \<ge> N. op_next ops reg n q s = (Inr (first_row (remaining R reg q), q'), t)" "inv t"
    by (rule stepsE [of reg q s]) (use operator_ok Nil in auto)
  have "\<forall>n \<ge> Suc N. pull_rows ops reg n q s = (Inr (remaining R reg q, q'), t)"
    by (rule fuel_Suc) (use q Nil(1) in simp)
  with q(2) show ?case by blast
next
  case (Cons row rows)
  obtain N q' t where q: "\<forall>n \<ge> N. op_next ops reg n q s = (Inr (first_row (remaining R reg q), q'), t)" "inv t"
    "op_ok T R reg q'" "remaining R reg q' = tl (remaining R reg q)"
    by (rule stepsE [of reg q s]) (use operator_ok Cons.prems in auto)
  have r: "remaining R reg q = row # rows" using Cons.hyps(2) by simp
  obtain M p u where p: "\<forall>n \<ge> M. pull_rows ops reg n q' t = (Inr (remaining R reg q', p), u)" "inv u"
    using Cons.hyps(1) [of q' t] q r by auto
  have "\<forall>n \<ge> Suc (max N M). pull_rows ops reg n q s = (Inr (remaining R reg q, p), u)"
    by (rule fuel_Suc) (use q p r in simp)
  with p(2) show ?case by blast
qed

lemma execute_ok:
  assumes "inv s" "op_ok T R reg q"
  shows "\<exists>N t. (\<forall>n \<ge> N. execute ops reg n q s = (Inr (all_rows R reg q), t)) \<and> inv t"
proof -
  obtain N q' t where q: "\<forall>n \<ge> N. op_open ops reg n q s = (Inr q', t)" "inv t" "op_ok T R reg q'"
    "remaining R reg q' = all_rows R reg q"
    by (rule opensE [of reg q s]) (use operator_ok assms in auto)
  obtain M p u where p: "\<forall>n \<ge> M. pull_rows ops reg n q' t = (Inr (remaining R reg q', p), u)" "inv u"
    using pull_ok [OF q(2,3)] by blast
  have "\<forall>n \<ge> max N M. execute ops reg n q s = (Inr (all_rows R reg q), u)"
    using q p by (simp add: execute_def)
  with p(2) show ?thesis by blast
qed

end

end
