(* ===== verification/Planner.thy ===== *)
theory Planner
  imports Binder Operators
begin

section \<open>Logical plans, rewriting, physical plans\<close>

text \<open>
  \<open>queryOptimizerAndPlanner/\<close>: the planner builds a tree of logical operators from a bound statement, the
  rewriter changes it, and the generator makes physical operators of it, with the map from column names
  to positions. \<open>Planner.cpp\<close> has two cases for SELECT, one for a single table and one with joins;
  \<open>buildLogicalPlan\<close> uses the second, which agrees with the first on one table. The subclasses of
  \<open>LogicalOperator\<close> are the constructors of a datatype.
\<close>

datatype logical =
    L_SeqScan string
  | L_Filter Expr logical
  | L_Project "Expr list" logical
  | L_Join logical logical
  | L_Insert string "string list" "Expr list"
  | L_Update string "(string \<times> Expr) list" "Expr option"
  | L_Delete string "Expr option"
  | L_CreateTable string "(string \<times> string \<times> int32) list"
  | L_Begin
  | L_Commit

subsection \<open>The planner\<close>

definition with_filter :: "Expr option \<Rightarrow> logical \<Rightarrow> logical" where
  "with_filter w plan = (case w of None \<Rightarrow> plan | Some p \<Rightarrow> L_Filter p plan)"

definition plan_single :: "SelectStmt \<Rightarrow> logical res" where
  "plan_single sel =
     (case sel_tables sel of
        [t] \<Rightarrow> Inr (L_Project (selectList sel) (with_filter (sel_where sel) (L_SeqScan t)))
      | _ \<Rightarrow> Inl (Runtime_Error ''Only single-table SELECT is supported''))"

definition plan_select :: "SelectStmt \<Rightarrow> logical res" where
  "plan_select sel =
     (case sel_tables sel of
        [] \<Rightarrow> Inl (Runtime_Error ''SELECT requires table'')
      | t # ts \<Rightarrow> Inr (L_Project (selectList sel) (with_filter (sel_where sel)
          (foldl (\<lambda>plan t. L_Join plan (L_SeqScan t)) (L_SeqScan t) ts))))"

definition buildLogicalPlan :: "AST \<Rightarrow> logical res" where
  "buildLogicalPlan ast = (case ast of
     Select s \<Rightarrow> plan_select s
   | Insert s \<Rightarrow> Inr (L_Insert (ins_table s) (ins_columns s) (ins_values s))
   | Update s \<Rightarrow> Inr (L_Update (upd_table s) (assignments s) (upd_where s))
   | Delete s \<Rightarrow> Inr (L_Delete (del_table s) (del_where s))
   | Create_Table s \<Rightarrow> Inr (L_CreateTable (cre_table s) (cre_columns s))
   | Begin \<Rightarrow> Inr L_Begin
   | Commit \<Rightarrow> Inr L_Commit)"

lemma plan_single_select: "sel_tables sel = [t] \<Longrightarrow> plan_single sel = plan_select sel"
  by (simp add: plan_single_def plan_select_def)

subsection \<open>The rewriter\<close>

text \<open>
  The rules change the nodes in place and return the root, which \<open>rewritePlan\<close> compares with the old root
  by address. Here a rule returns the new tree and whether its root is the old object.
\<close>

fun pushDownPredicates :: "logical \<Rightarrow> logical \<times> bool" where
  "pushDownPredicates (L_Filter p c) = (case fst (pushDownPredicates c) of
     L_Project es g \<Rightarrow> (L_Project es (L_Filter p g), False)
   | c' \<Rightarrow> (L_Filter p c', True))"
| "pushDownPredicates (L_Project es c) = (L_Project es (fst (pushDownPredicates c)), True)"
| "pushDownPredicates (L_Join l r) = (L_Join (fst (pushDownPredicates l)) (fst (pushDownPredicates r)), True)"
| "pushDownPredicates plan = (plan, True)"

fun identity_from :: "string \<Rightarrow> nat \<Rightarrow> Expr list \<Rightarrow> bool" where
  "identity_from t i [] = True"
| "identity_from t i (e # es) = (e = Column_Ref (t @ ''.'' @ show_nat i) \<and> identity_from t (i + 1) es)"

fun pruneProjections :: "logical \<Rightarrow> logical \<times> bool" where
  "pruneProjections (L_Project es c) = (case fst (pruneProjections c) of
     L_SeqScan t \<Rightarrow> if identity_from t 0 es then (L_SeqScan t, False) else (L_Project es (L_SeqScan t), True)
   | c' \<Rightarrow> (L_Project es c', True))"
| "pruneProjections (L_Filter p c) = (L_Filter p (fst (pruneProjections c)), True)"
| "pruneProjections (L_Join l r) = (L_Join (fst (pruneProjections l)) (fst (pruneProjections r)), True)"
| "pruneProjections plan = (plan, True)"

definition flattenSubqueries :: "logical \<Rightarrow> logical" where
  "flattenSubqueries plan = plan"

fun rewrite_loop :: "nat \<Rightarrow> logical \<Rightarrow> logical" where
  "rewrite_loop 0 root = root"
| "rewrite_loop (Suc n) root =
     (case pushDownPredicates root of (plan, same) \<Rightarrow>
      case pruneProjections plan of (plan, same') \<Rightarrow>
      let plan = flattenSubqueries plan in
      if same \<and> same' then plan else rewrite_loop n plan)"

definition rewritePlan :: "logical \<Rightarrow> logical" where
  "rewritePlan root = rewrite_loop 5 root"

subsection \<open>Physical plans\<close>

fun index_columns :: "string \<Rightarrow> Column list \<Rightarrow> int \<Rightarrow> (string \<rightharpoonup> int) \<Rightarrow> (string \<rightharpoonup> int)" where
  "index_columns t [] i m = m"
| "index_columns t (c # cs) i m = index_columns t cs (i + 1) (m(qual_name t (cname c) \<mapsto> i))"

definition new_TableScan :: "catalog \<Rightarrow> string \<Rightarrow> phys_op res" where
  "new_TableScan cat t = bindE (getTable cat t) (\<lambda>_. Inr (Table_Scan t [] 0))"

text \<open>The names \<open>col0\<close>, \<open>col1\<close> and so on of a projection.\<close>

definition output_index :: "nat \<Rightarrow> string \<rightharpoonup> int" where
  "output_index n = map_of (map (\<lambda>i. (''col'' @ show_nat i, int i)) [0..<n])"

text \<open>
  The columns of a join are numbered in the order in which the two hash maps are iterated, which the
  language does not fix: \<open>order\<close> gives it.
\<close>

fun number_keys :: "string list \<Rightarrow> int \<Rightarrow> (string \<rightharpoonup> int) \<Rightarrow> (string \<rightharpoonup> int)" where
  "number_keys [] pos m = m"
| "number_keys (k # ks) pos m = number_keys ks (pos + 1) (m(k \<mapsto> pos))"

definition join_index :: "((string \<rightharpoonup> int) \<Rightarrow> string list) \<Rightarrow> (string \<rightharpoonup> int) \<Rightarrow> (string \<rightharpoonup> int) \<Rightarrow> (string \<rightharpoonup> int)" where
  "join_index order leftIdx colIdx = number_keys (order leftIdx @ order colIdx) 0 Map.empty"

text \<open>
  \<open>gen\<close> returns a null pointer for the statements that are not queries; an operator above one would
  dereference it.
\<close>

definition child_op :: "phys_op option \<Rightarrow> phys_op res" where
  "child_op q = (case q of None \<Rightarrow> Inl (Undefined_Behaviour ''null pointer'') | Some c \<Rightarrow> Inr c)"

fun gen :: "((string \<rightharpoonup> int) \<Rightarrow> string list) \<Rightarrow> catalog \<Rightarrow> logical \<Rightarrow> (string \<rightharpoonup> int) \<Rightarrow> (phys_op option \<times> (string \<rightharpoonup> int)) res" where
  "gen order cat (L_SeqScan t) colIdx =
     bindE (new_TableScan cat t) (\<lambda>ts.
     bindE (getTable cat t) (\<lambda>schema. Inr (Some ts, index_columns t (scolumns schema) 0 Map.empty)))"
| "gen order cat (L_Filter p c) colIdx =
     bindE (gen order cat c colIdx) (\<lambda>(q, colIdx).
     bindE (child_op q) (\<lambda>q. Inr (Some (Filter_Op q p colIdx), colIdx)))"
| "gen order cat (L_Project es c) colIdx =
     bindE (gen order cat c colIdx) (\<lambda>(q, colIdx).
     bindE (child_op q) (\<lambda>q. Inr (Some (Project_Op q es colIdx), output_index (length es))))"
| "gen order cat (L_Join l r) colIdx =
     bindE (gen order cat l Map.empty) (\<lambda>(ql, leftIdx).
     bindE (gen order cat r colIdx) (\<lambda>(qr, colIdx).
     bindE (child_op ql) (\<lambda>ql. bindE (child_op qr) (\<lambda>qr.
       Inr (Some (Nested_Loop ql qr [] False), join_index order leftIdx colIdx)))))"
| "gen order cat _ colIdx = Inr (None, colIdx)"

definition generate :: "((string \<rightharpoonup> int) \<Rightarrow> string list) \<Rightarrow> catalog \<Rightarrow> logical \<Rightarrow> phys_op option res" where
  "generate order cat plan = bindE (gen order cat plan Map.empty) (\<lambda>(q, colIdx). Inr q)"

subsection \<open>What rewriting does to a query\<close>

fun no_project :: "logical \<Rightarrow> bool" where
  "no_project (L_Project es c) = False"
| "no_project (L_Filter p c) = no_project c"
| "no_project (L_Join l r) = (no_project l \<and> no_project r)"
| "no_project _ = True"

lemma pushDown_no_project: "no_project q \<Longrightarrow> pushDownPredicates q = (q, True)"
  by (induction q rule: no_project.induct) (auto split: logical.split)

lemma prune_no_project: "no_project q \<Longrightarrow> pruneProjections q = (q, True)"
  by (induction q rule: no_project.induct) auto

lemma foldl_join_no_project: "no_project q \<Longrightarrow> no_project (foldl (\<lambda>plan t. L_Join plan (L_SeqScan t)) q ts)"
  by (induction ts arbitrary: q) simp_all

lemma plan_select_shape:
  assumes "plan_select sel = Inr plan"
  obtains q t ts where "sel_tables sel = t # ts" "plan = L_Project (selectList sel) q" "no_project q"
    "q = with_filter (sel_where sel) (foldl (\<lambda>plan t. L_Join plan (L_SeqScan t)) (L_SeqScan t) ts)"
  using assms foldl_join_no_project
  by (auto simp: plan_select_def with_filter_def split: list.splits option.splits)

lemma rewrite_project:
  assumes "no_project q" "\<And>t. q = L_SeqScan t \<Longrightarrow> \<not> identity_from t 0 es"
  shows "rewritePlan (L_Project es q) = L_Project es q"
proof -
  have "pruneProjections (L_Project es q) = (L_Project es q, True)"
    using assms by (auto simp: prune_no_project split: logical.split)
  then show ?thesis
    using assms(1) by (simp add: rewritePlan_def numeral_eq_Suc flattenSubqueries_def pushDown_no_project)
qed

subsection \<open>Rows that fit a bound query\<close>

text \<open>The generator's positions lead to the fields of the table's schema.\<close>

lemma qual_name_eq [simp]: "qual_name t c = qual_name t d \<longleftrightarrow> c = d"
  by (simp add: qual_name_def)

lemma index_columns_other: "c \<notin> set (map cname cs) \<Longrightarrow> index_columns t cs k m (qual_name t c) = m (qual_name t c)"
  by (induction cs arbitrary: k m) simp_all

lemma index_columns_nth:
  "distinct (map cname cs) \<Longrightarrow> i < length cs \<Longrightarrow> index_columns t cs k m (qual_name t (cname (cs ! i))) = Some (k + int i)"
  by (induction cs arbitrary: i k m) (auto simp: nth_Cons index_columns_other split: nat.split)

lemma find_column_nth: "find_column d cs = Inr c \<Longrightarrow> \<exists>i < length cs. cs ! i = c \<and> cname c = d"
  by (induction cs) (auto split: if_splits)

lemma fits_type: "fits c v \<Longrightarrow> value_type v = ctype c"
  by (cases v) auto

abbreviation scan_index :: "string \<Rightarrow> Schema \<Rightarrow> (string \<rightharpoonup> int)" where
  "scan_index t schema \<equiv> index_columns t (scolumns schema) 0 Map.empty"

lemma table_row_fits:
  assumes "CHR ''.'' \<notin> set t" "getTable cat t = Inr schema" "distinct (map cname (scolumns schema))" "row_ok schema row"
    "getColumnInfo cat t d = Inr col"
  shows "row_fits cat (scan_index t schema) row (qual_name t d)"
proof -
  have "find_column d (scolumns schema) = Inr col" using assms(2,5) by (simp add: getColumnInfo_def)
  then obtain i where i: "i < length (scolumns schema)" "scolumns schema ! i = col" "cname col = d"
    using find_column_nth by blast
  have v: "fits col (row ! i)" "i < length row" using assms(4) i by (auto simp: row_ok_def list_all2_conv_all_nth)
  have "scan_index t schema (qual_name t d) = Some (int i)" using index_columns_nth [OF assms(3) i(1)] i by simp
  moreover have "field_at row (int i) = Inr (row ! i)" using v(2) by (simp add: field_at_def)
  ultimately show ?thesis using assms(1,5) fits_type [OF v(1)] by (auto simp: row_fits_def)
qed

lemma bound_fits:
  assumes "bind_expr cat reg [t] e = Inr e'" "no_calls e" "list_all (plain_column t) (columns e)" "CHR ''.'' \<notin> set t"
    "getTable cat t = Inr schema" "distinct (map cname (scolumns schema))" "row_ok schema row"
  shows "typeCheckExpr cat e' = Inr () \<and> no_calls e' \<and> list_all (row_fits cat (scan_index t schema) row) (columns e')"
proof -
  note b = bind_exprD [OF assms(1)]
  then have "no_calls e' \<and> list_all (\<lambda>q. \<exists>c col. q = qual_name t c \<and> getColumnInfo cat t c = Inr col) (columns e')"
    using resolve_one assms(2-4) by blast
  with b show ?thesis
    using table_row_fits [OF assms(4-7)] by (auto simp: list_all_iff simp del: typeCheckExpr.simps)
qed

text \<open>
  The items of a query that evaluate on every row: columns, literals and one comparison. (The others the
  binder accepts are functions, and AND and OR of columns and literals, which must not be strings.)
\<close>

definition item_ok :: "string \<Rightarrow> Expr \<Rightarrow> bool" where
  "item_ok t e \<longleftrightarrow> no_calls e \<and> list_all (plain_column t) (columns e) \<and>
     (case e of Binary_Op op _ _ \<Rightarrow> comparison op | _ \<Rightarrow> True)"

lemma resolve_op: "resolveColumnsInExpr cat reg ts e = Inr e' \<Longrightarrow>
    (case e of Binary_Op op _ _ \<Rightarrow> \<exists>l r. e' = Binary_Op op l r | Function_Call f es \<Rightarrow> True | _ \<Rightarrow> leaf e')"
  by (cases e) (auto simp: bindE_eq_Inr leaf_def)

lemma item_evaluates:
  assumes "bind_expr cat reg [t] e = Inr e'" "item_ok t e" "CHR ''.'' \<notin> set t"
    "getTable cat t = Inr schema" "distinct (map cname (scolumns schema))" "row_ok schema row"
  shows "\<exists>v. eval reg row (scan_index t schema) e' = Inr v"
    and "\<not> leaf e \<Longrightarrow> \<exists>b. evalBoolean reg row (scan_index t schema) e' = Inr b"
proof -
  have e: "no_calls e" "list_all (plain_column t) (columns e)" using assms(2) by (simp_all add: item_ok_def)
  note f = bound_fits [OF assms(1) e assms(3-6)]
  have r: "resolveColumnsInExpr cat reg [t] e = Inr e'" using bind_exprD [OF assms(1)] by blast
  have p: "predicate_result cat e' (evalBoolean reg row (scan_index t schema) e')" using f checked_predicate by blast
  have c: "\<exists>b. evalBoolean reg row (scan_index t schema) e' = Inr b" if n: "\<not> leaf e"
  proof -
    obtain op l r' where "e = Binary_Op op l r'" "comparison op"
      using n assms(2) by (cases e) (auto simp: item_ok_def leaf_def)
    with resolve_op [OF r] obtain l r where "e' = Binary_Op op l r" "comparison op" by auto
    with p show ?thesis by (simp add: predicate_result_def del: evalBoolean.simps)
  qed
  then show "\<not> leaf e \<Longrightarrow> \<exists>b. evalBoolean reg row (scan_index t schema) e' = Inr b" .
  show "\<exists>v. eval reg row (scan_index t schema) e' = Inr v"
  proof (cases "leaf e")
    case True
    then have "leaf e'" using resolve_op [OF r] by (cases e) (auto simp: leaf_def)
    with f eval_leaf show ?thesis by blast
  next
    case False
    with c show ?thesis by (auto simp: bindE_eq_Inr)
  qed
qed

subsection \<open>Properties\<close>

text \<open>
  C20: Rewriting leaves the plan of a query alone: whatever tables a SELECT names, if it selects something
  and no selected column is named 0, the rewritten plan is the plan, and for one table it is the plan of
  the planner's single-table case.
\<close>

theorem rewrite_select_equivalent:
  assumes "plan_select sel = Inr plan" "selectList sel \<noteq> []"
    "\<forall>t. hd (selectList sel) \<noteq> Column_Ref (t @ ''.0'')"
  shows "rewritePlan plan = plan \<and> (\<forall>t. sel_tables sel = [t] \<longrightarrow> plan_single sel = Inr (rewritePlan plan))"
proof -
  obtain q t ts where q: "sel_tables sel = t # ts" "plan = L_Project (selectList sel) q" "no_project q"
    "q = with_filter (sel_where sel) (foldl (\<lambda>plan t. L_Join plan (L_SeqScan t)) (L_SeqScan t) ts)"
    using assms(1) by (rule plan_select_shape)
  have "show_nat 0 = ''0''" by code_simp
  then have "\<not> identity_from t 0 (selectList sel)" for t
    using assms(2,3) by (cases "selectList sel") auto
  then have "rewritePlan plan = plan" using q(2,3) by (simp add: rewrite_project)
  with plan_single_select [of sel] assms(1) show ?thesis by auto
qed

theorem rewrite_select_equivalent_witness:
  "rewritePlan (L_Project [Column_Ref ''u.name''] (L_Filter (Column_Ref ''u.id'') (L_SeqScan ''u''))) =
     L_Project [Column_Ref ''u.name''] (L_Filter (Column_Ref ''u.id'') (L_SeqScan ''u''))"
proof -
  let ?s = "\<lparr>selectList = [Column_Ref ''u.name''], sel_tables = [''u''], sel_where = Some (Column_Ref ''u.id'')\<rparr>"
  have "\<forall>t. hd (selectList ?s) \<noteq> Column_Ref (t @ ''.0'')"
  proof
    fix t :: string
    have "last ''u.name'' \<noteq> last (t @ ''.0'')" by simp
    then show "hd (selectList ?s) \<noteq> Column_Ref (t @ ''.0'')" by (metis Expr.inject(1) SelectStmt.select_convs(1) list.sel(1))
  qed
  from rewrite_select_equivalent [OF _ _ this] show ?thesis by (simp add: plan_select_def with_filter_def)
qed

text \<open>
  C17: The binder's types are sound for one table: a predicate that binds against a table whose column
  names are distinct, with names of that table and no function calls, evaluates on every row that fits
  the schema, at the positions that the plan generator assigns. There is one exception, a string used as a
  truth value, which throws; it needs a predicate that is a string, or AND or OR with a string operand.
\<close>

theorem bound_where_evaluates:
  assumes "bind_expr cat reg [t] e = Inr e'" "no_calls e" "list_all (plain_column t) (columns e)" "CHR ''.'' \<notin> set t"
    "getTable cat t = Inr schema" "distinct (map cname (scolumns schema))" "row_ok schema row"
  shows "predicate_result cat e' (evalBoolean reg row (index_columns t (scolumns schema) 0 Map.empty) e')"
  using bound_fits [OF assms] checked_predicate by blast

theorem bound_where_evaluates_witness:
  "\<exists>e'. bind_expr [''u'' \<mapsto> \<lparr>mschema = ex_schema, mindexes = [], mrowCount = 0\<rparr>] Map.empty [''u'']
      (Binary_Op ''='' (Column_Ref ''id'') (Int_Literal 7)) = Inr e' \<and>
    evalBoolean Map.empty [FInt 7, FStr ''abc''] (index_columns ''u'' (scolumns ex_schema) 0 Map.empty) e' = Inr True \<and>
    predicate_result [''u'' \<mapsto> \<lparr>mschema = ex_schema, mindexes = [], mrowCount = 0\<rparr>] e'
      (evalBoolean Map.empty [FInt 7, FStr ''abc''] (index_columns ''u'' (scolumns ex_schema) 0 Map.empty) e')"
proof -
  let ?cat = "[''u'' \<mapsto> \<lparr>mschema = ex_schema, mindexes = [], mrowCount = 0\<rparr>]"
  let ?e = "Binary_Op ''='' (Column_Ref ''id'') (Int_Literal 7)" and ?e' = "Binary_Op ''='' (Column_Ref ''u.id'') (Int_Literal 7)"
  have b: "bind_expr ?cat Map.empty [''u''] ?e = Inr ?e'"
    by (simp add: bind_expr_def qualifyColumn_def Let_def getColumnInfo_def getTable_def ex_schema_def ex_cols_def qual_name_def
        before_dot_def after_dot_def comparison_def)
  have "predicate_result ?cat ?e' (evalBoolean Map.empty [FInt 7, FStr ''abc''] (index_columns ''u'' (scolumns ex_schema) 0 Map.empty) ?e')"
    by (rule bound_where_evaluates [OF b _ _ _ _ _ ex_schema_ok(3)])
      (simp_all add: plain_column_def getTable_def ex_schema_def ex_cols_def)
  then show ?thesis
    using b by (intro exI [of _ ?e'])
      (simp add: ex_schema_def ex_cols_def qual_name_def field_at_def value_op_def int_op_def)
qed

end
