(* ===== verification/Parser.thy ===== *)
theory Parser
  imports Ast
begin

section \<open>The SQL parser\<close>

text \<open>
  \<open>parser/Parser\<close>: the tokenizer and the recursive-descent parser. The parser's state, the token vector
  and a position, is the list of the tokens from the position on; the last token is END and is never
  consumed. The recursion of the expression parser and the \<open>do ... while (match(COMMA))\<close> loops carry
  fuel; \<open>parse\<close> starts them with more than the number of tokens, and fuel never runs out.
\<close>

datatype TokenType =
    T_END | T_IDENT | T_INT_LITERAL | T_STR_LITERAL | T_COMMA | T_SEMICOLON | T_LPAREN | T_RPAREN
  | T_EQ | T_NEQ | T_LT | T_LTE | T_GT | T_GTE | T_PLUS | T_MINUS | T_STAR | T_SLASH | T_DOT
  | T_SELECT | T_FROM | T_WHERE | T_INSERT | T_INTO | T_VALUES | T_UPDATE | T_SET | T_DELETE
  | T_CREATE | T_TABLE | T_BEGIN | T_COMMIT | T_AND | T_OR

datatype Token = Tok (ttype: TokenType) (ttext: string)

subsection \<open>Tokenization\<close>

definition keyword_table :: "(string \<times> TokenType) list" where
  "keyword_table = [(''SELECT'', T_SELECT), (''FROM'', T_FROM), (''WHERE'', T_WHERE), (''INSERT'', T_INSERT),
     (''INTO'', T_INTO), (''VALUES'', T_VALUES), (''UPDATE'', T_UPDATE), (''SET'', T_SET),
     (''DELETE'', T_DELETE), (''CREATE'', T_CREATE), (''TABLE'', T_TABLE), (''BEGIN'', T_BEGIN),
     (''COMMIT'', T_COMMIT), (''AND'', T_AND), (''OR'', T_OR)]"

definition word_type :: "string \<Rightarrow> TokenType" where
  "word_type w = (case map_of keyword_table (map toupper w) of Some t \<Rightarrow> t | None \<Rightarrow> T_IDENT)"

definition word_start :: "char \<Rightarrow> bool" where
  "word_start c \<longleftrightarrow> isalpha c \<or> c = CHR ''_''"

definition word_char :: "char \<Rightarrow> bool" where
  "word_char c \<longleftrightarrow> isalnum c \<or> c = CHR ''_''"

definition quote :: char where
  "quote = CHR 0x27"

definition backslash :: char where
  "backslash = CHR 0x5C"

text \<open>The body of a string literal and what follows its closing quote.\<close>

fun scan_string :: "string \<Rightarrow> (string \<times> string) option" where
  "scan_string [] = None"
| "scan_string (c # cs) =
     (if c = quote then Some ([], cs)
      else case cs of
        d # ds \<Rightarrow>
          if c = backslash then map_option (\<lambda>(l, r). (c # d # l, r)) (scan_string ds)
          else map_option (\<lambda>(l, r). (c # l, r)) (scan_string cs)
      | [] \<Rightarrow> None)"

definition two_char :: "char \<Rightarrow> string \<Rightarrow> TokenType option" where
  "two_char c cs = (case cs of [] \<Rightarrow> None | d # _ \<Rightarrow>
     if [c, d] = ''<>'' then Some T_NEQ
     else if [c, d] = ''<='' then Some T_LTE
     else if [c, d] = ''>='' then Some T_GTE
     else None)"

definition single_char :: "char \<Rightarrow> TokenType option" where
  "single_char c = map_of
     [(CHR '','', T_COMMA), (CHR '';'', T_SEMICOLON), (CHR ''('', T_LPAREN), (CHR '')'', T_RPAREN),
      (CHR ''='', T_EQ), (CHR ''<'', T_LT), (CHR ''>'', T_GT), (CHR ''+'', T_PLUS), (CHR ''-'', T_MINUS),
      (CHR ''*'', T_STAR), (CHR ''/'', T_SLASH), (CHR ''.'', T_DOT)] c"

definition push :: "Token \<Rightarrow> Token list res \<Rightarrow> Token list res" where
  "push t r = bindE r (\<lambda>ts. Inr (t # ts))"

lemma scan_string_length: "scan_string cs = Some (l, r) \<Longrightarrow> length r < length cs"
proof (induction cs arbitrary: l r rule: scan_string.induct)
  case (2 c cs)
  show ?case
  proof (cases "c = quote \<or> cs = []")
    case True
    with 2(3) show ?thesis by (auto split: if_splits)
  next
    case False
    then obtain d ds where cs: "cs = d # ds" by (cases cs) auto
    show ?thesis
    proof (cases "c = backslash")
      case True
      with 2(3) False cs obtain l' where "scan_string ds = Some (l', r)" by auto
      from 2(1) [OF _ cs True this] False cs show ?thesis by simp
    next
      case nb: False
      with 2(3) False cs obtain l' where "scan_string cs = Some (l', r)" by auto
      from 2(2) [OF _ cs nb this] False show ?thesis by simp
    qed
  qed
qed simp

function tokenize :: "string \<Rightarrow> Token list res" where
  "tokenize [] = Inr [Tok T_END []]"
| "tokenize (c # cs) =
     (if isspace c then tokenize cs
      else if word_start c then
        let w = c # takeWhile word_char cs in push (Tok (word_type w) w) (tokenize (dropWhile word_char cs))
      else if isdigit c then
        push (Tok T_INT_LITERAL (c # takeWhile isdigit cs)) (tokenize (dropWhile isdigit cs))
      else if c = quote then
        (case scan_string cs of
           None \<Rightarrow> Inl (Runtime_Error ''Unterminated string literal'')
         | Some (lit, rest) \<Rightarrow> push (Tok T_STR_LITERAL lit) (tokenize rest))
      else
        (case two_char c cs of
           Some t \<Rightarrow> push (Tok t (c # take 1 cs)) (tokenize (drop 1 cs))
         | None \<Rightarrow>
             (case single_char c of
                Some t \<Rightarrow> push (Tok t [c]) (tokenize cs)
              | None \<Rightarrow> Inl (Runtime_Error (''Unknown char: '' @ [c])))))"
  by pat_completeness auto
termination
  by (relation "measure length")
    (auto simp: le_imp_less_Suc length_dropWhile_le dest: scan_string_length)

subsection \<open>The token stream\<close>

definition peek :: "Token list \<Rightarrow> Token" where
  "peek ts = (case ts of [] \<Rightarrow> Tok T_END [] | t # _ \<Rightarrow> t)"

text \<open>\<open>match\<close>: the rest of the tokens if the next one has the type.\<close>

definition accept :: "TokenType \<Rightarrow> Token list \<Rightarrow> Token list option" where
  "accept t ts = (if ttype (peek ts) = t then Some (tl ts) else None)"

definition expect :: "TokenType \<Rightarrow> string \<Rightarrow> Token list \<Rightarrow> Token list res" where
  "expect t msg ts = (case accept t ts of Some ts' \<Rightarrow> Inr ts' | None \<Rightarrow> Inl (Runtime_Error msg))"

text \<open>A check that the next token is an identifier, and \<open>nextToken().text\<close>.\<close>

definition ident :: "string \<Rightarrow> Token list \<Rightarrow> (string \<times> Token list) res" where
  "ident msg ts = (if ttype (peek ts) \<noteq> T_IDENT then Inl (Runtime_Error msg) else Inr (ttext (peek ts), tl ts))"

definition no_fuel :: error where
  "no_fuel = Undefined_Behaviour ''out of fuel''"

type_synonym 'a parser = "Token list \<Rightarrow> ('a \<times> Token list) res"

fun comma_list :: "nat \<Rightarrow> 'a parser \<Rightarrow> 'a list parser" where
  "comma_list 0 p ts = Inl no_fuel"
| "comma_list (Suc n) p ts = bindE (p ts) (\<lambda>(x, ts).
     case accept T_COMMA ts of
       None \<Rightarrow> Inr ([x], ts)
     | Some ts \<Rightarrow> bindE (comma_list n p ts) (\<lambda>(xs, ts). Inr (x # xs, ts)))"

subsection \<open>Expressions\<close>

definition binary_operator :: "TokenType \<Rightarrow> string option" where
  "binary_operator t = (case t of
     T_EQ \<Rightarrow> Some ''='' | T_LT \<Rightarrow> Some ''<'' | T_GT \<Rightarrow> Some ''>'' | T_LTE \<Rightarrow> Some ''<='' | T_GTE \<Rightarrow> Some ''>=''
   | T_NEQ \<Rightarrow> Some ''<>'' | T_AND \<Rightarrow> Some ''AND'' | T_OR \<Rightarrow> Some ''OR'' | _ \<Rightarrow> None)"

definition getPrecedence :: "string \<Rightarrow> int" where
  "getPrecedence op =
     (if op = ''AND'' then 1 else if op = ''OR'' then 1
      else if op \<in> {''='', ''<>'', ''<'', ''>'', ''<='', ''>=''} then 2 else 0)"

text \<open>
  The loop of \<open>parseExpression\<close> is \<open>expression_loop\<close>; it computes the operator's precedence and does not
  use it. In \<open>parsePrimary\<close> the branch for a function call is left out: an identifier has returned a
  column reference before it.
\<close>

fun parseExpression :: "nat \<Rightarrow> Expr parser"
  and expression_loop :: "nat \<Rightarrow> Expr \<Rightarrow> Expr parser"
  and parsePrimary :: "nat \<Rightarrow> Expr parser" where
  "parseExpression 0 ts = Inl no_fuel"
| "parseExpression (Suc n) ts = bindE (parsePrimary n ts) (\<lambda>(lhs, ts). expression_loop n lhs ts)"
| "expression_loop 0 lhs ts = Inl no_fuel"
| "expression_loop (Suc n) lhs ts = (case binary_operator (ttype (peek ts)) of
     None \<Rightarrow> Inr (lhs, ts)
   | Some op \<Rightarrow> bindE (parseExpression n (tl ts)) (\<lambda>(rhs, ts). expression_loop n (Binary_Op op lhs rhs) ts))"
| "parsePrimary 0 ts = Inl no_fuel"
| "parsePrimary (Suc n) ts =
     (let tok = peek ts in
      if ttype tok = T_IDENT then Inr (Column_Ref (ttext tok), tl ts)
      else if ttype tok = T_INT_LITERAL then
        bindE (stoi (ttext tok)) (\<lambda>i. Inr (Int_Literal (word_of_int i), tl ts))
      else if ttype tok = T_STR_LITERAL then Inr (Str_Literal (ttext tok), tl ts)
      else case accept T_LPAREN ts of
        Some ts \<Rightarrow>
          bindE (parseExpression n ts) (\<lambda>(node, ts).
          bindE (expect T_RPAREN ''Expected )'' ts) (\<lambda>ts. Inr (node, ts)))
      | None \<Rightarrow> Inl (Runtime_Error (''Unexpected token in expression: '' @ ttext tok)))"

definition expression :: "Expr parser" where
  "expression ts = parseExpression (3 * length ts + 3) ts"

definition commas :: "'a parser \<Rightarrow> 'a list parser" where
  "commas p ts = comma_list (length ts + 1) p ts"

subsection \<open>Statements\<close>

text \<open>The optional \<open>WHERE\<close> of three statements.\<close>

definition where_clause :: "Expr option parser" where
  "where_clause ts = (case accept T_WHERE ts of
     None \<Rightarrow> Inr (None, ts)
   | Some ts \<Rightarrow> bindE (expression ts) (\<lambda>(e, ts). Inr (Some e, ts)))"

definition select_item :: "Expr parser" where
  "select_item ts = (case accept T_STAR ts of
     Some ts \<Rightarrow> Inr (Column_Ref ''*'', ts) | None \<Rightarrow> expression ts)"

definition parseSelect :: "AST parser" where
  "parseSelect ts =
     bindE (expect T_SELECT ''Expected SELECT'' ts) (\<lambda>ts.
     bindE (commas select_item ts) (\<lambda>(items, ts).
     bindE (expect T_FROM ''Expected FROM'' ts) (\<lambda>ts.
     bindE (commas (ident ''Expected table name'') ts) (\<lambda>(tabs, ts).
     bindE (where_clause ts) (\<lambda>(w, ts).
       Inr (Select \<lparr>selectList = items, sel_tables = tabs, sel_where = w\<rparr>, ts))))))"

definition column_names :: "string list parser" where
  "column_names ts = (case accept T_LPAREN ts of
     None \<Rightarrow> Inr ([], ts)
   | Some ts \<Rightarrow>
       bindE (commas (ident ''Expected column name'') ts) (\<lambda>(cols, ts).
       bindE (expect T_RPAREN ''Expected ) after column list'' ts) (\<lambda>ts. Inr (cols, ts))))"

definition parseInsert :: "AST parser" where
  "parseInsert ts =
     bindE (expect T_INSERT ''Expected INSERT'' ts) (\<lambda>ts.
     bindE (expect T_INTO ''Expected INTO'' ts) (\<lambda>ts.
     bindE (ident ''Expected table name after INSERT INTO'' ts) (\<lambda>(tab, ts).
     bindE (column_names ts) (\<lambda>(cols, ts).
     bindE (expect T_VALUES ''Expected VALUES'' ts) (\<lambda>ts.
     bindE (expect T_LPAREN ''Expected ( before VALUES list'' ts) (\<lambda>ts.
     bindE (commas expression ts) (\<lambda>(vals, ts).
     bindE (expect T_RPAREN ''Expected ) after VALUES list'' ts) (\<lambda>ts.
       Inr (Insert \<lparr>ins_table = tab, ins_columns = cols, ins_values = vals\<rparr>, ts)))))))))"

definition assignment :: "(string \<times> Expr) parser" where
  "assignment ts =
     bindE (ident ''Expected column name in SET'' ts) (\<lambda>(col, ts).
     bindE (expect T_EQ ''Expected = in SET'' ts) (\<lambda>ts.
     bindE (expression ts) (\<lambda>(e, ts). Inr ((col, e), ts))))"

definition parseUpdate :: "AST parser" where
  "parseUpdate ts =
     bindE (expect T_UPDATE ''Expected UPDATE'' ts) (\<lambda>ts.
     bindE (ident ''Expected table name after UPDATE'' ts) (\<lambda>(tab, ts).
     bindE (expect T_SET ''Expected SET'' ts) (\<lambda>ts.
     bindE (commas assignment ts) (\<lambda>(asg, ts).
     bindE (where_clause ts) (\<lambda>(w, ts).
       Inr (Update \<lparr>upd_table = tab, assignments = asg, upd_where = w\<rparr>, ts))))))"

definition parseDelete :: "AST parser" where
  "parseDelete ts =
     bindE (expect T_DELETE ''Expected DELETE'' ts) (\<lambda>ts.
     bindE (expect T_FROM ''Expected FROM'' ts) (\<lambda>ts.
     bindE (ident ''Expected table name after DELETE FROM'' ts) (\<lambda>(tab, ts).
     bindE (where_clause ts) (\<lambda>(w, ts).
       Inr (Delete \<lparr>del_table = tab, del_where = w\<rparr>, ts)))))"

definition column_length :: "string \<Rightarrow> int32 parser" where
  "column_length typeName ts =
     (if typeName = ''STRING'' then
        (case accept T_LPAREN ts of
           None \<Rightarrow> Inr (0, ts)
         | Some ts \<Rightarrow>
             if ttype (peek ts) \<noteq> T_INT_LITERAL then Inl (Runtime_Error ''Expected length in STRING(...)'')
             else bindE (stoi (ttext (peek ts))) (\<lambda>n.
                  bindE (expect T_RPAREN ''Expected ) after STRING length'' (tl ts)) (\<lambda>ts.
                    Inr (word_of_int n, ts))))
      else Inr (0, ts))"

definition column_def :: "(string \<times> string \<times> int32) parser" where
  "column_def ts =
     bindE (ident ''Expected column name in CREATE TABLE'' ts) (\<lambda>(col, ts).
     bindE (ident ''Expected data type for column'' ts) (\<lambda>(ty, ts).
     bindE (column_length ty ts) (\<lambda>(len, ts). Inr ((col, ty, len), ts))))"

definition parseCreate :: "AST parser" where
  "parseCreate ts =
     bindE (expect T_CREATE ''Expected CREATE'' ts) (\<lambda>ts.
     bindE (expect T_TABLE ''Expected TABLE'' ts) (\<lambda>ts.
     bindE (ident ''Expected table name in CREATE TABLE'' ts) (\<lambda>(tab, ts).
     bindE (expect T_LPAREN ''Expected ( after table name'' ts) (\<lambda>ts.
     bindE (commas column_def ts) (\<lambda>(cols, ts).
     bindE (expect T_RPAREN ''Expected ) after CREATE TABLE columns'' ts) (\<lambda>ts.
       Inr (Create_Table \<lparr>cre_table = tab, cre_columns = cols\<rparr>, ts)))))))"

definition parseBegin :: "AST parser" where
  "parseBegin ts = bindE (expect T_BEGIN ''Expected BEGIN'' ts) (\<lambda>ts. Inr (Begin, ts))"

definition parseCommit :: "AST parser" where
  "parseCommit ts = bindE (expect T_COMMIT ''Expected COMMIT'' ts) (\<lambda>ts. Inr (Commit, ts))"

definition parseStatement :: "AST parser" where
  "parseStatement ts =
     bindE (case ttype (peek ts) of
         T_SELECT \<Rightarrow> parseSelect ts
       | T_INSERT \<Rightarrow> parseInsert ts
       | T_UPDATE \<Rightarrow> parseUpdate ts
       | T_DELETE \<Rightarrow> parseDelete ts
       | T_CREATE \<Rightarrow> parseCreate ts
       | T_BEGIN \<Rightarrow> parseBegin ts
       | T_COMMIT \<Rightarrow> parseCommit ts
       | _ \<Rightarrow> Inl (Runtime_Error ''Unknown statement type''))
     (\<lambda>(ast, ts). Inr (ast, case accept T_SEMICOLON ts of Some ts \<Rightarrow> ts | None \<Rightarrow> ts))"

definition parse :: "string \<Rightarrow> AST res" where
  "parse sqlText = bindE (tokenize sqlText) (\<lambda>ts. bindE (parseStatement ts) (\<lambda>(ast, _). Inr ast))"

subsection \<open>Rendering tokens\<close>

text \<open>
  \<open>token_ok\<close> holds for the tokens the tokenizer can produce, apart from END: words with their type,
  digits, string literals that end at their closing quote, and operators with their spelling.
  \<open>render_tokens\<close> writes them with a blank after each.
\<close>

definition symbol_text :: "TokenType \<Rightarrow> string option" where
  "symbol_text t = map_of
     [(T_COMMA, '',''), (T_SEMICOLON, '';''), (T_LPAREN, ''(''), (T_RPAREN, '')''), (T_EQ, ''=''),
      (T_NEQ, ''<>''), (T_LT, ''<''), (T_LTE, ''<=''), (T_GT, ''>''), (T_GTE, ''>=''), (T_PLUS, ''+''),
      (T_MINUS, ''-''), (T_STAR, ''*''), (T_SLASH, ''/''), (T_DOT, ''.'')] t"

definition word_ok :: "string \<Rightarrow> bool" where
  "word_ok w \<longleftrightarrow> (case w of [] \<Rightarrow> False | c # cs \<Rightarrow> word_start c \<and> list_all word_char cs)"

definition literal_ok :: "string \<Rightarrow> bool" where
  "literal_ok s \<longleftrightarrow> scan_string (s @ [quote]) = Some (s, [])"

definition token_ok :: "Token \<Rightarrow> bool" where
  "token_ok t \<longleftrightarrow> (if ttype t = T_INT_LITERAL then ttext t \<noteq> [] \<and> list_all isdigit (ttext t)
     else if ttype t = T_STR_LITERAL then literal_ok (ttext t)
     else case symbol_text (ttype t) of
       Some s \<Rightarrow> ttext t = s
     | None \<Rightarrow> word_ok (ttext t) \<and> word_type (ttext t) = ttype t)"

definition render_token :: "Token \<Rightarrow> string" where
  "render_token t = (if ttype t = T_STR_LITERAL then quote # ttext t @ [quote] else ttext t)"

definition render_tokens :: "Token list \<Rightarrow> string" where
  "render_tokens ts = concat (map (\<lambda>t. render_token t @ '' '') ts)"

lemma scan_string_append:
  "scan_string cs = Some (l, r) \<Longrightarrow> scan_string (cs @ ys) = Some (l, r @ ys)"
proof (induction cs arbitrary: l r rule: scan_string.induct)
  case (2 c cs)
  show ?case
  proof (cases "c = quote \<or> cs = []")
    case True
    with 2(3) show ?thesis by (auto split: if_splits)
  next
    case False
    then obtain d ds where cs: "cs = d # ds" by (cases cs) auto
    show ?thesis
    proof (cases "c = backslash")
      case True
      with 2(3) False cs obtain l' where l: "scan_string ds = Some (l', r)" "l = c # d # l'" by auto
      from 2(1) [OF _ cs True l(1)] l False cs True show ?thesis by simp
    next
      case nb: False
      with 2(3) False cs obtain l' where l: "scan_string cs = Some (l', r)" "l = c # l'" by auto
      from 2(2) [OF _ cs nb l(1)] l False cs nb show ?thesis by simp
    qed
  qed
qed simp

lemma takeWhile_stop: "list_all P xs \<Longrightarrow> \<not> P y \<Longrightarrow>
    takeWhile P (xs @ y # ys) = xs \<and> dropWhile P (xs @ y # ys) = y # ys"
  by (induction xs) auto

lemma word_start_class: "word_start c \<Longrightarrow> \<not> isspace c"
  using isalpha_not_isspace [of c] by (cases "isalpha c") (auto simp: word_start_def isspace_def)

lemma digit_class: "isdigit c \<Longrightarrow> \<not> isspace c \<and> \<not> word_start c"
  by (auto simp: word_start_def isdigit_not_isspace isdigit_not_isalpha isdigit_def)

lemma blank_class: "isspace (CHR '' '')" "\<not> word_char (CHR '' '')" "\<not> isdigit (CHR '' '')"
  by (simp_all add: isspace_def word_char_def isalnum_def isalpha_def isdigit_def)

lemma quote_class: "\<not> isspace quote" "\<not> word_start quote" "\<not> isdigit quote"
  by (simp_all add: quote_def isspace_def word_start_def isalpha_def isdigit_def)

lemma tokenize_blank: "tokenize (CHR '' '' # s) = tokenize s"
  by (simp add: blank_class)

lemma tokenize_word:
  assumes "word_ok w"
  shows "tokenize (w @ CHR '' '' # s) = push (Tok (word_type w) w) (tokenize s)"
proof -
  obtain c cs where w: "w = c # cs" "word_start c" "list_all word_char cs"
    using assms by (cases w) (auto simp: word_ok_def)
  with takeWhile_stop [OF w(3) blank_class(2), of s] show ?thesis
    by (simp add: word_start_class tokenize_blank Let_def del: tokenize.simps, subst tokenize.simps(2))
      (simp add: word_start_class tokenize_blank Let_def del: tokenize.simps)
qed

lemma tokenize_digits:
  assumes "list_all isdigit w" "w \<noteq> []"
  shows "tokenize (w @ CHR '' '' # s) = push (Tok T_INT_LITERAL w) (tokenize s)"
proof -
  obtain c cs where w: "w = c # cs" "isdigit c" "list_all isdigit cs"
    using assms by (cases w) auto
  from takeWhile_stop [OF w(3) blank_class(3), of s] digit_class [OF w(2)] w show ?thesis
    by (simp del: tokenize.simps, subst tokenize.simps(2)) (simp add: tokenize_blank del: tokenize.simps)
qed

lemma tokenize_literal:
  assumes "literal_ok lit"
  shows "tokenize (quote # lit @ quote # CHR '' '' # s) = push (Tok T_STR_LITERAL lit) (tokenize s)"
  using scan_string_append [of "lit @ [quote]" lit "[]" "CHR '' '' # s"] assms quote_class
  by (subst tokenize.simps(2)) (simp add: literal_ok_def tokenize_blank del: tokenize.simps)

lemma tokenize_symbol:
  assumes "symbol_text t = Some txt"
  shows "tokenize (txt @ CHR '' '' # s) = push (Tok t txt) (tokenize s)"
  using assms
  by (auto simp: symbol_text_def isspace_def word_start_def isalpha_def isdigit_def quote_def
      two_char_def single_char_def tokenize_blank split: if_splits)

lemma tokenize_token: "token_ok t \<Longrightarrow> tokenize (render_token t @ CHR '' '' # s) = push t (tokenize s)"
  by (cases t)
    (auto simp: token_ok_def render_token_def tokenize_digits tokenize_literal tokenize_symbol tokenize_word
      simp del: tokenize.simps split: if_splits option.splits)

lemma tokenize_render: "list_all token_ok ts \<Longrightarrow> tokenize (render_tokens ts) = Inr (ts @ [Tok T_END []])"
proof (induction ts)
  case (Cons t ts)
  then have "tokenize (render_tokens (t # ts)) = push t (tokenize (render_tokens ts))"
    by (simp add: render_tokens_def tokenize_token)
  with Cons show ?case by (simp add: push_def)
qed (simp add: render_tokens_def)

subsection \<open>Totality\<close>

text \<open>
  \<open>parses k ts r\<close>: the result is one of the exceptions that the parser throws, or the tokens left are
  at least \<open>k\<close> fewer. In particular it is not the end of the fuel.
\<close>

definition thrown :: "error \<Rightarrow> bool" where
  "thrown e \<longleftrightarrow> (\<exists>m. e = Runtime_Error m \<or> e = Out_Of_Range m \<or> e = Invalid_Argument m)"

definition parses :: "nat \<Rightarrow> Token list \<Rightarrow> ('a \<times> Token list) res \<Rightarrow> bool" where
  "parses k ts r \<longleftrightarrow> (case r of Inl e \<Rightarrow> thrown e | Inr (x, ts') \<Rightarrow> length ts' + k \<le> length ts)"

lemma thrown_simps [simp]: "thrown (Runtime_Error m)" "thrown (Out_Of_Range m)" "thrown (Invalid_Argument m)"
  by (simp_all add: thrown_def)

lemma thrown_no_fuel: "\<not> thrown no_fuel" "\<not> thrown (Undefined_Behaviour m)"
  by (simp_all add: thrown_def no_fuel_def)

lemma parses_Inr [simp]: "parses k ts (Inr (x, ts')) \<longleftrightarrow> length ts' + k \<le> length ts"
  by (simp add: parses_def)

lemma parses_Inl [simp]: "parses k ts (Inl e) \<longleftrightarrow> thrown e"
  by (simp add: parses_def)

lemma parses_mono: "parses k ts r \<Longrightarrow> j \<le> k \<Longrightarrow> parses j ts r"
  by (cases r) (auto simp: parses_def split: prod.splits)

lemma parses_weaken: "parses (Suc 0) ts r \<Longrightarrow> parses 0 ts r"
  by (rule parses_mono) simp_all

lemma parses_bind:
  assumes "parses k ts r" "\<And>x us. length us + k \<le> length ts \<Longrightarrow> parses 0 us (g x us)"
  shows "parses k ts (bindE r (\<lambda>(x, us). g x us))"
proof (cases r)
  case (Inr p)
  obtain x us where p: "p = (x, us)" by (cases p)
  with Inr assms(1) have "length us + k \<le> length ts" by simp
  with assms(2) [OF this, of x] Inr p show ?thesis
    by (cases "g x us") (auto simp: parses_def split: prod.splits)
qed (use assms(1) in simp)

lemma parses_expect:
  assumes "\<And>us. length us + 1 \<le> length ts \<Longrightarrow> parses 0 us (g us)" "t \<noteq> T_END"
  shows "parses 0 ts (bindE (expect t msg ts) g)"
proof (cases ts)
  case (Cons a us)
  with assms(1) [of us] show ?thesis
    by (cases "g us") (auto simp: expect_def accept_def peek_def parses_def split: prod.splits)
qed (use assms(2) in \<open>simp add: expect_def accept_def peek_def\<close>)

text \<open>Parsing what follows a token that was consumed.\<close>

lemma parses_after: "parses 0 us r \<Longrightarrow> length us + 1 \<le> length ts \<Longrightarrow> parses (Suc 0) ts r"
  by (cases r) (auto simp: parses_def split: prod.splits)

lemma parses_accept:
  "accept t ts = Some us \<Longrightarrow> t \<noteq> T_END \<Longrightarrow> length us + 1 \<le> length ts"
  by (cases ts) (auto simp: accept_def peek_def split: if_splits)

lemma parses_peek: "ttype (peek ts) \<noteq> T_END \<Longrightarrow> length (tl ts) + 1 \<le> length ts"
  by (cases ts) (auto simp: peek_def)

lemma parses_ident [simp]: "parses (Suc 0) ts (ident msg ts)"
  by (cases ts) (auto simp: ident_def peek_def)

lemma stoi_thrown: "stoi s = Inl e \<Longrightarrow> thrown e"
  by (auto simp: stoi_def parse_integer_def Let_def split: list.splits if_splits)

lemma parses_stoi:
  assumes "\<And>i. parses k ts (g i)"
  shows "parses k ts (bindE (stoi s) g)"
  using assms stoi_thrown by (cases "stoi s") auto

lemma binary_operator_END: "binary_operator t \<noteq> None \<Longrightarrow> t \<noteq> T_END"
  by (auto simp: binary_operator_def)

lemma expression_parses:
  "2 * length ts + 2 \<le> n \<Longrightarrow> parses (Suc 0) ts (parseExpression n ts)"
  "2 * length ts + 1 \<le> n \<Longrightarrow> parses 0 ts (expression_loop n lhs ts)"
  "2 * length ts + 1 \<le> n \<Longrightarrow> parses (Suc 0) ts (parsePrimary n ts)"
proof (induction n ts and n lhs ts and n ts rule: parseExpression_expression_loop_parsePrimary.induct)
  case (2 n ts)
  have "parses (Suc 0) ts (parsePrimary n ts)" using 2 by simp
  then show ?case
    using 2 unfolding parseExpression.simps by (intro parses_bind) auto
next
  case (4 n lhs ts)
  show ?case
  proof (cases "binary_operator (ttype (peek ts))")
    case (Some op)
    then have len: "length (tl ts) + 1 \<le> length ts"
      using binary_operator_END by (intro parses_peek) auto
    have "parses (Suc 0) (tl ts) (parseExpression n (tl ts))" using 4 Some len by simp
    then have "parses 0 (tl ts) (bindE (parseExpression n (tl ts))
        (\<lambda>(rhs, ts). expression_loop n (Binary_Op op lhs rhs) ts))"
      using 4 Some len by (intro parses_weaken [OF parses_bind]) auto
    with Some len show ?thesis by (simp add: parses_weaken [OF parses_after])
  qed simp
next
  case (6 n ts)
  show ?case
  proof (cases "accept T_LPAREN ts")
    case None
    then show ?thesis
      using parses_peek [of ts] parses_stoi [of "Suc 0" ts "\<lambda>i. Inr (Int_Literal (word_of_int i), tl ts)"]
      by (auto simp: Let_def)
  next
    case (Some us)
    then have len: "length us + 1 \<le> length ts" by (rule parses_accept) simp
    have t: "ttype (peek ts) = T_LPAREN" using Some by (auto simp: accept_def split: if_splits)
    have "parses (Suc 0) us (parseExpression n us)" using 6 Some len t by (simp add: Let_def)
    then have "parses 0 us (bindE (parseExpression n us) (\<lambda>(node, ts).
        bindE (expect T_RPAREN ''Expected )'' ts) (\<lambda>ts. Inr (node, ts))))"
      by (intro parses_weaken [OF parses_bind] parses_expect) auto
    with Some len t show ?thesis by (simp add: Let_def parses_after)
  qed
qed simp_all

lemma parses_expression [simp]: "parses (Suc 0) ts (expression ts)"
  unfolding expression_def by (rule expression_parses) simp

lemma comma_list_parses:
  fixes p :: "'a parser"
  assumes p: "\<And>us. parses (Suc 0) us (p us)"
  shows "length ts + 1 \<le> n \<Longrightarrow> parses (Suc 0) ts (comma_list n p ts)"
proof (induction n arbitrary: ts)
  case (Suc n)
  show ?case
    unfolding comma_list.simps
  proof (rule parses_bind [OF p])
    fix x and us :: "Token list" assume us: "length us + Suc 0 \<le> length ts"
    show "parses 0 us (case accept T_COMMA us of None \<Rightarrow> Inr ([x], us)
      | Some vs \<Rightarrow> bindE (comma_list n p vs) (\<lambda>(xs, ts). Inr (x # xs, ts)))"
    proof (cases "accept T_COMMA us")
      case (Some vs)
      then have len: "length vs + 1 \<le> length us" by (rule parses_accept) simp
      with us Suc.prems have "parses (Suc 0) vs (comma_list n p vs)" by (intro Suc.IH) simp
      then have "parses 0 vs (bindE (comma_list n p vs) (\<lambda>(xs, ts). Inr (x # xs, ts)))"
        by (intro parses_weaken [OF parses_bind]) auto
      with Some len show ?thesis by (simp add: parses_weaken [OF parses_after])
    qed simp
  qed
qed simp

lemma parses_commas: "(\<And>us. parses (Suc 0) us (p us)) \<Longrightarrow> parses 0 ts (commas p ts)"
  unfolding commas_def by (intro parses_weaken comma_list_parses) simp_all

lemma parses_where [simp]: "parses 0 ts (where_clause ts)"
proof (cases "accept T_WHERE ts")
  case (Some us)
  then have len: "length us + 1 \<le> length ts" by (rule parses_accept) simp
  have "parses 0 us (bindE (expression us) (\<lambda>(e, ts). Inr (Some e, ts)))"
    by (intro parses_bind parses_weaken [OF parses_expression]) simp
  then have "parses 0 ts (bindE (expression us) (\<lambda>(e, ts). Inr (Some e, ts)))"
    using len by (rule parses_weaken [OF parses_after])
  with Some show ?thesis by (simp add: where_clause_def)
qed (simp add: where_clause_def)

lemma parses_select_item [simp]: "parses (Suc 0) ts (select_item ts)"
  using parses_accept [of T_STAR ts] by (cases "accept T_STAR ts") (auto simp: select_item_def)

lemma parses_column_names [simp]: "parses 0 ts (column_names ts)"
proof (cases "accept T_LPAREN ts")
  case (Some us)
  then have len: "length us + 1 \<le> length ts" by (rule parses_accept) simp
  have "parses 0 us (bindE (commas (ident ''Expected column name'') us) (\<lambda>(cols, ts).
       bindE (expect T_RPAREN ''Expected ) after column list'' ts) (\<lambda>ts. Inr (cols, ts))))"
    by (intro parses_bind parses_commas parses_expect) auto
  with Some len show ?thesis by (auto simp: column_names_def intro: parses_weaken [OF parses_after])
qed (simp add: column_names_def)

lemma parses_assignment [simp]: "parses (Suc 0) ts (assignment ts)"
  unfolding assignment_def
  by (intro parses_bind parses_ident parses_expect parses_weaken [OF parses_expression]) simp_all

lemma parses_column_length [simp]: "parses 0 ts (column_length ty ts)"
proof (cases "ty = ''STRING'' \<and> accept T_LPAREN ts \<noteq> None")
  case True
  then obtain us where us: "accept T_LPAREN ts = Some us" by auto
  then have len: "length us + 1 \<le> length ts" by (rule parses_accept) simp
  have "parses 0 ts (bindE (expect T_RPAREN ''Expected ) after STRING length'' (tl us)) (\<lambda>ts. Inr (word_of_int n, ts)))"
    for n :: int
    using len by (cases us) (auto simp: expect_def accept_def peek_def)
  with us True show ?thesis by (auto simp: column_length_def intro: parses_stoi)
qed (auto simp: column_length_def split: option.split)

lemma parses_column_def [simp]: "parses (Suc 0) ts (column_def ts)"
  unfolding column_def_def
  by (intro parses_bind parses_ident parses_weaken [OF parses_ident] parses_column_length) auto

lemma parses_statement: "parses 0 ts (parseStatement ts)"
proof -
  note seq = parses_bind parses_expect parses_commas parses_where parses_column_names
    parses_weaken [OF parses_ident] parses_ident parses_expression parses_select_item parses_assignment
    parses_column_def
  have "parses 0 ts (parseSelect ts)" "parses 0 ts (parseInsert ts)" "parses 0 ts (parseUpdate ts)"
    "parses 0 ts (parseDelete ts)" "parses 0 ts (parseCreate ts)" "parses 0 ts (parseBegin ts)"
    "parses 0 ts (parseCommit ts)"
    unfolding parseSelect_def parseInsert_def parseUpdate_def parseDelete_def parseCreate_def
      parseBegin_def parseCommit_def
    by (intro seq; simp)+
  then show ?thesis
    unfolding parseStatement_def
    by (intro parses_bind) (auto split: TokenType.split option.split dest: parses_accept)
qed

subsection \<open>Writing statements\<close>

text \<open>
  \<open>expr_tokens True e\<close> are the tokens of an expression where a primary is expected, with parentheses
  around an operator; the right operand needs none. \<open>stmt_tokens\<close> writes a statement. \<open>expr_ok\<close> and
  \<open>stmt_ok\<close> hold for the trees that have a text: identifiers that are words and no keyword, literals
  that are not negative, lists that are not empty.
\<close>

definition operator_token :: "string \<Rightarrow> Token" where
  "operator_token op = (case map_of
     [(''='', T_EQ), (''<'', T_LT), (''>'', T_GT), (''<='', T_LTE), (''>='', T_GTE), (''<>'', T_NEQ),
      (''AND'', T_AND), (''OR'', T_OR)] op of Some t \<Rightarrow> Tok t op | None \<Rightarrow> Tok T_END op)"

fun expr_tokens :: "bool \<Rightarrow> Expr \<Rightarrow> Token list" where
  "expr_tokens b (Column_Ref c) = [Tok T_IDENT c]"
| "expr_tokens b (Int_Literal i) = [Tok T_INT_LITERAL (to_string (sint i))]"
| "expr_tokens b (Str_Literal s) = [Tok T_STR_LITERAL s]"
| "expr_tokens b (Binary_Op op l r) =
     (let ts = expr_tokens True l @ operator_token op # expr_tokens False r in
      if b then Tok T_LPAREN ''('' # ts @ [Tok T_RPAREN '')''] else ts)"
| "expr_tokens b (Function_Call f es) = []"

definition ident_ok :: "string \<Rightarrow> bool" where
  "ident_ok w \<longleftrightarrow> word_ok w \<and> word_type w = T_IDENT"

fun expr_ok :: "Expr \<Rightarrow> bool" where
  "expr_ok (Column_Ref c) = ident_ok c"
| "expr_ok (Int_Literal i) = (0 \<le> sint i)"
| "expr_ok (Str_Literal s) = literal_ok s"
| "expr_ok (Binary_Op op l r) = (binary_operator (ttype (operator_token op)) = Some op \<and> expr_ok l \<and> expr_ok r)"
| "expr_ok (Function_Call f es) = False"

fun comma_tokens :: "('a \<Rightarrow> Token list) \<Rightarrow> 'a list \<Rightarrow> Token list" where
  "comma_tokens f [] = []"
| "comma_tokens f [x] = f x"
| "comma_tokens f (x # xs) = f x @ Tok T_COMMA '','' # comma_tokens f xs"

definition word_token :: "TokenType \<Rightarrow> string \<Rightarrow> Token list" where
  "word_token t w = [Tok t w]"

definition item_tokens :: "Expr \<Rightarrow> Token list" where
  "item_tokens e = (if e = Column_Ref ''*'' then [Tok T_STAR ''*''] else expr_tokens False e)"

definition where_tokens :: "Expr option \<Rightarrow> Token list" where
  "where_tokens w = (case w of None \<Rightarrow> [] | Some e \<Rightarrow> Tok T_WHERE ''WHERE'' # expr_tokens False e)"

definition columns_tokens :: "string list \<Rightarrow> Token list" where
  "columns_tokens cols = (if cols = [] then []
     else Tok T_LPAREN ''('' # comma_tokens (word_token T_IDENT) cols @ [Tok T_RPAREN '')''])"

definition assignment_tokens :: "string \<times> Expr \<Rightarrow> Token list" where
  "assignment_tokens a = Tok T_IDENT (fst a) # Tok T_EQ ''='' # expr_tokens False (snd a)"

definition column_tokens :: "string \<times> string \<times> int32 \<Rightarrow> Token list" where
  "column_tokens c = (case c of (col, ty, len) \<Rightarrow> [Tok T_IDENT col, Tok T_IDENT ty] @
     (if ty = ''STRING''
      then [Tok T_LPAREN ''('', Tok T_INT_LITERAL (to_string (sint len)), Tok T_RPAREN '')''] else []))"

fun stmt_tokens :: "AST \<Rightarrow> Token list" where
  "stmt_tokens (Select q) = Tok T_SELECT ''SELECT'' # comma_tokens item_tokens (selectList q) @
     Tok T_FROM ''FROM'' # comma_tokens (word_token T_IDENT) (sel_tables q) @ where_tokens (sel_where q)"
| "stmt_tokens (Insert q) = Tok T_INSERT ''INSERT'' # Tok T_INTO ''INTO'' # Tok T_IDENT (ins_table q) #
     columns_tokens (ins_columns q) @ Tok T_VALUES ''VALUES'' # Tok T_LPAREN ''('' #
     comma_tokens (expr_tokens False) (ins_values q) @ [Tok T_RPAREN '')'']"
| "stmt_tokens (Update q) = Tok T_UPDATE ''UPDATE'' # Tok T_IDENT (upd_table q) # Tok T_SET ''SET'' #
     comma_tokens assignment_tokens (assignments q) @ where_tokens (upd_where q)"
| "stmt_tokens (Delete q) = Tok T_DELETE ''DELETE'' # Tok T_FROM ''FROM'' # Tok T_IDENT (del_table q) #
     where_tokens (del_where q)"
| "stmt_tokens (Create_Table q) = Tok T_CREATE ''CREATE'' # Tok T_TABLE ''TABLE'' # Tok T_IDENT (cre_table q) #
     Tok T_LPAREN ''('' # comma_tokens column_tokens (cre_columns q) @ [Tok T_RPAREN '')'']"
| "stmt_tokens Begin = [Tok T_BEGIN ''BEGIN'']"
| "stmt_tokens Commit = [Tok T_COMMIT ''COMMIT'']"

fun where_ok :: "Expr option \<Rightarrow> bool" where
  "where_ok None = True"
| "where_ok (Some e) = expr_ok e"

definition column_ok :: "string \<times> string \<times> int32 \<Rightarrow> bool" where
  "column_ok c = (case c of (col, ty, len) \<Rightarrow> ident_ok col \<and> ident_ok ty \<and>
     (if ty = ''STRING'' then 0 \<le> sint len else len = 0))"

fun stmt_ok :: "AST \<Rightarrow> bool" where
  "stmt_ok (Select q) = (selectList q \<noteq> [] \<and> list_all (\<lambda>e. e = Column_Ref ''*'' \<or> expr_ok e) (selectList q) \<and>
     sel_tables q \<noteq> [] \<and> list_all ident_ok (sel_tables q) \<and> where_ok (sel_where q))"
| "stmt_ok (Insert q) = (ident_ok (ins_table q) \<and> list_all ident_ok (ins_columns q) \<and>
     ins_values q \<noteq> [] \<and> list_all expr_ok (ins_values q))"
| "stmt_ok (Update q) = (ident_ok (upd_table q) \<and> assignments q \<noteq> [] \<and>
     list_all (\<lambda>a. ident_ok (fst a) \<and> expr_ok (snd a)) (assignments q) \<and> where_ok (upd_where q))"
| "stmt_ok (Delete q) = (ident_ok (del_table q) \<and> where_ok (del_where q))"
| "stmt_ok (Create_Table q) = (ident_ok (cre_table q) \<and> cre_columns q \<noteq> [] \<and> list_all column_ok (cre_columns q))"
| "stmt_ok Begin = True"
| "stmt_ok Commit = True"

text \<open>A token after which an expression is at its end.\<close>

definition stops :: "Token list \<Rightarrow> bool" where
  "stops ts \<longleftrightarrow> binary_operator (ttype (peek ts)) = None"

lemma peek_Cons [simp]: "peek (t # ts) = t"
  by (simp add: peek_def)

lemma accept_Cons [simp]: "accept t (Tok u w # ts) = (if u = t then Some ts else None)"
  by (simp add: accept_def)

lemma expect_Cons [simp]: "expect t m (Tok t w # ts) = Inr ts"
  by (simp add: expect_def)

lemma ident_Cons [simp]: "ident m (Tok T_IDENT w # ts) = Inr (w, ts)"
  by (simp add: ident_def)

lemma stops_Cons [simp]: "stops (Tok t w # ts) \<longleftrightarrow> binary_operator t = None"
  by (simp add: stops_def)

lemma binary_operator_simps [simp]:
  "binary_operator T_COMMA = None" "binary_operator T_RPAREN = None" "binary_operator T_FROM = None"
  "binary_operator T_WHERE = None" "binary_operator T_END = None"
  by (simp_all add: binary_operator_def)

lemma operator_token_text: "ttype (operator_token op) \<noteq> T_END \<Longrightarrow> ttext (operator_token op) = op"
  by (auto simp: operator_token_def split: option.splits)

lemma expr_tokens_not_Nil: "expr_ok e \<Longrightarrow> expr_tokens b e \<noteq> []"
  by (cases e) (auto simp: Let_def)

lemma stoi_literal: "0 \<le> sint (i :: int32) \<Longrightarrow> stoi (to_string (sint i)) = Inr (sint i)"
  using sint_lt [of i] by (intro stoi_to_string) simp_all

lemma expr_tokens_parse:
  "expr_ok e \<Longrightarrow> 2 * length (expr_tokens True e) \<le> n + 1 \<Longrightarrow>
     parsePrimary n (expr_tokens True e @ rest) = Inr (e, rest)"
  "expr_ok e \<Longrightarrow> 2 * length (expr_tokens False e) \<le> n \<Longrightarrow> stops rest \<Longrightarrow>
     parseExpression n (expr_tokens False e @ rest) = Inr (e, rest)"
proof (induction e arbitrary: n rest)
  case (Column_Ref c)
  { case 1 then show ?case by (cases n) simp_all }
  { case 2
    then obtain m where "n = Suc (Suc m)" by (cases n; cases "n - 1") auto
    with 2 show ?case by (simp add: stops_def) }
next
  case (Int_Literal i)
  { case 1 then show ?case by (cases n) (simp_all add: stoi_literal) }
  { case 2
    then obtain m where "n = Suc (Suc m)" by (cases n; cases "n - 1") auto
    with 2 show ?case by (simp add: stops_def stoi_literal) }
next
  case (Str_Literal s)
  { case 1 then show ?case by (cases n) simp_all }
  { case 2
    then obtain m where "n = Suc (Suc m)" by (cases n; cases "n - 1") auto
    with 2 show ?case by (simp add: stops_def) }
next
  case (Binary_Op op l r)
  have l1: "2 * length (expr_tokens True l) \<le> n + 1 \<Longrightarrow>
      parsePrimary n (expr_tokens True l @ rest) = Inr (l, rest)" if "expr_ok l" for n rest
    using Binary_Op.IH(1) that by blast
  have r2: "2 * length (expr_tokens False r) \<le> n \<Longrightarrow> stops rest \<Longrightarrow>
      parseExpression n (expr_tokens False r @ rest) = Inr (r, rest)" if "expr_ok r" for n rest
    using Binary_Op.IH(4) that by blast
  have two: "parseExpression n (expr_tokens False (Binary_Op op l r) @ rest) = Inr (Binary_Op op l r, rest)"
    if ok: "expr_ok (Binary_Op op l r)" and n: "2 * length (expr_tokens False (Binary_Op op l r)) \<le> n"
      and st: "stops rest" for n rest
  proof -
    have "expr_tokens True l \<noteq> []" "expr_tokens False r \<noteq> []"
      using ok by (simp_all add: expr_tokens_not_Nil)
    then have len: "1 \<le> length (expr_tokens True l)" "1 \<le> length (expr_tokens False r)"
      by (simp_all add: Suc_leI)
    obtain m where m: "n = Suc (Suc (Suc m))" using n len by (cases n; cases "n - 1"; cases "n - 2") (auto simp: Let_def)
    have "parsePrimary (Suc (Suc m)) (expr_tokens True l @ operator_token op # expr_tokens False r @ rest)
        = Inr (l, operator_token op # expr_tokens False r @ rest)"
      using ok n m len by (intro l1) (simp_all add: Let_def)
    moreover have "parseExpression (Suc m) (expr_tokens False r @ rest) = Inr (r, rest)"
      using ok n m len st by (intro r2) (simp_all add: Let_def)
    ultimately show ?thesis using ok st by (simp add: m Let_def stops_def)
  qed
  { case 1
    then obtain m where m: "n = Suc m" by (cases n) (simp_all add: Let_def)
    have "parseExpression m (expr_tokens False (Binary_Op op l r) @ Tok T_RPAREN '')'' # rest)
        = Inr (Binary_Op op l r, Tok T_RPAREN '')'' # rest)"
      using 1 m by (intro two) (simp_all add: Let_def)
    then show ?case by (simp add: m Let_def) }
  { case 2 then show ?case by (intro two) }
next
  case (Function_Call f es)
  { case 1 then show ?case by simp }
  { case 2 then show ?case by simp }
qed

lemma expression_tokens [simp]:
  "expr_ok e \<Longrightarrow> stops rest \<Longrightarrow> expression (expr_tokens False e @ rest) = Inr (e, rest)"
  unfolding expression_def by (intro expr_tokens_parse) simp_all

lemma comma_list_tokens:
  fixes p :: "'a parser"
  assumes step: "\<And>x rest. x \<in> set xs \<Longrightarrow> stops rest \<Longrightarrow> p (f x @ rest) = Inr (x, rest)"
    and rest: "stops rest" "ttype (peek rest) \<noteq> T_COMMA"
  shows "xs \<noteq> [] \<Longrightarrow> length xs \<le> n \<Longrightarrow> comma_list n p (comma_tokens f xs @ rest) = Inr (xs, rest)"
  using step
proof (induction f xs arbitrary: n rule: comma_tokens.induct)
  case (2 f x)
  then show ?case using rest by (cases n) (simp_all add: accept_def)
next
  case (3 f x y ys)
  then obtain m where m: "n = Suc m" by (cases n) auto
  have "comma_list m p (comma_tokens f (y # ys) @ rest) = Inr (y # ys, rest)"
    using 3(2-4) m by (intro 3(1)) auto
  moreover have "p (f x @ Tok T_COMMA '','' # comma_tokens f (y # ys) @ rest)
      = Inr (x, Tok T_COMMA '','' # comma_tokens f (y # ys) @ rest)"
    using 3(4) by simp
  ultimately show ?case by (simp add: m)
qed simp

lemma comma_tokens_length: "(\<And>x. x \<in> set xs \<Longrightarrow> f x \<noteq> []) \<Longrightarrow> length xs \<le> length (comma_tokens f xs)"
proof (induction f xs rule: comma_tokens.induct)
  case (2 f x)
  then show ?case by (simp add: Suc_leI)
next
  case (3 f x y ys)
  then show ?case by simp
qed simp

lemma commas_tokens:
  fixes p :: "'a parser"
  assumes "\<And>x rest. x \<in> set xs \<Longrightarrow> stops rest \<Longrightarrow> p (f x @ rest) = Inr (x, rest)"
    and "stops rest" "ttype (peek rest) \<noteq> T_COMMA" "xs \<noteq> []" "\<And>x. x \<in> set xs \<Longrightarrow> f x \<noteq> []"
  shows "commas p (comma_tokens f xs @ rest) = Inr (xs, rest)"
proof -
  have "length xs \<le> length (comma_tokens f xs @ rest) + 1"
    using comma_tokens_length [of xs f] assms(5) by simp
  then show ?thesis unfolding commas_def using assms(1-4) by (intro comma_list_tokens)
qed

lemma commas_idents [simp]:
  "stops rest \<Longrightarrow> ttype (peek rest) \<noteq> T_COMMA \<Longrightarrow> xs \<noteq> [] \<Longrightarrow>
     commas (ident m) (comma_tokens (word_token T_IDENT) xs @ rest) = Inr (xs, rest)"
  by (rule commas_tokens) (simp_all add: word_token_def)

lemma expr_tokens_hd: "expr_ok e \<Longrightarrow> \<exists>t w ts. expr_tokens b e = Tok t w # ts \<and> t \<noteq> T_STAR"
proof (induction e arbitrary: b)
  case (Binary_Op op l r)
  then show ?case by (cases b) (auto simp: Let_def, metis append_Cons)
qed auto

lemma select_item_tokens:
  "e = Column_Ref ''*'' \<or> expr_ok e \<Longrightarrow> stops rest \<Longrightarrow> select_item (item_tokens e @ rest) = Inr (e, rest)"
proof (cases "e = Column_Ref ''*''")
  case False
  assume e: "e = Column_Ref ''*'' \<or> expr_ok e" and st: "stops rest"
  with False have ok: "expr_ok e" by simp
  obtain t w ts where "expr_tokens False e = Tok t w # ts" "t \<noteq> T_STAR"
    using expr_tokens_hd [OF ok, of False] by auto
  moreover have "expression (expr_tokens False e @ rest) = Inr (e, rest)" using ok st by simp
  ultimately show ?thesis using False by (simp add: select_item_def item_tokens_def)
qed (simp add: select_item_def item_tokens_def)

lemma where_clause_tokens:
  "where_ok w \<Longrightarrow> stops rest \<Longrightarrow> ttype (peek rest) \<noteq> T_WHERE \<Longrightarrow>
     where_clause (where_tokens w @ rest) = Inr (w, rest)"
  by (cases w) (simp_all add: where_clause_def where_tokens_def accept_def)

lemma where_tokens_stop:
  "stops rest \<Longrightarrow> ttype (peek rest) \<noteq> T_COMMA \<Longrightarrow>
     stops (where_tokens w @ rest) \<and> ttype (peek (where_tokens w @ rest)) \<noteq> T_COMMA"
  by (cases w) (simp_all add: where_tokens_def)

lemma column_names_tokens: "column_names (columns_tokens cols @ Tok T_VALUES w # rest) =
    Inr (cols, Tok T_VALUES w # rest)"
  by (simp add: column_names_def columns_tokens_def)

lemma assignment_tokens_parse:
  "expr_ok (snd a) \<Longrightarrow> stops rest \<Longrightarrow> assignment (assignment_tokens a @ rest) = Inr (a, rest)"
  by (simp add: assignment_def assignment_tokens_def)

lemma column_tokens_parse: "column_ok c \<Longrightarrow> column_def (column_tokens c @ rest) = Inr (c, rest)"
  by (cases c) (auto simp: column_def_def column_tokens_def column_ok_def column_length_def stoi_literal)

lemma item_not_Nil: "e = Column_Ref ''*'' \<or> expr_ok e \<Longrightarrow> item_tokens e \<noteq> []"
  by (auto simp: item_tokens_def expr_tokens_not_Nil)

lemma stmt_tokens_parse:
  assumes "stmt_ok ast" "stops rest" "ttype (peek rest) \<notin> {T_COMMA, T_WHERE}"
  shows "\<exists>rest'. parseStatement (stmt_tokens ast @ rest) = Inr (ast, rest')"
proof (cases ast)
  case (Select q)
  have "commas select_item (comma_tokens item_tokens (selectList q) @ Tok T_FROM ''FROM'' # us)
      = Inr (selectList q, Tok T_FROM ''FROM'' # us)" for us
  proof (rule commas_tokens)
    fix x rest assume "x \<in> set (selectList q)"
    then have x: "x = Column_Ref ''*'' \<or> expr_ok x" using assms(1) Select by (auto simp: list_all_iff)
    show "item_tokens x \<noteq> []" using x by (rule item_not_Nil)
    show "stops rest \<Longrightarrow> select_item (item_tokens x @ rest) = Inr (x, rest)"
      using x by (rule select_item_tokens)
  qed (use assms(1) Select in simp_all)
  moreover have "commas (ident m) (comma_tokens (word_token T_IDENT) (sel_tables q) @ where_tokens (sel_where q) @ rest)
      = Inr (sel_tables q, where_tokens (sel_where q) @ rest)" for m
    using assms where_tokens_stop [of rest "sel_where q"] Select by simp
  ultimately show ?thesis
    using assms Select by (simp add: parseStatement_def parseSelect_def where_clause_tokens)
next
  case (Insert q)
  have "commas expression (comma_tokens (expr_tokens False) (ins_values q) @ Tok T_RPAREN '')'' # us)
      = Inr (ins_values q, Tok T_RPAREN '')'' # us)" for us
    using assms(1) Insert
    by (intro commas_tokens expression_tokens) (auto simp: list_all_iff expr_tokens_not_Nil)
  then show ?thesis
    using assms Insert by (simp add: parseStatement_def parseInsert_def column_names_tokens)
next
  case (Update q)
  have "commas assignment (comma_tokens assignment_tokens (assignments q) @ where_tokens (upd_where q) @ rest)
      = Inr (assignments q, where_tokens (upd_where q) @ rest)"
    using assms where_tokens_stop [of rest "upd_where q"] Update
    by (intro commas_tokens assignment_tokens_parse) (auto simp: list_all_iff assignment_tokens_def)
  then show ?thesis
    using assms Update by (simp add: parseStatement_def parseUpdate_def where_clause_tokens)
next
  case (Delete q)
  then show ?thesis
    using assms by (simp add: parseStatement_def parseDelete_def where_clause_tokens)
next
  case (Create_Table q)
  have "commas column_def (comma_tokens column_tokens (cre_columns q) @ Tok T_RPAREN '')'' # us)
      = Inr (cre_columns q, Tok T_RPAREN '')'' # us)" for us
    using assms(1) Create_Table
    by (intro commas_tokens column_tokens_parse) (auto simp: list_all_iff column_tokens_def split: prod.splits)
  then show ?thesis using assms Create_Table by (simp add: parseStatement_def parseCreate_def)
qed (simp_all add: parseStatement_def parseBegin_def parseCommit_def)

text \<open>The tokens of a statement are tokens of the tokenizer.\<close>

lemma word_type_keywords:
  "word_type ''SELECT'' = T_SELECT" "word_type ''FROM'' = T_FROM" "word_type ''WHERE'' = T_WHERE"
  "word_type ''INSERT'' = T_INSERT" "word_type ''INTO'' = T_INTO" "word_type ''VALUES'' = T_VALUES"
  "word_type ''UPDATE'' = T_UPDATE" "word_type ''SET'' = T_SET" "word_type ''DELETE'' = T_DELETE"
  "word_type ''CREATE'' = T_CREATE" "word_type ''TABLE'' = T_TABLE" "word_type ''BEGIN'' = T_BEGIN"
  "word_type ''COMMIT'' = T_COMMIT" "word_type ''AND'' = T_AND" "word_type ''OR'' = T_OR"
  by code_simp+

lemma token_ok_keywords:
  "token_ok (Tok T_SELECT ''SELECT'')" "token_ok (Tok T_FROM ''FROM'')" "token_ok (Tok T_WHERE ''WHERE'')"
  "token_ok (Tok T_INSERT ''INSERT'')" "token_ok (Tok T_INTO ''INTO'')" "token_ok (Tok T_VALUES ''VALUES'')"
  "token_ok (Tok T_UPDATE ''UPDATE'')" "token_ok (Tok T_SET ''SET'')" "token_ok (Tok T_DELETE ''DELETE'')"
  "token_ok (Tok T_CREATE ''CREATE'')" "token_ok (Tok T_TABLE ''TABLE'')" "token_ok (Tok T_BEGIN ''BEGIN'')"
  "token_ok (Tok T_COMMIT ''COMMIT'')" "token_ok (Tok T_AND ''AND'')" "token_ok (Tok T_OR ''OR'')"
  "token_ok (Tok T_LPAREN ''('')" "token_ok (Tok T_RPAREN '')'')" "token_ok (Tok T_COMMA '','')"
  "token_ok (Tok T_EQ ''='')" "token_ok (Tok T_STAR ''*'')" "token_ok (Tok T_LT ''<'')"
  "token_ok (Tok T_GT ''>'')" "token_ok (Tok T_LTE ''<='')" "token_ok (Tok T_GTE ''>='')"
  "token_ok (Tok T_NEQ ''<>'')"
  by code_simp+

lemma token_ok_ident: "ident_ok w \<Longrightarrow> token_ok (Tok T_IDENT w)"
  by (simp add: token_ok_def symbol_text_def ident_ok_def)

lemma token_ok_number: "0 \<le> sint (i :: int32) \<Longrightarrow> token_ok (Tok T_INT_LITERAL (to_string (sint i)))"
  by (simp add: token_ok_def to_string_def list_all_iff show_nat_digits)

lemma operator_tokens:
  "operator_token ''='' = Tok T_EQ ''=''" "operator_token ''<'' = Tok T_LT ''<''"
  "operator_token ''>'' = Tok T_GT ''>''" "operator_token ''<='' = Tok T_LTE ''<=''"
  "operator_token ''>='' = Tok T_GTE ''>=''" "operator_token ''<>'' = Tok T_NEQ ''<>''"
  "operator_token ''AND'' = Tok T_AND ''AND''" "operator_token ''OR'' = Tok T_OR ''OR''"
  by (simp_all add: operator_token_def)

lemma token_ok_operator:
  assumes "binary_operator (ttype (operator_token op)) = Some op"
  shows "token_ok (operator_token op)"
proof -
  have "op \<in> {''='', ''<'', ''>'', ''<='', ''>='', ''<>'', ''AND'', ''OR''}"
    using assms by (auto simp: operator_token_def binary_operator_def split: option.splits if_splits)
  then show ?thesis by (auto simp: operator_tokens token_ok_keywords)
qed

lemma expr_tokens_ok: "expr_ok e \<Longrightarrow> list_all token_ok (expr_tokens b e)"
proof (induction e arbitrary: b)
  case (Binary_Op op l r)
  then show ?case by (simp add: Let_def token_ok_operator token_ok_keywords)
qed (simp_all add: token_ok_ident token_ok_number, simp add: token_ok_def)

lemma comma_tokens_ok:
  "list_all P xs \<Longrightarrow> (\<And>x. P x \<Longrightarrow> list_all token_ok (f x)) \<Longrightarrow> list_all token_ok (comma_tokens f xs)"
  by (induction f xs rule: comma_tokens.induct) (simp_all add: token_ok_keywords)

lemma stmt_tokens_ok: "stmt_ok ast \<Longrightarrow> list_all token_ok (stmt_tokens ast)"
proof -
  have w: "where_ok w \<Longrightarrow> list_all token_ok (where_tokens w)" for w
    by (cases w) (simp_all add: where_tokens_def token_ok_keywords expr_tokens_ok)
  have c2: "list_all ident_ok xs \<Longrightarrow> list_all token_ok (comma_tokens (word_token T_IDENT) xs)" for xs
    by (rule comma_tokens_ok [of ident_ok]) (simp_all add: word_token_def token_ok_ident)
  have c: "list_all ident_ok cols \<Longrightarrow> list_all token_ok (columns_tokens cols)" for cols
    using c2 [of cols] by (simp add: columns_tokens_def token_ok_keywords)
  have c1: "list_all (\<lambda>e. e = Column_Ref ''*'' \<or> expr_ok e) xs \<Longrightarrow>
      list_all token_ok (comma_tokens item_tokens xs)" for xs
    by (rule comma_tokens_ok [of "\<lambda>e. e = Column_Ref ''*'' \<or> expr_ok e"]) (auto simp: item_tokens_def token_ok_keywords expr_tokens_ok)
  have c3: "list_all expr_ok xs \<Longrightarrow> list_all token_ok (comma_tokens (expr_tokens False) xs)" for xs
    by (rule comma_tokens_ok [of expr_ok]) (simp_all add: expr_tokens_ok)
  have c4: "list_all (\<lambda>a. ident_ok (fst a) \<and> expr_ok (snd a)) xs \<Longrightarrow>
      list_all token_ok (comma_tokens assignment_tokens xs)" for xs
    by (rule comma_tokens_ok [of "\<lambda>a. ident_ok (fst a) \<and> expr_ok (snd a)"])
      (simp_all add: assignment_tokens_def token_ok_ident token_ok_keywords expr_tokens_ok)
  have c5: "list_all column_ok xs \<Longrightarrow> list_all token_ok (comma_tokens column_tokens xs)" for xs
    by (rule comma_tokens_ok [of column_ok]) (auto simp: column_ok_def column_tokens_def token_ok_ident token_ok_keywords
        token_ok_number split: prod.splits if_splits)
  assume "stmt_ok ast"
  then show ?thesis
    by (cases ast) (simp_all add: token_ok_keywords token_ok_ident w c c1 c2 c3 c4 c5)
qed

lemma parse_primary_end:
  "expr_ok e \<Longrightarrow> 2 * length (expr_tokens True e) \<le> Suc (Suc n) \<Longrightarrow> stops rest \<Longrightarrow>
     parseExpression (Suc (Suc n)) (expr_tokens True e @ rest) = Inr (e, rest)"
  using expr_tokens_parse(1) [of e "Suc n" rest] by (simp add: stops_def del: expr_tokens.simps)

lemma parse_operator:
  "expr_ok a \<Longrightarrow> 2 * length (expr_tokens True a) \<le> Suc (Suc (Suc n)) \<Longrightarrow>
     binary_operator (ttype (operator_token op)) = Some op \<Longrightarrow>
     parseExpression (Suc n) ts = Inr (r, rest) \<Longrightarrow> stops rest \<Longrightarrow>
     parseExpression (Suc (Suc (Suc n))) (expr_tokens True a @ operator_token op # ts) = Inr (Binary_Op op a r, rest)"
  using expr_tokens_parse(1) [of a "Suc (Suc n)" "operator_token op # ts"]
  by (simp add: stops_def del: parsePrimary.simps)

subsection \<open>Properties\<close>

text \<open>
  C14: Parsing inverts printing: the text of any well-formed statement, with any nesting of operators,
  parses to that statement, also when other tokens follow that cannot continue it.
\<close>

theorem parse_print:
  assumes "stmt_ok ast" "list_all token_ok rest"
    and "ttype (peek rest) \<notin> {T_COMMA, T_WHERE}" "binary_operator (ttype (peek rest)) = None"
  shows "parse (render_tokens (stmt_tokens ast @ rest)) = Inr ast"
proof -
  have toks: "tokenize (render_tokens (stmt_tokens ast @ rest)) = Inr (stmt_tokens ast @ rest @ [Tok T_END []])"
    using assms(2) stmt_tokens_ok [OF assms(1)] by (subst tokenize_render) simp_all
  have "stops (rest @ [Tok T_END []])" "ttype (peek (rest @ [Tok T_END []])) \<notin> {T_COMMA, T_WHERE}"
    using assms(3,4) by (cases rest; simp add: stops_def)+
  from stmt_tokens_parse [OF assms(1) this] toks show ?thesis by (auto simp: parse_def)
qed

theorem parse_print_witness:
  "parse ''SELECT * , ( a < 3 ) = b FROM t , u WHERE name = 'x' AND id >= 42 '' =
     Inr (Select \<lparr>selectList = [Column_Ref ''*'', Binary_Op ''='' (Binary_Op ''<'' (Column_Ref ''a'') (Int_Literal 3)) (Column_Ref ''b'')],
       sel_tables = [''t'', ''u''], sel_where = Some (Binary_Op ''='' (Column_Ref ''name'')
         (Binary_Op ''AND'' (Str_Literal ''x'') (Binary_Op ''>='' (Column_Ref ''id'') (Int_Literal 42))))\<rparr>)"
proof -
  let ?ast = "Select \<lparr>selectList = [Column_Ref ''*'', Binary_Op ''='' (Binary_Op ''<'' (Column_Ref ''a'') (Int_Literal 3)) (Column_Ref ''b'')],
       sel_tables = [''t'', ''u''], sel_where = Some (Binary_Op ''='' (Column_Ref ''name'')
         (Binary_Op ''AND'' (Str_Literal ''x'') (Binary_Op ''>='' (Column_Ref ''id'') (Int_Literal 42))))\<rparr>"
  have "stmt_ok ?ast" by code_simp
  moreover have "render_tokens (stmt_tokens ?ast) = ''SELECT * , ( a < 3 ) = b FROM t , u WHERE name = 'x' AND id >= 42 ''"
    by code_simp
  ultimately show ?thesis using parse_print [of ?ast "[]"] by (simp add: peek_def)
qed

text \<open>
  C32: The parser is total: on any text it returns a statement or throws one of its exceptions, an
  overflowing literal included; the fuel that bounds its recursion in this model never runs out.
\<close>

theorem parse_total:
  "case parse sqlText of Inr ast \<Rightarrow> True
   | Inl e \<Rightarrow> (\<exists>m. e = Runtime_Error m \<or> e = Out_Of_Range m \<or> e = Invalid_Argument m)"
proof -
  have "tokenize s = Inl e \<Longrightarrow> thrown e" for s e
    by (induction s arbitrary: e rule: tokenize.induct)
      (auto simp: push_def Let_def bindE_def split: if_splits option.splits sum.splits)
  moreover have "thrown e" if "parseStatement ts = Inl e" for ts e
    using parses_statement [of ts] that by simp
  ultimately show ?thesis
    unfolding parse_def thrown_def [symmetric]
    by (auto simp: bindE_def split: sum.split prod.split)
qed

text \<open>
  Operators have no precedence: whatever operators follow each other, the first one takes the whole
  rest as its right operand, so that a comparison on the left of AND or OR swallows the conjunction.
\<close>

theorem precedence_ignored:
  assumes "expr_ok a" "expr_ok b" "expr_ok c"
    and "binary_operator (ttype (operator_token op1)) = Some op1"
    and "binary_operator (ttype (operator_token op2)) = Some op2"
    and "binary_operator (ttype (peek rest)) = None"
  shows "expression (expr_tokens True a @ operator_token op1 # expr_tokens True b @
      operator_token op2 # expr_tokens True c @ rest) = Inr (Binary_Op op1 a (Binary_Op op2 b c), rest)"
proof -
  let ?bs = "expr_tokens True b @ operator_token op2 # expr_tokens True c @ rest"
  let ?ts = "expr_tokens True a @ operator_token op1 # ?bs"
  have st: "stops rest" using assms(6) by (simp add: stops_def)
  define n where "n = 3 * length ?ts - 3"
  have n: "3 * length ?ts + 3 = Suc (Suc (Suc (Suc (Suc (Suc n)))))" by (simp add: n_def)
  have len: "1 \<le> length (expr_tokens True a)" "1 \<le> length (expr_tokens True b)" "1 \<le> length (expr_tokens True c)"
    using assms(1-3) by (simp_all add: Suc_leI expr_tokens_not_Nil)
  have "parseExpression (Suc (Suc n)) (expr_tokens True c @ rest) = Inr (c, rest)"
    using assms(3) st len by (intro parse_primary_end) (simp_all add: n_def)
  then have "parseExpression (Suc (Suc (Suc (Suc n)))) ?bs = Inr (Binary_Op op2 b c, rest)"
    using assms(2,5) st len by (intro parse_operator [of b "Suc n" op2 "expr_tokens True c @ rest" c rest]) (simp_all add: n_def)
  then have "parseExpression (Suc (Suc (Suc (Suc (Suc (Suc n)))))) ?ts = Inr (Binary_Op op1 a (Binary_Op op2 b c), rest)"
    using assms(1,4) st len
    by (intro parse_operator [of a "Suc (Suc (Suc n))" op1 ?bs "Binary_Op op2 b c" rest]) (simp_all add: n_def)
  then show ?thesis unfolding expression_def n .
qed

theorem precedence_ignored_witness:
  "getPrecedence ''='' > getPrecedence ''AND'' \<and>
   expression (tl [Tok T_WHERE ''WHERE'', Tok T_IDENT ''a'', Tok T_EQ ''='', Tok T_INT_LITERAL ''1'',
     Tok T_AND ''AND'', Tok T_IDENT ''b'']) =
   Inr (Binary_Op ''='' (Column_Ref ''a'') (Binary_Op ''AND'' (Int_Literal 1) (Column_Ref ''b'')), [])"
proof -
  have "expr_ok (Column_Ref ''a'')" "expr_ok (Int_Literal 1)" "expr_ok (Column_Ref ''b'')"
    by code_simp+
  moreover have "expr_tokens True (Int_Literal 1) = [Tok T_INT_LITERAL ''1'']" by code_simp
  ultimately show ?thesis
    using precedence_ignored [of "Column_Ref ''a''" "Int_Literal 1" "Column_Ref ''b''" "''=''" "''AND''" "[]"]
    by (simp add: operator_tokens binary_operator_def getPrecedence_def peek_def)
qed

text \<open>
  Input after a statement is not an error: a misspelt keyword ends the statement, and what follows is
  dropped. A DELETE whose WHERE is misspelt parses as a DELETE of every row.
\<close>

theorem trailing_input_dropped:
  assumes "ident_ok tab" "list_all token_ok rest"
    and "ttype (peek rest) \<notin> {T_COMMA, T_WHERE}" "binary_operator (ttype (peek rest)) = None"
  shows "parse (render_tokens (Tok T_DELETE ''DELETE'' # Tok T_FROM ''FROM'' # Tok T_IDENT tab # rest)) =
    Inr (Delete \<lparr>del_table = tab, del_where = None\<rparr>)"
proof -
  have "\<exists>rest'. parseStatement (stmt_tokens (Delete \<lparr>del_table = tab, del_where = None\<rparr>) @ rest @ [Tok T_END []]) =
      Inr (Delete \<lparr>del_table = tab, del_where = None\<rparr>, rest')"
    using assms by (intro stmt_tokens_parse; cases rest) (simp_all add: stops_def)
  moreover have "tokenize (render_tokens (Tok T_DELETE ''DELETE'' # Tok T_FROM ''FROM'' # Tok T_IDENT tab # rest)) =
      Inr (stmt_tokens (Delete \<lparr>del_table = tab, del_where = None\<rparr>) @ rest @ [Tok T_END []])"
    using assms by (subst tokenize_render) (simp_all add: token_ok_keywords token_ok_ident where_tokens_def)
  ultimately show ?thesis by (auto simp: parse_def)
qed

theorem trailing_input_dropped_witness:
  "parse ''DELETE FROM t WHER id = 7 '' = Inr (Delete \<lparr>del_table = ''t'', del_where = None\<rparr>)"
proof -
  let ?rest = "[Tok T_IDENT ''WHER'', Tok T_IDENT ''id'', Tok T_EQ ''='', Tok T_INT_LITERAL ''7'']"
  have "ident_ok ''t''" "list_all token_ok ?rest" by code_simp+
  moreover have "render_tokens (Tok T_DELETE ''DELETE'' # Tok T_FROM ''FROM'' # Tok T_IDENT ''t'' # ?rest) =
      ''DELETE FROM t WHER id = 7 ''" by code_simp
  ultimately show ?thesis
    using trailing_input_dropped [of "''t''" ?rest] by (simp add: binary_operator_def)
qed

end
