(* ===== verification/QueryEngine.thy ===== *)
theory QueryEngine
  imports Recovery Planner Parser
begin

section \<open>The query engine\<close>

text \<open>
  \<open>queryOptimizerAndPlanner/QueryEngine.h\<close>: a statement from its text to its rows, through the parser, the
  binder, the planner, the rewriter, the plan generator and the executor, over the storage engine. The
  class declares \<open>executeQuery\<close> twice with one signature; the second contains the first and is modelled.
  The state is the storage engine's with the catalog. The registry of functions, the iteration order of
  hash maps (\<open>order\<close>) and the member \<open>getColumnIndex\<close> of \<open>Schema\<close>, which is called and not declared
  anywhere, are arguments.
\<close>

record qe_state = engine_state +
  qcatalog :: catalog

subsection \<open>Statements\<close>

text \<open>The constructor, over a disk and the memory of the frames: the catalog is read and nothing registered.\<close>

definition new_QueryEngine :: "fm_state \<Rightarrow> (nat \<Rightarrow> byte list) \<Rightarrow> string option \<Rightarrow> qe_state res" where
  "new_QueryEngine fm garbage file = (case load file Map.empty of
     (Inl e, _) \<Rightarrow> Inl e
   | (Inr _, cat) \<Rightarrow> Inr (engine_state.extend
       (engine_init (bm_init (fm\<lparr>files := Map.empty, nextFileId := 1\<rparr>) 128 garbage)) (qe_state.fields cat)))"

definition literal_value :: "error \<Rightarrow> Expr \<Rightarrow> FieldValue res" where
  "literal_value err e = (case e of Int_Literal i \<Rightarrow> Inr (FInt i) | Str_Literal s \<Rightarrow> Inr (FStr s) | _ \<Rightarrow> Inl err)"

fun insert_values :: "Expr list \<Rightarrow> FieldValue list res" where
  "insert_values [] = Inr []"
| "insert_values (e # es) =
     bindE (literal_value (Runtime_Error ''Unsupported INSERT expression'') e) (\<lambda>v.
     bindE (insert_values es) (\<lambda>vs. Inr (v # vs)))"

definition run_insert :: "InsertStmt \<Rightarrow> ('a qe_state_scheme, unit) io" where
  "run_insert ins = bindM (liftM (insert_values (ins_values ins))) (\<lambda>vals.
     bindM (se_insertRecord (ins_table ins) vals) (\<lambda>_. retM ()))"

text \<open>
  The key of an UPDATE or DELETE: without a WHERE clause a null pointer is dereferenced. The expressions
  come from \<open>make_unique\<close>, so the \<open>intValue\<close> of one that is no integer literal is 0.
\<close>

definition where_key :: "string \<Rightarrow> Expr option \<Rightarrow> int32 res" where
  "where_key kind w = (case w of
     None \<Rightarrow> Inl (Undefined_Behaviour ''null pointer'')
   | Some (Binary_Op op l r) \<Rightarrow>
       if op = ''=='' then Inr (case r of Int_Literal i \<Rightarrow> i | _ \<Rightarrow> 0)
       else Inl (Runtime_Error (kind @ '' only supports PK = value in WHERE''))
   | Some _ \<Rightarrow> Inl (Runtime_Error (kind @ '' only supports PK = value in WHERE'')))"

definition set_field :: "FieldValue list \<Rightarrow> int \<Rightarrow> FieldValue \<Rightarrow> FieldValue list res" where
  "set_field vs i v = (if 0 \<le> i \<and> i < int (length vs) then Inr (vs[nat i := v])
     else Inl (Undefined_Behaviour ''vector index''))"

fun apply_assignments :: "(Schema \<Rightarrow> string \<Rightarrow> int) \<Rightarrow> catalog \<Rightarrow> string \<Rightarrow> (string \<times> Expr) list \<Rightarrow>
    FieldValue list \<Rightarrow> FieldValue list res" where
  "apply_assignments colIndex cat t [] vals = Inr vals"
| "apply_assignments colIndex cat t ((col, e) # as) vals =
     bindE (getColumnInfo cat t col) (\<lambda>_.
     bindE (getTable cat t) (\<lambda>schema.
     bindE (literal_value (Runtime_Error ''Unsupported UPDATE expression'') e) (\<lambda>v.
     bindE (set_field vals (colIndex schema col) v) (apply_assignments colIndex cat t as))))"

definition run_update :: "(Schema \<Rightarrow> string \<Rightarrow> int) \<Rightarrow> catalog \<Rightarrow> UpdateStmt \<Rightarrow> ('a qe_state_scheme, unit) io" where
  "run_update colIndex cat upd =
     bindM (liftM (where_key ''UPDATE'' (upd_where upd))) (\<lambda>key.
     bindM (findByKey (upd_table upd) key) (\<lambda>r. case r of
       None \<Rightarrow> throwM uninitialised
     | Some rid \<Rightarrow>
         bindM (fetchRecord (upd_table upd) rid) (\<lambda>oldVals.
         bindM (liftM (apply_assignments colIndex cat (upd_table upd) (assignments upd) oldVals)) (\<lambda>newVals.
         bindM (updateByKey (upd_table upd) key newVals) (\<lambda>_. retM ())))))"

definition run_delete :: "DeleteStmt \<Rightarrow> ('a qe_state_scheme, unit) io" where
  "run_delete del =
     bindM (liftM (where_key ''DELETE'' (del_where del))) (\<lambda>key.
     bindM (deleteByKey (del_table del) key) (\<lambda>_. retM ()))"

text \<open>Statements without rows leave a null plan, on which the executor would call \<open>open\<close>.\<close>

definition run_plan :: "((string \<rightharpoonup> int) \<Rightarrow> string list) \<Rightarrow> registry \<Rightarrow> nat \<Rightarrow> catalog \<Rightarrow> AST \<Rightarrow> ('a qe_state_scheme, row list) io" where
  "run_plan order reg n cat ast =
     bindM (liftM (buildLogicalPlan ast)) (\<lambda>logical.
     bindM (liftM (generate order cat (rewritePlan logical))) (\<lambda>plan.
     bindM (liftM (child_op plan)) (execute (scanTable, fetchRecord) reg n)))"

definition executeQuery :: "((string \<rightharpoonup> int) \<Rightarrow> string list) \<Rightarrow> (Schema \<Rightarrow> string \<Rightarrow> int) \<Rightarrow> registry \<Rightarrow> nat \<Rightarrow> string \<Rightarrow>
    ('a qe_state_scheme, row list) io" where
  "executeQuery order colIndex reg n sql =
     bindM (liftM (parse sql)) (\<lambda>ast.
     bindM (getsM qcatalog) (\<lambda>cat.
     bindM (liftM (bind_statement cat reg ast)) (\<lambda>ast. case ast of
       Insert ins \<Rightarrow> bindM (run_insert ins) (\<lambda>_. retM [])
     | Update upd \<Rightarrow> bindM (run_update colIndex cat upd) (\<lambda>_. retM [])
     | Delete del \<Rightarrow> bindM (run_delete del) (\<lambda>_. retM [])
     | _ \<Rightarrow> run_plan order reg n cat ast)))"

subsection \<open>An engine without tables\<close>

lemma engine_init_extend:
  "tables (engine_state.extend s x) = tables s"
  by (cases s) (simp add: engine_state.defs)

lemma table_of_none: "tables s = Map.empty \<Longrightarrow> \<exists>e. table_of name s = (Inl e, s)"
  by (simp add: table_of_def)

lemma bindM_fails: "\<exists>e. m s = (Inl e, s) \<Longrightarrow> \<exists>e. bindM m f s = (Inl e, s)"
  by (auto intro: bindM_Inl)

lemma bindM_lift_fails: "(\<And>x. r = Inr x \<Longrightarrow> \<exists>e. f x s = (Inl e, s)) \<Longrightarrow> \<exists>e. bindM (liftM r) f s = (Inl e, s)"
  by (cases r) simp_all

lemma open_fails: "tables s = Map.empty \<Longrightarrow> \<exists>e. op_open (scanTable, fetchRecord) reg n q s = (Inl e, s)"
proof (induction q arbitrary: n)
  case (Table_Scan t rids i)
  then show ?case by (cases n) (simp_all add: scanTable_def bindM_fails table_of_none)
next
  case (Filter_Op c p ci)
  then show ?case by (cases n) (simp_all add: bindM_fails)
next
  case (Project_Op c es ci)
  then show ?case by (cases n) (simp_all add: bindM_fails)
next
  case (Nested_Loop l r row d)
  then show ?case by (cases n) (simp_all add: bindM_fails)
qed

lemma plan_fails: "tables s = Map.empty \<Longrightarrow> \<exists>e. run_plan order reg n cat ast s = (Inl e, s)"
  unfolding run_plan_def execute_def
  by (intro bindM_lift_fails bindM_fails [OF open_fails])

lemma statement_fails:
  assumes "tables s = Map.empty"
  shows "\<exists>e. run_insert ins s = (Inl e, s)" "\<exists>e. run_update colIndex cat upd s = (Inl e, s)" "\<exists>e. run_delete del s = (Inl e, s)"
  using assms unfolding run_insert_def run_update_def run_delete_def se_insertRecord_def findByKey_def deleteByKey_def
  by (intro bindM_lift_fails bindM_fails table_of_none; assumption)+

lemma bindM_gets [simp]: "bindM (getsM g) f s = f (g s) s"
  by (rule bindM_Inr) simp

text \<open>Every query starts with parsing and binding, which touch no state.\<close>

lemma query_outcome:
  "executeQuery order colIndex reg n sql s =
     (case bindE (parse sql) (bind_statement (qcatalog s) reg) of
        Inl e \<Rightarrow> (Inl e, s)
      | Inr (Insert ins) \<Rightarrow> bindM (run_insert ins) (\<lambda>_. retM []) s
      | Inr (Update upd) \<Rightarrow> bindM (run_update colIndex (qcatalog s) upd) (\<lambda>_. retM []) s
      | Inr (Delete del) \<Rightarrow> bindM (run_delete del) (\<lambda>_. retM []) s
      | Inr ast \<Rightarrow> run_plan order reg n (qcatalog s) ast s)"
proof (cases "parse sql")
  case (Inr ast)
  then show ?thesis
    by (cases "bind_statement (qcatalog s) reg ast") (simp_all add: executeQuery_def split: AST.split)
qed (simp add: executeQuery_def)

lemma query_fails:
  assumes "tables s = Map.empty"
  shows "\<exists>e. executeQuery order colIndex reg n sql s = (Inl e, s)"
  unfolding query_outcome
  using statement_fails [OF assms] plan_fails [OF assms]
  by (auto intro!: bindM_fails split: sum.split AST.split)

subsection \<open>Updates and deletions\<close>

lemma bind_expr_shape: "bind_expr cat reg ts e = Inr (Binary_Op op l r) \<Longrightarrow> comparison op \<or> op = ''AND'' \<or> op = ''OR''"
  using bind_exprD [of cat reg ts e "Binary_Op op l r"] checked_operands [of cat op l r] by blast

lemma resolve_leaf: "resolveColumnsInExpr cat reg ts e = Inr e' \<Longrightarrow> leaf e' \<Longrightarrow> leaf e"
  by (cases e) (auto simp: bindE_eq_Inr leaf_def split: if_splits)

lemma bound_where_rejected: "bind_where cat reg ts w = Inr w' \<Longrightarrow> \<exists>e. where_key kind w' = Inl e"
  by (auto simp: bind_where_def where_key_def bindE_eq_Inr comparison_def dest!: bind_expr_shape split: option.splits Expr.splits)

lemma dml_fails:
  "bindUpdate cat reg upd = Inr upd' \<Longrightarrow> \<exists>e. run_update colIndex cat upd' s = (Inl e, s)"
  "bindDelete cat reg del = Inr del' \<Longrightarrow> \<exists>e. run_delete del' s = (Inl e, s)"
  using bound_where_rejected [of cat reg _ _ _ "''UPDATE''"] bound_where_rejected [of cat reg _ _ _ "''DELETE''"]
  by (fastforce simp: bindUpdate_def bindDelete_def run_update_def run_delete_def bindE_eq_Inr)+

subsection \<open>The rows of a query\<close>

text \<open>Every row of a table fits its schema.\<close>

lemma heap_row_ok:
  assumes "heap_inv F th s" "heap_rows F th s rid = Some vs"
  shows "row_ok (hschema th) vs"
proof -
  note H = heap_invD(3) [OF assms(1)]
  let ?p = "nat (pageId rid)" and ?i = "nat (slotNum rid)"
  have p: "?p < heap_pages F th s" and v: "page_slot th (bm_pages F s (hfileId th) ! ?p) ?i = Some vs"
    using assms(2) by (auto simp: heap_rows_def table_rows_def heap_pages_def split: if_splits)
  obtain n where n: "page_num th (bm_pages F s (hfileId th) ! ?p) n" using heap_invD(4) [OF assms(1) p] by blast
  have i: "?i < max_slots th" using v n by (auto simp: page_slot_def page_num_def split: if_splits)
  have "slot_at th ?i + hslotSize th \<le> PAGE_SIZE" by (rule slot_room [OF i])
  then have "srecordSize (hschema th) \<le> length (drop (slot_at th ?i + 1) (bm_pages F s (hfileId th) ! ?p))"
    using n heap_okD(3,5) [OF H] by (simp add: page_num_def)
  from deserialize_row_of(2) [OF heap_okD(4) [OF H] this] v show ?thesis
    using heap_okD(5) [OF H] by (auto simp: page_slot_def split: if_splits)
qed

text \<open>Scans and fetches of a table return its rows and change none.\<close>

lemma db_same_rows:
  assumes "db_inv F M N K s" "M t = Some ti" "heap_change F (theap ti) s u (heap_rows F (theap ti) s)"
  shows "db_inv F M N K u" "db_rows F M u = db_rows F M s"
proof -
  obtain rid :: RecordID where True by simp
  have same: "(heap_rows F (theap ti) s)(rid := heap_rows F (theap ti) s rid) = heap_rows F (theap ti) s" by simp
  note st = db_heap_step [OF assms(1,2), of _ rid "heap_rows F (theap ti) s rid", unfolded same, OF assms(3)]
  show "db_inv F M N K u" by (rule st(1))
  show "db_rows F M u = db_rows F M s" using st(2) by (auto simp: fun_upd_idem_iff db_rows_def assms(2))
qed

lemma tab_scan:
  assumes "tab_inv F t ti s"
  obtains u where "tableScan (theap ti) s = (Inr (sorted_list_of_set (dom (heap_rows F (theap ti) s))), u)"
    "heap_change F (theap ti) s u (heap_rows F (theap ti) s)" "finite (dom (heap_rows F (theap ti) s))"
proof -
  obtain u rids where u: "tableScan (theap ti) s = (Inr rids, u)" "heap_change F (theap ti) s u (heap_rows F (theap ti) s)"
    "sorted_wrt (<) rids" "set rids = dom (heap_rows F (theap ti) s)"
    using tab_inv_rows(1) [OF assms] by (rule scan_ok)
  have "rids = sorted_list_of_set (dom (heap_rows F (theap ti) s))"
    using u(3,4) by (metis strict_sorted_equal_Uniq sorted_list_of_set.idem_if_sorted_distinct strict_sorted_iff)
  moreover have "finite (dom (heap_rows F (theap ti) s))" using u(4) by (metis List.finite_set)
  ultimately show thesis using u(1,2) by (intro that) simp_all
qed

lemma db_scan:
  assumes "db_inv F M N K s" "M t = Some ti"
  obtains u where "tableScan (theap ti) s = (Inr (sorted_list_of_set (dom (heap_rows F (theap ti) s))), u)"
    "heap_change F (theap ti) s u (heap_rows F (theap ti) s)" "finite (dom (heap_rows F (theap ti) s))"
  using db_tab [OF assms] by (rule tab_scan) (rule that)

lemma db_fetch:
  assumes "db_inv F M N K s" "M t = Some ti" "heap_rows F (theap ti) s rid = Some row"
  obtains u where "getRow (theap ti) rid s = (Inr row, u)" "heap_change F (theap ti) s u (heap_rows F (theap ti) s)"
proof -
  have T: "tab_inv F t ti s" using assms(1,2) by (blast intro: db_tab)
  from getRow_ok [OF tab_inv_rows(1) [OF T] assms(3)] that show thesis by blast
qed

text \<open>The engine is a source of rows for the operators.\<close>

lemma bm_rest_catalog: "bm_rest t = bm_rest s \<Longrightarrow> qcatalog t = qcatalog s"
  by (cases s; cases t) (simp add: bm_rest_def bm_state.defs)

definition holds_rows :: "int set \<Rightarrow> (string \<rightharpoonup> TableInfo) \<Rightarrow> (string \<Rightarrow> nat) \<Rightarrow> (string \<Rightarrow> int32 set) \<Rightarrow> catalog \<Rightarrow>
    db \<Rightarrow> 'a qe_state_scheme \<Rightarrow> bool" where
  "holds_rows F M N K cat R s \<longleftrightarrow> db_inv F M N K s \<and> db_rows F M s = (\<lambda>(n, rid). R n rid) \<and> qcatalog s = cat"

lemma holds_rows_at: "holds_rows F M N K cat R s \<Longrightarrow> M t = Some ti \<Longrightarrow> heap_rows F (theap ti) s = R t"
  by (auto simp: holds_rows_def db_rows_def fun_eq_iff split: option.splits)

lemma holds_rows_tab: "holds_rows F M N K cat R s \<Longrightarrow> M t = Some ti \<Longrightarrow> tab_inv F t ti s"
  unfolding holds_rows_def by (blast intro: db_tab)

lemma holds_rows_step:
  assumes h: "holds_rows F M N K cat R s" and t: "M t = Some ti"
    and c: "heap_change F (theap ti) s u (heap_rows F (theap ti) s)"
  shows "holds_rows F M N K cat R u"
proof -
  have "db_inv F M N K s" using h by (simp add: holds_rows_def)
  from db_same_rows [OF this t c] h c show ?thesis
    using bm_rest_catalog bm_keepD unfolding holds_rows_def heap_change_def by metis
qed

interpretation engine_rows: row_source "holds_rows F M N K cat R" "dom M" R scanTable fetchRecord
  for F M N K cat R
proof (unfold_locales, goal_cases)
  case (1 s t)
  then obtain ti where t: "M t = Some ti" by blast
  have inv: "db_inv F M N K s" using 1(1) by (simp add: holds_rows_def)
  obtain u where u: "tableScan (theap ti) s = (Inr (sorted_list_of_set (dom (R t))), u)" "heap_change F (theap ti) s u (heap_rows F (theap ti) s)"
    using inv t unfolding holds_rows_at [OF 1(1) t, symmetric] by (rule db_scan)
  with holds_rows_step [OF 1(1) t u(2)] engine_ops(5) [OF holds_rows_tab [OF 1(1) t]] show ?case by auto
next
  case (2 s t rid row)
  then obtain ti where t: "M t = Some ti" by blast
  have inv: "db_inv F M N K s" using 2(1) by (simp add: holds_rows_def)
  have "heap_rows F (theap ti) s rid = Some row" using 2(3) holds_rows_at [OF 2(1) t] by simp
  with inv t obtain u where u: "getRow (theap ti) rid s = (Inr row, u)" "heap_change F (theap ti) s u (heap_rows F (theap ti) s)"
    by (rule db_fetch)
  with holds_rows_step [OF 2(1) t u(2)] engine_ops(6) [OF holds_rows_tab [OF 2(1) t]] show ?case by auto
next
  case (3 s t)
  then obtain ti where t: "M t = Some ti" by blast
  have inv: "db_inv F M N K s" using 3(1) by (simp add: holds_rows_def)
  show ?case using inv t unfolding holds_rows_at [OF 3(1) t, symmetric] by (rule db_scan)
qed

subsection \<open>A query over one table\<close>

lemma list_all2_set2: "list_all2 P xs ys \<Longrightarrow> y \<in> set ys \<Longrightarrow> \<exists>x \<in> set xs. P x y"
  by (induction rule: list_all2_induct) auto

lemma bindE_list:
  "bind_list cat reg ts es = Inr es' \<Longrightarrow> list_all2 (\<lambda>e e'. bind_expr cat reg ts e = Inr e') es es'"
  by (induction es arbitrary: es') (auto simp: bindE_eq_Inr)

lemma expandStar_items:
  "expandStar cat [t] es = Inr es' \<Longrightarrow> list_all (item_ok t) es \<Longrightarrow> list_all (item_ok t) es'"
proof (induction es arbitrary: es')
  case (Cons e es)
  then obtain xs ys where x: "(if e = Column_Ref ''*'' then star_columns cat [t] else Inr [e]) = Inr xs"
    "expandStar cat [t] es = Inr ys" "es' = xs @ ys" by (auto simp: bindE_eq_Inr)
  have "list_all (item_ok t) xs"
  proof (cases "e = Column_Ref ''*''")
    case True
    then obtain schema where "xs = column_refs t schema" using x(1) by (auto simp: bindE_eq_Inr)
    then show ?thesis by (auto simp: column_refs_def item_ok_def plain_column_def qual_name_def list_all_iff)
  qed (use x(1) Cons.prems(2) in auto)
  with Cons x(2,3) show ?case by simp
qed simp

lemma bindSelectD:
  assumes "bindSelect cat reg sel = Inr sel'" "sel_tables sel = [t]" "list_all (item_ok t) (selectList sel)"
  obtains es where "list_all (item_ok t) es" "list_all2 (\<lambda>e e'. bind_expr cat reg [t] e = Inr e') es (selectList sel')"
    "bind_where cat reg [t] (sel_where sel) = Inr (sel_where sel')" "sel_tables sel' = [t]"
proof -
  obtain es es' w where "expandStar cat [t] (selectList sel) = Inr es" "bind_list cat reg [t] es = Inr es'"
    "bind_where cat reg [t] (sel_where sel) = Inr w" "sel' = sel\<lparr>selectList := es', sel_where := w\<rparr>"
    using assms(1,2) by (auto simp: bindSelect_def bindE_eq_Inr)
  with that [of es] expandStar_items assms(2,3) bindE_list show thesis by auto
qed

lemma bindSelect_where:
  assumes "sel_where sel = Some p" "\<And>ts. \<exists>e. bind_expr cat reg ts p = Inl e"
  shows "\<exists>e. bindSelect cat reg sel = Inl e"
proof (cases "bindSelect cat reg sel")
  case (Inr sel')
  then obtain w where "bind_where cat reg (sel_tables sel) (Some p) = Inr w"
    using assms(1) by (auto simp: bindSelect_def bindE_eq_Inr split: if_splits)
  then obtain e where "bind_expr cat reg (sel_tables sel) p = Inr e" by (auto simp: bind_where_def bindE_eq_Inr)
  with assms(2) [of "sel_tables sel"] show ?thesis by simp
qed simp

lemma eval_args_total: "\<forall>e \<in> set es. \<exists>v. eval reg row ci e = Inr v \<Longrightarrow> \<exists>vs. eval_args reg row ci es = Inr vs"
  by (induction es) (auto simp del: eval.simps)

text \<open>A column named 0 is the one thing that can make the rewriter drop a projection.\<close>

lemma not_identity:
  assumes "bind_expr cat reg [t] e = Inr e'" "item_ok t e" "CHR ''.'' \<notin> set t" "getTable cat t = Inr schema"
    "''0'' \<notin> set (map cname (scolumns schema))"
  shows "\<not> identity_from t 0 (e' # es)"
proof
  have "show_nat 0 = ''0''" by code_simp
  moreover assume "identity_from t 0 (e' # es)"
  ultimately have e': "e' = Column_Ref (qual_name t ''0'')" by (simp add: qual_name_def)
  have "list_all (\<lambda>q. \<exists>c col. q = qual_name t c \<and> getColumnInfo cat t c = Inr col) (columns e')"
    using resolve_one [OF assms(3)] bind_exprD [OF assms(1)] assms(2) by (auto simp: item_ok_def)
  then obtain c col where c: "qual_name t ''0'' = qual_name t c" "getColumnInfo cat t c = Inr col" using e' by auto
  obtain i where "i < length (scolumns schema)" "cname (scolumns schema ! i) = c"
    using c(2) assms(4) find_column_nth by (force simp: getColumnInfo_def)
  then have "c \<in> set (map cname (scolumns schema))" by auto
  with c(1) assms(5) show False by simp
qed

text \<open>The operators that such a query becomes, and their rows.\<close>

definition select_op :: "string \<Rightarrow> (string \<rightharpoonup> int) \<Rightarrow> Expr list \<Rightarrow> Expr option \<Rightarrow> phys_op" where
  "select_op t ci es w = Project_Op (case w of None \<Rightarrow> Table_Scan t [] 0 | Some p \<Rightarrow> Filter_Op (Table_Scan t [] 0) p ci) es ci"

definition passes :: "registry \<Rightarrow> (string \<rightharpoonup> int) \<Rightarrow> Expr option \<Rightarrow> row \<Rightarrow> bool" where
  "passes reg ci w row \<longleftrightarrow> (case w of None \<Rightarrow> True | Some p \<Rightarrow> evalBoolean reg row ci p = Inr True)"

lemma passes_simps: "passes reg ci None = (\<lambda>_. True)" "passes reg ci (Some p) = holds reg ci p"
  by (simp_all add: passes_def fun_eq_iff holds_def del: evalBoolean.simps)

lemma generate_select:
  assumes "getTable cat t = Inr schema" "sel_tables sel = [t]" "selectList sel = e # es"
    "\<not> identity_from t 0 (e # es)"
  shows "plan_select sel = Inr (L_Project (e # es) (with_filter (sel_where sel) (L_SeqScan t)))"
    "rewritePlan (L_Project (e # es) (with_filter (sel_where sel) (L_SeqScan t))) =
       L_Project (e # es) (with_filter (sel_where sel) (L_SeqScan t))"
    "generate order cat (L_Project (e # es) (with_filter (sel_where sel) (L_SeqScan t))) =
       Inr (Some (select_op t (scan_index t schema) (e # es) (sel_where sel)))"
proof -
  show "plan_select sel = Inr (L_Project (e # es) (with_filter (sel_where sel) (L_SeqScan t)))"
    using assms(2,3) by (simp add: plan_select_def)
  show "rewritePlan (L_Project (e # es) (with_filter (sel_where sel) (L_SeqScan t))) =
      L_Project (e # es) (with_filter (sel_where sel) (L_SeqScan t))"
    using assms(4) by (intro rewrite_project) (auto simp: with_filter_def simp del: identity_from.simps split: option.splits)
  show "generate order cat (L_Project (e # es) (with_filter (sel_where sel) (L_SeqScan t))) =
       Inr (Some (select_op t (scan_index t schema) (e # es) (sel_where sel)))"
    using assms(1) by (simp add: generate_def with_filter_def select_op_def new_TableScan_def child_op_def split: option.split)
qed

lemma table_list_rows:
  assumes "holds_rows F M N K cat R s" "M t = Some ti" "row \<in> set (table_list R t)"
  shows "row_ok (tschema ti) row"
proof -
  have T: "tab_inv F t ti s" by (rule holds_rows_tab [OF assms(1,2)])
  have "finite (dom (R t))" using engine_rows.finite_rows [OF assms(1)] assms(2) by blast
  then obtain rid where "R t rid = Some row" using assms(3) by (auto simp: table_list_def)
  then show ?thesis using heap_row_ok [OF tab_inv_rows(1) [OF T], of rid row] tab_inv_rows(3) [OF T] holds_rows_at [OF assms(1,2)] by simp
qed

context row_source
begin

lemma select_rows:
  assumes h: "inv s" "t \<in> T"
    and vals: "\<forall>row \<in> set (table_list R t). (\<exists>vs. eval_args reg row ci es = Inr vs) \<and>
      (\<forall>p. w = Some p \<longrightarrow> (\<exists>b. evalBoolean reg row ci p = Inr b))"
  obtains out N' u where "\<forall>n \<ge> N'. execute (scan, fetch) reg n (select_op t ci es w) s = (Inr out, u)" "inv u"
    "list_all2 (\<lambda>row vs. eval_args reg row ci es = Inr vs) (filter (passes reg ci w) (table_list R t)) out"
proof -
  have ok: "op_ok T R reg (select_op t ci es w)"
    using vals h(2) by (auto simp: select_op_def project_row_def simp del: evalBoolean.simps split: option.split)
  have all: "all_rows R reg (select_op t ci es w) = map (projected reg ci es) (filter (passes reg ci w) (table_list R t))"
    by (cases w) (simp_all add: select_op_def passes_simps)
  have each: "eval_args reg row ci es = Inr (projected reg ci es row)" if "row \<in> set (table_list R t)" for row
    using vals that by (auto simp: projected_def project_row_def simp del: evalBoolean.simps)
  have "list_all2 (\<lambda>row vs. eval_args reg row ci es = Inr vs) (filter (passes reg ci w) (table_list R t))
      (map (projected reg ci es) (filter (passes reg ci w) (table_list R t)))"
    using each by (simp add: list_all2_map2 list_all2_same)
  with execute_ok [OF h(1) ok] that show thesis unfolding all by blast
qed

end

lemma execute_select:
  assumes h: "holds_rows F M N K cat R s" and t: "M t = Some ti"
    and vals: "\<forall>row. row_ok (tschema ti) row \<longrightarrow> (\<exists>vs. eval_args reg row ci es = Inr vs) \<and>
      (\<forall>p. w = Some p \<longrightarrow> (\<exists>b. evalBoolean reg row ci p = Inr b))"
  obtains out N' u where "\<forall>n \<ge> N'. execute (scanTable, fetchRecord) reg n (select_op t ci es w) s = (Inr out, u)"
    "holds_rows F M N K cat R u"
    "list_all2 (\<lambda>row vs. eval_args reg row ci es = Inr vs) (filter (passes reg ci w) (table_list R t)) out"
proof -
  have "t \<in> dom M" using t by blast
  moreover have "\<forall>row \<in> set (table_list R t). (\<exists>vs. eval_args reg row ci es = Inr vs) \<and>
      (\<forall>p. w = Some p \<longrightarrow> (\<exists>b. evalBoolean reg row ci p = Inr b))"
    using vals table_list_rows [OF h t] by blast
  ultimately show thesis by (rule engine_rows.select_rows [OF h]) (rule that)
qed

text \<open>What the binder and the planner make of such a query.\<close>

lemma select_plan:
  assumes "sel_tables sel = [t]" "bindSelect cat reg sel = Inr sel'"
    "list_all (item_ok t) (selectList sel)" "selectList sel' \<noteq> []"
    "\<forall>p. sel_where sel = Some p \<longrightarrow> item_ok t p \<and> \<not> leaf p"
    "getTable cat t = Inr schema" "CHR ''.'' \<notin> set t"
    "distinct (map cname (scolumns schema))" "''0'' \<notin> set (map cname (scolumns schema))"
  shows "plan_select sel' = Inr (L_Project (selectList sel') (with_filter (sel_where sel') (L_SeqScan t)))"
    "rewritePlan (L_Project (selectList sel') (with_filter (sel_where sel') (L_SeqScan t))) =
       L_Project (selectList sel') (with_filter (sel_where sel') (L_SeqScan t))"
    "generate order cat (L_Project (selectList sel') (with_filter (sel_where sel') (L_SeqScan t))) =
       Inr (Some (select_op t (scan_index t schema) (selectList sel') (sel_where sel')))"
    "\<forall>row. row_ok schema row \<longrightarrow> (\<exists>vs. eval_args reg row (scan_index t schema) (selectList sel') = Inr vs) \<and>
      (\<forall>p. sel_where sel' = Some p \<longrightarrow> (\<exists>b. evalBoolean reg row (scan_index t schema) p = Inr b))"
proof -
  let ?ci = "scan_index t schema"
  obtain es where es: "list_all (item_ok t) es" "list_all2 (\<lambda>e e'. bind_expr cat reg [t] e = Inr e') es (selectList sel')"
    "bind_where cat reg [t] (sel_where sel) = Inr (sel_where sel')" "sel_tables sel' = [t]"
    using assms(2,1,3) by (rule bindSelectD)
  have item: "\<exists>e. item_ok t e \<and> bind_expr cat reg [t] e = Inr e'" if "e' \<in> set (selectList sel')" for e'
    using es(1,2) that list_all2_set2 by (fastforce simp: list_all_iff)
  have pred: "\<exists>e. item_ok t e \<and> \<not> leaf e \<and> bind_expr cat reg [t] e = Inr p" if "sel_where sel' = Some p" for p
    using es(3) that assms(5) by (auto simp: bind_where_def bindE_eq_Inr split: option.splits)
  note ev = item_evaluates [OF _ _ assms(7,6,8)]
  show "\<forall>row. row_ok schema row \<longrightarrow> (\<exists>vs. eval_args reg row ?ci (selectList sel') = Inr vs) \<and>
      (\<forall>p. sel_where sel' = Some p \<longrightarrow> (\<exists>b. evalBoolean reg row ?ci p = Inr b))"
    using ev item pred by (metis eval_args_total)
  obtain e' es' where l: "selectList sel' = e' # es'" using assms(4) by (cases "selectList sel'") auto
  have "\<not> identity_from t 0 (e' # es')"
    using item [of e'] l not_identity [OF _ _ assms(7,6,9)] by auto
  note g = generate_select [OF assms(6) es(4) l this]
  from g l show "plan_select sel' = Inr (L_Project (selectList sel') (with_filter (sel_where sel') (L_SeqScan t)))"
    "rewritePlan (L_Project (selectList sel') (with_filter (sel_where sel') (L_SeqScan t))) =
       L_Project (selectList sel') (with_filter (sel_where sel') (L_SeqScan t))"
    "generate order cat (L_Project (selectList sel') (with_filter (sel_where sel') (L_SeqScan t))) =
       Inr (Some (select_op t (scan_index t schema) (selectList sel') (sel_where sel')))"
    by simp_all
qed

subsection \<open>Properties\<close>

text \<open>
  C2: A query over one table returns its rows: take a SELECT whose text parses, over one registered table
  with distinct column names, whose items are columns, literals or comparisons and whose WHERE, if any,
  is a comparison, and that the binder accepts. With enough fuel it returns, from every state of the
  database, the values of its items on exactly the rows that satisfy the predicate, in the order of
  their record identifiers, and changes no row of any table.
\<close>

theorem select_returns_rows:
  assumes "parse sql = Inr (Select sel)" "sel_tables sel = [t]" "bindSelect (qcatalog s) reg sel = Inr sel'"
    "list_all (item_ok t) (selectList sel)" "selectList sel' \<noteq> []"
    "\<forall>p. sel_where sel = Some p \<longrightarrow> item_ok t p \<and> \<not> leaf p"
    "db_inv F M N K s" "M t = Some ti" "getTable (qcatalog s) t = Inr (tschema ti)" "CHR ''.'' \<notin> set t"
    "distinct (map cname (scolumns (tschema ti)))" "''0'' \<notin> set (map cname (scolumns (tschema ti)))"
  shows "\<exists>fuel out u. (\<forall>n \<ge> fuel. executeQuery order colIndex reg n sql s = (Inr out, u)) \<and>
    list_all2 (\<lambda>row vs. eval_args reg row (scan_index t (tschema ti)) (selectList sel') = Inr vs)
      (filter (passes reg (scan_index t (tschema ti)) (sel_where sel')) (table_list (\<lambda>n rid. db_rows F M s (n, rid)) t)) out \<and>
    db_inv F M N K u \<and> db_rows F M u = db_rows F M s \<and> qcatalog u = qcatalog s"
proof -
  let ?R = "\<lambda>n rid. db_rows F M s (n, rid)" and ?ci = "scan_index t (tschema ti)"
  have h: "holds_rows F M N K (qcatalog s) ?R s" using assms(7) by (simp add: holds_rows_def)
  note plan = select_plan [OF assms(2-6,9-12)]
  obtain out fuel u where out: "\<forall>n \<ge> fuel. execute (scanTable, fetchRecord) reg n (select_op t ?ci (selectList sel') (sel_where sel')) s = (Inr out, u)"
    "holds_rows F M N K (qcatalog s) ?R u"
    "list_all2 (\<lambda>row vs. eval_args reg row ?ci (selectList sel') = Inr vs) (filter (passes reg ?ci (sel_where sel')) (table_list ?R t)) out"
    using h assms(8) plan(4) by (rule execute_select)
  have run: "executeQuery order colIndex reg n sql s = execute (scanTable, fetchRecord) reg n (select_op t ?ci (selectList sel') (sel_where sel')) s" for n
    using assms(1,3) plan(1-3)
    by (simp add: query_outcome bind_statement_def run_plan_def buildLogicalPlan_def child_op_def del: identity_from.simps)
  from out run show ?thesis by (auto simp: holds_rows_def)
qed

text \<open>A database with one row, for the witnesses.\<close>

lemma db_extend:
  fixes s :: "'a engine_state_scheme" and t :: "'b engine_state_scheme"
  assumes "frames t = frames s" "pageTable t = pageTable s" "poolSize t = poolSize s" "disk t = disk s" "files t = files s"
    "tables t = tables s"
  shows "db_inv F M N K t = db_inv F M N K s" "db_rows F M t = db_rows F M s"
  using same_pool [OF assms(1-5)]
  by (simp_all add: db_inv_def db_rows_def fun_eq_iff table_inv_def heap_inv_def heap_rows_def heap_pages_def tree_inv_def
      tree_map_def tree_leaf_def assms(6) split: option.split)

definition ex_catalog :: catalog where
  "ex_catalog = [''u'' \<mapsto> \<lparr>mschema = ex_schema, mindexes = [], mrowCount = 0\<rparr>]"

lemma ex_query_db:
  obtains ti and s :: qe_state where "db_inv {4, 3} [''u'' \<mapsto> ti] (\<lambda>_. 1) (\<lambda>_. {7}) s" "tschema ti = ex_schema"
    "db_rows {4, 3} [''u'' \<mapsto> ti] s = [(''u'', RecordID 0 0) \<mapsto> [FInt 7, FStr ''abc'']]" "qcatalog s = ex_catalog"
proof -
  obtain ti and s0 :: engine_state where s0: "db_inv {4, 3} [''u'' \<mapsto> ti] (\<lambda>_. 1) (\<lambda>_. {7}) s0"
    "db_rows {4, 3} [''u'' \<mapsto> ti] s0 = Map.empty" "db_place [''u'' \<mapsto> ti] (\<lambda>_. 1) ''u'' (RecordID 0 0)"
    "db_row [''u'' \<mapsto> ti] (\<lambda>_. {7}) ''u'' [FInt 7, FStr ''abc'']" "db_row [''u'' \<mapsto> ti] (\<lambda>_. {7}) ''u'' [FInt 7, FStr ''xyz'']"
    "tschema ti = ex_schema"
    by (rule ex_db)
  obtain s :: engine_state where s: "db_inv {4, 3} [''u'' \<mapsto> ti] (\<lambda>_. 1) (\<lambda>_. {7}) s"
    "db_rows {4, 3} [''u'' \<mapsto> ti] s = (db_rows {4, 3} [''u'' \<mapsto> ti] s0)((''u'', RecordID 0 0) \<mapsto> [FInt 7, FStr ''abc''])"
    using engine.redoI_law [OF s0(1,3,4)] by blast
  let ?t = "engine_state.extend s (qe_state.fields ex_catalog) :: qe_state"
  have "qcatalog ?t = ex_catalog" by (simp add: engine_state.defs qe_state.defs)
  moreover have "db_inv F M N K ?t = db_inv F M N K s" "db_rows F M ?t = db_rows F M s" for F M N K
    by (rule db_extend; simp add: engine_state.defs)+
  ultimately show thesis using s s0(2,6) by (intro that [of ti ?t]) simp_all
qed

abbreviation ex_sel :: SelectStmt where
  "ex_sel \<equiv> \<lparr>selectList = [Column_Ref ''name''], sel_tables = [''u''], sel_where = Some (Binary_Op ''='' (Column_Ref ''id'') (Int_Literal 7))\<rparr>"

abbreviation ex_bound :: SelectStmt where
  "ex_bound \<equiv> \<lparr>selectList = [Column_Ref ''u.name''], sel_tables = [''u''], sel_where = Some (Binary_Op ''='' (Column_Ref ''u.id'') (Int_Literal 7))\<rparr>"

lemma ex_select:
  "parse ''SELECT name FROM u WHERE id = 7'' = Inr (Select ex_sel)" "bindSelect ex_catalog Map.empty ex_sel = Inr ex_bound"
  "list_all (item_ok ''u'') (selectList ex_sel)" "\<forall>p. sel_where ex_sel = Some p \<longrightarrow> item_ok ''u'' p \<and> \<not> leaf p"
  "getTable ex_catalog ''u'' = Inr ex_schema" "CHR ''.'' \<notin> set ''u''" "distinct (map cname (scolumns ex_schema))"
  "''0'' \<notin> set (map cname (scolumns ex_schema))"
proof -
  show "parse ''SELECT name FROM u WHERE id = 7'' = Inr (Select ex_sel)" by code_simp
  show "bindSelect ex_catalog Map.empty ex_sel = Inr ex_bound"
    by (simp add: ex_catalog_def bindSelect_def bind_where_def bind_expr_def qualifyColumn_def Let_def getColumnInfo_def
        getTable_def ex_schema_def ex_cols_def qual_name_def before_dot_def after_dot_def comparison_def)
qed (simp_all add: item_ok_def plain_column_def leaf_def comparison_def ex_catalog_def getTable_def ex_schema_def ex_cols_def)

lemma one_row_list:
  assumes "db_rows F M s = [(t, RecordID 0 0) \<mapsto> row]"
  shows "table_list (\<lambda>n rid. db_rows F M s (n, rid)) t = [row]"
proof -
  have "dom (\<lambda>rid. if rid = RecordID 0 0 then Some row else None) = {RecordID 0 0}" by (auto split: if_splits)
  moreover have "db_rows F M s (t, rid) = (if rid = RecordID 0 0 then Some row else None)" for rid
    unfolding assms by simp
  ultimately show ?thesis by (simp only: table_list_def) simp
qed

lemma ex_answer:
  assumes "list_all2 (\<lambda>row vs. eval_args Map.empty row (scan_index ''u'' ex_schema) (selectList ex_bound) = Inr vs)
      (filter (passes Map.empty (scan_index ''u'' ex_schema) (sel_where ex_bound)) [[FInt 7, FStr ''abc'']]) out"
  shows "out = [[FStr ''abc'']]"
proof -
  have ci: "scan_index ''u'' ex_schema = [''u.id'' \<mapsto> 0, ''u.name'' \<mapsto> 1]"
    by (simp add: ex_schema_def ex_cols_def qual_name_def)
  have "passes Map.empty (scan_index ''u'' ex_schema) (sel_where ex_bound) [FInt 7, FStr ''abc'']"
    by (simp add: ci passes_def field_at_def value_op_def int_op_def)
  then show ?thesis
    using assms by (auto simp: ci list_all2_Cons1 field_at_def simp del: evalBoolean.simps)
qed

theorem select_returns_rows_witness:
  "\<exists>F M (s :: qe_state) n u. db_rows F M s = [(''u'', RecordID 0 0) \<mapsto> [FInt 7, FStr ''abc'']] \<and>
     executeQuery (\<lambda>_. []) (\<lambda>_ _. 0) Map.empty n ''SELECT name FROM u WHERE id = 7'' s = (Inr [[FStr ''abc'']], u)"
proof -
  obtain ti and s :: qe_state where s: "db_inv {4, 3} [''u'' \<mapsto> ti] (\<lambda>_. 1) (\<lambda>_. {7}) s" "tschema ti = ex_schema"
    "db_rows {4, 3} [''u'' \<mapsto> ti] s = [(''u'', RecordID 0 0) \<mapsto> [FInt 7, FStr ''abc'']]" "qcatalog s = ex_catalog"
    by (rule ex_query_db)
  obtain fuel out u where u: "\<forall>n \<ge> fuel. executeQuery (\<lambda>_. []) (\<lambda>_ _. 0) Map.empty n ''SELECT name FROM u WHERE id = 7'' s = (Inr out, u)"
    "list_all2 (\<lambda>row vs. eval_args Map.empty row (scan_index ''u'' ex_schema) (selectList ex_bound) = Inr vs)
      (filter (passes Map.empty (scan_index ''u'' ex_schema) (sel_where ex_bound)) [[FInt 7, FStr ''abc'']]) out"
    using select_returns_rows [OF ex_select(1) _ _ ex_select(3) _ ex_select(4) s(1),
        where sel' = ex_bound and reg = Map.empty and ti = ti and order = "\<lambda>_. []" and colIndex = "\<lambda>_ _. 0"]
      ex_select(2,5-8) s(2,4) one_row_list [OF s(3)]
    by auto
  with ex_answer [OF u(2)] s(3) show ?thesis
    by (intro exI [of _ "{4, 3}"] exI [of _ "[''u'' \<mapsto> ti]"] exI [of _ s] exI [of _ fuel] exI [of _ u]) simp
qed

text \<open>
  An engine built from a catalog knows no table: the constructor reads the catalog and registers
  nothing with the storage engine, and no statement does. Whatever the text, a query throws, and leaves
  the engine as it was, so that the next one throws too.
\<close>

theorem new_engine_fails_every_query:
  assumes "new_QueryEngine fm garbage file = Inr s"
  shows "\<exists>e. executeQuery order colIndex reg n sql s = (Inl e, s)"
proof -
  have "tables s = Map.empty"
    using assms by (auto simp: new_QueryEngine_def engine_init_extend engine_init_fields split: prod.splits sum.splits)
  then show ?thesis by (rule query_fails)
qed

theorem new_engine_fails_every_query_witness:
  "\<exists>s e. new_QueryEngine \<lparr>bufferHits = 0, bufferMisses = 0, queryCount = 0, totalQueryLatencyUs = 0, txCommitted = 0,
      txAborted = 0, disk = Map.empty, denied = (\<lambda>_. False), files = Map.empty, nextFileId = 1\<rparr> (\<lambda>_. zero_page) None = Inr s \<and>
    executeQuery (\<lambda>_. []) (\<lambda>_ _. 0) Map.empty 9 ''SELECT name FROM u'' s = (Inl e, s)"
proof -
  let ?fm = "\<lparr>bufferHits = 0, bufferMisses = 0, queryCount = 0, totalQueryLatencyUs = 0, txCommitted = 0,
      txAborted = 0, disk = Map.empty, denied = (\<lambda>_. False), files = Map.empty, nextFileId = 1\<rparr>"
  obtain s where s: "new_QueryEngine ?fm (\<lambda>_. zero_page) None = Inr s"
    by (simp add: new_QueryEngine_def load_def)
  from new_engine_fails_every_query [OF s] s show ?thesis by blast
qed

text \<open>
  No UPDATE and no DELETE ever runs: the engine asks for the operator ==, which the binder rejects
  (and the parser does not know), and without a WHERE clause it dereferences a null pointer. Whatever the
  state, the statement throws before it touches anything.
\<close>

theorem update_delete_never_run:
  assumes "parse sql = Inr (Update upd) \<or> parse sql = Inr (Delete del)"
  shows "\<exists>e. executeQuery order colIndex reg n sql s = (Inl e, s)"
  using assms
proof
  assume p: "parse sql = Inr (Update upd)"
  show ?thesis
    using dml_fails(1) [of "qcatalog s" reg upd]
    by (cases "bindUpdate (qcatalog s) reg upd") (auto simp: query_outcome p bind_statement_def intro!: bindM_fails)
next
  assume p: "parse sql = Inr (Delete del)"
  show ?thesis
    using dml_fails(2) [of "qcatalog s" reg del]
    by (cases "bindDelete (qcatalog s) reg del") (auto simp: query_outcome p bind_statement_def intro!: bindM_fails)
qed

theorem update_delete_never_run_witness:
  "parse ''DELETE FROM u WHERE id = 7'' = Inr (Delete \<lparr>del_table = ''u'',
      del_where = Some (Binary_Op ''='' (Column_Ref ''id'') (Int_Literal 7))\<rparr>) \<and>
   (\<exists>F M (s :: qe_state) e. db_rows F M s (''u'', RecordID 0 0) = Some [FInt 7, FStr ''abc''] \<and>
     executeQuery (\<lambda>_. []) (\<lambda>_ _. 0) Map.empty 9 ''DELETE FROM u WHERE id = 7'' s = (Inl e, s))"
proof -
  obtain ti and s :: qe_state where s: "db_inv {4, 3} [''u'' \<mapsto> ti] (\<lambda>_. 1) (\<lambda>_. {7}) s" "tschema ti = ex_schema"
    "db_rows {4, 3} [''u'' \<mapsto> ti] s = [(''u'', RecordID 0 0) \<mapsto> [FInt 7, FStr ''abc'']]" "qcatalog s = ex_catalog"
    by (rule ex_query_db)
  have p: "parse ''DELETE FROM u WHERE id = 7'' = Inr (Delete \<lparr>del_table = ''u'',
      del_where = Some (Binary_Op ''='' (Column_Ref ''id'') (Int_Literal 7))\<rparr>)" by code_simp
  have r: "db_rows {4, 3} [''u'' \<mapsto> ti] s (''u'', RecordID 0 0) = Some [FInt 7, FStr ''abc'']" unfolding s(3) by simp
  obtain e where "executeQuery (\<lambda>_. []) (\<lambda>_ _. 0) Map.empty 9 ''DELETE FROM u WHERE id = 7'' s = (Inl e, s)"
    using update_delete_never_run [OF disjI2, OF p] by blast
  with p r show ?thesis by blast
qed

text \<open>
  A predicate with two operators is never accepted: AND and OR take conditions, but the binder wants
  columns or literals on both sides of every operator. Whatever the table, a SELECT whose WHERE has an
  operator below an operator throws.
\<close>

theorem compound_where_fails:
  assumes "parse sql = Inr (Select sel)" "sel_where sel = Some (Binary_Op op l r)" "\<not> leaf l \<or> \<not> leaf r"
  shows "\<exists>e. executeQuery order colIndex reg n sql s = (Inl e, s)"
proof -
  have "\<exists>e. bind_expr (qcatalog s) reg ts (Binary_Op op l r) = Inl e" for ts
  proof (cases "bind_expr (qcatalog s) reg ts (Binary_Op op l r)")
    case (Inr e')
    then obtain l' r' where "resolveColumnsInExpr (qcatalog s) reg ts l = Inr l'" "resolveColumnsInExpr (qcatalog s) reg ts r = Inr r'"
      "typeCheckExpr (qcatalog s) (Binary_Op op l' r') = Inr ()"
      by (auto simp: bindE_eq_Inr simp del: typeCheckExpr.simps dest!: bind_exprD)
    with checked_operands [of "qcatalog s" op l' r'] resolve_leaf assms(3) show ?thesis by blast
  qed simp
  then have "\<exists>e. bindSelect (qcatalog s) reg sel = Inl e"
    by (rule bindSelect_where [OF assms(2)])
  then show ?thesis by (auto simp: query_outcome assms(1) bind_statement_def)
qed

theorem compound_where_fails_witness:
  "\<exists>F M (s :: qe_state) e. db_rows F M s (''u'', RecordID 0 0) = Some [FInt 7, FStr ''abc''] \<and>
     executeQuery (\<lambda>_. []) (\<lambda>_ _. 0) Map.empty 9 ''SELECT name FROM u WHERE id = 7 AND id = 7'' s = (Inl e, s)"
proof -
  obtain ti and s :: qe_state where s: "db_inv {4, 3} [''u'' \<mapsto> ti] (\<lambda>_. 1) (\<lambda>_. {7}) s" "tschema ti = ex_schema"
    "db_rows {4, 3} [''u'' \<mapsto> ti] s = [(''u'', RecordID 0 0) \<mapsto> [FInt 7, FStr ''abc'']]" "qcatalog s = ex_catalog"
    by (rule ex_query_db)
  let ?r = "Binary_Op ''AND'' (Int_Literal 7) (Binary_Op ''='' (Column_Ref ''id'') (Int_Literal 7))"
  have p: "parse ''SELECT name FROM u WHERE id = 7 AND id = 7'' = Inr (Select \<lparr>selectList = [Column_Ref ''name''],
      sel_tables = [''u''], sel_where = Some (Binary_Op ''='' (Column_Ref ''id'') ?r)\<rparr>)" by code_simp
  have r: "db_rows {4, 3} [''u'' \<mapsto> ti] s (''u'', RecordID 0 0) = Some [FInt 7, FStr ''abc'']" unfolding s(3) by simp
  have "\<exists>e. executeQuery (\<lambda>_. []) (\<lambda>_ _. 0) Map.empty 9 ''SELECT name FROM u WHERE id = 7 AND id = 7'' s = (Inl e, s)"
    by (rule compound_where_fails [OF p, of "''=''" "Column_Ref ''id''" ?r]) (simp_all add: leaf_def)
  with r show ?thesis by blast
qed

end
