(* ===== verification/Stats.thy ===== *)
theory Stats
  imports QueryEngine
begin

section \<open>Statistics\<close>

text \<open>
  \<open>StatsManager/StatsManager\<close>: the row count of a table and the number of distinct values of each column,
  by a scan of the table. The members it calls (\<open>Catalog::getTableSchema\<close>, \<open>StorageEngine::getRecord\<close>, an
  \<open>updateTableStats\<close> with three arguments) exist in no class that fits; the schema and the storage, as the
  pair of functions the operators use, are arguments, and what is passed to the catalog is the result.
\<close>

type_synonym counters = "string \<rightharpoonup> string set"

definition stat_text :: "FieldValue \<Rightarrow> string" where
  "stat_text fv = (case fv of FInt i \<Rightarrow> to_string (sint i) | FStr s \<Rightarrow> s)"

fun init_counters :: "Column list \<Rightarrow> counters \<Rightarrow> counters" where
  "init_counters [] m = m"
| "init_counters (c # cs) m = init_counters cs (m(cname c \<mapsto> {}))"

fun count_fields :: "Column list \<Rightarrow> int \<Rightarrow> row \<Rightarrow> counters \<Rightarrow> counters res" where
  "count_fields [] i row m = Inr m"
| "count_fields (c # cs) i row m =
     bindE (field_at row i) (\<lambda>v. count_fields cs (i + 1) row
       (m(cname c \<mapsto> insert (stat_text v) (case m (cname c) of None \<Rightarrow> {} | Some vs \<Rightarrow> vs))))"

fun count_rows :: "'s row_ops \<Rightarrow> string \<Rightarrow> Column list \<Rightarrow> RecordID list \<Rightarrow> counters \<Rightarrow> ('s, counters) io" where
  "count_rows ops t cs [] m = retM m"
| "count_rows ops t cs (rid # rids) m =
     bindM (snd ops t rid) (\<lambda>row. bindM (liftM (count_fields cs 0 row m)) (count_rows ops t cs rids))"

definition analyzeTable :: "'s row_ops \<Rightarrow> (string \<Rightarrow> Schema res) \<Rightarrow> string \<Rightarrow>
    ('s, string \<times> int \<times> (string \<rightharpoonup> int)) io" where
  "analyzeTable ops schemaOf t =
     bindM (liftM (schemaOf t)) (\<lambda>schema.
     bindM (fst ops t) (\<lambda>rids.
     bindM (count_rows ops t (scolumns schema) rids (init_counters (scolumns schema) Map.empty)) (\<lambda>m.
       retM (t, int (length rids), \<lambda>c. map_option (\<lambda>vs. int (card vs)) (m c)))))"

subsection \<open>What is counted\<close>

lemma init_counters_at: "init_counters cs m c = (if c \<in> set (map cname cs) then Some {} else m c)"
  by (induction cs arbitrary: m) auto

text \<open>\<open>seen cs rows m\<close>: the counters hold the texts of the columns' values in the rows.\<close>

definition seen :: "Column list \<Rightarrow> row set \<Rightarrow> counters \<Rightarrow> bool" where
  "seen cs rows m \<longleftrightarrow> (\<forall>i < length cs. m (cname (cs ! i)) = Some (stat_text ` (\<lambda>row. row ! i) ` rows))"

lemma count_fields_ok:
  "distinct (map cname cs) \<Longrightarrow> k + length cs \<le> length row \<Longrightarrow>
     \<exists>m'. count_fields cs (int k) row m = Inr m' \<and> (\<forall>c. c \<notin> set (map cname cs) \<longrightarrow> m' c = m c) \<and>
       (\<forall>i < length cs. m' (cname (cs ! i)) =
          Some (insert (stat_text (row ! (k + i))) (case m (cname (cs ! i)) of None \<Rightarrow> {} | Some vs \<Rightarrow> vs)))"
proof (induction cs arbitrary: k m)
  case (Cons c cs)
  let ?m = "m(cname c \<mapsto> insert (stat_text (row ! k)) (case m (cname c) of None \<Rightarrow> {} | Some vs \<Rightarrow> vs))"
  have p: "distinct (map cname cs)" "Suc k + length cs \<le> length row" using Cons.prems by simp_all
  obtain m' where m': "count_fields cs (int (Suc k)) row ?m = Inr m'" "\<forall>c. c \<notin> set (map cname cs) \<longrightarrow> m' c = ?m c"
    "\<forall>i < length cs. m' (cname (cs ! i)) =
       Some (insert (stat_text (row ! (Suc k + i))) (case ?m (cname (cs ! i)) of None \<Rightarrow> {} | Some vs \<Rightarrow> vs))"
    using Cons.IH [OF p, of ?m] by blast
  have f: "field_at row (int k) = Inr (row ! k)" using Cons.prems(2) by (simp add: field_at_def)
  have "m' (cname ((c # cs) ! i)) =
       Some (insert (stat_text (row ! (k + i))) (case m (cname ((c # cs) ! i)) of None \<Rightarrow> {} | Some vs \<Rightarrow> vs))"
    if "i < length (c # cs)" for i
  proof (cases i)
    case 0
    then show ?thesis using m'(2) Cons.prems(1) by simp
  next
    case (Suc j)
    then have "cname (cs ! j) \<noteq> cname c" using Cons.prems(1) that by (metis Suc_less_eq distinct.simps(2) in_set_conv_nth length_Cons length_map list.simps(9) nth_map)
    then show ?thesis using Suc m'(3) that by simp
  qed
  with m'(1,2) f show ?case by (intro exI [of _ m']) (simp add: add.commute)
qed simp

lemma seen_step:
  assumes "distinct (map cname cs)" "length row = length cs" "seen cs rows m"
  shows "\<exists>m'. count_fields cs 0 row m = Inr m' \<and> seen cs (insert row rows) m'"
  using count_fields_ok [of cs 0 row m] assms by (fastforce simp: seen_def)

context row_source
begin

lemma count_rows_ok:
  assumes t: "t \<in> T" and d: "distinct (map cname cs)"
  shows "inv s \<Longrightarrow> set rids \<subseteq> dom (R t) \<Longrightarrow> (\<And>rid row. R t rid = Some row \<Longrightarrow> length row = length cs) \<Longrightarrow> seen cs rows m \<Longrightarrow>
    \<exists>m' u. count_rows ops t cs rids m s = (Inr m', u) \<and> inv u \<and> seen cs (rows \<union> (\<lambda>rid. the (R t rid)) ` set rids) m'"
proof (induction rids arbitrary: s rows m)
  case (Cons rid rids)
  then obtain row where row: "R t rid = Some row" by auto
  obtain u where u: "fetch t rid s = (Inr row, u)" "inv u" using fetch_law [OF Cons.prems(1) t row] by blast
  obtain m1 where m1: "count_fields cs 0 row m = Inr m1" "seen cs (insert row rows) m1"
    using seen_step [OF d Cons.prems(3) [OF row] Cons.prems(4)] by blast
  with Cons.IH [OF u(2) _ _ m1(2)] Cons.prems u(1) row show ?case by auto
qed auto

lemma analyze_ok:
  assumes "inv s" "t \<in> T" "schemaOf t = Inr schema" "distinct (map cname (scolumns schema))"
    and rows: "\<And>rid row. R t rid = Some row \<Longrightarrow> length row = length (scolumns schema)"
  shows "\<exists>m u. analyzeTable ops schemaOf t s = (Inr (t, int (card (dom (R t))), \<lambda>c. map_option (\<lambda>vs. int (card vs)) (m c)), u) \<and>
    inv u \<and> seen (scolumns schema) (ran (R t)) m"
proof -
  let ?rids = "sorted_list_of_set (dom (R t))"
  obtain u where u: "scan t s = (Inr ?rids, u)" "inv u" using scan_law [OF assms(1,2)] by blast
  have f: "finite (dom (R t))" using finite_rows [OF assms(1,2)] .
  have z: "seen (scolumns schema) {} (init_counters (scolumns schema) Map.empty)"
    by (simp add: seen_def init_counters_at)
  obtain m v where m: "count_rows ops t (scolumns schema) ?rids (init_counters (scolumns schema) Map.empty) u = (Inr m, v)" "inv v"
    "seen (scolumns schema) ({} \<union> (\<lambda>rid. the (R t rid)) ` set ?rids) m"
  proof -
    have "set ?rids \<subseteq> dom (R t)" using f by simp
    from count_rows_ok [OF assms(2,4) u(2) this _ z] rows that show thesis by blast
  qed
  have "(\<lambda>rid. the (R t rid)) ` set ?rids = ran (R t)" using f by (force simp: ran_def)
  with m u(1) assms(3) show ?thesis by (intro exI [of _ m] exI [of _ v]) (simp add: analyzeTable_def)
qed

end

lemma to_string_inj: "to_string i = to_string j \<Longrightarrow> i = j"
  using parse_integer_to_string [of "min i j" i "max i j"] parse_integer_to_string [of "min i j" j "max i j"]
  by (metis min.cobounded1 min.cobounded2 max.cobounded1 max.cobounded2 sum.inject(2))

lemma stat_text_inj: "value_type v = value_type w \<Longrightarrow> stat_text v = stat_text w \<Longrightarrow> v = w"
  by (cases v; cases w) (auto simp: stat_text_def dest!: to_string_inj intro: signed_word_eqI)

subsection \<open>Properties\<close>

text \<open>
  C28: Analysing a registered table counts its rows and, for every column, its distinct values: the
  values are compared as texts, which for values of one column's type is the same.
\<close>

theorem analyze_counts:
  fixes s :: "'a qe_state_scheme"
  assumes "db_inv F M N K s" "M t = Some ti" "schemaOf t = Inr (tschema ti)" "distinct (map cname (scolumns (tschema ti)))"
  shows "\<exists>counts u. analyzeTable (scanTable, fetchRecord) schemaOf t s =
      (Inr (t, int (card {rid. db_rows F M s (t, rid) \<noteq> None}), counts), u) \<and>
    (\<forall>i < length (scolumns (tschema ti)). counts (cname (scolumns (tschema ti) ! i)) =
       Some (int (card {row ! i | row rid. db_rows F M s (t, rid) = Some row}))) \<and>
    db_inv F M N K u \<and> db_rows F M u = db_rows F M s"
proof -
  let ?R = "\<lambda>n rid. db_rows F M s (n, rid)" and ?cs = "scolumns (tschema ti)"
  have h: "holds_rows F M N K (qcatalog s) ?R s" using assms(1) by (simp add: holds_rows_def)
  have T: "tab_inv F t ti s" by (rule holds_rows_tab [OF h assms(2)])
  have ok: "row_ok (tschema ti) row" if "?R t rid = Some row" for rid row
    using heap_row_ok [OF tab_inv_rows(1) [OF T], of rid row] that tab_inv_rows(3) [OF T] holds_rows_at [OF h assms(2)] by simp
  then have len: "length row = length ?cs" if "?R t rid = Some row" for rid row
    using that by (metis row_ok_def list_all2_lengthD)
  obtain m u where m: "analyzeTable (scanTable, fetchRecord) schemaOf t s =
      (Inr (t, int (card (dom (?R t))), \<lambda>c. map_option (\<lambda>vs. int (card vs)) (m c)), u)"
    "holds_rows F M N K (qcatalog s) ?R u" "seen ?cs (ran (?R t)) m"
    using engine_rows.analyze_ok [where t = t and R = ?R and schemaOf = schemaOf, OF h domI [where m = M, OF assms(2)] assms(3,4)] len by blast
  have "map_option (\<lambda>vs. int (card vs)) (m (cname (?cs ! i))) = Some (int (card {row ! i | row rid. ?R t rid = Some row}))"
    if i: "i < length ?cs" for i
  proof -
    have "inj_on stat_text ((\<lambda>row. row ! i) ` ran (?R t))"
    proof (rule inj_onI)
      fix v w assume "v \<in> (\<lambda>row. row ! i) ` ran (?R t)" "w \<in> (\<lambda>row. row ! i) ` ran (?R t)" and e: "stat_text v = stat_text w"
      then have "fits (?cs ! i) v" "fits (?cs ! i) w" using ok i by (auto simp: ran_def row_ok_def list_all2_conv_all_nth)
      then show "v = w" using e fits_type stat_text_inj by metis
    qed
    then have "card (stat_text ` (\<lambda>row. row ! i) ` ran (?R t)) = card ((\<lambda>row. row ! i) ` ran (?R t))" by (rule card_image)
    moreover have "(\<lambda>row. row ! i) ` ran (?R t) = {row ! i | row rid. ?R t rid = Some row}" by (auto simp: ran_def)
    ultimately show ?thesis using m(3) i by (simp add: seen_def)
  qed
  moreover have "dom (?R t) = {rid. db_rows F M s (t, rid) \<noteq> None}" by auto
  ultimately show ?thesis using m(1,2)
    by (intro exI [of _ "\<lambda>c. map_option (\<lambda>vs. int (card vs)) (m c)"] exI [of _ u]) (auto simp: holds_rows_def)
qed

theorem analyze_counts_witness:
  "\<exists>F M (s :: qe_state) counts u. db_rows F M s = [(''u'', RecordID 0 0) \<mapsto> [FInt 7, FStr ''abc'']] \<and>
     analyzeTable (scanTable, fetchRecord) (getTable (qcatalog s)) ''u'' s = (Inr (''u'', 1, counts), u) \<and>
     counts ''id'' = Some 1 \<and> counts ''name'' = Some 1"
proof -
  obtain ti and s :: qe_state where s: "db_inv {4, 3} [''u'' \<mapsto> ti] (\<lambda>_. 1) (\<lambda>_. {7}) s" "tschema ti = ex_schema"
    "db_rows {4, 3} [''u'' \<mapsto> ti] s = [(''u'', RecordID 0 0) \<mapsto> [FInt 7, FStr ''abc'']]" "qcatalog s = ex_catalog"
    by (rule ex_query_db)
  have sch: "getTable (qcatalog s) ''u'' = Inr (tschema ti)" by (simp add: s(2,4) ex_catalog_def getTable_def)
  have d: "distinct (map cname (scolumns (tschema ti)))" by (simp add: s(2) ex_schema_def ex_cols_def)
  have r: "db_rows {4, 3} [''u'' \<mapsto> ti] s (''u'', rid) = (if rid = RecordID 0 0 then Some [FInt 7, FStr ''abc''] else None)" for rid
    unfolding s(3) by simp
  have one: "{rid. db_rows {4, 3} [''u'' \<mapsto> ti] s (''u'', rid) \<noteq> None} = {RecordID 0 0}"
    "{row ! i | row rid. db_rows {4, 3} [''u'' \<mapsto> ti] s (''u'', rid) = Some row} = {[FInt 7, FStr ''abc''] ! i}" for i
    unfolding r by (auto split: if_splits)
  obtain counts u where c: "analyzeTable (scanTable, fetchRecord) (getTable (qcatalog s)) ''u'' s = (Inr (''u'', 1, counts), u)"
    "\<forall>i < length (scolumns (tschema ti)). counts (cname (scolumns (tschema ti) ! i)) = Some 1"
    using analyze_counts [where t = "''u''" and ti = ti and schemaOf = "getTable (qcatalog s)", OF s(1) _ sch d] unfolding one by fastforce
  have "counts ''id'' = Some 1" "counts ''name'' = Some 1"
    using c(2) [rule_format, of 0] c(2) [rule_format, of 1] by (simp_all add: s(2) ex_schema_def ex_cols_def)
  with c(1) s(3) show ?thesis by (intro exI [of _ "{4, 3}"] exI [of _ "[''u'' \<mapsto> ti]"] exI [of _ s]) blast
qed

end
