(* ===== verification/Sockets.thy ===== *)
theory Sockets
  imports Text
begin

section \<open>Listening sockets\<close>

text \<open>
  What the two servers use of the operating system. The results of \<open>socket\<close>, \<open>bind\<close> and \<open>listen\<close> are
  arguments, negative ones meaning failure: \<open>bind\<close> of a descriptor to a port at any address, \<open>listen\<close> of a
  descriptor with a length of the queue. A constructor returns what it prints and the server, no server when
  it ends the program.
\<close>

record system_calls =
  sys_socket :: int
  sys_bind :: "int \<Rightarrow> 16 word \<Rightarrow> int"
  sys_listen :: "int \<Rightarrow> int \<Rightarrow> int"

datatype console = Out string | Perror string

record listener =
  port :: int
  listenFd :: int

text \<open>A client's address and port, in the host's byte order; \<open>dotted\<close> is the text of \<open>inet_ntoa\<close>.\<close>

type_synonym peer = "(8 word \<times> 8 word \<times> 8 word \<times> 8 word) \<times> 16 word"

definition dotted :: "8 word \<times> 8 word \<times> 8 word \<times> 8 word \<Rightarrow> string" where
  "dotted ip = (case ip of (a, b, c, d) \<Rightarrow> join_with (CHR ''.'') (map (\<lambda>w. show_nat (unat w)) [a, b, c, d]))"

text \<open>A port announced by its \<open>int\<close> is the one that is bound, by \<open>htons\<close>, only within 16 bits.\<close>

lemma bound_port: "0 \<le> p \<Longrightarrow> p < 65536 \<Longrightarrow> uint (word_of_int p :: 16 word) = p"
  by (simp add: uint_word_of_int take_bit_int_eq_self)

lemma bound_port_only: "uint (word_of_int p :: 16 word) = p \<Longrightarrow> 0 \<le> p \<and> p < 65536"
  using uint_lt2p [of "word_of_int p :: 16 word"] uint_nonnegative [of "word_of_int p :: 16 word"] by simp

end
