(* ===== verification/Connection.thy ===== *)
theory Connection
  imports QueryEngine Sockets
begin

section \<open>The connection manager\<close>

text \<open>
  \<open>connectionManager/ConnectionManager\<close>: statements of a client, read up to a semicolon, answered with the
  rows, an acknowledgement or the text of the exception. A connection is the list of the byte blocks that
  \<open>read\<close> returns, an empty one or the end of the list standing for its end; the writes are returned as a
  list; a write that is cut short is left out. The engine is any function from texts to rows on a state. The
  server serves one client after the other; its clients are given as a list of what \<open>accept\<close> returns.
\<close>

definition semicolon :: char where
  "semicolon = CHR '';''"

fun readStatement :: "string \<Rightarrow> string list \<Rightarrow> string \<times> string list" where
  "readStatement stmt [] = ([], [])"
| "readStatement stmt (buf # rest) =
     (if buf = [] then ([], rest)
      else if semicolon \<in> set (stmt @ buf) then (trim (takeWhile (\<lambda>c. c \<noteq> semicolon) (stmt @ buf)), rest)
      else readStatement (stmt @ buf) rest)"

fun escape :: "string \<Rightarrow> string" where
  "escape [] = []"
| "escape (c # cs) =
     (if c = CHR 0x09 then CHR 0x5C # CHR ''t'' # escape cs
      else if c = newline then CHR 0x5C # CHR ''n'' # escape cs
      else c # escape cs)"

definition field_text :: "FieldValue \<Rightarrow> string" where
  "field_text fv = (case fv of FInt i \<Rightarrow> to_string (sint i) | FStr s \<Rightarrow> escape s)"

definition row_line :: "row \<Rightarrow> string" where
  "row_line r = join_with (CHR 0x09) (map field_text r) @ [newline]"

text \<open>\<open>e.what()\<close>; undefined behaviour is no exception.\<close>

definition what :: "error \<Rightarrow> string res" where
  "what e = (case e of
     Runtime_Error m \<Rightarrow> Inr m
   | Lock_Conflict m \<Rightarrow> Inr m
   | Out_Of_Range m \<Rightarrow> Inr m
   | Invalid_Argument m \<Rightarrow> Inr m
   | Bad_Variant_Access \<Rightarrow> Inr ''bad_variant_access''
   | Undefined_Behaviour m \<Rightarrow> Inl e)"

definition answer :: "row list res \<Rightarrow> string list res" where
  "answer r = (case r of
     Inr rows \<Rightarrow> Inr (if rows = [] then [''OK'' @ [newline]] else map row_line rows)
   | Inl e \<Rightarrow> bindE (what e) (\<lambda>msg. Inr [''ERROR: '' @ msg @ [newline]]))"

lemma readStatement_shorter [termination_simp]:
  "readStatement stmt chunks = (sql, rest) \<Longrightarrow> sql \<noteq> [] \<Longrightarrow> length rest < length chunks"
  by (induction chunks arbitrary: stmt) (fastforce split: if_splits)+

function handleClient :: "(string \<Rightarrow> ('s, row list) io) \<Rightarrow> string list \<Rightarrow> ('s, string list) io" where
  "handleClient engine chunks =
     (case readStatement [] chunks of (sql, rest) \<Rightarrow>
        if sql = [] then retM []
        else (\<lambda>s. case engine sql s of (r, s) \<Rightarrow>
          bindM (liftM (answer r)) (\<lambda>lines.
          bindM (handleClient engine rest) (\<lambda>more. retM (lines @ more))) s))"
  by pat_completeness auto
termination
  by (relation "measure (\<lambda>(engine, chunks). length chunks)") (auto dest: readStatement_shorter [OF sym])

declare handleClient.simps [simp del]

subsection \<open>The server\<close>

definition new_ConnectionManager :: "system_calls \<Rightarrow> int \<Rightarrow> console list \<times> listener option" where
  "new_ConnectionManager sys p =
     (let fd = sys_socket sys in
      if fd < 0 then ([Perror ''socket''], None)
      else if sys_bind sys fd (word_of_int p) < 0 then ([Perror ''bind''], None)
      else if sys_listen sys fd 10 < 0 then ([Perror ''listen''], None)
      else ([Out (''Listening on port '' @ to_string p @ ''...'' @ [newline])], Some \<lparr>port = p, listenFd = fd\<rparr>))"

datatype server_event = Console console | Write string | Close

text \<open>
  \<open>run\<close>, up to the last of the given calls of \<open>accept\<close>: a failed call is \<open>None\<close>, another one has the client's
  address and the blocks that the client sends.
\<close>

fun run_server :: "(string \<Rightarrow> ('s, row list) io) \<Rightarrow> (peer \<times> string list) option list \<Rightarrow> ('s, server_event list) io" where
  "run_server engine [] = retM []"
| "run_server engine (None # accepts) =
     bindM (run_server engine accepts) (\<lambda>more. retM (Console (Perror ''accept'') # more))"
| "run_server engine (Some ((ip, p), chunks) # accepts) =
     bindM (handleClient engine chunks) (\<lambda>lines.
     bindM (run_server engine accepts) (\<lambda>more. retM
       (Console (Out (''Client connected: '' @ dotted ip @ '':'' @ show_nat (unat p) @ [newline])) #
        map Write lines @ [Close, Console (Out (''Client disconnected'' @ [newline]))] @ more)))"

subsection \<open>Clients that wait for their answers\<close>

text \<open>
  The blocks in which a statement arrives: they are not empty, the last one ends with the semicolon, and
  there is no other. \<open>serve\<close>: the statements run one after the other.
\<close>

definition arrives :: "string list \<Rightarrow> string \<Rightarrow> bool" where
  "arrives chunks st \<longleftrightarrow> [] \<notin> set chunks \<and> concat chunks = st @ [semicolon] \<and> semicolon \<notin> set st \<and> trim st \<noteq> []"

fun serve :: "(string \<Rightarrow> ('s, row list) io) \<Rightarrow> string list \<Rightarrow> ('s, string list) io" where
  "serve engine [] = retM []"
| "serve engine (sql # sqls) = (\<lambda>s. case engine sql s of (r, s) \<Rightarrow>
     bindM (liftM (answer r)) (\<lambda>lines. bindM (serve engine sqls) (\<lambda>more. retM (lines @ more))) s)"

lemma readStatement_arrives:
  "[] \<notin> set chunks \<Longrightarrow> acc @ concat chunks = st @ [semicolon] \<Longrightarrow> semicolon \<notin> set st \<Longrightarrow> semicolon \<notin> set acc \<Longrightarrow>
     readStatement acc (chunks @ rest) = (trim st, rest)"
proof (induction chunks arbitrary: acc)
  case Nil
  then have "semicolon \<in> set acc" by simp
  with Nil show ?case by simp
next
  case (Cons buf chunks)
  show ?case
  proof (cases "semicolon \<in> set buf")
    case True
    have "concat chunks = []"
    proof (rule ccontr)
      assume "concat chunks \<noteq> []"
      then have "acc @ buf @ butlast (concat chunks) = st"
        using Cons.prems(2) by (metis append_assoc butlast_append butlast_snoc concat.simps(2))
      with True Cons.prems(3) show False by auto
    qed
    then have c: "chunks = []" using Cons.prems(1) by (cases chunks) auto
    with Cons.prems(2) have e: "acc @ buf = st @ [semicolon]" by simp
    have "takeWhile (\<lambda>c. c \<noteq> semicolon) (st @ [semicolon]) = st" using Cons.prems(3) by (auto simp: takeWhile_append)
    then show ?thesis using Cons.prems(1) e c by simp
  next
    case False
    moreover have "buf \<noteq> []" using Cons.prems(1) by auto
    ultimately show ?thesis using Cons.IH [of "acc @ buf"] Cons.prems by simp
  qed
qed

lemma handleClient_step:
  assumes "arrives cs st"
  shows "handleClient engine (cs @ rest) s = (case engine (trim st) s of (r, s) \<Rightarrow>
    bindM (liftM (answer r)) (\<lambda>lines. bindM (handleClient engine rest) (\<lambda>more. retM (lines @ more))) s)"
  using readStatement_arrives [of cs "[]" st rest] assms
  by (subst handleClient.simps) (simp add: arrives_def)

lemma readStatement_unfinished:
  "semicolon \<notin> set acc \<Longrightarrow> semicolon \<notin> set (concat chunks) \<Longrightarrow> fst (readStatement acc chunks) = []"
  by (induction chunks arbitrary: acc) auto

text \<open>
  What a client sends for a list of statements: each in blocks of its own, and then possibly a last one
  that it does not finish. The answers are the writes of the server.
\<close>

definition sends :: "(peer \<times> string list) option \<Rightarrow> string list \<Rightarrow> bool" where
  "sends a sts \<longleftrightarrow> (case a of None \<Rightarrow> sts = [] | Some (_, chunks) \<Rightarrow>
     \<exists>blocks tail. chunks = concat blocks @ tail \<and> list_all2 arrives blocks sts \<and> semicolon \<notin> set (concat tail))"

definition writes :: "server_event list \<Rightarrow> string list" where
  "writes evs = concat (map (\<lambda>e. case e of Write l \<Rightarrow> [l] | _ \<Rightarrow> []) evs)"

lemma writes_simps [simp]:
  "writes [] = []" "writes (Write l # evs) = l # writes evs" "writes (Console c # evs) = writes evs"
  "writes (Close # evs) = writes evs" "writes (evs @ fs) = writes evs @ writes fs" "writes (map Write ls) = ls"
  by (simp_all add: writes_def) (induction ls, simp_all)

text \<open>What the server prints for a call of \<open>accept\<close>.\<close>

definition consoles :: "server_event list \<Rightarrow> console list" where
  "consoles evs = concat (map (\<lambda>e. case e of Console c \<Rightarrow> [c] | _ \<Rightarrow> []) evs)"

lemma consoles_simps [simp]:
  "consoles [] = []" "consoles (Write l # evs) = consoles evs" "consoles (Console c # evs) = c # consoles evs"
  "consoles (Close # evs) = consoles evs" "consoles (evs @ fs) = consoles evs @ consoles fs" "consoles (map Write ls) = []"
  by (simp_all add: consoles_def comp_def)

definition greeting :: "(peer \<times> string list) option \<Rightarrow> console list" where
  "greeting a = (case a of None \<Rightarrow> [Perror ''accept''] | Some ((ip, p), _) \<Rightarrow>
     [Out (''Client connected: '' @ dotted ip @ '':'' @ show_nat (unat p) @ [newline]), Out (''Client disconnected'' @ [newline])])"

lemma run_server_consoles:
  "run_server engine accepts s = (Inr evs, t) \<Longrightarrow> consoles evs = concat (map greeting accepts)"
  by (induction engine accepts arbitrary: s evs rule: run_server.induct) (auto simp: greeting_def bindM_eq_Inr)

lemma serve_append:
  "serve engine (xs @ ys) s = bindM (serve engine xs) (\<lambda>ls. bindM (serve engine ys) (\<lambda>more. retM (ls @ more))) s"
  by (induction xs arbitrary: s) (auto simp: bindM_def retM_def liftM_def split: prod.splits sum.splits)

subsection \<open>Lines and fields\<close>

lemma field_text_plain: "CHR 0x09 \<notin> set (field_text v) \<and> newline \<notin> set (field_text v)"
proof -
  have "CHR 0x09 \<notin> set (escape cs) \<and> newline \<notin> set (escape cs)" for cs
    by (induction cs) (auto simp: newline_def)
  moreover have "CHR 0x09 \<notin> set (to_string i) \<and> newline \<notin> set (to_string i)" for i
    by (auto simp: newline_def isdigit_def dest!: to_string_chars)
  ultimately show ?thesis by (simp add: field_text_def split: FieldValue.split)
qed

lemma set_join_with: "set (join_with d ps) \<subseteq> insert d (\<Union>p \<in> set ps. set p)"
  by (induction d ps rule: join_with.induct) auto

lemma row_text_plain: "newline \<notin> set (join_with (CHR 0x09) (map field_text r))"
  using set_join_with [of "CHR 0x09" "map field_text r"] field_text_plain by (auto simp: newline_def)

lemma client_session:
  assumes "list_all2 arrives blocks sts" "semicolon \<notin> set (concat tail)"
  shows "handleClient engine (concat blocks @ tail) s = serve engine (map trim sts) s"
  using assms(1)
proof (induction arbitrary: s rule: list_all2_induct)
  case Nil
  obtain rest where "readStatement [] tail = ([], rest)"
    using readStatement_unfinished [of "[]" tail] assms(2) by (metis empty_iff empty_set prod.collapse)
  then show ?case by (subst handleClient.simps) simp
next
  case (Cons cs blocks st sts)
  then show ?case
    by (auto simp: handleClient_step bindM_def liftM_def split: prod.split sum.split)
qed

lemma run_server_serve:
  assumes "list_all2 sends accepts stss"
  shows "bindM (run_server engine accepts) (\<lambda>evs. retM (writes evs)) s = serve engine (map trim (concat stss)) s"
  using assms
proof (induction arbitrary: s rule: list_all2_induct)
  case Nil
  then show ?case by (simp add: writes_def)
next
  case (Cons a accepts sts stss)
  show ?case
  proof (cases a)
    case None
    with Cons.hyps(1) have "sts = []" by (simp add: sends_def)
    with None Cons.IH [of s] show ?thesis by (simp add: bindM_def split: prod.splits sum.splits)
  next
    case (Some c)
    obtain ip p chunks where c: "c = ((ip, p), chunks)" by (metis surj_pair)
    with Cons.hyps(1) Some obtain blocks tail where
      b: "chunks = concat blocks @ tail" "list_all2 arrives blocks sts" "semicolon \<notin> set (concat tail)"
      by (auto simp: sends_def)
    have "handleClient engine chunks = serve engine (map trim sts)"
      using client_session [OF b(2,3)] unfolding b(1) by (rule ext)
    moreover obtain r t where "serve engine (map trim sts) s = (r, t)" by fastforce
    ultimately show ?thesis using Cons.IH [of t] unfolding Some c run_server.simps
      by (auto simp: serve_append bindM_def split: prod.splits sum.splits)
  qed
qed

subsection \<open>Properties\<close>

text \<open>
  C25: Clients that wait for each answer before they send the next statement get the answers of their
  statements in order, with the engine's state handed on from statement to statement and from client to
  client, however the network cuts the statements into blocks: an exception is answered with its text and
  the session goes on, a statement that a client breaks off is not run, and a failed call of \<open>accept\<close>
  changes nothing. The console has two lines for every client and one for every failed call.
\<close>

theorem server_serves_clients:
  assumes "list_all2 sends accepts stss"
  shows "bindM (run_server engine accepts) (\<lambda>evs. retM (writes evs)) s = serve engine (map trim (concat stss)) s \<and>
    (\<forall>evs t. run_server engine accepts s = (Inr evs, t) \<longrightarrow> consoles evs = concat (map greeting accepts))"
  by (intro conjI allI impI run_server_serve [OF assms]) (rule run_server_consoles)

theorem server_serves_clients_witness:
  "bindM (run_server (\<lambda>sql s. (Inr [], s @ [sql]))
       [Some (((127, 0, 0, 1), 40000), [''SELECT a'', '' FROM b;'', ''DELE'']), None, Some (((10, 0, 0, 2), 40001), [''BEGIN;''])])
     (\<lambda>evs. retM (writes evs)) [] =
   (Inr [''OK'' @ [newline], ''OK'' @ [newline]], [''SELECT a FROM b'', ''BEGIN''])"
proof -
  have w: "trim ''SELECT a FROM b'' = ''SELECT a FROM b''" "trim ''BEGIN'' = ''BEGIN''" by code_simp+
  have "sends (Some (((127, 0, 0, 1), 40000), [''SELECT a'', '' FROM b;'', ''DELE''])) [''SELECT a FROM b'']"
    by (simp add: sends_def, rule exI [of _ "[[''SELECT a'', '' FROM b;'']]"], rule exI [of _ "[''DELE'']"])
      (simp add: arrives_def semicolon_def w)
  moreover have "sends (Some (((10, 0, 0, 2), 40001), [''BEGIN;''])) [''BEGIN'']"
    by (simp add: sends_def, rule exI [of _ "[[''BEGIN;'']]"], rule exI [of _ "[]"])
      (simp add: arrives_def semicolon_def w)
  moreover have "sends None []" by (simp add: sends_def)
  ultimately show ?thesis
    using server_serves_clients [of "[Some (((127, 0, 0, 1), 40000), [''SELECT a'', '' FROM b;'', ''DELE'']), None,
        Some (((10, 0, 0, 2), 40001), [''BEGIN;''])]" "[[''SELECT a FROM b''], [], [''BEGIN'']]"
        "\<lambda>sql s. (Inr [], s @ [sql])" "[]"]
    by (simp add: w answer_def del: run_server.simps)
qed

text \<open>
  Whatever a client sends behind a semicolon before it has its answer is lost: the rest of the block
  is thrown away with the local variable that holds it.
\<close>

theorem pipelined_statements_lost:
  assumes "semicolon \<notin> set st"
  shows "handleClient engine ((st @ [semicolon]  @ tail) # rest) s = handleClient engine ((st @ [semicolon]) # rest) s"
proof -
  have "takeWhile (\<lambda>c. c \<noteq> semicolon) (st @ semicolon # tail) = st" for tail
    using assms by (auto simp: takeWhile_append)
  then have "readStatement [] ((st @ [semicolon]  @ tail) # rest) = readStatement [] ((st @ [semicolon]) # rest)" by simp
  then show ?thesis by (subst (1 2) handleClient.simps) (simp only:)
qed

text \<open>
  The rows of an answer can be told apart: cut at line ends and then at tabs, the bytes that are sent
  for a list of rows give the texts of their fields, whatever characters the strings hold, if no row
  ends with an empty string. (The texts themselves are not unique: a tab is sent as the two characters
  that a backslash and a t are sent as.)
\<close>

theorem answer_fields:
  assumes "rows \<noteq> []" "\<forall>r \<in> set rows. r \<noteq> [] \<and> last r \<noteq> FStr []"
  shows "\<exists>lines. answer (Inr rows) = Inr lines \<and>
    map (split_at (CHR 0x09)) (split_at newline (concat lines)) = map (map field_text) rows"
proof -
  let ?text = "\<lambda>r. join_with (CHR 0x09) (map field_text r)"
  have "split_at newline (concat (map row_line rs)) = map ?text rs" for rs
    by (induction rs) (simp_all add: row_line_def split_at_Cons row_text_plain)
  moreover have "split_at (CHR 0x09) (?text r) = map field_text r" if "r \<in> set rows" for r
  proof (rule split_at_join)
    have "field_text v \<noteq> []" if "v \<noteq> FStr []" for v
      using that by (cases v) (auto simp: field_text_def split: if_splits elim!: escape.elims)
    then show "last (map field_text r) \<noteq> []" using assms(2) that by (simp add: last_map)
  qed (use field_text_plain assms(2) that in auto)
  ultimately show ?thesis using assms(1) by (simp add: answer_def comp_def)
qed

theorem answer_fields_witness:
  "answer (Inr [[FInt 7, FStr [CHR ''a'', CHR 0x09]]]) = Inr [CHR ''7'' # CHR 0x09 # CHR ''a'' # CHR 0x5C # CHR ''t'' # [newline]] \<and>
   (\<exists>lines. answer (Inr [[FInt 7, FStr [CHR ''a'', CHR 0x09]]]) = Inr lines \<and>
      map (split_at (CHR 0x09)) (split_at newline (concat lines)) =
        map (map field_text) [[FInt 7, FStr [CHR ''a'', CHR 0x09]]])"
proof
  show "answer (Inr [[FInt 7, FStr [CHR ''a'', CHR 0x09]]]) = Inr [CHR ''7'' # CHR 0x09 # CHR ''a'' # CHR 0x5C # CHR ''t'' # [newline]]"
    by code_simp
qed (rule answer_fields; simp)

end
