(* ===== verification/LockedEngine.thy ===== *)
theory LockedEngine
  imports QueryEngine LockManager TransactionManager
begin

section \<open>The storage engine with locks and log\<close>

text \<open>
  \<open>storageEngine/lockOptimized/StorageEngine\<close>: the variant of the storage engine whose operations belong
  to a transaction: they lock the table, write to the log and change heap and index. Its state is put
  together from the states of the parts, and an operation of a part is lifted to it. The class is
  written against members that no class in the repository has; they are the fields of \<open>externals\<close>, an
  argument of the operations. A table's entry is the one of the other engine; the class keeps the schema
  in the catalog.
\<close>

subsection \<open>State and lifting\<close>

record lo_state =
  store :: engine_state
  lcatalog :: catalog
  locks :: lock_table
  wal :: wal_state
  txs :: tx_manager
  currentTxId :: int

definition zoom :: "('s \<Rightarrow> 'a) \<Rightarrow> ('a \<Rightarrow> 's \<Rightarrow> 's) \<Rightarrow> ('a, 'b) io \<Rightarrow> ('s, 'b) io" where
  "zoom get put m = (\<lambda>s. case m (get s) of (r, a) \<Rightarrow> (r, put a s))"

definition on_store :: "(engine_state, 'b) io \<Rightarrow> (lo_state, 'b) io" where
  "on_store = zoom store (\<lambda>a s. s\<lparr>store := a\<rparr>)"

definition on_catalog :: "(catalog, 'b) io \<Rightarrow> (lo_state, 'b) io" where
  "on_catalog = zoom lcatalog (\<lambda>a s. s\<lparr>lcatalog := a\<rparr>)"

definition on_locks :: "(lock_table, 'b) io \<Rightarrow> (lo_state, 'b) io" where
  "on_locks = zoom locks (\<lambda>a s. s\<lparr>locks := a\<rparr>)"

definition on_wal :: "(wal_state, 'b) io \<Rightarrow> (lo_state, 'b) io" where
  "on_wal = zoom wal (\<lambda>a s. s\<lparr>wal := a\<rparr>)"

definition on_txs :: "(tx_manager, 'b) io \<Rightarrow> (lo_state, 'b) io" where
  "on_txs = zoom txs (\<lambda>a s. s\<lparr>txs := a\<rparr>)"

lemma on_run:
  "on_store m s = (fst (m (store s)), s\<lparr>store := snd (m (store s))\<rparr>)"
  "on_catalog n s = (fst (n (lcatalog s)), s\<lparr>lcatalog := snd (n (lcatalog s))\<rparr>)"
  "on_locks k s = (fst (k (locks s)), s\<lparr>locks := snd (k (locks s))\<rparr>)"
  "on_wal w s = (fst (w (wal s)), s\<lparr>wal := snd (w (wal s))\<rparr>)"
  "on_txs q s = (fst (q (txs s)), s\<lparr>txs := snd (q (txs s))\<rparr>)"
  by (simp_all add: on_store_def on_catalog_def on_locks_def on_wal_def on_txs_def zoom_def split_beta)

subsection \<open>Members that the sources use and do not have\<close>

text \<open>
  \<open>Schema::columnIndex\<close> and \<open>defaultFor\<close>, \<open>Catalog::getTableSchema\<close>, \<open>BPlusTree::search\<close>, the values of an
  INSERT as field values, \<open>ExpressionEvaluator::eval\<close> with a schema, the transaction that a scan without
  one is for, given the current one, and \<open>Optimizer::optimize\<close>.
\<close>

record externals =
  columnIndex :: "Schema \<Rightarrow> string \<Rightarrow> int"
  defaultFor :: "Schema \<Rightarrow> int \<Rightarrow> FieldValue"
  getTableSchema :: "catalog \<Rightarrow> string \<Rightarrow> Schema res"
  search_index :: "BPlusTree \<Rightarrow> int32 \<Rightarrow> (engine_state, RecordID option) io"
  insertValues :: "Expr list \<Rightarrow> FieldValue list res"
  evalWith :: "Expr \<Rightarrow> FieldValue list \<Rightarrow> Schema \<Rightarrow> FieldValue res"
  scanTx :: "int \<Rightarrow> int"
  optimize :: "logical \<Rightarrow> logical"

subsection \<open>The operations\<close>

definition table_lock :: "string \<Rightarrow> string" where
  "table_lock t = ''table:'' @ t"

definition lo_registerTable :: "externals \<Rightarrow> string \<Rightarrow> Schema \<Rightarrow> string \<Rightarrow> string \<Rightarrow> string \<Rightarrow> (lo_state, unit) io" where
  "lo_registerTable x name schema dataFile indexFile pkColumn =
     bindM (on_catalog (addTable name schema)) (\<lambda>_.
     let pkIdx = columnIndex x schema pkColumn in
     if pkIdx < 0 then throwM (Runtime_Error (''Unknown PK column: '' @ pkColumn))
     else
       bindM (on_store (new_TableHeap dataFile schema)) (\<lambda>heap.
       bindM (on_store (openFile indexFile)) (\<lambda>f.
       bindM (on_store (new_BPlusTree f)) (\<lambda>idx.
         on_store (modifyM (\<lambda>s. s\<lparr>tables := emplace (tables s) name
           \<lparr>tschema = schema, theap = heap, tindex = idx, tpkCol = pkIdx\<rparr>\<rparr>))))))"

text \<open>\<open>fv[idx] = vals[i]\<close> for each named column, and the default values of the others.\<close>

fun place_values :: "externals \<Rightarrow> Schema \<Rightarrow> string list \<Rightarrow> FieldValue list \<Rightarrow> FieldValue option list \<Rightarrow>
    FieldValue option list res" where
  "place_values x sch [] vals fv = Inr fv"
| "place_values x sch (c # cols) vals fv =
     (let idx = columnIndex x sch c in
      if idx < 0 then Inl (Runtime_Error (''Unknown column '' @ c))
      else case vals of
          [] \<Rightarrow> Inl (Undefined_Behaviour ''vector index'')
        | v # vs \<Rightarrow>
            if idx < int (length fv) then place_values x sch cols vs (fv[nat idx := Some v])
            else Inl (Undefined_Behaviour ''vector index''))"

definition fill_defaults :: "externals \<Rightarrow> Schema \<Rightarrow> FieldValue option list \<Rightarrow> FieldValue list" where
  "fill_defaults x sch fv =
     map (\<lambda>i. case fv ! i of Some v \<Rightarrow> v | None \<Rightarrow> defaultFor x sch (int i)) [0..<length fv]"

definition build_row :: "externals \<Rightarrow> Schema \<Rightarrow> string list \<Rightarrow> FieldValue list \<Rightarrow> FieldValue list res" where
  "build_row x sch cols vals =
     bindE (place_values x sch cols vals (replicate (numColumns sch) None)) (\<lambda>fv. Inr (fill_defaults x sch fv))"

definition lo_insertRecord :: "externals \<Rightarrow> string \<Rightarrow> string list \<Rightarrow> FieldValue list \<Rightarrow> int \<Rightarrow> (lo_state, RecordID) io" where
  "lo_insertRecord x t cols vals txId =
     bindM (on_store (table_at t)) (\<lambda>td.
     bindM (getsM (\<lambda>s. getTableSchema x (lcatalog s) t)) (\<lambda>r.
     bindM (liftM r) (\<lambda>sch.
     bindM (on_locks (lockExclusive txId (table_lock t))) (\<lambda>_.
     bindM (liftM (build_row x sch cols vals)) (\<lambda>fv.
     bindM (on_store (insertRecord (theap td) fv)) (\<lambda>rid.
     bindM (on_wal (logInsert txId t rid fv)) (\<lambda>_.
     bindM (liftM (bindE (field_at fv (tpkCol td)) (int_key Bad_Variant_Access))) (\<lambda>pkv.
     bindM (on_store (index_put t td pkv rid)) (\<lambda>_. retM rid)))))))))"

text \<open>\<open>where->right->intValue\<close>, the pointers unchecked.\<close>

definition right_int :: "Expr option \<Rightarrow> int32 res" where
  "right_int w = (case w of
     Some (Binary_Op op l r) \<Rightarrow> Inr (case r of Int_Literal i \<Rightarrow> i | _ \<Rightarrow> 0)
   | _ \<Rightarrow> Inl (Undefined_Behaviour ''null pointer''))"

definition lo_deleteRecords :: "externals \<Rightarrow> string \<Rightarrow> Expr option \<Rightarrow> int \<Rightarrow> (lo_state, unit) io" where
  "lo_deleteRecords x t w txId =
     bindM (on_store (table_at t)) (\<lambda>td.
     bindM (on_locks (lockExclusive txId (table_lock t))) (\<lambda>_.
     bindM (liftM (right_int w)) (\<lambda>key.
     bindM (on_store (search_index x (tindex td) key)) (\<lambda>r. case r of
       None \<Rightarrow> retM ()
     | Some rid \<Rightarrow>
         bindM (on_store (getRow (theap td) rid)) (\<lambda>oldVals.
         bindM (on_wal (logDelete txId t rid oldVals)) (\<lambda>_.
         bindM (on_store (deleteRecord (theap td) rid)) (\<lambda>_.
         bindM (on_store (remove_key (tindex td) key)) (\<lambda>_. retM ()))))))))"

fun assign_values :: "externals \<Rightarrow> Schema res \<Rightarrow> FieldValue list \<Rightarrow> (string \<times> Expr) list \<Rightarrow> FieldValue list \<Rightarrow>
    FieldValue list res" where
  "assign_values x sch oldVals [] newVals = Inr newVals"
| "assign_values x sch oldVals ((c, e) # as) newVals =
     bindE sch (\<lambda>schema.
     bindE (evalWith x e oldVals schema) (\<lambda>v.
     bindE (set_field newVals (columnIndex x schema c) v) (assign_values x sch oldVals as)))"

text \<open>The key is the constant 0 of the source.\<close>

definition lo_updateRecords :: "externals \<Rightarrow> string \<Rightarrow> (string \<times> Expr) list \<Rightarrow> Expr option \<Rightarrow> int \<Rightarrow> (lo_state, unit) io" where
  "lo_updateRecords x t assigns w txId =
     bindM (on_store (table_at t)) (\<lambda>td.
     bindM (on_locks (lockExclusive txId (table_lock t))) (\<lambda>_.
     bindM (on_store (search_index x (tindex td) 0)) (\<lambda>r. case r of
       None \<Rightarrow> retM ()
     | Some rid \<Rightarrow>
         bindM (on_store (getRow (theap td) rid)) (\<lambda>oldVals.
         bindM (getsM (\<lambda>s. getTableSchema x (lcatalog s) t)) (\<lambda>sch.
         bindM (liftM (assign_values x sch oldVals assigns oldVals)) (\<lambda>newVals.
         bindM (on_wal (logUpdate txId t rid oldVals newVals)) (\<lambda>_.
         bindM (on_store (updateRecord (theap td) rid newVals)) (\<lambda>_. retM ()))))))))"

definition lo_getRecord :: "string \<Rightarrow> RecordID \<Rightarrow> (lo_state, FieldValue list) io" where
  "lo_getRecord t rid = bindM (on_store (table_at t)) (\<lambda>td. on_store (getRow (theap td) rid))"

definition lo_scanTable :: "string \<Rightarrow> int \<Rightarrow> (lo_state, RecordID list) io" where
  "lo_scanTable t txId =
     bindM (on_store (table_at t)) (\<lambda>td.
     bindM (on_locks (lockShared txId (table_lock t))) (\<lambda>_. on_store (tableScan (theap td))))"

subsection \<open>What an operation keeps\<close>

text \<open>
  A predicate that the storage operations keep for transactions \<open>X\<close> that write and \<open>S\<close> that read: they change
  the parts in these ways only.
\<close>

definition stable :: "int set \<Rightarrow> int set \<Rightarrow> (lo_state \<Rightarrow> bool) \<Rightarrow> bool" where
  "stable X S P \<longleftrightarrow> (\<forall>s. P s \<longrightarrow> (\<forall>d. P (s\<lparr>store := d\<rparr>)) \<and> (\<forall>c. P (s\<lparr>lcatalog := c\<rparr>)) \<and>
     (\<forall>l. P (s\<lparr>wal := snd (wal_write l (wal s))\<rparr>)) \<and>
     (\<forall>tx \<in> X. \<forall>r. P (s\<lparr>locks := snd (lockExclusive tx r (locks s))\<rparr>)) \<and>
     (\<forall>tx \<in> S. \<forall>r. P (s\<lparr>locks := snd (lockShared tx r (locks s))\<rparr>)))"

lemma stable_lifts [keeps_intro]:
  assumes "stable X S P"
  shows "keeps P (on_store m)" "keeps P (on_catalog n)" "tx \<in> X \<Longrightarrow> keeps P (on_locks (lockExclusive tx r))"
    "tx \<in> S \<Longrightarrow> keeps P (on_locks (lockShared tx r))" "keeps P (on_wal (wal_write l))"
  using assms by (auto simp: stable_def keeps_def on_run)

lemmas log_writes = logInsert_def logDelete_def logUpdate_def logCommit_def logAbort_def

lemma storage_keeps:
  assumes "stable X S P"
  shows "keeps P (lo_registerTable x name schema df xf pk)" "keeps P (lo_getRecord t rid)"
    "tx \<in> X \<Longrightarrow> keeps P (lo_insertRecord x t cols vals tx)" "tx \<in> X \<Longrightarrow> keeps P (lo_deleteRecords x t w tx)"
    "tx \<in> X \<Longrightarrow> keeps P (lo_updateRecords x t as w tx)" "tx \<in> S \<Longrightarrow> keeps P (lo_scanTable t tx)"
  unfolding lo_registerTable_def lo_insertRecord_def lo_deleteRecords_def lo_updateRecords_def lo_scanTable_def
    lo_getRecord_def Let_def log_writes
  by (intro keeps_intro stable_lifts [OF assms]; assumption)+

subsection \<open>Locks that are granted, and who holds what\<close>

lemma lock_info_set [simp]: "lock_info (t(r \<mapsto> i)) q = (if q = r then i else lock_info t q)"
  by (simp add: lock_info_def)

lemma lockExclusive_granted:
  assumes "tx \<noteq> 0" "\<forall>u. holds_lock t r u \<longrightarrow> u = tx"
  obtains l where "lockExclusive tx r t = (Inr (), l)" "holdsX l r tx" "\<forall>q u. holds_lock l q u \<longrightarrow> holds_lock t q u \<or> (q = r \<and> u = tx)"
proof -
  have x: "xHolder (lock_info t r) = 0 \<or> xHolder (lock_info t r) = tx" using assms(2) by (auto simp: holds_lock_def holdsX_def)
  have s: "filter (\<lambda>u. u \<noteq> tx) (sHolders (lock_info t r)) = []"
    using assms(2) by (auto simp: filter_empty_conv holds_lock_def holdsS_def)
  show thesis
    by (rule that [of "t(r \<mapsto> (lock_info t r)\<lparr>sHolders := removeAll tx (sHolders (lock_info t r)), xHolder := tx\<rparr>)"])
      (use x s assms(1) in \<open>auto simp: lockExclusive_def Let_def holdsX_def holdsS_def holds_lock_def\<close>)
qed

lemma lockExclusive_refused:
  assumes "holds_lock t r u" "u \<noteq> tx"
  obtains m l where "lockExclusive tx r t = (Inl (Lock_Conflict m), l)" "holds_lock l = holds_lock t"
proof -
  have same: "holds_lock (t(r \<mapsto> lock_info t r)) = holds_lock t"
    by (intro ext) (simp add: holds_lock_def holdsX_def holdsS_def)
  show thesis
  proof (cases "filter (\<lambda>u. u \<noteq> tx) (sHolders (lock_info t r))")
    case Nil
    then have "holdsX t r u" using assms by (auto simp: holds_lock_def holdsS_def filter_empty_conv)
    with assms(2) that same show thesis by (auto simp: lockExclusive_def Let_def holdsX_def)
  next
    case (Cons v vs)
    with that same show thesis
      by (cases "xHolder (lock_info t r) \<noteq> 0 \<and> xHolder (lock_info t r) \<noteq> tx") (auto simp: lockExclusive_def Let_def)
  qed
qed

lemma lock_holders:
  "holds_lock (snd (lockExclusive tx r t)) q u \<Longrightarrow> holds_lock t q u \<or> u = tx"
  "holds_lock (snd (lockShared tx r t)) q u \<Longrightarrow> holds_lock t q u \<or> u = tx"
  "holds_lock (snd (releaseTransactionLocks tx t)) q u \<Longrightarrow> holds_lock t q u \<and> u \<noteq> tx"
  by (auto simp: lockExclusive_def lockShared_def releaseTransactionLocks_def release_info_def Let_def holds_lock_def holdsX_def
      holdsS_def lock_info_def new_lock_info_def split: if_splits list.splits option.splits)

subsection \<open>Insertion and deletion on a registered table\<close>

text \<open>
  The other direction: every row is reached by its key, so that the rows of the heap are those of the map,
  each once. An insertion at a key that has a row breaks it.
\<close>

definition all_keyed :: "int set \<Rightarrow> TableInfo \<Rightarrow> 'a bm_state_scheme \<Rightarrow> bool" where
  "all_keyed F ti s \<longleftrightarrow> (\<forall>rid v. heap_rows F (theap ti) s rid = Some v \<longrightarrow> tree_map F (tindex ti) s (table_key ti v) = Some rid)"

lemma all_keyed_rows:
  assumes "keyed_sound F ti s" "all_keyed F ti s"
  shows "ran (heap_rows F (theap ti) s) = ran (keyed_map F ti s)" "inj_on (heap_rows F (theap ti) s) (dom (heap_rows F (theap ti) s))"
proof -
  show "ran (heap_rows F (theap ti) s) = ran (keyed_map F ti s)"
    using assms(2) unfolding all_keyed_def ran_def keyed_map_def by (auto simp: bind_eq_Some_conv)
  show "inj_on (heap_rows F (theap ti) s) (dom (heap_rows F (theap ti) s))"
    using assms(2) unfolding all_keyed_def by (intro inj_onI) (metis domD option.inject)
qed

lemma keyed_put:
  assumes "keyed_sound F ti s" "heap_rows F (theap ti) s rid = None" "table_key ti v = k"
    "heap_rows F (theap ti) u = (heap_rows F (theap ti) s)(rid \<mapsto> v)" "tree_map F (tindex ti) u = (tree_map F (tindex ti) s)(k \<mapsto> rid)"
  shows "keyed_sound F ti u" "keyed_map F ti u = (keyed_map F ti s)(k \<mapsto> v)"
    "all_keyed F ti s \<Longrightarrow> keyed_map F ti s k = None \<Longrightarrow> all_keyed F ti u"
proof -
  show "all_keyed F ti u" if "all_keyed F ti s" "keyed_map F ti s k = None"
  proof -
    have "table_key ti w \<noteq> k" if "heap_rows F (theap ti) s r = Some w" for r w
      using that \<open>all_keyed F ti s\<close> \<open>keyed_map F ti s k = None\<close> unfolding all_keyed_def keyed_map_def by auto
    then show ?thesis using that(1) assms(3-5) by (simp add: all_keyed_def)
  qed
  have old: "r \<noteq> rid" if "tree_map F (tindex ti) s k' = Some r" for k' r
    using assms(1,2) that unfolding keyed_sound_def by (metis option.distinct(1))
  show "keyed_sound F ti u" using assms old by (auto simp: keyed_sound_def)
  show "keyed_map F ti u = (keyed_map F ti s)(k \<mapsto> v)"
    using assms(4,5) old by (auto simp: keyed_map_def fun_eq_iff split: bind_splits)
qed

lemma keyed_remove:
  assumes "keyed_sound F ti s" "tree_map F (tindex ti) s k = Some rid"
    "heap_rows F (theap ti) u = (heap_rows F (theap ti) s)(rid := None)" "tree_map F (tindex ti) u = (tree_map F (tindex ti) s)(k := None)"
  shows "keyed_sound F ti u" "keyed_map F ti u = (keyed_map F ti s)(k := None)" "all_keyed F ti s \<Longrightarrow> all_keyed F ti u"
proof -
  show "all_keyed F ti u" if "all_keyed F ti s"
    using that assms(2-4) unfolding all_keyed_def by (auto split: if_splits)
  have other: "r \<noteq> rid" if "tree_map F (tindex ti) s k' = Some r" "k' \<noteq> k" for k' r
    using assms(1,2) that unfolding keyed_sound_def by (metis option.inject)
  show "keyed_sound F ti u" using assms other by (auto simp: keyed_sound_def)
  show "keyed_map F ti u = (keyed_map F ti s)(k := None)"
    using assms(3,4) other by (auto simp: keyed_map_def fun_eq_iff split: bind_splits)
qed

text \<open>\<open>lo_table\<close>: the table is registered, well formed, and its index leads to its rows.\<close>

definition lo_table :: "int set \<Rightarrow> string \<Rightarrow> TableInfo \<Rightarrow> lo_state \<Rightarrow> bool" where
  "lo_table F t ti s \<longleftrightarrow> tab_inv F t ti (store s) \<and> keyed_sound F ti (store s)"

definition lo_rows :: "int set \<Rightarrow> TableInfo \<Rightarrow> lo_state \<Rightarrow> int32 \<rightharpoonup> FieldValue list" where
  "lo_rows F ti s = keyed_map F ti (store s)"

text \<open>Room for \<open>n\<close> more rows, in the file and in the index.\<close>

definition lo_room :: "int set \<Rightarrow> TableInfo \<Rightarrow> nat \<Rightarrow> lo_state \<Rightarrow> bool" where
  "lo_room F ti n s \<longleftrightarrow> int (heap_pages F (theap ti) (store s)) + int n < 2 ^ 31 \<and>
     card (dom (tree_map F (tindex ti) (store s))) + n \<le> 128"

text \<open>A step that has made one change to a table under its lock and logged it.\<close>

definition locked_step :: "int \<Rightarrow> string \<Rightarrow> string \<Rightarrow> lo_state \<Rightarrow> lo_state \<Rightarrow> bool" where
  "locked_step tx t text s u \<longleftrightarrow> lcatalog u = lcatalog s \<and> txs u = txs s \<and> currentTxId u = currentTxId s \<and>
     wal u = snd (wal_write text (wal s)) \<and> holdsX (locks u) (table_lock t) tx \<and>
     (\<forall>q v. holds_lock (locks u) q v \<longrightarrow> holds_lock (locks s) q v \<or> v = tx)"

lemma wal_write_Nil [simp]: "wal_write [] w = (Inr (), w)"
  by (cases w) (simp add: wal_write_def)

lemma wal_write_fst [simp]: "fst (wal_write l w) = Inr ()"
  by (simp add: wal_write_def)

lemma lo_insert_ok:
  assumes tab: "lo_table F t ti s" and room: "lo_room F ti (Suc n) s"
    and free: "tx \<noteq> 0" "\<forall>u. holds_lock (locks s) (table_lock t) u \<longrightarrow> u = tx"
    and row: "getTableSchema x (lcatalog s) t = Inr sch" "build_row x sch cols vals = Inr fv" "keyed_row ti fv"
  obtains rid u where "lo_insertRecord x t cols vals tx s = (Inr rid, u)" "lo_table F t ti u" "lo_room F ti n u"
    "lo_rows F ti u = (lo_rows F ti s)(table_key ti fv \<mapsto> map stored_value fv)"
    "locked_step tx t (insert_line tx t rid fv @ [newline]) s u"
    "all_keyed F ti (store s) \<longrightarrow> lo_rows F ti s (table_key ti fv) = None \<longrightarrow> all_keyed F ti (store u)"
proof -
  let ?k = "table_key ti fv"
  have T: "tab_inv F t ti (store s)" and S: "keyed_sound F ti (store s)" using tab by (simp_all add: lo_table_def)
  have rm: "int (heap_pages F (theap ti) (store s)) + 1 < 2 ^ 31" "card (dom (tree_map F (tindex ti) (store s))) < 128"
    using room by (simp_all add: lo_room_def)
  have ok: "row_ok (hschema (theap ti)) fv" using row(3) tab_inv_rows(3) [OF T] by (simp add: keyed_row_def)
  obtain rid a where a: "insertRecord (theap ti) fv (store s) = (Inr rid, a)" "heap_rows F (theap ti) (store s) rid = None"
    "heap_change F (theap ti) (store s) a ((heap_rows F (theap ti) (store s))(rid \<mapsto> map stored_value fv))"
    "heap_pages F (theap ti) a \<le> heap_pages F (theap ti) (store s) + 1"
    using tab_inv_rows(1) [OF T] ok rm(1) by (rule insert_ok)
  note A = tab_heap [OF T a(3)]
  have rid: "rid_ok rid" by (rule heap_rid_ok [OF tab_inv_rows(1) [OF A(1)], of rid]) (use A(4) in simp)
  obtain b where b: "index_put t ti ?k rid a = (Inr (), b)" "tree_change F (tindex ti) a b ((tree_map F (tindex ti) a)(?k \<mapsto> rid))"
    by (rule index_put_ok [OF A(1) rid, of ?k]) (use rm(2) A(2) in auto)
  note B = tab_tree [OF A(1) b(2)]
  have k: "table_key ti (map stored_value fv) = ?k"
    using stored_pk [OF row(3)] key_field(2) [OF T row(3)] by (simp add: table_key_def)
  have m: "heap_rows F (theap ti) b = (heap_rows F (theap ti) (store s))(rid \<mapsto> map stored_value fv)"
    "tree_map F (tindex ti) b = (tree_map F (tindex ti) (store s))(?k \<mapsto> rid)"
    using A(2,4) B(2,4) by simp_all
  note K = keyed_put [OF S a(2) k m]
  obtain l where l: "lockExclusive tx (table_lock t) (locks s) = (Inr (), l)" "holdsX l (table_lock t) tx"
    "\<forall>q u. holds_lock l q u \<longrightarrow> holds_lock (locks s) q u \<or> (q = table_lock t \<and> u = tx)"
    using free by (rule lockExclusive_granted)
  define u where "u = s\<lparr>store := b, locks := l, wal := snd (wal_write (insert_line tx t rid fv @ [newline]) (wal s))\<rparr>"
  have ta: "table_at t (store s) = (Inr ti, store s)" using T by (simp add: table_at_def tab_inv_def)
  have run: "lo_insertRecord x t cols vals tx s = (Inr rid, u)"
    using ta row l(1) a(1) b(1) key_field(1) [OF T row(3)]
    by (simp add: lo_insertRecord_def bindM_def on_run logInsert_def int_key_def u_def split: prod.split)
  have "finite (dom (tree_map F (tindex ti) (store s)))"
    using tree_card [OF tab_inv_rows(2) [OF T]] by blast
  then have left: "lo_room F ti n u"
    using room a(4) B(6) m(2) by (auto simp: lo_room_def u_def card_insert_if)
  show thesis
    by (rule that [OF run]) (use left K B(1) l in \<open>auto simp: lo_table_def lo_rows_def locked_step_def u_def\<close>)
qed

lemma lo_delete_ok:
  assumes tab: "lo_table F t ti s" and free: "tx \<noteq> 0" "\<forall>u. holds_lock (locks s) (table_lock t) u \<longrightarrow> u = tx"
    and key: "right_int w = Inr k" and idx: "\<forall>d. search_index x (tindex ti) k d = find_key (tindex ti) k d"
  obtains rid u where "lo_deleteRecords x t w tx s = (Inr (), u)" "lo_table F t ti u" "lo_room F ti n s \<longrightarrow> lo_room F ti n u"
    "lo_rows F ti u = (lo_rows F ti s)(k := None)"
    "locked_step tx t (case lo_rows F ti s k of None \<Rightarrow> [] | Some v \<Rightarrow> delete_line tx t rid v @ [newline]) s u"
    "all_keyed F ti (store s) \<longrightarrow> all_keyed F ti (store u)"
proof -
  have T: "tab_inv F t ti (store s)" and S: "keyed_sound F ti (store s)" using tab by (simp_all add: lo_table_def)
  let ?m = "tree_map F (tindex ti) (store s)" and ?h = "heap_rows F (theap ti) (store s)"
  have ta: "table_at t (store s) = (Inr ti, store s)" using T by (simp add: table_at_def tab_inv_def)
  obtain l where l: "lockExclusive tx (table_lock t) (locks s) = (Inr (), l)" "holdsX l (table_lock t) tx"
    "\<forall>q u. holds_lock l q u \<longrightarrow> holds_lock (locks s) q u \<or> (q = table_lock t \<and> u = tx)"
    using free by (rule lockExclusive_granted)
  obtain a where a: "find_key (tindex ti) k (store s) = (Inr (?m k), a)" "tree_change F (tindex ti) (store s) a ?m"
    by (rule find_ok [OF tab_inv_rows(2) [OF T]])
  note A = tab_tree [OF T a(2)]
  show thesis
  proof (cases "?m k")
    case None
    have none: "lo_rows F ti s k = None" using None by (simp add: lo_rows_def keyed_map_def)
    have run: "lo_deleteRecords x t w tx s = (Inr (), s\<lparr>store := a, locks := l\<rparr>)"
      using ta l(1) a(1) key idx None by (simp add: lo_deleteRecords_def bindM_def on_run)
    have same: "keyed_sound F ti a = keyed_sound F ti (store s)" "keyed_map F ti a = keyed_map F ti (store s)"
      "all_keyed F ti a = all_keyed F ti (store s)"
      by (simp_all only: keyed_sound_def keyed_map_def all_keyed_def A(2,4))
    have rows: "keyed_map F ti a = (lo_rows F ti s)(k := None)"
      using none same(2) by (simp add: lo_rows_def fun_upd_idem)
    have left: "lo_room F ti n s \<longrightarrow> lo_room F ti n (s\<lparr>store := a, locks := l\<rparr>)" by (simp add: lo_room_def A(4,6))
    show thesis
      by (rule that [OF run])
        (use A(1) S same(1,3) rows left l none in \<open>auto simp: lo_table_def lo_rows_def locked_step_def\<close>)
  next
    case (Some rid)
    then obtain v where v: "?h rid = Some v" using S unfolding keyed_sound_def by blast
    have old: "lo_rows F ti s k = Some v" using Some v by (simp add: lo_rows_def keyed_map_def)
    have va: "heap_rows F (theap ti) a rid = Some v" using v A(2) by simp
    obtain b where b: "getRow (theap ti) rid a = (Inr v, b)" "heap_change F (theap ti) a b (heap_rows F (theap ti) a)"
      by (rule getRow_ok [OF tab_inv_rows(1) [OF A(1)] va])
    note B = tab_heap [OF A(1) b(2)]
    obtain c where c: "deleteRecord (theap ti) rid b = (Inr (heap_rows F (theap ti) b rid \<noteq> None), c)"
      "heap_change F (theap ti) b c ((heap_rows F (theap ti) b)(rid := None))"
      by (rule delete_ok [OF tab_inv_rows(1) [OF B(1)]])
    note C = tab_heap [OF B(1) c(2)]
    obtain d where d: "remove_key (tindex ti) k c = (Inr (tree_map F (tindex ti) c k \<noteq> None), d)"
      "tree_change F (tindex ti) c d ((tree_map F (tindex ti) c)(k := None))"
      by (rule remove_ok [OF tab_inv_rows(2) [OF C(1)]])
    note D = tab_tree [OF C(1) d(2)]
    have m: "heap_rows F (theap ti) d = ?h(rid := None)" "tree_map F (tindex ti) d = ?m(k := None)"
      using A(2,4) B(2,4) C(2,4) D(2,4) by simp_all
    note K = keyed_remove [OF S Some m]
    define u where "u = s\<lparr>store := d, locks := l, wal := snd (wal_write (delete_line tx t rid v @ [newline]) (wal s))\<rparr>"
    have run: "lo_deleteRecords x t w tx s = (Inr (), u)"
      using ta l(1) a(1) b(1) c(1) d(1) key idx Some
      by (simp add: lo_deleteRecords_def bindM_def on_run logDelete_def u_def split: prod.split)
    have pages: "heap_pages F (theap ti) d = heap_pages F (theap ti) (store s)"
      using A(6) b(2) c(2) D(6) by (simp add: heap_change_def)
    have fin: "finite (dom ?m)" using tree_card [OF tab_inv_rows(2) [OF T]] by blast
    have "card (dom ?m - {k}) \<le> card (dom ?m)" using fin by (simp add: card_Diff1_le)
    then have left: "lo_room F ti n s \<longrightarrow> lo_room F ti n u" using pages m(2) by (auto simp: lo_room_def u_def)
    show thesis
      by (rule that [OF run, of rid])
        (use left K D(1) l old in \<open>auto simp: lo_table_def lo_rows_def locked_step_def u_def\<close>)
  qed
qed

lemma keyed_set:
  assumes "keyed_sound F ti s" "tree_map F (tindex ti) s k = Some rid" "table_key ti v = k"
    "heap_rows F (theap ti) u = (heap_rows F (theap ti) s)(rid \<mapsto> v)" "tree_map F (tindex ti) u = tree_map F (tindex ti) s"
  shows "keyed_sound F ti u" "keyed_map F ti u = (keyed_map F ti s)(k \<mapsto> v)"
proof -
  have other: "r \<noteq> rid" if "tree_map F (tindex ti) s k' = Some r" "k' \<noteq> k" for k' r
    using assms(1,2) that unfolding keyed_sound_def by (metis option.inject)
  show "keyed_sound F ti u" using assms other by (fastforce simp: keyed_sound_def)
  show "keyed_map F ti u = (keyed_map F ti s)(k \<mapsto> v)"
    using assms(2,4,5) other by (auto simp: keyed_map_def fun_eq_iff split: bind_splits)
qed

lemma lo_update_ok:
  assumes tab: "lo_table F t ti s" and free: "tx \<noteq> 0" "\<forall>u. holds_lock (locks s) (table_lock t) u \<longrightarrow> u = tx"
    and idx: "\<forall>d. search_index x (tindex ti) 0 d = find_key (tindex ti) 0 d"
    and new: "\<forall>v. lo_rows F ti s 0 = Some v \<longrightarrow> assign_values x (getTableSchema x (lcatalog s) t) v as v = Inr (f v) \<and>
      keyed_row ti (f v) \<and> table_key ti (f v) = 0"
  obtains u where "lo_updateRecords x t as w tx s = (Inr (), u)" "lo_table F t ti u"
    "lo_rows F ti u = (case lo_rows F ti s 0 of None \<Rightarrow> lo_rows F ti s | Some v \<Rightarrow> (lo_rows F ti s)(0 \<mapsto> map stored_value (f v)))"
proof -
  have T: "tab_inv F t ti (store s)" and S: "keyed_sound F ti (store s)" using tab by (simp_all add: lo_table_def)
  let ?m = "tree_map F (tindex ti) (store s)" and ?h = "heap_rows F (theap ti) (store s)"
  have ta: "table_at t (store s) = (Inr ti, store s)" using T by (simp add: table_at_def tab_inv_def)
  obtain l where l: "lockExclusive tx (table_lock t) (locks s) = (Inr (), l)" using free by (rule lockExclusive_granted)
  obtain a where a: "find_key (tindex ti) 0 (store s) = (Inr (?m 0), a)" "tree_change F (tindex ti) (store s) a ?m"
    by (rule find_ok [OF tab_inv_rows(2) [OF T]])
  note A = tab_tree [OF T a(2)]
  show thesis
  proof (cases "?m 0")
    case None
    have run: "lo_updateRecords x t as w tx s = (Inr (), s\<lparr>store := a, locks := l\<rparr>)"
      using ta l(1) a(1) idx None by (simp add: lo_updateRecords_def bindM_def on_run)
    have same: "keyed_sound F ti a = keyed_sound F ti (store s)" "keyed_map F ti a = keyed_map F ti (store s)"
      by (simp_all only: keyed_sound_def keyed_map_def A(2,4))
    have "lo_rows F ti s 0 = None" using None by (simp add: lo_rows_def keyed_map_def)
    then show thesis by (intro that [OF run]) (use A(1) S same in \<open>simp_all add: lo_table_def lo_rows_def\<close>)
  next
    case (Some rid)
    then obtain v where v: "?h rid = Some v" using S unfolding keyed_sound_def by blast
    have old: "lo_rows F ti s 0 = Some v" using Some v by (simp add: lo_rows_def keyed_map_def)
    have f: "assign_values x (getTableSchema x (lcatalog s) t) v as v = Inr (f v)" "keyed_row ti (f v)" "table_key ti (f v) = 0"
      using new old by simp_all
    have va: "heap_rows F (theap ti) a rid = Some v" using v A(2) by simp
    obtain b where b: "getRow (theap ti) rid a = (Inr v, b)" "heap_change F (theap ti) a b (heap_rows F (theap ti) a)"
      by (rule getRow_ok [OF tab_inv_rows(1) [OF A(1)] va])
    note B = tab_heap [OF A(1) b(2)]
    have ok: "row_ok (hschema (theap ti)) (f v)" using f(2) tab_inv_rows(3) [OF T] by (simp add: keyed_row_def)
    have vb: "heap_rows F (theap ti) b rid \<noteq> None" using va B(4) by simp
    obtain c where c: "updateRecord (theap ti) rid (f v) b = (Inr (heap_rows F (theap ti) b rid \<noteq> None), c)"
      "heap_change F (theap ti) b c (if heap_rows F (theap ti) b rid = None then heap_rows F (theap ti) b
         else (heap_rows F (theap ti) b)(rid \<mapsto> map stored_value (f v)))"
      by (rule update_ok [OF tab_inv_rows(1) [OF B(1)] ok])
    note C = tab_heap [OF B(1) c(2)]
    have m: "heap_rows F (theap ti) c = ?h(rid \<mapsto> map stored_value (f v))" "tree_map F (tindex ti) c = ?m"
      using v A(2,4) B(2,4) C(2,4) by simp_all
    have k: "table_key ti (map stored_value (f v)) = 0"
      using stored_pk [OF f(2)] key_field(2) [OF T f(2)] f(3) by (simp add: table_key_def)
    note K = keyed_set [OF S Some k m]
    define u where "u = s\<lparr>store := c, locks := l, wal := snd (wal_write (update_line tx t rid v (f v) @ [newline]) (wal s))\<rparr>"
    have run: "lo_updateRecords x t as w tx s = (Inr (), u)"
      using ta l(1) a(1) b(1) c(1) f(1) idx Some
      by (simp add: lo_updateRecords_def bindM_def on_run logUpdate_def u_def split: prod.split)
    show thesis by (rule that [OF run]) (use K C(1) old in \<open>simp_all add: lo_table_def lo_rows_def u_def\<close>)
  qed
qed

subsection \<open>Properties\<close>

definition ex_externals :: externals where
  "ex_externals = \<lparr>columnIndex = (\<lambda>sch c. pk_position c (scolumns sch) 0), defaultFor = (\<lambda>_ _. FInt 0),
     getTableSchema = (\<lambda>_ _. Inr ex_schema), search_index = find_key, insertValues = insert_values,
     evalWith = (\<lambda>e _ _. literal_value Bad_Variant_Access e), scanTx = (\<lambda>tx. tx), optimize = (\<lambda>p. p)\<rparr>"

definition ex_lo :: "engine_state \<Rightarrow> lock_table \<Rightarrow> lo_state" where
  "ex_lo d l = \<lparr>store = d, lcatalog = Map.empty, locks = l, wal = new_WAL [], txs = tm_init, currentTxId = 0\<rparr>"

lemma ex_lo_keyed:
  obtains ti d where "lo_table {4, 3} ''u'' ti (ex_lo d l)" "lo_rows {4, 3} ti (ex_lo d l) = Map.empty" "tschema ti = ex_schema"
    "tpkCol ti = 0" "lo_room {4, 3} ti 128 (ex_lo d l)" "all_keyed {4, 3} ti d"
proof -
  obtain ti and d :: engine_state where d: "tab_inv {4, 3} ''u'' ti d" "tschema ti = ex_schema" "tpkCol ti = 0"
    "heap_rows {4, 3} (theap ti) d = Map.empty" "tree_map {4, 3} (tindex ti) d = Map.empty" "heap_pages {4, 3} (theap ti) d = 1"
    "tables d = [''u'' \<mapsto> ti]" by (rule ex_table)
  then show thesis
    by (intro that [of ti d]) (simp_all add: lo_table_def lo_rows_def lo_room_def ex_lo_def keyed_sound_def keyed_map_def all_keyed_def)
qed

lemma ex_lo_table:
  obtains ti d where "lo_table {4, 3} ''u'' ti (ex_lo d l)" "lo_rows {4, 3} ti (ex_lo d l) = Map.empty" "tschema ti = ex_schema"
    "tpkCol ti = 0" "lo_room {4, 3} ti 128 (ex_lo d l)"
  by (rule ex_lo_keyed) (rule that)

lemma ex_lo_row:
  obtains ti s where "lo_table {4, 3} ''u'' ti s" "lo_rows {4, 3} ti s = [7 \<mapsto> [FInt 7, FStr ''abc'']]" "tschema ti = ex_schema"
    "tpkCol ti = 0" "lo_room {4, 3} ti 127 s" "\<forall>q u. holds_lock (locks s) q u \<longrightarrow> u = 1" "lcatalog s = Map.empty"
proof -
  obtain ti d where e: "lo_table {4, 3} ''u'' ti (ex_lo d Map.empty)" "lo_rows {4, 3} ti (ex_lo d Map.empty) = Map.empty"
    "tschema ti = ex_schema" "tpkCol ti = 0" "lo_room {4, 3} ti 128 (ex_lo d Map.empty)" by (rule ex_lo_table)
  have row: "keyed_row ti [FInt 7, FStr ''abc'']" "table_key ti [FInt 7, FStr ''abc''] = 7"
    using e(3,4) ex_schema_ok(3) by (simp_all add: keyed_row_def table_key_def)
  have b: "build_row ex_externals ex_schema [''id'', ''name''] [FInt 7, FStr ''abc''] = Inr [FInt 7, FStr ''abc'']"
    by (simp add: build_row_def ex_externals_def ex_schema_def ex_cols_def fill_defaults_def numeral_2_eq_2 Let_def numColumns_def)
  have r: "lo_room {4, 3} ti (Suc 127) (ex_lo d Map.empty)" using e(5) by simp
  have free: "\<forall>u. holds_lock (locks (ex_lo d Map.empty)) (table_lock ''u'') u \<longrightarrow> u = 1" and s: "getTableSchema ex_externals (lcatalog (ex_lo d Map.empty)) ''u'' = Inr ex_schema"
    by (simp_all add: ex_lo_def lock_defs ex_externals_def)
  obtain rid u where u: "lo_table {4, 3} ''u'' ti u" "lo_room {4, 3} ti 127 u"
    "lo_rows {4, 3} ti u = (lo_rows {4, 3} ti (ex_lo d Map.empty))(table_key ti [FInt 7, FStr ''abc''] \<mapsto> map stored_value [FInt 7, FStr ''abc''])"
    "locked_step 1 ''u'' (insert_line 1 ''u'' rid [FInt 7, FStr ''abc''] @ [newline]) (ex_lo d Map.empty) u"
    by (rule lo_insert_ok [OF e(1) r _ free s b row(1)]) auto
  have "map stored_value [FInt 7, FStr ''abc''] = [FInt 7, FStr ''abc'']" by (simp add: zero_byte_def)
  with u e(2-4) row(2) show thesis
    by (intro that [of ti u]) (auto simp: locked_step_def ex_lo_def lock_defs)
qed

text \<open>
  C29: A transaction that meets a table which another transaction has locked changes nothing: an insertion,
  deletion or update throws the lock conflict before it touches a row, the index, the catalog or the log,
  and afterwards everyone holds the locks they held.
\<close>

theorem lock_conflict_no_effect:
  assumes "tables (store s) t = Some ti" "getTableSchema x (lcatalog s) t = Inr sch"
    "holds_lock (locks s) (table_lock t) other" "other \<noteq> tx"
  shows "\<exists>m l. lo_insertRecord x t cols vals tx s = (Inl (Lock_Conflict m), s\<lparr>locks := l\<rparr>) \<and>
    lo_deleteRecords x t w tx s = (Inl (Lock_Conflict m), s\<lparr>locks := l\<rparr>) \<and>
    lo_updateRecords x t as w tx s = (Inl (Lock_Conflict m), s\<lparr>locks := l\<rparr>) \<and>
    holds_lock l = holds_lock (locks s)"
proof -
  obtain m l where l: "lockExclusive tx (table_lock t) (locks s) = (Inl (Lock_Conflict m), l)" "holds_lock l = holds_lock (locks s)"
    using assms(3,4) by (rule lockExclusive_refused)
  have "table_at t (store s) = (Inr ti, store s)" using assms(1) by (simp add: table_at_def)
  with l assms(2) show ?thesis
    by (intro exI [of _ m] exI [of _ l]) (simp add: lo_insertRecord_def lo_deleteRecords_def lo_updateRecords_def bindM_def on_run)
qed

theorem lock_conflict_no_effect_witness:
  "\<exists>s m l. lo_insertRecord ex_externals ''u'' [''id''] [FInt 1] 2 s = (Inl (Lock_Conflict m), s\<lparr>locks := l\<rparr>) \<and>
     holds_lock l ''table:u'' 1"
proof -
  let ?l = "[''table:u'' \<mapsto> \<lparr>xHolder = 1, sHolders = []\<rparr>]"
  obtain ti d where e: "lo_table {4, 3} ''u'' ti (ex_lo d ?l)" by (rule ex_lo_table)
  have h: "holds_lock (locks (ex_lo d ?l)) (table_lock ''u'') 1" by (simp add: ex_lo_def table_lock_def lock_defs)
  have t: "tables (store (ex_lo d ?l)) ''u'' = Some ti" using e by (simp add: lo_table_def tab_inv_def)
  have s: "getTableSchema ex_externals (lcatalog (ex_lo d ?l)) ''u'' = Inr ex_schema" by (simp add: ex_externals_def)
  obtain m l where r: "lo_insertRecord ex_externals ''u'' [''id''] [FInt 1] 2 (ex_lo d ?l) = (Inl (Lock_Conflict m), (ex_lo d ?l)\<lparr>locks := l\<rparr>)"
    "holds_lock l = holds_lock (locks (ex_lo d ?l))"
    using lock_conflict_no_effect [OF t s h, where tx = 2 and cols = "[''id'']" and vals = "[FInt 1]" and w = None and as = "[]"] by auto
  have "holds_lock l ''table:u'' 1" using h by (simp add: r(2) table_lock_def)
  with r(1) show ?thesis by blast
qed

text \<open>
  An UPDATE changes the row with key 0 and no other, whatever its WHERE clause says: if the table has
  such a row it gets the assigned values, and otherwise nothing changes, although the statement succeeds.
\<close>

theorem update_hits_key_zero:
  assumes "lo_table F t ti s" "tx \<noteq> 0" "\<forall>u. holds_lock (locks s) (table_lock t) u \<longrightarrow> u = tx"
    "\<forall>d. search_index x (tindex ti) 0 d = find_key (tindex ti) 0 d"
    "\<forall>v. lo_rows F ti s 0 = Some v \<longrightarrow> assign_values x (getTableSchema x (lcatalog s) t) v as v = Inr (f v) \<and>
      keyed_row ti (f v) \<and> table_key ti (f v) = 0"
  shows "\<exists>u. lo_updateRecords x t as w tx s = (Inr (), u) \<and>
    lo_rows F ti u = (case lo_rows F ti s 0 of None \<Rightarrow> lo_rows F ti s | Some v \<Rightarrow> (lo_rows F ti s)(0 \<mapsto> map stored_value (f v)))"
proof -
  obtain u where "lo_updateRecords x t as w tx s = (Inr (), u)" "lo_table F t ti u"
    "lo_rows F ti u = (case lo_rows F ti s 0 of None \<Rightarrow> lo_rows F ti s | Some v \<Rightarrow> (lo_rows F ti s)(0 \<mapsto> map stored_value (f v)))"
    using assms by (rule lo_update_ok)
  then show ?thesis by blast
qed

theorem update_hits_key_zero_witness:
  "\<exists>F ti s u. lo_rows F ti s = [7 \<mapsto> [FInt 7, FStr ''abc'']] \<and>
     lo_updateRecords ex_externals ''u'' [(''name'', Str_Literal ''xyz'')]
       (Some (Binary_Op ''='' (Column_Ref ''id'') (Int_Literal 7))) 1 s = (Inr (), u) \<and>
     lo_rows F ti u = [7 \<mapsto> [FInt 7, FStr ''abc'']]"
proof -
  obtain ti s where s: "lo_table {4, 3} ''u'' ti s" "lo_rows {4, 3} ti s = [7 \<mapsto> [FInt 7, FStr ''abc'']]"
    "\<forall>q u. holds_lock (locks s) q u \<longrightarrow> u = 1" by (rule ex_lo_row)
  have free: "\<forall>u. holds_lock (locks s) (table_lock ''u'') u \<longrightarrow> u = 1" using s(3) by blast
  have idx: "\<forall>d. search_index ex_externals (tindex ti) 0 d = find_key (tindex ti) 0 d" by (simp add: ex_externals_def)
  obtain u where "lo_updateRecords ex_externals ''u'' [(''name'', Str_Literal ''xyz'')]
       (Some (Binary_Op ''='' (Column_Ref ''id'') (Int_Literal 7))) 1 s = (Inr (), u)"
    "lo_rows {4, 3} ti u = (case lo_rows {4, 3} ti s 0 of None \<Rightarrow> lo_rows {4, 3} ti s | Some v \<Rightarrow> (lo_rows {4, 3} ti s)(0 \<mapsto> map stored_value v))"
    using update_hits_key_zero [OF s(1) _ free idx, where f = "\<lambda>v. v" and w = "Some (Binary_Op ''='' (Column_Ref ''id'') (Int_Literal 7))"
      and as = "[(''name'', Str_Literal ''xyz'')]"] s(2) by auto
  with s(2) show ?thesis by (intro exI [of _ "{4, 3}"] exI [of _ ti] exI [of _ s] exI [of _ u]) simp
qed

end
