(* ===== verification/Sessions.thy ===== *)
theory Sessions
  imports LockedEngine Stats
begin

section \<open>Sessions on the engine with transactions\<close>

text \<open>
  \<open>queryEngine/lockOptimized/QueryEngine\<close>: statements with transaction control over the engine with locks
  and log. The arguments are those of the other query engine, the missing members (\<open>externals\<close>) and the
  microseconds that the clock shows for a query.
\<close>

subsection \<open>The operations\<close>

definition iequals_prefix :: "string \<Rightarrow> string \<Rightarrow> bool" where
  "iequals_prefix s p \<longleftrightarrow> length p \<le> length s \<and> map toupper (take (length p) s) = p"

text \<open>The constructor recovers before it returns, over a catalog file, the bytes of the log and an empty pool.\<close>

definition new_Session :: "fm_state \<Rightarrow> (nat \<Rightarrow> byte list) \<Rightarrow> string option \<Rightarrow> string \<Rightarrow> lo_state res" where
  "new_Session fm garbage file bytes = (case load file Map.empty of
     (Inl e, _) \<Rightarrow> Inl e
   | (Inr _, cat) \<Rightarrow>
      (case recover (redoInsert, redoDelete, redoUpdate)
           (new_WAL bytes, engine_init (bm_init (fm\<lparr>files := Map.empty, nextFileId := 1\<rparr>) 128 garbage)) of
         (Inl e, _) \<Rightarrow> Inl e
       | (Inr _, (w, d)) \<Rightarrow> Inr \<lparr>store = d, lcatalog = cat, locks = Map.empty, wal = w, txs = tm_init, currentTxId = 0\<rparr>))"

text \<open>What the operators and the statistics use as the storage: a scan locks the table for the transaction given.\<close>

definition session_rows :: "externals \<Rightarrow> lo_state row_ops" where
  "session_rows x = (\<lambda>t. bindM (getsM currentTxId) (\<lambda>c. lo_scanTable t (scanTx x c)), lo_getRecord)"

definition run_analyze :: "externals \<Rightarrow> string \<Rightarrow> (lo_state, row list) io" where
  "run_analyze x sql =
     (let rest = trim (drop 7 sql);
          rest = (if iequals_prefix rest ''TABLE'' then trim (drop 5 rest) else rest)
      in if rest = [] then throwM (Runtime_Error ''ANALYZE requires a table name'')
         else bindM (getsM lcatalog) (\<lambda>cat.
              bindM (analyzeTable (session_rows x) (getTableSchema x cat) rest) (\<lambda>_. retM [])))"

definition run_begin :: "(lo_state, row list) io" where
  "run_begin = bindM (getsM currentTxId) (\<lambda>c.
     if c \<noteq> 0 then throwM (Runtime_Error ''Nested transactions not supported'')
     else bindM (on_txs beginTransaction) (\<lambda>tx. bindM (modifyM (\<lambda>s. s\<lparr>currentTxId := tx\<rparr>)) (\<lambda>_. retM [])))"

definition run_commit :: "(lo_state, row list) io" where
  "run_commit = bindM (getsM currentTxId) (\<lambda>c.
     if c = 0 then throwM (Runtime_Error ''No active TX to commit'')
     else
       bindM (on_wal (logCommit c)) (\<lambda>_.
       bindM (on_wal wal_flush) (\<lambda>_.
       bindM (on_txs (commitTransaction c)) (\<lambda>_.
       bindM (on_locks (releaseTransactionLocks c)) (\<lambda>_.
       bindM (on_store incTransactionsCommitted) (\<lambda>_.
       bindM (modifyM (\<lambda>s. s\<lparr>currentTxId := 0\<rparr>)) (\<lambda>_. retM [])))))))"

definition run_rollback :: "(lo_state, row list) io" where
  "run_rollback = bindM (getsM currentTxId) (\<lambda>c.
     if c = 0 then throwM (Runtime_Error ''No active TX to rollback'')
     else
       bindM (on_wal (logAbort c)) (\<lambda>_.
       bindM (on_wal wal_flush) (\<lambda>_.
       bindM (on_txs (abortTransaction c)) (\<lambda>_.
       bindM (on_locks (releaseTransactionLocks c)) (\<lambda>_.
       bindM (on_store incTransactionsAborted) (\<lambda>_.
       bindM (modifyM (\<lambda>s. s\<lparr>currentTxId := 0\<rparr>)) (\<lambda>_. retM [])))))))"

definition in_transaction :: "(int \<Rightarrow> (lo_state, 'a) io) \<Rightarrow> (lo_state, row list) io" where
  "in_transaction f = bindM (getsM currentTxId) (\<lambda>c.
     if c = 0 then throwM (Runtime_Error ''DML must be inside a transaction'')
     else bindM (f c) (\<lambda>_. retM []))"

definition run_select :: "((string \<rightharpoonup> int) \<Rightarrow> string list) \<Rightarrow> externals \<Rightarrow> registry \<Rightarrow> nat \<Rightarrow> 64 word \<Rightarrow> AST \<Rightarrow>
    (lo_state, row list) io" where
  "run_select order x reg n us ast =
     bindM (liftM (buildLogicalPlan ast)) (\<lambda>lplan.
     bindM (getsM lcatalog) (\<lambda>cat.
     bindM (liftM (generate order cat (optimize x (rewritePlan lplan)))) (\<lambda>prow.
     bindM (liftM (child_op prow)) (\<lambda>root.
     bindM (execute (session_rows x) reg n root) (\<lambda>rows.
     bindM (on_store incQueryCount) (\<lambda>_.
     bindM (on_store (recordQueryLatencyUs us)) (\<lambda>_. retM rows)))))))"

definition run_bound :: "((string \<rightharpoonup> int) \<Rightarrow> string list) \<Rightarrow> externals \<Rightarrow> registry \<Rightarrow> nat \<Rightarrow> 64 word \<Rightarrow> AST \<Rightarrow>
    (lo_state, row list) io" where
  "run_bound order x reg n us ast = (case ast of
     Insert ins \<Rightarrow> in_transaction (\<lambda>c. bindM (liftM (insertValues x (ins_values ins)))
       (\<lambda>vals. lo_insertRecord x (ins_table ins) (ins_columns ins) vals c))
   | Update up \<Rightarrow> in_transaction (lo_updateRecords x (upd_table up) (assignments up) (upd_where up))
   | Delete del \<Rightarrow> in_transaction (lo_deleteRecords x (del_table del) (del_where del))
   | Select sel \<Rightarrow> run_select order x reg n us ast
   | _ \<Rightarrow> retM [])"

definition run_query :: "((string \<rightharpoonup> int) \<Rightarrow> string list) \<Rightarrow> externals \<Rightarrow> registry \<Rightarrow> nat \<Rightarrow> 64 word \<Rightarrow> string \<Rightarrow>
    (lo_state, row list) io" where
  "run_query order x reg n us rawSql =
     (let sql = trim rawSql in
      if iequals_prefix sql ''ANALYZE'' then run_analyze x sql
      else if iequals_prefix sql ''BEGIN'' then run_begin
      else if iequals_prefix sql ''COMMIT'' then run_commit
      else if iequals_prefix sql ''ROLLBACK'' then run_rollback
      else
        bindM (liftM (parse sql)) (\<lambda>ast.
        bindM (getsM lcatalog) (\<lambda>cat.
        bindM (liftM (bind_statement cat reg ast)) (run_bound order x reg n us))))"

subsection \<open>What a query keeps\<close>

lemma keeps_Pair [keeps_intro]: "keeps P (Pair r)"
  by (simp add: keeps_def)

lemma ops_keep:
  shows "\<forall>t. keeps P (fst ops t) \<Longrightarrow> \<forall>t rid. keeps P (snd ops t rid) \<Longrightarrow> keeps P (op_open ops reg n q)"
    and "\<forall>t. keeps P (fst ops t) \<Longrightarrow> \<forall>t rid. keeps P (snd ops t rid) \<Longrightarrow> keeps P (op_next ops reg n q)"
  by (induction ops reg n q and ops reg n q rule: op_open_op_next.induct)
    (auto intro!: keeps_intro split: option.split prod.split)

lemma execute_keeps:
  assumes "\<And>t. keeps P (fst ops t)" "\<And>t rid. keeps P (snd ops t rid)"
  shows "keeps P (execute ops reg n q)"
proof -
  note k = ops_keep [where P = P and ops = ops]
  have "keeps P (pull_rows ops reg n q)" for n q
    by (induction n arbitrary: q) (auto intro!: keeps_intro k assms split: option.split prod.split)
  then show ?thesis
    unfolding execute_def by (auto intro!: keeps_intro k assms split: prod.split)
qed

lemma count_rows_keeps:
  "\<forall>t rid. keeps P (snd ops t rid) \<Longrightarrow> keeps P (count_rows ops t cs rids m)"
  by (induction rids arbitrary: m) (auto intro!: keeps_intro)

lemma analyze_keeps:
  assumes "\<And>t. keeps P (fst ops t)" "\<And>t rid. keeps P (snd ops t rid)"
  shows "keeps P (analyzeTable ops schemaOf t)"
  unfolding analyzeTable_def by (intro keeps_intro assms count_rows_keeps allI)

text \<open>Within a query the current transaction is known.\<close>

lemma keeps_gets: "(\<And>s. P s \<Longrightarrow> keeps P (f (g s))) \<Longrightarrow> keeps P (bindM (getsM g) f)"
  by (auto simp: keeps_def)

lemma keeps_each: "(\<And>c. keeps (\<lambda>s. P s \<and> f s = c) m) \<Longrightarrow> keeps P m"
  by (auto simp: keeps_def)

lemma statements_keep:
  assumes st: "stable X (range (scanTx x)) P" and c: "\<And>s. P s \<Longrightarrow> currentTxId s \<in> X"
  shows "keeps P (run_analyze x sql)" "keeps P (run_bound order x reg n us ast)"
proof -
  have fst: "keeps P (fst (session_rows x) t)" for t
    unfolding session_rows_def fst_conv by (intro keeps_intro storage_keeps(6) [OF st] rangeI)
  have snd: "keeps P (snd (session_rows x) t rid)" for t rid
    unfolding session_rows_def snd_conv by (rule storage_keeps(2) [OF st])
  show "keeps P (run_analyze x sql)"
    unfolding run_analyze_def Let_def by (intro keeps_intro analyze_keeps fst snd)
  have sel: "keeps P (run_select order x reg n us ast)" for ast
    unfolding run_select_def by (intro keeps_intro execute_keeps fst snd stable_lifts(1) [OF st])
  have dml: "keeps P (in_transaction f)" if "\<And>tx. tx \<in> X \<Longrightarrow> keeps P (f tx)" for f :: "int \<Rightarrow> (lo_state, 'a) io"
    unfolding in_transaction_def by (intro keeps_gets keeps_intro that c)
  show "keeps P (run_bound order x reg n us ast)"
    unfolding run_bound_def
    by (cases ast) (auto intro!: sel dml keeps_intro storage_keeps(3-5) [OF st])
qed

lemma query_keeps:
  assumes "\<And>c. stable {c} (range (scanTx x)) (\<lambda>s. P s \<and> currentTxId s = c)"
    and "keeps P run_begin" "keeps P run_commit" "keeps P run_rollback"
  shows "keeps P (run_query order x reg n us sql)"
proof -
  have k: "keeps P (run_analyze x l)" "keeps P (run_bound order x reg n us ast)" for l ast
    by (rule keeps_each [where f = currentTxId], rule statements_keep [OF assms(1)], auto)+
  show ?thesis
    unfolding run_query_def Let_def by (intro keeps_intro assms(2-4) k)
qed

subsection \<open>Histories\<close>

text \<open>Every history of queries and registrations, the throwing ones included.\<close>

inductive session :: "((string \<rightharpoonup> int) \<Rightarrow> string list) \<Rightarrow> externals \<Rightarrow> registry \<Rightarrow> lo_state \<Rightarrow> lo_state \<Rightarrow> bool"
  for order x reg where
  session_start: "session order x reg s s"
| session_query: "session order x reg s t \<Longrightarrow> session order x reg s (snd (run_query order x reg n us sql t))"
| session_table: "session order x reg s t \<Longrightarrow> session order x reg s (snd (lo_registerTable x name schema df xf pk t))"

lemma session_keeps:
  assumes "session order x reg s t" "P s" "\<And>n us sql. keeps P (run_query order x reg n us sql)"
    "\<And>name schema df xf pk. keeps P (lo_registerTable x name schema df xf pk)"
  shows "P t"
  using assms(1,2) by (induction rule: session.induct) (use assms(3,4) in \<open>auto simp: keeps_def\<close>)

text \<open>\<open>wal_dead\<close>: the log is empty and its stream has failed.\<close>

definition wal_dead :: "wal_state \<Rightarrow> bool" where
  "wal_dead w \<longleftrightarrow> wal_failed w \<and> wal_file w = []"

lemma dead_writes [simp]: "wal_dead w \<Longrightarrow> wal_write l w = (Inr (), w)" "wal_dead w \<Longrightarrow> wal_flush w = (Inr (), w)"
  by (simp_all add: wal_dead_def wal_write_def wal_flush_def)

lemma dead_stable: "stable X S (\<lambda>s. wal_dead (wal s) \<and> currentTxId s = c)"
  by (simp add: stable_def)

text \<open>
  \<open>session_ok\<close>: the current transaction is active and the only active one, exclusive locks are its own, and
  shared locks belong to transactions that scans are made for.
\<close>

definition session_ok :: "externals \<Rightarrow> lo_state \<Rightarrow> bool" where
  "session_ok x s \<longleftrightarrow> tm_ok (txs s) \<and>
     (currentTxId s \<noteq> 0 \<longrightarrow> txTable (txs s) (currentTxId s) = Some ACTIVE) \<and>
     (\<forall>tx. txTable (txs s) tx = Some ACTIVE \<longrightarrow> tx = currentTxId s) \<and>
     (\<forall>r tx. holdsX (locks s) r tx \<longrightarrow> tx = currentTxId s) \<and>
     (\<forall>r tx. holdsS (locks s) r tx \<longrightarrow> tx \<in> range (scanTx x))"

lemma lock_changes:
  "holdsX (snd (lockExclusive tx r t)) q u \<Longrightarrow> holdsX t q u \<or> u = tx"
  "holdsS (snd (lockExclusive tx r t)) q u \<Longrightarrow> holdsS t q u"
  "holdsX (snd (lockShared tx r t)) q u \<Longrightarrow> holdsX t q u"
  "holdsS (snd (lockShared tx r t)) q u \<Longrightarrow> holdsS t q u \<or> u = tx"
  "holdsX (snd (releaseTransactionLocks tx t)) q u \<Longrightarrow> holdsX t q u \<and> u \<noteq> tx"
  "holdsS (snd (releaseTransactionLocks tx t)) q u \<Longrightarrow> holdsS t q u"
  by (auto simp: lockExclusive_def lockShared_def releaseTransactionLocks_def release_info_def Let_def holdsX_def
      holdsS_def lock_info_def new_lock_info_def split: if_splits list.splits option.splits)

lemma session_locks:
  assumes "session_ok x s" "\<forall>q u. holdsX l q u \<longrightarrow> holdsX (locks s) q u \<or> u = currentTxId s"
    "\<forall>q u. holdsS l q u \<longrightarrow> holdsS (locks s) q u \<or> u \<in> range (scanTx x)"
  shows "session_ok x (s\<lparr>locks := l\<rparr>)"
  using assms unfolding session_ok_def by simp blast

lemma session_fields:
  "session_ok x (s\<lparr>store := d\<rparr>) = session_ok x s" "session_ok x (s\<lparr>lcatalog := c\<rparr>) = session_ok x s"
  "session_ok x (s\<lparr>wal := w\<rparr>) = session_ok x s"
  by (simp_all add: session_ok_def)

lemma session_lock_steps:
  assumes "session_ok x s"
  shows "session_ok x (s\<lparr>locks := snd (lockExclusive (currentTxId s) r (locks s))\<rparr>)"
    "session_ok x (s\<lparr>locks := snd (lockShared (scanTx x tx) r (locks s))\<rparr>)"
  by (rule session_locks [OF assms]; auto dest: lock_changes)+

lemma session_stable: "stable {c} (range (scanTx x)) (\<lambda>s. session_ok x s \<and> currentTxId s = c)"
  by (auto simp: stable_def session_fields session_lock_steps)

subsection \<open>Transaction control\<close>

lemma begin_run:
  "run_begin s = (if currentTxId s \<noteq> 0 then (Inl (Runtime_Error ''Nested transactions not supported''), s)
     else (Inr [], s\<lparr>txs := \<lparr>nextTxId = nextTxId (txs s) + 1, txTable = (txTable (txs s))(nextTxId (txs s) \<mapsto> ACTIVE)\<rparr>,
       currentTxId := nextTxId (txs s)\<rparr>))"
  by (simp add: run_begin_def bindM_def on_run beginTransaction_def)

text \<open>What ends the active transaction: its line in the log, its state, its locks, a counter.\<close>

definition end_transaction :: "LogRecord \<Rightarrow> TxState \<Rightarrow> (engine_state \<Rightarrow> engine_state) \<Rightarrow> lo_state \<Rightarrow> lo_state" where
  "end_transaction r st count s = s\<lparr>wal := snd (wal_flush (snd (log_record r (wal s)))),
     txs := (txs s)\<lparr>txTable := (txTable (txs s))(currentTxId s \<mapsto> st)\<rparr>,
     locks := snd (releaseTransactionLocks (currentTxId s) (locks s)), store := count (store s), currentTxId := 0\<rparr>"

lemma commit_run:
  assumes "currentTxId s \<noteq> 0" "txTable (txs s) (currentTxId s) = Some ACTIVE"
  shows "run_commit s = (Inr [], end_transaction (control_record L_COMMIT (currentTxId s)) COMMITTED (\<lambda>d. snd (incTransactionsCommitted d)) s)"
    "run_rollback s = (Inr [], end_transaction (control_record L_ABORT (currentTxId s)) ABORTED (\<lambda>d. snd (incTransactionsAborted d)) s)"
  using assms
  by (simp_all add: run_commit_def run_rollback_def bindM_def on_run end_transaction_def log_record_def control_record_def
      commitTransaction_def abortTransaction_def logCommit_def logAbort_def wal_flush_def releaseTransactionLocks_def
      incTransactionsCommitted_def incTransactionsAborted_def)

lemma no_transaction:
  "currentTxId s = 0 \<Longrightarrow> run_commit s = (Inl (Runtime_Error ''No active TX to commit''), s)"
  "currentTxId s = 0 \<Longrightarrow> run_rollback s = (Inl (Runtime_Error ''No active TX to rollback''), s)"
  by (simp_all add: run_commit_def run_rollback_def)

lemma begin_ok:
  assumes "session_ok x s" "currentTxId s = 0"
  shows "session_ok x (s\<lparr>txs := \<lparr>nextTxId = nextTxId (txs s) + 1, txTable = (txTable (txs s))(nextTxId (txs s) \<mapsto> ACTIVE)\<rparr>,
    currentTxId := nextTxId (txs s)\<rparr>)"
proof -
  have t: "tm_ok (txs s)" using assms(1) by (simp add: session_ok_def)
  have "tm_ok \<lparr>nextTxId = nextTxId (txs s) + 1, txTable = (txTable (txs s))(nextTxId (txs s) \<mapsto> ACTIVE)\<rparr>"
    using t by (auto simp: tm_ok_def)
  moreover have "0 \<notin> dom (txTable (txs s))" using t by (simp add: tm_ok_def)
  ultimately show ?thesis using assms by (auto simp: session_ok_def holdsX_def domIff)
qed

lemma end_fields:
  "txs (end_transaction r st f s) = (txs s)\<lparr>txTable := (txTable (txs s))(currentTxId s \<mapsto> st)\<rparr>"
  "locks (end_transaction r st f s) = snd (releaseTransactionLocks (currentTxId s) (locks s))"
  "currentTxId (end_transaction r st f s) = 0" "store (end_transaction r st f s) = f (store s)"
  "wal (end_transaction r st f s) = snd (wal_flush (snd (log_record r (wal s))))" "lcatalog (end_transaction r st f s) = lcatalog s"
  by (simp_all add: end_transaction_def)

lemma end_ok:
  assumes ok: "session_ok x s" and c: "currentTxId s \<noteq> 0" "st \<noteq> ACTIVE"
  shows "session_ok x (end_transaction r st f s)"
proof -
  let ?m = "txs s" and ?c = "currentTxId s"
  let ?l = "snd (releaseTransactionLocks ?c (locks s))"
  have s: "tm_ok ?m" "txTable ?m ?c = Some ACTIVE" "\<And>tx. txTable ?m tx = Some ACTIVE \<Longrightarrow> tx = ?c"
    "\<And>q u. holdsX (locks s) q u \<Longrightarrow> u = ?c" "\<And>q u. holdsS (locks s) q u \<Longrightarrow> u \<in> range (scanTx x)"
    using ok c(1) unfolding session_ok_def by blast+
  have "?c \<in> dom (txTable ?m)" using s(2) by blast
  then have "tm_ok (?m\<lparr>txTable := (txTable ?m)(?c \<mapsto> st)\<rparr>)"
    using s(1) by (simp add: tm_ok_def insert_absorb)
  moreover have "\<forall>tx. ((txTable ?m)(?c \<mapsto> st)) tx \<noteq> Some ACTIVE" using s(3) c(2) by auto
  moreover have "\<forall>q u. \<not> holdsX ?l q u" using s(4) lock_changes(5) by blast
  moreover have "\<forall>q u. holdsS ?l q u \<longrightarrow> u \<in> range (scanTx x)" using s(5) lock_changes(6) by blast
  ultimately show ?thesis
    unfolding session_ok_def end_fields by simp
qed

lemma session_query_keeps: "keeps (session_ok x) (run_query order x reg n us sql)"
proof (rule query_keeps [OF session_stable])
  show "keeps (session_ok x) run_begin" by (auto simp: keeps_def begin_run begin_ok)
  have e: "txTable (txs s) (currentTxId s) = Some ACTIVE" if "session_ok x s" "currentTxId s \<noteq> 0" for s
    using that by (simp add: session_ok_def)
  show "keeps (session_ok x) run_commit" "keeps (session_ok x) run_rollback"
    unfolding keeps_def by (metis commit_run no_transaction e end_ok snd_conv TxState.distinct(1,3))+
qed

lemma session_table_keeps: "keeps (session_ok x) (lo_registerTable x name schema df xf pk)"
  by (rule keeps_each [where f = currentTxId], rule storage_keeps(1) [OF session_stable])

lemma dead_control: "keeps (\<lambda>s. wal_dead (wal s)) run_begin" "keeps (\<lambda>s. wal_dead (wal s)) run_commit"
  "keeps (\<lambda>s. wal_dead (wal s)) run_rollback"
proof -
  have k: "keeps (\<lambda>s. wal_dead (wal s)) (on_txs m)" "keeps (\<lambda>s. wal_dead (wal s)) (on_locks l)"
    "keeps (\<lambda>s. wal_dead (wal s)) (on_store d)" "keeps (\<lambda>s. wal_dead (wal s)) (on_wal (wal_write t))"
    "keeps (\<lambda>s. wal_dead (wal s)) (on_wal wal_flush)" "keeps (\<lambda>s. wal_dead (wal s)) (modifyM (\<lambda>s. s\<lparr>currentTxId := c\<rparr>))"
    for m :: "(tx_manager, 'a) io" and l :: "(lock_table, 'b) io" and d :: "(engine_state, 'c) io" and t c
    by (simp_all add: keeps_def on_run)
  show "keeps (\<lambda>s. wal_dead (wal s)) run_begin" "keeps (\<lambda>s. wal_dead (wal s)) run_commit"
    "keeps (\<lambda>s. wal_dead (wal s)) run_rollback"
    unfolding run_begin_def run_commit_def run_rollback_def log_writes by (intro keeps_intro k)+
qed

lemma dead_keeps:
  "keeps (\<lambda>s. wal_dead (wal s)) (run_query order x reg n us sql)"
  "keeps (\<lambda>s. wal_dead (wal s)) (lo_registerTable x name schema df xf pk)"
  by (rule query_keeps [OF dead_stable dead_control])
    (rule keeps_each [where f = currentTxId], rule storage_keeps(1) [OF dead_stable])

subsection \<open>Starting\<close>

lemma new_SessionD:
  assumes "new_Session fm garbage file bytes = Inr s"
  shows "wal_dead (wal s)" "session_ok x s"
proof -
  obtain cat r w d where s: "recover (redoInsert, redoDelete, redoUpdate)
       (new_WAL bytes, engine_init (bm_init (fm\<lparr>files := Map.empty, nextFileId := 1\<rparr>) 128 garbage)) = (Inr r, (w, d))"
    "s = \<lparr>store = d, lcatalog = cat, locks = Map.empty, wal = w, txs = tm_init, currentTxId = 0\<rparr>"
    using assms by (auto simp: new_Session_def split: prod.splits sum.splits)
  show "wal_dead (wal s)"
    using s by (auto simp: recover_def wal_dead_def split: sum.splits prod.splits)
  show "session_ok x s" by (simp add: s(2) session_ok_def tm_ok_init lock_defs) (simp add: tm_init_def)
qed

text \<open>On an engine without tables the redo operations throw.\<close>

lemma redo_fails:
  assumes "tables d = Map.empty" "is_data r"
  shows "\<exists>e. redo_record (redoInsert, redoDelete, redoUpdate) r d = (Inl e, d)"
    "\<exists>e. undo_record (redoInsert, redoDelete, redoUpdate) r d = (Inl e, d)"
  using assms by (cases "lop r"; auto simp: redo_record_def undo_record_def is_data_def redoInsert_def redoDelete_def
      redoUpdate_def table_at_def bindM_def)+

lemma redo_control: "\<not> is_data r \<Longrightarrow> redo_record ops r d = (Inr (), d)" "\<not> is_data r \<Longrightarrow> undo_record ops r d = (Inr (), d)"
  by (cases ops; cases "lop r"; auto simp: redo_record_def undo_record_def is_data_def)+

lemma records_fail:
  assumes "\<And>r. is_data r \<Longrightarrow> \<exists>e. f r d = (Inl e, d)" "\<And>r. \<not> is_data r \<Longrightarrow> f r d = (Inr (), d)"
  shows "if list_ex is_data rs then \<exists>e. run_records f rs d = (Inl e, d) else run_records f rs d = (Inr (), d)"
proof (induction rs)
  case (Cons r rs)
  show ?case
  proof (cases "is_data r")
    case True
    with assms(1) [OF True] show ?thesis by auto
  next
    case False
    with assms(2) [OF False] Cons show ?thesis by (auto split: if_splits)
  qed
qed simp

lemma replay_unregistered:
  assumes "tables d = Map.empty"
  shows "(\<exists>d'. replay (redoInsert, redoDelete, redoUpdate) rs d = (Inr (), d')) \<longleftrightarrow>
    (\<forall>r \<in> set rs. is_data r \<longrightarrow> ltxId r \<in> aborted_txs rs - committed_txs rs)"
proof -
  let ?ops = "(redoInsert, redoDelete, redoUpdate)"
  let ?C = "filter (\<lambda>r. ltxId r \<in> committed_txs rs) rs"
  let ?U = "filter (\<lambda>r. \<not> (ltxId r \<in> committed_txs rs \<or> ltxId r \<in> aborted_txs rs)) (rev rs)"
  have c: "if list_ex is_data ?C then \<exists>e. run_records (redo_record ?ops) ?C d = (Inl e, d) else run_records (redo_record ?ops) ?C d = (Inr (), d)"
    by (rule records_fail) (erule redo_fails(1) [OF assms], erule redo_control(1))
  have u: "if list_ex is_data ?U then \<exists>e. run_records (undo_record ?ops) ?U d = (Inl e, d) else run_records (undo_record ?ops) ?U d = (Inr (), d)"
    by (rule records_fail) (erule redo_fails(2) [OF assms], erule redo_control(2))
  have "(\<exists>d'. replay ?ops rs d = (Inr (), d')) \<longleftrightarrow> \<not> list_ex is_data ?C \<and> \<not> list_ex is_data ?U"
    using c u by (auto simp: replay_def Let_def bindM_def split: if_splits)
  then show ?thesis by (auto simp: list_ex_iff)
qed

lemma session_okD:
  assumes "session_ok x t"
  shows "txTable (txs t) tx = Some ACTIVE \<longleftrightarrow> tx = currentTxId t \<and> currentTxId t \<noteq> 0"
    "holdsX (locks t) r tx \<Longrightarrow> tx = currentTxId t \<and> currentTxId t \<noteq> 0"
    "holdsS (locks t) r tx \<Longrightarrow> tx \<in> range (scanTx x)" "dom (txTable (txs t)) = {1..<nextTxId (txs t)}"
proof -
  have t: "tm_ok (txs t)" "currentTxId t \<noteq> 0 \<Longrightarrow> txTable (txs t) (currentTxId t) = Some ACTIVE"
    "\<And>tx. txTable (txs t) tx = Some ACTIVE \<Longrightarrow> tx = currentTxId t" "\<And>r tx. holdsX (locks t) r tx \<Longrightarrow> tx = currentTxId t"
    "\<And>r tx. holdsS (locks t) r tx \<Longrightarrow> tx \<in> range (scanTx x)"
    using assms unfolding session_ok_def by blast+
  have "0 \<notin> dom (txTable (txs t))" using t(1) by (simp add: tm_ok_def)
  then show "txTable (txs t) tx = Some ACTIVE \<longleftrightarrow> tx = currentTxId t \<and> currentTxId t \<noteq> 0"
    using t(2,3) by (metis domI)
  show "holdsX (locks t) r tx \<Longrightarrow> tx = currentTxId t \<and> currentTxId t \<noteq> 0"
    using t(4) by (auto simp: holdsX_def)
  show "holdsS (locks t) r tx \<Longrightarrow> tx \<in> range (scanTx x)" "dom (txTable (txs t)) = {1..<nextTxId (txs t)}"
    using t(1,5) by (auto simp: tm_ok_def)
qed

subsection \<open>Properties\<close>

text \<open>
  C13: In every state that an engine reaches by queries and registrations, failing ones included, the
  current transaction is the one active transaction, every exclusive lock is its own, and outside a
  transaction nothing is locked exclusively; a shared lock belongs to a transaction that a scan was for.
\<close>

theorem session_invariant:
  assumes "new_Session fm garbage file bytes = Inr s" "session order x reg s t"
  shows "(\<forall>tx. txTable (txs t) tx = Some ACTIVE \<longleftrightarrow> tx = currentTxId t \<and> currentTxId t \<noteq> 0) \<and>
    (\<forall>r tx. holdsX (locks t) r tx \<longrightarrow> tx = currentTxId t \<and> currentTxId t \<noteq> 0) \<and>
    (\<forall>r tx. holdsS (locks t) r tx \<longrightarrow> tx \<in> range (scanTx x)) \<and> dom (txTable (txs t)) = {1..<nextTxId (txs t)}"
proof -
  have "session_ok x t"
    using assms(2) new_SessionD(2) [OF assms(1)] session_query_keeps session_table_keeps by (rule session_keeps)
  from session_okD [OF this] show ?thesis by blast
qed

definition ex_session :: lo_state where
  "ex_session = \<lparr>store = engine_init (bm_init (ex_fm\<lparr>files := Map.empty, nextFileId := 1\<rparr>) 128 (\<lambda>_. zero_page)), lcatalog = Map.empty,
     locks = Map.empty, wal = \<lparr>wal_file = [], wal_buffer = [], wal_failed = True\<rparr>, txs = tm_init, currentTxId = 0\<rparr>"

lemma ex_session_new: "new_Session ex_fm (\<lambda>_. zero_page) None [] = Inr ex_session"
  by (simp add: new_Session_def load_def recover_def new_WAL_def read_log_def replay_def ex_session_def)

lemma ex_begin:
  "run_query order x reg n us ''BEGIN'' ex_session = (Inr [], ex_session\<lparr>txs := \<lparr>nextTxId = 2, txTable = [1 \<mapsto> ACTIVE]\<rparr>, currentTxId := 1\<rparr>)"
proof -
  have "trim ''BEGIN'' = ''BEGIN''" "\<not> iequals_prefix ''BEGIN'' ''ANALYZE''" "iequals_prefix ''BEGIN'' ''BEGIN''" by code_simp+
  then show ?thesis by (simp add: run_query_def begin_run ex_session_def tm_init_def)
qed

theorem session_invariant_witness:
  "\<exists>t. session (\<lambda>_. []) ex_externals Map.empty ex_session t \<and> txTable (txs t) 1 = Some ACTIVE \<and> currentTxId t = 1"
proof -
  let ?t = "snd (run_query (\<lambda>_. []) ex_externals Map.empty 0 0 ''BEGIN'' ex_session)"
  have r: "session (\<lambda>_. []) ex_externals Map.empty ex_session ?t" by (intro session_query session_start)
  have "txTable (txs ?t) 1 = Some ACTIVE" by (simp add: ex_begin)
  moreover from this have "currentTxId ?t = 1" using session_invariant [OF ex_session_new r] by simp
  ultimately show ?thesis using r by blast
qed

text \<open>
  The engine never logs: the recovery of the constructor leaves the log empty and its stream failed, so
  that after any history of queries, committed transactions included, the log file is still empty.
\<close>

theorem session_log_stays_empty:
  assumes "new_Session fm garbage file bytes = Inr s" "session order x reg s t"
  shows "wal_file (wal t) = [] \<and> (\<forall>l. snd (wal_flush (snd (wal_write l (wal t)))) = wal t)"
proof -
  have "wal_dead (wal t)"
    using assms(2) new_SessionD(1) [OF assms(1)] dead_keeps by (rule session_keeps)
  then show ?thesis by (auto simp: wal_dead_def wal_write_def wal_flush_def)
qed

theorem session_log_stays_empty_witness:
  "\<exists>t. session (\<lambda>_. []) ex_externals Map.empty ex_session t \<and> txTable (txs t) 1 = Some COMMITTED \<and> wal_file (wal t) = []"
proof -
  let ?b = "snd (run_query (\<lambda>_. []) ex_externals Map.empty 0 0 ''BEGIN'' ex_session)"
  let ?t = "snd (run_query (\<lambda>_. []) ex_externals Map.empty 0 0 ''COMMIT'' ?b)"
  have r: "session (\<lambda>_. []) ex_externals Map.empty ex_session ?t" by (intro session_query session_start)
  have "trim ''COMMIT'' = ''COMMIT''" "\<not> iequals_prefix ''COMMIT'' ''ANALYZE''" "\<not> iequals_prefix ''COMMIT'' ''BEGIN''"
    "iequals_prefix ''COMMIT'' ''COMMIT''" by code_simp+
  then have "run_query (\<lambda>_. []) ex_externals Map.empty 0 0 ''COMMIT'' s = run_commit s" for s by (simp add: run_query_def)
  then have "txTable (txs ?t) 1 = Some COMMITTED" by (simp add: ex_begin commit_run end_fields)
  with r session_log_stays_empty [OF ex_session_new r] show ?thesis by blast
qed

text \<open>
  The engine starts exactly on logs that have nothing to recover: recovery runs before any table can be
  registered, so one record of a transaction that committed or did not finish makes the constructor throw.
\<close>

theorem restart_needs_empty_log:
  assumes "list_all record_ok rs" "fst (load file Map.empty) = Inr ()"
  shows "(\<exists>s. new_Session fm garbage file (log_text rs) = Inr s) \<longleftrightarrow>
    (\<forall>r \<in> set rs. is_data r \<longrightarrow> ltxId r \<in> aborted_txs rs - committed_txs rs)"
proof -
  define d where "d = engine_init (bm_init (fm\<lparr>files := Map.empty, nextFileId := 1\<rparr>) 128 garbage)"
  have "tables d = Map.empty" by (simp add: d_def engine_init_fields)
  note k = replay_unregistered [OF this, of rs]
  have "read_log (wal_file (new_WAL (log_text rs))) = Inr rs" using read_log_text [OF assms(1)] by (simp add: new_WAL_def)
  then have "(\<exists>s. new_Session fm garbage file (log_text rs) = Inr s) \<longleftrightarrow> (\<exists>d'. replay (redoInsert, redoDelete, redoUpdate) rs d = (Inr (), d'))"
    using assms(2) by (auto simp: new_Session_def recover_def d_def [symmetric] split: prod.split sum.split)
  with k show ?thesis by simp
qed

theorem restart_needs_empty_log_witness:
  "(\<nexists>s. new_Session ex_fm (\<lambda>_. zero_page) None (log_text ex_log) = Inr s) \<and>
   (\<exists>s. new_Session ex_fm (\<lambda>_. zero_page) None (log_text ex_aborted) = Inr s)"
proof -
  have a: "list_all record_ok ex_log" "list_all record_ok ex_aborted"
    by (simp_all add: ex_log_def ex_aborted_def record_ok_def control_record_def int64_def plain_def newline_def rid_ok_def)
  have l: "fst (load None Map.empty) = Inr ()" by (simp add: load_def)
  show ?thesis
    unfolding restart_needs_empty_log [OF a(1) l] restart_needs_empty_log [OF a(2) l]
    by (simp add: ex_log_def ex_aborted_def is_data_def control_record_def committed_txs_def aborted_txs_def)
qed

end
