(* ===== verification/Transactions.thy ===== *)
theory Transactions
  imports Sessions
begin

section \<open>Transactions from BEGIN to their end\<close>

text \<open>
  What a transaction of insertions and deletions on one table does, from the texts of its statements: the
  table as a map from keys to rows, the lines in the log, the locks and the state of the transaction. A
  change is a key with its new row or with none.
\<close>

type_synonym change = "int32 \<times> FieldValue list option"

fun run_queries :: "((string \<rightharpoonup> int) \<Rightarrow> string list) \<Rightarrow> externals \<Rightarrow> registry \<Rightarrow> nat \<Rightarrow> 64 word \<Rightarrow> string list \<Rightarrow>
    (lo_state, row list list) io" where
  "run_queries order x reg n us [] = retM []"
| "run_queries order x reg n us (q # qs) =
     bindM (run_query order x reg n us q) (\<lambda>r. bindM (run_queries order x reg n us qs) (\<lambda>rs. retM (r # rs)))"

definition row_change :: "TableInfo \<Rightarrow> FieldValue list res \<Rightarrow> change option" where
  "row_change ti r = (case r of
     Inl e \<Rightarrow> None
   | Inr fv \<Rightarrow> if keyed_row ti fv \<and> map stored_value fv = fv then Some (table_key ti fv, Some fv) else None)"

fun change_of :: "externals \<Rightarrow> TableInfo \<Rightarrow> string \<Rightarrow> Schema \<Rightarrow> AST \<Rightarrow> change option" where
  "change_of x ti t sch (Insert ins) = (if ins_table ins = t
     then row_change ti (bindE (insertValues x (ins_values ins)) (build_row x sch (ins_columns ins))) else None)"
| "change_of x ti t sch (Delete del) = (if del_table del = t
     then (case right_int (del_where del) of Inl e \<Rightarrow> None | Inr k \<Rightarrow> Some (k, None)) else None)"
| "change_of x ti t sch _ = None"

text \<open>The texts that are neither ANALYZE nor transaction control.\<close>

definition plain_statement :: "string \<Rightarrow> bool" where
  "plain_statement q \<longleftrightarrow> \<not> iequals_prefix (trim q) ''ANALYZE'' \<and> \<not> iequals_prefix (trim q) ''BEGIN'' \<and>
     \<not> iequals_prefix (trim q) ''COMMIT'' \<and> \<not> iequals_prefix (trim q) ''ROLLBACK''"

definition makes_change :: "externals \<Rightarrow> registry \<Rightarrow> catalog \<Rightarrow> TableInfo \<Rightarrow> string \<Rightarrow> Schema \<Rightarrow> string \<Rightarrow> change \<Rightarrow> bool" where
  "makes_change x reg cat ti t sch q c \<longleftrightarrow> plain_statement q \<and>
     (case bindE (parse (trim q)) (bind_statement cat reg) of Inl e \<Rightarrow> False | Inr ast \<Rightarrow> change_of x ti t sch ast = Some c)"

definition apply_change :: "change \<Rightarrow> (int32 \<rightharpoonup> FieldValue list) \<Rightarrow> (int32 \<rightharpoonup> FieldValue list)" where
  "apply_change c m = m(fst c := snd c)"

text \<open>What the log says of a change: the row that came, or the row that went.\<close>

definition change_entry :: "(int32 \<rightharpoonup> FieldValue list) \<Rightarrow> change \<Rightarrow> (LogOp \<times> FieldValue list \<times> FieldValue list) list" where
  "change_entry m c = (case snd c of
     Some fv \<Rightarrow> [(L_INSERT, [], fv)]
   | None \<Rightarrow> (case m (fst c) of None \<Rightarrow> [] | Some v \<Rightarrow> [(L_DELETE, v, [])]))"

fun change_entries :: "(int32 \<rightharpoonup> FieldValue list) \<Rightarrow> change list \<Rightarrow> (LogOp \<times> FieldValue list \<times> FieldValue list) list" where
  "change_entries m [] = []"
| "change_entries m (c # cs) = change_entry m c @ change_entries (apply_change c m) cs"

text \<open>Changes that insert no key that has a row.\<close>

fun fresh_changes :: "(int32 \<rightharpoonup> FieldValue list) \<Rightarrow> change list \<Rightarrow> bool" where
  "fresh_changes m [] \<longleftrightarrow> True"
| "fresh_changes m (c # cs) \<longleftrightarrow> (snd c = None \<or> m (fst c) = None) \<and> fresh_changes (apply_change c m) cs"

definition log_entry :: "LogRecord \<Rightarrow> LogOp \<times> FieldValue list \<times> FieldValue list" where
  "log_entry r = (lop r, loldValues r, lnewValues r)"

subsection \<open>One statement\<close>

lemma wal_write_append: "snd (wal_write b (snd (wal_write a w))) = snd (wal_write (a @ b) w)"
  by (simp add: wal_write_def)

lemma log_text_append: "log_text (rs @ qs) = log_text rs @ log_text qs"
  by (simp add: log_text_def)

text \<open>
  \<open>inside\<close>: the state during transaction \<open>tx\<close> that began in \<open>s\<close>: the table's rows are \<open>m\<close>, the log has the
  records \<open>rs\<close> more, and locks have been taken for \<open>tx\<close> only.
\<close>

definition inside :: "int set \<Rightarrow> string \<Rightarrow> TableInfo \<Rightarrow> int \<Rightarrow> lo_state \<Rightarrow> (int32 \<rightharpoonup> FieldValue list) \<Rightarrow> LogRecord list \<Rightarrow> nat \<Rightarrow> lo_state \<Rightarrow> bool" where
  "inside F t ti tx s m rs n u \<longleftrightarrow> lo_table F t ti u \<and> lo_room F ti n u \<and> lo_rows F ti u = m \<and> currentTxId u = tx \<and>
     lcatalog u = lcatalog s \<and> txs u = txs s \<and> wal u = snd (wal_write (log_text rs) (wal s)) \<and>
     (\<forall>q v. holds_lock (locks u) q v \<longrightarrow> holds_lock (locks s) q v \<or> v = tx)"

lemma inside_step:
  assumes "inside F t ti tx s m rs n u" "locked_step tx t l u v" "lo_table F t ti v" "lo_room F ti n' v" "lo_rows F ti v = m'"
    "l = log_text qs"
  shows "inside F t ti tx s m' (rs @ qs) n' v"
  using assms by (auto simp: inside_def locked_step_def wal_write_append log_text_append)

lemma statement_run:
  assumes "plain_statement q" "bindE (parse (trim q)) (bind_statement (lcatalog s) reg) = Inr ast"
  shows "run_query order x reg n us q s = run_bound order x reg n us ast s"
  using assms by (auto simp: run_query_def plain_statement_def Let_def bindE_eq_Inr)

lemma change_step:
  assumes ins: "inside F t ti tx s m rs (Suc k) u" and free: "tx \<noteq> 0" "\<forall>v. \<not> holds_lock (locks s) (table_lock t) v"
    and idx: "\<forall>k d. search_index x (tindex ti) k d = find_key (tindex ti) k d"
    and sch: "getTableSchema x (lcatalog s) t = Inr sch" and q: "makes_change x reg (lcatalog s) ti t sch q c"
  obtains qs v where "\<forall>n. run_query order x reg n us q u = (Inr [], v)" "inside F t ti tx s (apply_change c m) (rs @ qs) k v"
    "map log_entry qs = change_entry m c" "\<forall>r \<in> set qs. ltxId r = tx \<and> ltable r = t"
    "snd c = None \<or> m (fst c) = None \<longrightarrow> all_keyed F ti (store u) \<longrightarrow> all_keyed F ti (store v)"
proof -
  have u: "lo_table F t ti u" "lo_room F ti (Suc k) u" "lo_rows F ti u = m" "currentTxId u = tx" "lcatalog u = lcatalog s"
    using ins by (simp_all add: inside_def)
  have fr: "\<forall>v. holds_lock (locks u) (table_lock t) v \<longrightarrow> v = tx" using ins free(2) by (auto simp: inside_def)
  have k: "lo_room F ti k u" using u(2) by (simp add: lo_room_def)
  obtain ast where ast: "bindE (parse (trim q)) (bind_statement (lcatalog u) reg) = Inr ast" "change_of x ti t sch ast = Some c"
    using q u(5) by (auto simp: makes_change_def split: sum.splits)
  have run: "run_query order x reg n us q u = run_bound order x reg n us ast u" for n
    using q ast(1) by (intro statement_run) (simp_all add: makes_change_def)
  show thesis
  proof (cases ast)
    case (Insert ins)
    obtain vals fv where fv: "insertValues x (ins_values ins) = Inr vals" "build_row x sch (ins_columns ins) vals = Inr fv"
      "ins_table ins = t" "keyed_row ti fv" "map stored_value fv = fv" "c = (table_key ti fv, Some fv)"
      using ast(2) by (auto simp: Insert row_change_def bindE_def split: if_splits sum.splits)
    have s: "getTableSchema x (lcatalog u) t = Inr sch" using sch u(5) by simp
    obtain rid v where v: "lo_insertRecord x t (ins_columns ins) vals tx u = (Inr rid, v)" "lo_table F t ti v" "lo_room F ti k v"
      "lo_rows F ti v = (lo_rows F ti u)(table_key ti fv \<mapsto> map stored_value fv)"
      "locked_step tx t (insert_line tx t rid fv @ [newline]) u v"
      "all_keyed F ti (store u) \<longrightarrow> lo_rows F ti u (table_key ti fv) = None \<longrightarrow> all_keyed F ti (store v)"
      using u(1,2) free(1) fr s fv(2,4) by (rule lo_insert_ok)
    let ?r = "\<lparr>lop = L_INSERT, ltxId = tx, ltable = t, lrid = rid, loldValues = [], lnewValues = fv\<rparr>"
    have "run_bound order x reg n us ast u = (Inr [], v)" for n
      using v(1) u(4) free(1) fv(1,3) by (simp add: run_bound_def Insert in_transaction_def bindM_def)
    moreover have "inside F t ti tx s (apply_change c m) (rs @ [?r]) k v"
      using ins v(5,2,3) by (rule inside_step)
        (use v(4) u(3) fv(5,6) in \<open>simp_all add: apply_change_def log_text_def record_line_def\<close>)
    ultimately show thesis
      using run fv(6) v(6) u(3) by (intro that [of v "[?r]"]) (simp_all add: log_entry_def change_entry_def)
  next
    case (Delete del)
    obtain key where key: "right_int (del_where del) = Inr key" "del_table del = t" "c = (key, None)"
      using ast(2) by (auto simp: Delete split: if_splits sum.splits)
    have ix: "\<forall>d. search_index x (tindex ti) key d = find_key (tindex ti) key d" using idx by blast
    obtain rid v where v: "lo_deleteRecords x t (del_where del) tx u = (Inr (), v)" "lo_table F t ti v"
      "lo_room F ti k u \<longrightarrow> lo_room F ti k v" "lo_rows F ti v = (lo_rows F ti u)(key := None)"
      "locked_step tx t (case lo_rows F ti u key of None \<Rightarrow> [] | Some w \<Rightarrow> delete_line tx t rid w @ [newline]) u v"
      "all_keyed F ti (store u) \<longrightarrow> all_keyed F ti (store v)"
      using u(1) free(1) fr key(1) ix by (rule lo_delete_ok)
    let ?qs = "case m key of None \<Rightarrow> [] | Some w \<Rightarrow>
      [\<lparr>lop = L_DELETE, ltxId = tx, ltable = t, lrid = rid, loldValues = w, lnewValues = []\<rparr>]"
    have "run_bound order x reg n us ast u = (Inr [], v)" for n
      using v(1) u(4) free(1) key(2) by (simp add: run_bound_def Delete in_transaction_def bindM_def)
    moreover have "inside F t ti tx s (apply_change c m) (rs @ ?qs) k v"
      using ins v(5,2) v(3) [rule_format, OF k] by (rule inside_step)
        (use v(4) u(3) key(3) in \<open>auto simp: apply_change_def log_text_def record_line_def split: option.split\<close>)
    ultimately show thesis
      using run key(3) v(6) by (intro that [of v ?qs]) (auto simp: log_entry_def change_entry_def split: option.splits)
  qed (use ast(2) in auto)
qed

lemma changes_run:
  assumes free: "tx \<noteq> 0" "\<forall>v. \<not> holds_lock (locks s) (table_lock t) v"
    and idx: "\<forall>k d. search_index x (tindex ti) k d = find_key (tindex ti) k d"
    and sch: "getTableSchema x (lcatalog s) t = Inr sch"
  shows "list_all2 (makes_change x reg (lcatalog s) ti t sch) qs cs \<Longrightarrow> inside F t ti tx s m rs (length qs) u \<Longrightarrow>
    \<exists>ls v. (\<forall>n. run_queries order x reg n us qs u = (Inr (replicate (length qs) []), v)) \<and>
      inside F t ti tx s (fold apply_change cs m) (rs @ ls) 0 v \<and> map log_entry ls = change_entries m cs \<and>
      (\<forall>r \<in> set ls. ltxId r = tx \<and> ltable r = t) \<and>
      (fresh_changes m cs \<longrightarrow> all_keyed F ti (store u) \<longrightarrow> all_keyed F ti (store v))"
proof (induction arbitrary: m rs u rule: list_all2_induct)
  case Nil
  then show ?case by (intro exI [of _ "[]"]) simp
next
  case (Cons q qs c cs)
  have i: "inside F t ti tx s m rs (Suc (length qs)) u" using Cons.prems by simp
  obtain l v where v: "\<forall>n. run_query order x reg n us q u = (Inr [], v)" "inside F t ti tx s (apply_change c m) (rs @ l) (length qs) v"
    "map log_entry l = change_entry m c" "\<forall>r \<in> set l. ltxId r = tx \<and> ltable r = t"
    "snd c = None \<or> m (fst c) = None \<longrightarrow> all_keyed F ti (store u) \<longrightarrow> all_keyed F ti (store v)"
    by (rule change_step [OF i free idx sch Cons.hyps(1)])
  obtain ls w where "\<forall>n. run_queries order x reg n us qs v = (Inr (replicate (length qs) []), w)"
    "inside F t ti tx s (fold apply_change cs (apply_change c m)) ((rs @ l) @ ls) 0 w"
    "map log_entry ls = change_entries (apply_change c m) cs" "\<forall>r \<in> set ls. ltxId r = tx \<and> ltable r = t"
    "fresh_changes (apply_change c m) cs \<longrightarrow> all_keyed F ti (store v) \<longrightarrow> all_keyed F ti (store w)"
    using Cons.IH [OF v(2)] by blast
  with v show ?case by (intro exI [of _ "l @ ls"] exI [of _ w]) auto
qed

subsection \<open>A whole transaction\<close>

lemma control_run:
  "run_query order x reg n us ''BEGIN'' s = run_begin s" "run_query order x reg n us ''COMMIT'' s = run_commit s"
  "run_query order x reg n us ''ROLLBACK'' s = run_rollback s"
proof -
  have "trim ''BEGIN'' = ''BEGIN''" "\<not> iequals_prefix ''BEGIN'' ''ANALYZE''" "iequals_prefix ''BEGIN'' ''BEGIN''"
    "trim ''COMMIT'' = ''COMMIT''" "\<not> iequals_prefix ''COMMIT'' ''ANALYZE''" "\<not> iequals_prefix ''COMMIT'' ''BEGIN''"
    "iequals_prefix ''COMMIT'' ''COMMIT''" "trim ''ROLLBACK'' = ''ROLLBACK''" "\<not> iequals_prefix ''ROLLBACK'' ''ANALYZE''"
    "\<not> iequals_prefix ''ROLLBACK'' ''BEGIN''" "\<not> iequals_prefix ''ROLLBACK'' ''COMMIT''" "iequals_prefix ''ROLLBACK'' ''ROLLBACK''"
    by code_simp+
  then show "run_query order x reg n us ''BEGIN'' s = run_begin s" "run_query order x reg n us ''COMMIT'' s = run_commit s"
    "run_query order x reg n us ''ROLLBACK'' s = run_rollback s"
    by (simp_all add: run_query_def)
qed

lemma run_queries_snoc:
  "run_queries order x reg n us ps s = (Inr rs, u) \<Longrightarrow> run_query order x reg n us q u = (Inr r, v) \<Longrightarrow>
     run_queries order x reg n us (ps @ [q]) s = (Inr (rs @ [r]), v)"
proof (induction ps arbitrary: s rs)
  case (Cons p ps)
  then obtain r1 s1 rs1 where "run_query order x reg n us p s = (Inr r1, s1)" "run_queries order x reg n us ps s1 = (Inr rs1, u)" "rs = r1 # rs1"
    by (auto simp: bindM_eq_Inr)
  with Cons.IH [OF _ Cons.prems(2)] show ?case by simp
qed simp

text \<open>
  \<open>can_change\<close>: outside a transaction, with nobody's lock on the table and room in it, over members that are
  missing in the sources and do what their names say.
\<close>

definition can_change :: "int set \<Rightarrow> string \<Rightarrow> TableInfo \<Rightarrow> externals \<Rightarrow> registry \<Rightarrow> Schema \<Rightarrow> string list \<Rightarrow> change list \<Rightarrow> lo_state \<Rightarrow> bool" where
  "can_change F t ti x reg sch qs cs s \<longleftrightarrow> lo_table F t ti s \<and> lo_room F ti (length qs) s \<and> currentTxId s = 0 \<and>
     0 < nextTxId (txs s) \<and> (\<forall>v. \<not> holds_lock (locks s) (table_lock t) v) \<and>
     (\<forall>k d. search_index x (tindex ti) k d = find_key (tindex ti) k d) \<and> getTableSchema x (lcatalog s) t = Inr sch \<and>
     list_all2 (makes_change x reg (lcatalog s) ti t sch) qs cs"

text \<open>The counters of transactions are no part of a table.\<close>

lemma same_table:
  assumes "bm_idle F d' = bm_idle F d" "bm_pages F d' = bm_pages F d" "tables d' = tables d"
  shows "tab_inv F t ti d' = tab_inv F t ti d" "keyed_sound F ti d' = keyed_sound F ti d" "keyed_map F ti d' = keyed_map F ti d"
    "all_keyed F ti d' = all_keyed F ti d"
  using assms
  by (simp_all add: all_keyed_def tab_inv_def table_inv_def heap_inv_def tree_inv_def tree_leaf_def keyed_sound_def keyed_map_def tree_map_def heap_rows_def)

lemma counter_fields:
  "fcount (d\<lparr>txCommitted := n\<rparr>) = fcount d" "fcount (d\<lparr>txAborted := n\<rparr>) = fcount d"
  "fpage (d\<lparr>txCommitted := n\<rparr>) = fpage d" "fpage (d\<lparr>txAborted := n\<rparr>) = fpage d"
  "view (d\<lparr>txCommitted := n\<rparr>) = view d" "view (d\<lparr>txAborted := n\<rparr>) = view d"
  "pins (d\<lparr>txCommitted := n\<rparr>) = pins d" "pins (d\<lparr>txAborted := n\<rparr>) = pins d"
  "files_ok F (d\<lparr>txCommitted := n\<rparr>) = files_ok F d" "files_ok F (d\<lparr>txAborted := n\<rparr>) = files_ok F d"
  for d :: "'a bm_state_scheme"
  by (simp_all add: fun_eq_iff fcount_def fpage_def view_def pins_def files_ok_def file_ok_def file_path_def contents_def inj_on_def
      split: option.split)

lemma count_tables:
  "bm_idle F (d\<lparr>txCommitted := n\<rparr>) = bm_idle F d" "bm_idle F (d\<lparr>txAborted := n\<rparr>) = bm_idle F d"
  "bm_pages F (d\<lparr>txCommitted := n\<rparr>) = bm_pages F d" "bm_pages F (d\<lparr>txAborted := n\<rparr>) = bm_pages F d"
  by (simp_all add: bm_idle_def bm_inv_def pool_ok_def cached_ok_def pinned_pages_def bm_pages_def fun_eq_iff counter_fields del: upt_Suc)

lemma wal_end: "snd (log_record r (snd (wal_write (log_text rs) w))) = snd (wal_write (log_text (rs @ [r])) w)"
  by (simp add: log_record_write wal_write_append log_text_append) (simp add: log_text_def)

text \<open>The state \<open>u\<close> after a transaction with the changes \<open>cs\<close> that began in \<open>s\<close> and ended in \<open>st\<close>.\<close>

definition ended :: "int set \<Rightarrow> string \<Rightarrow> TableInfo \<Rightarrow> LogOp \<Rightarrow> TxState \<Rightarrow> change list \<Rightarrow> lo_state \<Rightarrow> LogRecord list \<Rightarrow> lo_state \<Rightarrow> bool" where
  "ended F t ti op st cs s rs u \<longleftrightarrow> lo_table F t ti u \<and> lo_rows F ti u = fold apply_change cs (lo_rows F ti s) \<and>
    wal u = snd (wal_flush (snd (wal_write (log_text (rs @ [control_record op (nextTxId (txs s))])) (wal s)))) \<and>
    map log_entry rs = change_entries (lo_rows F ti s) cs \<and> (\<forall>r \<in> set rs. ltxId r = nextTxId (txs s) \<and> ltable r = t) \<and>
    currentTxId u = 0 \<and> txTable (txs u) = (txTable (txs s))(nextTxId (txs s) \<mapsto> st) \<and>
    (\<forall>r v. holds_lock (locks u) r v \<longrightarrow> holds_lock (locks s) r v \<and> v \<noteq> nextTxId (txs s)) \<and> lcatalog u = lcatalog s \<and>
    (fresh_changes (lo_rows F ti s) cs \<longrightarrow> all_keyed F ti (store s) \<longrightarrow> all_keyed F ti (store u))"

lemma transaction_run:
  assumes can: "can_change F t ti x reg sch qs cs s"
    and final: "\<And>u n. currentTxId u = nextTxId (txs s) \<Longrightarrow> txTable (txs u) (nextTxId (txs s)) = Some ACTIVE \<Longrightarrow>
      run_query order x reg n us q u = (Inr [], end_transaction (control_record op (nextTxId (txs s))) st f u)"
    and f: "\<And>d. bm_idle F (f d) = bm_idle F d \<and> bm_pages F (f d) = bm_pages F d \<and> tables (f d) = tables d"
  shows "\<exists>rs u. (\<forall>n. run_queries order x reg n us (''BEGIN'' # qs @ [q]) s = (Inr (replicate (length qs + 2) []), u)) \<and>
    ended F t ti op st cs s rs u"
proof -
  let ?tx = "nextTxId (txs s)"
  let ?b = "s\<lparr>txs := \<lparr>nextTxId = ?tx + 1, txTable = (txTable (txs s))(?tx \<mapsto> ACTIVE)\<rparr>, currentTxId := ?tx\<rparr>"
  have c: "lo_table F t ti s" "lo_room F ti (length qs) s" "currentTxId s = 0" "?tx \<noteq> 0" "\<forall>v. \<not> holds_lock (locks s) (table_lock t) v"
    "\<forall>k d. search_index x (tindex ti) k d = find_key (tindex ti) k d" "getTableSchema x (lcatalog s) t = Inr sch"
    "list_all2 (makes_change x reg (lcatalog s) ti t sch) qs cs"
    using can by (auto simp: can_change_def)
  have b: "run_query order x reg n us ''BEGIN'' s = (Inr [], ?b)" for n using c(3) by (simp add: control_run begin_run)
  have i: "inside F t ti ?tx ?b (lo_rows F ti s) [] (length qs) ?b"
    using c(1,2) by (simp add: inside_def lo_table_def lo_rows_def lo_room_def log_text_def)
  obtain rs v where v: "\<forall>n. run_queries order x reg n us qs ?b = (Inr (replicate (length qs) []), v)"
    "inside F t ti ?tx ?b (fold apply_change cs (lo_rows F ti s)) ([] @ rs) 0 v" "map log_entry rs = change_entries (lo_rows F ti s) cs"
    "\<forall>r \<in> set rs. ltxId r = ?tx \<and> ltable r = t"
    "fresh_changes (lo_rows F ti s) cs \<longrightarrow> all_keyed F ti (store s) \<longrightarrow> all_keyed F ti (store v)"
    using changes_run [OF c(4) _ c(6) _ _ i, where sch = sch and reg = reg and cs = cs and order = order and us = us] c(5,7,8) by auto
  have w: "currentTxId v = ?tx" "txs v = txs ?b" "wal v = snd (wal_write (log_text rs) (wal s))" "lo_table F t ti v"
    "lo_rows F ti v = fold apply_change cs (lo_rows F ti s)" "\<forall>r u. holds_lock (locks v) r u \<longrightarrow> holds_lock (locks s) r u \<or> u = ?tx"
    "lcatalog v = lcatalog s"
    using v(2) by (simp_all add: inside_def)
  define u where "u = end_transaction (control_record op ?tx) st f v"
  have "txTable (txs v) ?tx = Some ACTIVE" by (simp add: w(2))
  then have q: "run_query order x reg n us q v = (Inr [], u)" for n unfolding u_def by (rule final [OF w(1)])
  have "run_queries order x reg n us (''BEGIN'' # qs) s = (Inr ([] # replicate (length qs) []), v)" for n
    using b v(1) by simp
  from run_queries_snoc [OF this q]
  have run: "run_queries order x reg n us (''BEGIN'' # qs @ [q]) s = (Inr (replicate (length qs + 2) []), u)" for n
    by (simp add: replicate_append_same)
  have "lo_table F t ti u" "lo_rows F ti u = fold apply_change cs (lo_rows F ti s)"
    using w(4,5) f [of "store v"] same_table [of F "f (store v)" "store v"] by (simp_all add: lo_table_def lo_rows_def u_def end_fields)
  moreover have "wal u = snd (wal_flush (snd (wal_write (log_text (rs @ [control_record op ?tx])) (wal s))))"
    by (simp add: u_def end_fields w(3) wal_end)
  moreover have "currentTxId u = 0" "txTable (txs u) = (txTable (txs s))(?tx \<mapsto> st)"
    by (simp_all add: u_def end_fields w(1,2))
  moreover have "\<forall>r y. holds_lock (locks u) r y \<longrightarrow> holds_lock (locks s) r y \<and> y \<noteq> ?tx"
    using w(6) lock_holders(3) unfolding u_def end_fields w(1) by blast
  moreover have "lcatalog u = lcatalog s" by (simp add: u_def end_fields w(7))
  moreover have "all_keyed F ti (store u) = all_keyed F ti (store v)"
    using f [of "store v"] same_table(4) [of F "f (store v)" "store v"] by (simp add: u_def end_fields)
  ultimately show ?thesis using run v(3-5) unfolding ended_def by metis
qed

lemma ending_run:
  assumes "can_change F t ti x reg sch qs cs s"
  shows "\<exists>rs u. (\<forall>n. run_queries order x reg n us (''BEGIN'' # qs @ [''COMMIT'']) s = (Inr (replicate (length qs + 2) []), u)) \<and>
      ended F t ti L_COMMIT COMMITTED cs s rs u"
    and "\<exists>rs u. (\<forall>n. run_queries order x reg n us (''BEGIN'' # qs @ [''ROLLBACK'']) s = (Inr (replicate (length qs + 2) []), u)) \<and>
      ended F t ti L_ABORT ABORTED cs s rs u"
proof -
  have tx: "nextTxId (txs s) \<noteq> 0" using assms by (simp add: can_change_def)
  show "\<exists>rs u. (\<forall>n. run_queries order x reg n us (''BEGIN'' # qs @ [''COMMIT'']) s = (Inr (replicate (length qs + 2) []), u)) \<and>
      ended F t ti L_COMMIT COMMITTED cs s rs u"
    by (rule transaction_run [OF assms, where f = "\<lambda>d. snd (incTransactionsCommitted d)"])
      (use tx commit_run(1) in \<open>auto simp: control_run incTransactionsCommitted_def count_tables\<close>)
  show "\<exists>rs u. (\<forall>n. run_queries order x reg n us (''BEGIN'' # qs @ [''ROLLBACK'']) s = (Inr (replicate (length qs + 2) []), u)) \<and>
      ended F t ti L_ABORT ABORTED cs s rs u"
    by (rule transaction_run [OF assms, where f = "\<lambda>d. snd (incTransactionsAborted d)"])
      (use tx commit_run(2) in \<open>auto simp: control_run incTransactionsAborted_def count_tables\<close>)
qed

definition ex_state :: "engine_state \<Rightarrow> lo_state" where
  "ex_state d = (ex_lo d Map.empty)\<lparr>lcatalog := ex_catalog\<rparr>"

abbreviation ex_statements :: "string list" where
  "ex_statements \<equiv> [''INSERT INTO u (id, name) VALUES (7, ''@[CHR 0x27]@''abc''@[CHR 0x27]@'')'', ''INSERT INTO u (id, name) VALUES (8, ''@[CHR 0x27]@''xyz''@[CHR 0x27]@'')'',
     ''DELETE FROM u WHERE id = 7'']"

definition ex_changes :: "change list" where
  "ex_changes = [(7, Some [FInt 7, FStr ''abc'']), (8, Some [FInt 8, FStr ''xyz'']), (7, None)]"

lemma ex_insert_parse:
  "parse (trim (ex_statements ! 0)) = Inr (Insert \<lparr>ins_table = ''u'', ins_columns = [''id'', ''name''], ins_values = [Int_Literal 7, Str_Literal ''abc'']\<rparr>)"
  "parse (trim (ex_statements ! 1)) = Inr (Insert \<lparr>ins_table = ''u'', ins_columns = [''id'', ''name''], ins_values = [Int_Literal 8, Str_Literal ''xyz'']\<rparr>)"
  "parse (trim (ex_statements ! 2)) = Inr (Delete \<lparr>del_table = ''u'', del_where = Some (Binary_Op ''='' (Column_Ref ''id'') (Int_Literal 7))\<rparr>)"
  "list_all plain_statement ex_statements"
  by code_simp+

lemma ex_bind:
  "bind_statement ex_catalog Map.empty (Insert \<lparr>ins_table = ''u'', ins_columns = [''id'', ''name''], ins_values = [Int_Literal i, Str_Literal v]\<rparr>) =
     Inr (Insert \<lparr>ins_table = ''u'', ins_columns = [''id'', ''name''], ins_values = [Int_Literal i, Str_Literal v]\<rparr>)"
  "bind_statement ex_catalog Map.empty (Delete \<lparr>del_table = ''u'', del_where = Some (Binary_Op ''='' (Column_Ref ''id'') (Int_Literal 7))\<rparr>) =
     Inr (Delete \<lparr>del_table = ''u'', del_where = Some (Binary_Op ''='' (Column_Ref ''u.id'') (Int_Literal 7))\<rparr>)"
  by (simp_all add: bind_statement_def bindInsert_def bindDelete_def ex_catalog_def bind_where_def bind_expr_def qualifyColumn_def Let_def
      getColumnInfo_def getTable_def ex_schema_def ex_cols_def qual_name_def before_dot_def after_dot_def comparison_def)

lemma ex_build: "build_row ex_externals ex_schema [''id'', ''name''] [FInt i, FStr v] = Inr [FInt i, FStr v]"
  by (simp add: build_row_def ex_externals_def ex_schema_def ex_cols_def fill_defaults_def numeral_2_eq_2 Let_def numColumns_def)

lemma ex_values: "insertValues ex_externals [Int_Literal i, Str_Literal v] = Inr [FInt i, FStr v]"
  by (simp add: ex_externals_def literal_value_def)

lemma ex_row_change:
  assumes "tschema ti = ex_schema" "tpkCol ti = 0" "length v = 3" "zero_byte \<notin> set v"
  shows "row_change ti (Inr [FInt i, FStr v]) = Some (i, Some [FInt i, FStr v])"
  using assms by (simp add: row_change_def keyed_row_def table_key_def row_ok_def ex_schema_def ex_cols_def takeWhile_eq_all_conv)

lemma ex_can_change_keyed:
  obtains ti d where "can_change {4, 3} ''u'' ti ex_externals Map.empty ex_schema ex_statements ex_changes (ex_state d)"
    "lo_rows {4, 3} ti (ex_state d) = Map.empty" "all_keyed {4, 3} ti (store (ex_state d))" "tschema ti = ex_schema"
proof -
  obtain ti d where e: "lo_table {4, 3} ''u'' ti (ex_lo d Map.empty)" "lo_rows {4, 3} ti (ex_lo d Map.empty) = Map.empty"
    "tschema ti = ex_schema" "tpkCol ti = 0" "lo_room {4, 3} ti 128 (ex_lo d Map.empty)" "all_keyed {4, 3} ti d"
    by (rule ex_lo_keyed)
  have same: "lo_table {4, 3} ''u'' ti (ex_state d)" "lo_rows {4, 3} ti (ex_state d) = Map.empty" "lo_room {4, 3} ti 3 (ex_state d)"
    using e(1,2,5) by (simp_all add: ex_state_def lo_table_def lo_rows_def lo_room_def)
  have z: "zero_byte \<notin> set ''abc''" "zero_byte \<notin> set ''xyz''" by (simp_all add: zero_byte_def)
  have "list_all2 (makes_change ex_externals Map.empty ex_catalog ti ''u'' ex_schema) ex_statements ex_changes"
    using ex_insert_parse ex_row_change [OF e(3,4)] z
    by (simp add: ex_changes_def makes_change_def ex_bind ex_build ex_values right_int_def)
  with same e(3,6) show thesis
    by (intro that [of ti d]) (simp_all add: can_change_def ex_state_def ex_lo_def tm_init_def lock_defs ex_externals_def numeral_3_eq_3)
qed

lemma ex_can_change:
  obtains ti d where "can_change {4, 3} ''u'' ti ex_externals Map.empty ex_schema ex_statements ex_changes (ex_state d)"
    "lo_rows {4, 3} ti (ex_state d) = Map.empty"
  by (rule ex_can_change_keyed) (rule that)

lemma ex_fresh: "fresh_changes Map.empty ex_changes"
  by (simp add: ex_changes_def apply_change_def)

subsection \<open>Properties\<close>



text \<open>
  C30: ROLLBACK undoes nothing: a transaction that ends with ROLLBACK leaves the table's rows exactly as COMMIT
  would, with all its changes, although its state is aborted and the log says so.
\<close>

theorem rollback_keeps_changes:
  assumes "can_change F t ti x reg sch qs cs s"
  shows "\<exists>rs u. run_queries order x reg n us (''BEGIN'' # qs @ [''ROLLBACK'']) s = (Inr (replicate (length qs + 2) []), u) \<and>
    lo_rows F ti u = fold apply_change cs (lo_rows F ti s) \<and>
    wal u = snd (wal_flush (snd (wal_write (log_text (rs @ [control_record L_ABORT (nextTxId (txs s))])) (wal s)))) \<and>
    txTable (txs u) = (txTable (txs s))(nextTxId (txs s) \<mapsto> ABORTED) \<and>
    (\<forall>r v. holds_lock (locks u) r v \<longrightarrow> holds_lock (locks s) r v \<and> v \<noteq> nextTxId (txs s))"
proof -
  obtain rs u where "\<forall>n. run_queries order x reg n us (''BEGIN'' # qs @ [''ROLLBACK'']) s = (Inr (replicate (length qs + 2) []), u)"
    "ended F t ti L_ABORT ABORTED cs s rs u"
    using ending_run(2) [OF assms, of order us] by blast
  then show ?thesis unfolding ended_def by (intro exI [of _ rs] exI [of _ u]) simp
qed

theorem rollback_keeps_changes_witness:
  "\<exists>F ti s u. lo_rows F ti s = Map.empty \<and>
     run_queries (\<lambda>_. []) ex_externals Map.empty 9 0 (''BEGIN'' # ex_statements @ [''ROLLBACK'']) s = (Inr [[], [], [], [], []], u) \<and>
     lo_rows F ti u = [8 \<mapsto> [FInt 8, FStr ''xyz'']] \<and> txTable (txs u) 1 = Some ABORTED"
proof -
  obtain ti d where e: "can_change {4, 3} ''u'' ti ex_externals Map.empty ex_schema ex_statements ex_changes (ex_state d)"
    "lo_rows {4, 3} ti (ex_state d) = Map.empty" by (rule ex_can_change)
  have f: "fold apply_change ex_changes Map.empty = [8 \<mapsto> [FInt 8, FStr ''xyz'']]"
    by (auto simp: ex_changes_def apply_change_def)
  obtain u where "run_queries (\<lambda>_. []) ex_externals Map.empty 9 0 (''BEGIN'' # ex_statements @ [''ROLLBACK'']) (ex_state d) =
      (Inr (replicate (length ex_statements + 2) []), u)"
    "lo_rows {4, 3} ti u = fold apply_change ex_changes (lo_rows {4, 3} ti (ex_state d))"
    "txTable (txs u) = (txTable (txs (ex_state d)))(nextTxId (txs (ex_state d)) \<mapsto> ABORTED)"
    using rollback_keeps_changes [OF e(1), of "\<lambda>_. []" 9 0] by blast
  then show ?thesis
    by (intro exI [of _ "{4, 3}"] exI [of _ ti] exI [of _ "ex_state d"] exI [of _ u])
      (use e(2) f in \<open>simp_all add: numeral_eq_Suc ex_state_def ex_lo_def tm_init_def\<close>)
qed

end
