(* ===== verification/Monitoring.thy ===== *)
theory Monitoring
  imports FileManager Sockets
begin

section \<open>The monitoring server\<close>

text \<open>
  \<open>monitoringServer/\<close>: the text of the metrics, the answer to a client of the monitoring port, and the threads of
  the server. A request is the block that the one \<open>read\<close> returns, empty at the end of the connection or on an
  error; the one \<open>write\<close> is taken to write its whole text. The average latency is a \<open>double\<close> that a stream
  formats: its text, from the total and the count, is an argument. \<open>getMetrics\<close> is a function of its six locals,
  given as a record of the counters; the steps that load them one by one are those of the threads below.
\<close>

definition counter_text :: "64 word \<Rightarrow> string" where
  "counter_text w = to_string (uint w)"

definition getMetrics :: "(64 word \<Rightarrow> 64 word \<Rightarrow> string) \<Rightarrow> 'a metrics_scheme \<Rightarrow> string" where
  "getMetrics avg s =
     (let avgLatMs = (if queryCount s > 0 then avg (totalQueryLatencyUs s) (queryCount s) else ''0'') in
      ''buffer_hits '' @ counter_text (bufferHits s) @ [newline] @
      ''buffer_misses '' @ counter_text (bufferMisses s) @ [newline] @
      ''queries_executed '' @ counter_text (queryCount s) @ [newline] @
      ''avg_query_ms '' @ avgLatMs @ [newline] @
      ''tx_committed '' @ counter_text (txCommitted s) @ [newline] @
      ''tx_aborted '' @ counter_text (txAborted s) @ [newline])"

text \<open>\<open>req.rfind("GET /metrics", 0) == 0\<close>.\<close>

definition metrics_request :: "string \<Rightarrow> bool" where
  "metrics_request req \<longleftrightarrow> take 12 req = ''GET /metrics''"

definition crlf :: string where
  "crlf = [CHR 0x0D, newline]"

definition answer_request :: "(64 word \<Rightarrow> 64 word \<Rightarrow> string) \<Rightarrow> 'a metrics_scheme \<Rightarrow> string \<Rightarrow> string" where
  "answer_request avg s req =
     (if req = [] then []
      else if metrics_request req then
        (let body = getMetrics avg s in
         ''HTTP/1.1 200 OK'' @ crlf @
         ''Content-Type: text/plain'' @ crlf @
         ''Content-Length: '' @ show_nat (length body) @ crlf @
         ''Connection: close'' @ crlf @ crlf @ body)
      else ''HTTP/1.1 404 Not Found'' @ crlf @ ''Connection: close'' @ crlf @ crlf)"

subsection \<open>The server\<close>

definition new_MonitoringServer :: "system_calls \<Rightarrow> int \<Rightarrow> console list \<times> listener option" where
  "new_MonitoringServer sys p =
     (let fd = sys_socket sys in
      if fd < 0 then ([Perror ''metrics socket''], None)
      else if sys_bind sys fd (word_of_int p) < 0 then ([Perror ''metrics bind''], None)
      else if sys_listen sys fd 5 < 0 then ([Perror ''metrics listen''], None)
      else ([Out (''Metrics server listening on port '' @ to_string p @ [newline])], Some \<lparr>port = p, listenFd = fd\<rparr>))"

text \<open>
  The threads of the program: the engine's, which count, the one of \<open>run\<close>, which accepts, and one for every
  accepted client, which stands at one of the stages of \<open>handleClient\<close>. A step is one access to what the threads
  share or one system call: an increment, an \<open>accept\<close>, the \<open>read\<close>, the load of one counter, the \<open>write\<close>, the
  \<open>close\<close>. \<open>Loading\<close> has the request and the locals of \<open>getMetrics\<close> that are already loaded.
\<close>

datatype stage = Reading | Loading string "64 word list" | Writing string | Closing | Closed

record connection =
  clientFd :: int
  stage :: stage
  written :: string

record monitor =
  counters :: metrics
  connections :: "connection list"

definition new_connection :: "int \<Rightarrow> connection" where
  "new_connection fd = \<lparr>clientFd = fd, stage = Reading, written = []\<rparr>"

text \<open>The loads of \<open>getMetrics\<close> in their order, and the locals they fill.\<close>

definition load_order :: "(metrics \<Rightarrow> 64 word) list" where
  "load_order = [bufferHits, bufferMisses, queryCount, totalQueryLatencyUs, txCommitted, txAborted]"

definition locals_of :: "64 word list \<Rightarrow> metrics" where
  "locals_of vs = \<lparr>bufferHits = vs ! 0, bufferMisses = vs ! 1, queryCount = vs ! 2, totalQueryLatencyUs = vs ! 3,
     txCommitted = vs ! 4, txAborted = vs ! 5\<rparr>"

text \<open>
  One step of a client's thread with the counters of that moment; a \<open>read\<close> gets a block from outside. The text of
  the answer is composed of the thread's own locals, behind its last load.
\<close>

fun thread_step :: "(64 word \<Rightarrow> 64 word \<Rightarrow> string) \<Rightarrow> metrics \<Rightarrow> string option \<Rightarrow> connection \<Rightarrow> connection option" where
  "thread_step avg m block c = (case (stage c, block) of
       (Reading, Some req) \<Rightarrow> Some (c\<lparr>stage :=
          (if req = [] then Closing
           else if metrics_request req then Loading req []
           else Writing (answer_request avg m req))\<rparr>)
     | (Loading req vs, None) \<Rightarrow>
          (let vs' = vs @ [(load_order ! length vs) m] in
           Some (c\<lparr>stage := (if length vs' < length load_order then Loading req vs'
                               else Writing (answer_request avg (locals_of vs') req))\<rparr>))
     | (Writing resp, None) \<Rightarrow> Some (c\<lparr>written := written c @ resp, stage := Closing\<rparr>)
     | (Closing, None) \<Rightarrow> Some (c\<lparr>stage := Closed\<rparr>)
     | _ \<Rightarrow> None)"

datatype count = Hit | Miss | Query | Latency "64 word" | Committed_Tx | Aborted_Tx

fun count_event :: "count \<Rightarrow> (metrics, unit) io" where
  "count_event Hit = incBufferHit"
| "count_event Miss = incBufferMiss"
| "count_event Query = incQueryCount"
| "count_event (Latency us) = recordQueryLatencyUs us"
| "count_event Committed_Tx = incTransactionsCommitted"
| "count_event Aborted_Tx = incTransactionsAborted"

text \<open>
  \<open>Turn i block\<close> is a step of the thread of the \<open>i\<close>-th accepted client, with the block that its \<open>read\<close> returns where
  it reads; no thread, no such step.
\<close>

datatype monitor_event = Count count | Accept int | Turn nat "string option"

fun monitor_step :: "(64 word \<Rightarrow> 64 word \<Rightarrow> string) \<Rightarrow> monitor_event \<Rightarrow> monitor \<Rightarrow> monitor option" where
  "monitor_step avg (Count e) s = Some (s\<lparr>counters := snd (count_event e (counters s))\<rparr>)"
| "monitor_step avg (Accept fd) s =
     Some (if fd < 0 then s else s\<lparr>connections := connections s @ [new_connection fd]\<rparr>)"
| "monitor_step avg (Turn i block) s =
     (if i < length (connections s)
      then map_option (\<lambda>c. s\<lparr>connections := (connections s)[i := c]\<rparr>) (thread_step avg (counters s) block (connections s ! i))
      else None)"

fun monitor_run :: "(64 word \<Rightarrow> 64 word \<Rightarrow> string) \<Rightarrow> monitor_event list \<Rightarrow> monitor \<Rightarrow> monitor option" where
  "monitor_run avg [] s = Some s"
| "monitor_run avg (ev # evs) s = Option.bind (monitor_step avg ev s) (monitor_run avg evs)"

subsection \<open>A client's part of a run\<close>

text \<open>What the steps of one thread see: the counters, and the block of the read.\<close>

fun turns :: "nat \<Rightarrow> monitor_event list \<Rightarrow> metrics \<Rightarrow> (metrics \<times> string option) list" where
  "turns i [] m = []"
| "turns i (Count e # evs) m = turns i evs (snd (count_event e m))"
| "turns i (Accept fd # evs) m = turns i evs m"
| "turns i (Turn j block # evs) m = (if j = i then [(m, block)] else []) @ turns i evs m"

fun accepted :: "monitor_event list \<Rightarrow> int list" where
  "accepted [] = []"
| "accepted (Accept fd # evs) = (if fd < 0 then [] else [fd]) @ accepted evs"
| "accepted (_ # evs) = accepted evs"

fun thread_run :: "(64 word \<Rightarrow> 64 word \<Rightarrow> string) \<Rightarrow> (metrics \<times> string option) list \<Rightarrow> connection \<Rightarrow> connection option" where
  "thread_run avg [] c = Some c"
| "thread_run avg ((m, block) # os) c = Option.bind (thread_step avg m block c) (thread_run avg os)"

lemma monitor_run_thread:
  "monitor_run avg evs s = Some s' \<Longrightarrow>
     length (connections s') = length (connections s @ map new_connection (accepted evs)) \<and>
     (\<forall>i < length (connections s').
        thread_run avg (turns i evs (counters s)) ((connections s @ map new_connection (accepted evs)) ! i) = Some (connections s' ! i))"
proof (induction avg evs s rule: monitor_run.induct)
  case (2 avg ev evs s)
  then obtain s1 where s1: "monitor_step avg ev s = Some s1" "monitor_run avg evs s1 = Some s'"
    by (auto simp: bind_eq_Some_conv)
  note IH = "2.IH" [OF s1]
  show ?case
  proof (cases ev)
    case (Turn j block)
    with s1(1) obtain c where c: "j < length (connections s)" "thread_step avg (counters s) block (connections s ! j) = Some c"
      "s1 = s\<lparr>connections := (connections s)[j := c]\<rparr>" by (auto split: if_splits)
    have l: "length (connections s') = length (connections s @ map new_connection (accepted evs))" using IH c(3) by simp
    have "thread_run avg (turns i (ev # evs) (counters s)) ((connections s @ map new_connection (accepted evs)) ! i) = Some (connections s' ! i)"
      if "i < length (connections s')" for i
      using IH [THEN conjunct2, rule_format, OF that] c Turn
      by (cases "i < length (connections s)") (auto simp: nth_append nth_list_update simp del: thread_step.simps)
    with l Turn show ?thesis by simp
  qed (use s1(1) IH in \<open>auto split: if_splits\<close>)
qed simp

lemma thread_run_snoc:
  "thread_run avg (os @ [(m, block)]) c = Option.bind (thread_run avg os c) (thread_step avg m block)"
proof (induction avg os c rule: thread_run.induct)
  case (1 avg c)
  show ?case by (cases "thread_step avg m block c") simp_all
next
  case (2 avg m' block' os c)
  then show ?case by (cases "thread_step avg m' block' c") (simp_all del: thread_step.simps)
qed

text \<open>
  The stages of a thread in their order with what it has written, from the block it reads and the counters at its
  later turns.
\<close>

definition loaded :: "metrics list \<Rightarrow> 64 word list" where
  "loaded ms = map (\<lambda>i. (load_order ! i) (ms ! i)) [0..<min 6 (length ms)]"

definition path :: "(64 word \<Rightarrow> 64 word \<Rightarrow> string) \<Rightarrow> string \<Rightarrow> metrics \<Rightarrow> metrics list \<Rightarrow> (stage \<times> string) list" where
  "path avg req m ms =
     (if req = [] then [(Closing, []), (Closed, [])]
      else let w = answer_request avg (if metrics_request req then locals_of (loaded ms) else m) req in
        (if metrics_request req then map (\<lambda>k. (Loading req (loaded (take k ms)), [])) [0..<6] else []) @
        [(Writing w, []), (Closing, w), (Closed, w)])"

text \<open>A thread is always at the stage of its path that the number of its steps gives.\<close>

lemma length_loaded [simp]: "length (loaded ms) = min 6 (length ms)"
  by (simp add: loaded_def)

lemma loaded_more: "6 \<le> length ms \<Longrightarrow> loaded (ms @ ms') = loaded ms"
  by (simp add: loaded_def nth_append)

lemma loaded_snoc: "length ms < 6 \<Longrightarrow> loaded (ms @ [m]) = loaded ms @ [(load_order ! length ms) m]"
proof -
  assume "length ms < 6"
  then have "min 6 (length (ms @ [m])) = Suc (length ms)" "min 6 (length ms) = length ms" by simp_all
  then show ?thesis unfolding loaded_def by (simp add: nth_append)
qed

lemma length_path: "length (path avg req m ms) = (if req = [] then 2 else if metrics_request req then 9 else 3)"
  by (simp add: path_def Let_def)

lemma path_load:
  "req \<noteq> [] \<Longrightarrow> metrics_request req \<Longrightarrow> k < 6 \<Longrightarrow> path avg req m ms ! k = (Loading req (loaded (take k ms)), [])"
  by (simp add: path_def Let_def nth_append)

lemma path_answer:
  assumes "req \<noteq> []" "metrics_request req" "w = answer_request avg (locals_of (loaded ms)) req"
  shows "path avg req m ms ! 6 = (Writing w, [])" "path avg req m ms ! 7 = (Closing, w)" "path avg req m ms ! 8 = (Closed, w)"
  using assms by (simp_all add: path_def Let_def nth_append)

lemma path_step:
  assumes c: "(stage c, written c) = path avg req m0 ms ! length ms" "length ms < length (path avg req m0 ms)"
    and step: "thread_step avg m block c = Some c'"
  shows "length (ms @ [m]) < length (path avg req m0 (ms @ [m])) \<and>
    (stage c', written c') = path avg req m0 (ms @ [m]) ! length (ms @ [m]) \<and> block = None \<and> clientFd c' = clientFd c"
proof (cases "req \<noteq> [] \<and> metrics_request req")
  case True
  then have l: "length ms < 9" using c(2) by (simp add: length_path)
  consider "length ms < 5" | "length ms = 5" | "length ms = 6" | "length ms = 7" | "length ms = 8" using l by linarith
  then show ?thesis
  proof cases
    case 1
    with True c(1) have "stage c = Loading req (loaded ms)" "written c = []" by (simp_all add: path_load)
    with 1 True step show ?thesis
      by (cases block) (auto simp: path_load length_path loaded_snoc load_order_def Let_def)
  next
    case 2
    with True c(1) have "stage c = Loading req (loaded ms)" "written c = []" by (simp_all add: path_load)
    with 2 True step show ?thesis
      by (cases block) (auto simp: path_answer length_path loaded_snoc load_order_def Let_def)
  qed (use True c(1) step in \<open>cases block; simp add: path_answer length_path loaded_more; fastforce\<close>)+
next
  case False
  then have "length ms = 0 \<or> length ms = 1 \<or> length ms = 2 \<and> req \<noteq> []"
    using c(2) by (auto simp: length_path less_Suc_eq numeral_2_eq_2 numeral_3_eq_3 split: if_splits)
  then consider "length ms = 0" | "length ms = 1" | "length ms = 2" "req \<noteq> []" by blast
  then show ?thesis
    by cases (use False c(1) step in \<open>cases block; auto simp: path_def Let_def numeral_2_eq_2 split: if_splits\<close>)+
qed

lemma thread_run_path:
  assumes "thread_run avg ((m, block) # os) (new_connection fd) = Some c"
  shows "\<exists>req. block = Some req \<and> clientFd c = fd \<and> (\<forall>o' \<in> set os. snd o' = None) \<and>
    length os < length (path avg req m (map fst os)) \<and> (stage c, written c) = path avg req m (map fst os) ! length os"
  using assms
proof (induction os arbitrary: c rule: rev_induct)
  case Nil
  then show ?case by (cases block) (auto simp: new_connection_def path_def Let_def loaded_def nth_append)
next
  case (snoc o' os)
  obtain m' block' where o': "o' = (m', block')" by (cases o')
  have "thread_run avg (((m, block) # os) @ [(m', block')]) (new_connection fd) = Some c"
    using snoc.prems by (simp only: o' append_Cons)
  then obtain c1 where c1: "thread_run avg ((m, block) # os) (new_connection fd) = Some c1" "thread_step avg m' block' c1 = Some c"
    unfolding thread_run_snoc bind_eq_Some_conv by blast
  obtain req where "block = Some req" "clientFd c1 = fd" "\<forall>o' \<in> set os. snd o' = None"
    "length os < length (path avg req m (map fst os))" "(stage c1, written c1) = path avg req m (map fst os) ! length os"
    using snoc.IH [OF c1(1)] by blast
  then show ?case using path_step [of c1 avg req m "map fst os" m' block' c] c1(2) o'
    by (simp del: thread_step.simps)
qed

subsection \<open>What a client reads\<close>

definition with_cr :: "string \<Rightarrow> string" where
  "with_cr l = l @ [CHR 0x0D]"

definition metric_lines :: "(64 word \<Rightarrow> 64 word \<Rightarrow> string) \<Rightarrow> 'a metrics_scheme \<Rightarrow> (string \<times> string) list" where
  "metric_lines avg s = [(''buffer_hits'', counter_text (bufferHits s)), (''buffer_misses'', counter_text (bufferMisses s)),
     (''queries_executed'', counter_text (queryCount s)),
     (''avg_query_ms'', if queryCount s = 0 then ''0'' else avg (totalQueryLatencyUs s) (queryCount s)),
     (''tx_committed'', counter_text (txCommitted s)), (''tx_aborted'', counter_text (txAborted s))]"

lemma counter_plain: "newline \<notin> set (counter_text w)"
  by (auto simp: counter_text_def newline_def isdigit_def dest!: to_string_chars)

lemma show_nat_line: "newline \<notin> set (show_nat n)"
  by (auto simp: newline_def isdigit_def dest!: show_nat_digits)

lemma split_lines: "\<forall>l \<in> set ls. newline \<notin> set l \<Longrightarrow> split_at newline (concat (map (\<lambda>l. l @ [newline]) ls)) = ls"
  by (induction ls) (simp_all add: split_at_Cons)

lemma metrics_text:
  "getMetrics avg s = concat (map (\<lambda>l. l @ [newline]) (map (\<lambda>(name, v). name @ '' '' @ v) (metric_lines avg s)))"
  by (simp add: getMetrics_def metric_lines_def word_gt_0)

text \<open>What a client must find in its answer: the lines of the head and, for the metrics, of the body it announces.\<close>

definition complete_answer :: "(64 word \<Rightarrow> 64 word \<Rightarrow> string) \<Rightarrow> 'a metrics_scheme \<Rightarrow> string \<Rightarrow> string \<Rightarrow> bool" where
  "complete_answer avg s req w \<longleftrightarrow> (\<exists>head body. w = head @ body \<and>
    (if metrics_request req then
       split_at newline head = map with_cr [''HTTP/1.1 200 OK'', ''Content-Type: text/plain'',
         ''Content-Length: '' @ show_nat (length body), ''Connection: close'', []] \<and>
       split_at newline body = map (\<lambda>(name, v). name @ '' '' @ v) (metric_lines avg s)
     else split_at newline head = map with_cr [''HTTP/1.1 404 Not Found'', ''Connection: close'', []] \<and> body = []))"

lemma answer_complete:
  assumes "req \<noteq> []" "newline \<notin> set (avg (totalQueryLatencyUs s) (queryCount s))"
  shows "complete_answer avg s req (answer_request avg s req)"
proof (cases "metrics_request req")
  case True
  let ?body = "getMetrics avg s"
  let ?head = "[''HTTP/1.1 200 OK'', ''Content-Type: text/plain'', ''Content-Length: '' @ show_nat (length ?body), ''Connection: close'', []]"
  have "answer_request avg s req = concat (map (\<lambda>l. l @ [newline]) (map with_cr ?head)) @ ?body"
    using assms(1) True by (simp add: answer_request_def crlf_def with_cr_def Let_def)
  moreover have "\<forall>l \<in> set (map with_cr ?head). newline \<notin> set l"
    using show_nat_line [of "length ?body"] by (simp add: with_cr_def newline_def)
  moreover have "\<forall>l \<in> set (map (\<lambda>(name, v). name @ '' '' @ v) (metric_lines avg s)). newline \<notin> set l"
    using assms(2) counter_plain by (simp add: metric_lines_def newline_def)
  ultimately show ?thesis
    unfolding complete_answer_def using True by (intro exI [of _ "concat (map (\<lambda>l. l @ [newline]) (map with_cr ?head))"] exI [of _ ?body])
      (simp only: split_lines metrics_text if_True)
next
  case False
  let ?head = "map with_cr [''HTTP/1.1 404 Not Found'', ''Connection: close'', []]"
  have "answer_request avg s req = concat (map (\<lambda>l. l @ [newline]) ?head)"
    using assms(1) False by (simp add: answer_request_def crlf_def with_cr_def Let_def)
  moreover have "\<forall>l \<in> set ?head. newline \<notin> set l" by (simp add: with_cr_def newline_def)
  ultimately show ?thesis
    unfolding complete_answer_def using False by (intro exI [of _ "concat (map (\<lambda>l. l @ [newline]) ?head)"] exI [of _ "[]"]) (simp only: split_lines if_False append_Nil2 simp_thms)
qed

lemma path_answers:
  assumes "(st, w) = path avg req m seen ! length seen" "length seen < length (path avg req m seen)"
    and avg: "\<And>total n. newline \<notin> set (avg total n)"
  shows "let last = (if req = [] then 1 else if metrics_request req then 8 else 2) in
    length seen \<le> last \<and> (st = Closed \<longleftrightarrow> length seen = last) \<and>
    (if req = [] \<or> length seen < last - 1 then w = []
     else complete_answer avg
       \<lparr>bufferHits = bufferHits (seen ! 0), bufferMisses = bufferMisses (seen ! 1), queryCount = queryCount (seen ! 2),
         totalQueryLatencyUs = totalQueryLatencyUs (seen ! 3), txCommitted = txCommitted (seen ! 4),
         txAborted = txAborted (seen ! 5)\<rparr> req w)"
proof (cases "req \<noteq> [] \<and> metrics_request req")
  case True
  let ?s = "\<lparr>bufferHits = bufferHits (seen ! 0), bufferMisses = bufferMisses (seen ! 1), queryCount = queryCount (seen ! 2),
    totalQueryLatencyUs = totalQueryLatencyUs (seen ! 3), txCommitted = txCommitted (seen ! 4), txAborted = txAborted (seen ! 5)\<rparr>"
  have l: "length seen < 9" using assms(2) True by (simp add: length_path)
  have "locals_of (loaded seen) = ?s" if "6 \<le> length seen"
    using that by (simp add: locals_of_def loaded_def load_order_def numeral_2_eq_2)
  then have a: "complete_answer avg ?s req (answer_request avg (locals_of (loaded seen)) req)" if "6 \<le> length seen"
    using that True avg answer_complete [of req avg ?s] by simp
  consider "length seen < 6" | "length seen = 6" | "length seen = 7" | "length seen = 8" using l by linarith
  then show ?thesis
    by cases (use True assms(1) a in \<open>simp_all add: path_load path_answer\<close>)
next
  case False
  have a: "complete_answer avg s req (answer_request avg m req)" if "req \<noteq> []" for s :: metrics
    using answer_complete [of req avg m] that False avg by (simp add: complete_answer_def)
  have "length seen = 0 \<or> length seen = 1 \<or> length seen = 2 \<and> req \<noteq> []"
    using assms(2) False by (auto simp: length_path less_Suc_eq numeral_2_eq_2 numeral_3_eq_3 split: if_splits)
  then consider "length seen = 0" | "length seen = 1" | "length seen = 2" "req \<noteq> []" by blast
  then show ?thesis
    by cases (use False assms(1) a in \<open>simp_all add: path_def Let_def split: if_splits\<close>)
qed

lemma thread_stuck: "(\<forall>block. thread_step avg m block c = None) \<longleftrightarrow> stage c = Closed"
proof (cases "stage c")
  case Reading
  then have "thread_step avg m (Some []) c \<noteq> None" by simp
  then show ?thesis using Reading by (metis stage.distinct(7))
qed (simp_all add: Let_def split: option.split)

subsection \<open>Properties\<close>

definition zero_metrics :: metrics where
  "zero_metrics = \<lparr>bufferHits = 0, bufferMisses = 0, queryCount = 0, totalQueryLatencyUs = 0, txCommitted = 0, txAborted = 0\<rparr>"

text \<open>
  C26: A request for the metrics gets a complete HTTP answer: five lines of a head whose announced length is
  that of the body behind it, and a body of one line for each metric, its name, a blank and its value; any
  other request gets the answer that there is no such page.
\<close>

theorem metrics_answer:
  assumes "req \<noteq> []" "newline \<notin> set (avg (totalQueryLatencyUs s) (queryCount s))"
  shows "\<exists>head body. answer_request avg s req = head @ body \<and>
    (if metrics_request req then
       split_at newline head = map with_cr [''HTTP/1.1 200 OK'', ''Content-Type: text/plain'',
         ''Content-Length: '' @ show_nat (length body), ''Connection: close'', []] \<and>
       split_at newline body = map (\<lambda>(name, v). name @ '' '' @ v) (metric_lines avg s)
     else split_at newline head = map with_cr [''HTTP/1.1 404 Not Found'', ''Connection: close'', []] \<and> body = [])"
  using answer_complete [of req avg s, OF assms] unfolding complete_answer_def .

theorem metrics_answer_witness:
  "\<exists>head body. answer_request (\<lambda>_ _. ''2.5'') (snd (incQueryCount \<lparr>bufferHits = 3, bufferMisses = 0, queryCount = 0,
       totalQueryLatencyUs = 0, txCommitted = 0, txAborted = 0\<rparr>)) ''GET /metrics HTTP/1.1'' = head @ body \<and>
     split_at newline body = [''buffer_hits 3'', ''buffer_misses 0'', ''queries_executed 1'', ''avg_query_ms 2.5'',
       ''tx_committed 0'', ''tx_aborted 0'']"
proof -
  let ?s = "snd (incQueryCount \<lparr>bufferHits = 3, bufferMisses = 0, queryCount = 0, totalQueryLatencyUs = 0, txCommitted = 0, txAborted = 0\<rparr>)"
  have l: "map (\<lambda>(name, v). name @ '' '' @ v) (metric_lines (\<lambda>_ _. ''2.5'') ?s) =
      [''buffer_hits 3'', ''buffer_misses 0'', ''queries_executed 1'', ''avg_query_ms 2.5'', ''tx_committed 0'', ''tx_aborted 0'']"
    by code_simp
  have t: "metrics_request ''GET /metrics HTTP/1.1''" by (simp add: metrics_request_def)
  have n: "newline \<notin> set ''2.5''" by (simp add: newline_def)
  obtain head body where "answer_request (\<lambda>_ _. ''2.5'') ?s ''GET /metrics HTTP/1.1'' = head @ body"
    "split_at newline body = map (\<lambda>(name, v). name @ '' '' @ v) (metric_lines (\<lambda>_ _. ''2.5'') ?s)"
    using metrics_answer [of "''GET /metrics HTTP/1.1''" "\<lambda>_ _. ''2.5''" ?s] n t by auto
  then show ?thesis unfolding l by blast
qed

text \<open>
  C27: However the threads of the monitoring server, of its other clients and of the engine take turns, the thread of
  an accepted client closes the connection with its second turn if the read returned nothing, with its ninth if it
  read a request for the metrics and with its third otherwise; until then it has a next step, and it takes none
  after. The client is written nothing before the turn ahead of the close, and then its complete answer, or nothing
  if the read returned nothing. The metrics in it are not those of one moment: each counter is as it stood at its own
  turn of the thread, so that the average divides a total by an older count.
\<close>

theorem monitor_client_served:
  assumes "monitor_run avg evs \<lparr>counters = m0, connections = []\<rparr> = Some s" "i < length (connections s)"
    and "\<And>total n. newline \<notin> set (avg total n)"
  shows "clientFd (connections s ! i) = accepted evs ! i \<and>
    (stage (connections s ! i) = Closed \<longleftrightarrow> (\<forall>block. monitor_step avg (Turn i block) s = None)) \<and>
    (case turns i evs m0 of
       [] \<Rightarrow> stage (connections s ! i) = Reading \<and> written (connections s ! i) = []
     | (m, block) # later \<Rightarrow> \<exists>req. block = Some req \<and>
         (let last = (if req = [] then 1 else if metrics_request req then 8 else 2); seen = map fst later in
          length later \<le> last \<and> (stage (connections s ! i) = Closed \<longleftrightarrow> length later = last) \<and>
          (if req = [] \<or> length later < last - 1 then written (connections s ! i) = []
           else complete_answer avg
             \<lparr>bufferHits = bufferHits (seen ! 0), bufferMisses = bufferMisses (seen ! 1), queryCount = queryCount (seen ! 2),
               totalQueryLatencyUs = totalQueryLatencyUs (seen ! 3), txCommitted = txCommitted (seen ! 4),
               txAborted = txAborted (seen ! 5)\<rparr> req (written (connections s ! i)))))"
proof -
  let ?c = "connections s ! i"
  have run: "thread_run avg (turns i evs m0) (new_connection (accepted evs ! i)) = Some ?c" "i < length (accepted evs)"
    using monitor_run_thread [OF assms(1)] assms(2) by auto
  have stuck: "stage ?c = Closed \<longleftrightarrow> (\<forall>block. monitor_step avg (Turn i block) s = None)"
    using assms(2) thread_stuck [of avg "counters s" ?c] by (simp del: thread_step.simps)
  show ?thesis
  proof (cases "turns i evs m0")
    case Nil
    with run(1) have "?c = new_connection (accepted evs ! i)" by simp
    with Nil stuck show ?thesis by (simp add: new_connection_def)
  next
    case (Cons t later)
    obtain m block where t: "t = (m, block)" by (cases t)
    obtain req where req: "block = Some req" "clientFd ?c = accepted evs ! i" "length later < length (path avg req m (map fst later))"
      "(stage ?c, written ?c) = path avg req m (map fst later) ! length later"
      using thread_run_path [OF run(1) [unfolded Cons t]] by blast
    note p = path_answers [of "stage ?c" "written ?c" avg req m "map fst later", OF _ _ assms(3), unfolded length_map Let_def, OF req(4,3)]
    show ?thesis
      unfolding Cons t stuck [symmetric] list.case prod.case Let_def
      using req(1,2) p by (intro conjI exI [of _ req]) blast+
  qed
qed

theorem monitor_client_served_witness:
  "\<exists>s. monitor_run (\<lambda>_ _. ''2.5'') [Count Hit, Accept 5, Accept (- 1), Accept 6, Turn 1 (Some ''GET /''),
       Turn 0 (Some ''GET /metrics HTTP/1.1''), Turn 0 None, Count Hit, Count Miss, Turn 0 None, Turn 1 None, Count Query, Turn 0 None,
       Count (Latency 9), Turn 0 None, Turn 0 None, Turn 0 None, Turn 0 None, Turn 0 None]
       \<lparr>counters = zero_metrics, connections = []\<rparr> = Some s \<and> stage (connections s ! 0) = Closed \<and>
     (\<exists>head body. written (connections s ! 0) = head @ body \<and>
       split_at newline body = [''buffer_hits 1'', ''buffer_misses 1'', ''queries_executed 1'', ''avg_query_ms 2.5'',
         ''tx_committed 0'', ''tx_aborted 0''])"
proof -
  let ?evs = "[Count Hit, Accept 5, Accept (- 1), Accept 6, Turn 1 (Some ''GET /''),
       Turn 0 (Some ''GET /metrics HTTP/1.1''), Turn 0 None, Count Hit, Count Miss, Turn 0 None, Turn 1 None, Count Query, Turn 0 None,
       Count (Latency 9), Turn 0 None, Turn 0 None, Turn 0 None, Turn 0 None, Turn 0 None]"
  let ?run = "monitor_run (\<lambda>_ _. ''2.5'') ?evs \<lparr>counters = zero_metrics, connections = []\<rparr>"
  let ?ms = "\<lparr>bufferHits = 1, bufferMisses = 1, queryCount = 1, totalQueryLatencyUs = 9, txCommitted = 0, txAborted = 0\<rparr>"
  have "?run \<noteq> None" by code_simp
  then obtain s where s: "?run = Some s" by blast
  have "length (connections (the ?run)) = 2" by code_simp
  then have i: "0 < length (connections s)" using s by simp
  have n: "newline \<notin> set ''2.5''" by (simp add: newline_def)
  have t: "map snd (turns 0 ?evs zero_metrics) = [Some ''GET /metrics HTTP/1.1'', None, None, None, None, None, None, None, None]" by simp
  have r: "metrics_request ''GET /metrics HTTP/1.1''" by (simp add: metrics_request_def)
  have l: "map (\<lambda>(name, v). name @ '' '' @ v) (metric_lines (\<lambda>_ _. ''2.5'') ?ms) =
      [''buffer_hits 1'', ''buffer_misses 1'', ''queries_executed 1'', ''avg_query_ms 2.5'', ''tx_committed 0'', ''tx_aborted 0'']"
    by code_simp
  have "stage (connections s ! 0) = Closed \<and> complete_answer (\<lambda>_ _. ''2.5'') ?ms ''GET /metrics HTTP/1.1'' (written (connections s ! 0))"
    using monitor_client_served [OF s i] n r by (simp add: zero_metrics_def incBufferHit_def incBufferMiss_def incQueryCount_def recordQueryLatencyUs_def)
  then show ?thesis using s l r by (auto simp: complete_answer_def)
qed

end
