(* ===== verification/TxEngine.thy ===== *)
theory TxEngine
  imports Sessions
begin

section \<open>The query engine with a transaction manager\<close>

text \<open>
  \<open>queryEngine/QueryEngine\<close>: the variant that begins and commits transactions and plans every other
  statement. It is written against members that do not exist: \<open>StorageEngine::initialize\<close> and the
  constructor over a catalog (\<open>boot\<close>), \<open>Planner::optimizePlan\<close>, and a ROLLBACK statement, which neither the
  parser nor the type of statements has, so that \<open>handleRollback\<close> is never called.
\<close>

record te_state =
  engine :: qe_state
  te_txs :: tx_manager
  te_current :: int

definition on_engine :: "(qe_state, 'b) io \<Rightarrow> (te_state, 'b) io" where
  "on_engine = zoom engine (\<lambda>a s. s\<lparr>engine := a\<rparr>)"

definition on_te_txs :: "(tx_manager, 'b) io \<Rightarrow> (te_state, 'b) io" where
  "on_te_txs = zoom te_txs (\<lambda>a s. s\<lparr>te_txs := a\<rparr>)"

lemma te_run:
  "on_engine m s = (fst (m (engine s)), s\<lparr>engine := snd (m (engine s))\<rparr>)"
  "on_te_txs k s = (fst (k (te_txs s)), s\<lparr>te_txs := snd (k (te_txs s))\<rparr>)"
  by (simp_all add: on_engine_def on_te_txs_def zoom_def split_beta)

subsection \<open>The operations\<close>

definition new_TxEngine :: "(catalog \<Rightarrow> engine_state res) \<Rightarrow> string option \<Rightarrow> te_state res" where
  "new_TxEngine boot file = (case load file Map.empty of
     (Inl e, _) \<Rightarrow> Inl e
   | (Inr _, cat) \<Rightarrow> bindE (boot cat) (\<lambda>d.
       Inr \<lparr>engine = engine_state.extend d (qe_state.fields cat), te_txs = tm_init, te_current = 0\<rparr>))"

definition handleBegin :: "(te_state, unit) io" where
  "handleBegin = bindM (getsM te_current) (\<lambda>c.
     if c \<noteq> 0 then throwM (Runtime_Error ''Transaction already in progress'')
     else bindM (on_te_txs beginTransaction) (\<lambda>tx. modifyM (\<lambda>s. s\<lparr>te_current := tx\<rparr>)))"

definition handleCommit :: "(te_state, unit) io" where
  "handleCommit = bindM (getsM te_current) (\<lambda>c.
     if c = 0 then throwM (Runtime_Error ''No active transaction to commit'')
     else bindM (on_te_txs (commitTransaction c)) (\<lambda>_. modifyM (\<lambda>s. s\<lparr>te_current := 0\<rparr>)))"

definition handleRollback :: "(te_state, unit) io" where
  "handleRollback = bindM (getsM te_current) (\<lambda>c.
     if c = 0 then throwM (Runtime_Error ''No active transaction to rollback'')
     else bindM (on_te_txs (abortTransaction c)) (\<lambda>_. modifyM (\<lambda>s. s\<lparr>te_current := 0\<rparr>)))"

definition is_dml :: "AST \<Rightarrow> bool" where
  "is_dml ast \<longleftrightarrow> (case ast of Insert _ \<Rightarrow> True | Update _ \<Rightarrow> True | Delete _ \<Rightarrow> True | _ \<Rightarrow> False)"

definition te_plan :: "((string \<rightharpoonup> int) \<Rightarrow> string list) \<Rightarrow> (catalog \<Rightarrow> logical \<Rightarrow> logical) \<Rightarrow> registry \<Rightarrow> nat \<Rightarrow> catalog \<Rightarrow> AST \<Rightarrow>
    (qe_state, row list) io" where
  "te_plan order optimizePlan reg n cat ast =
     bindM (liftM (buildLogicalPlan ast)) (\<lambda>plan.
     bindM (liftM (generate order cat (optimizePlan cat (rewritePlan plan)))) (\<lambda>physical.
     bindM (liftM (child_op physical)) (execute (scanTable, fetchRecord) reg n)))"

definition te_query :: "((string \<rightharpoonup> int) \<Rightarrow> string list) \<Rightarrow> (catalog \<Rightarrow> logical \<Rightarrow> logical) \<Rightarrow> registry \<Rightarrow> nat \<Rightarrow> string \<Rightarrow>
    (te_state, row list) io" where
  "te_query order optimizePlan reg n sql =
     bindM (liftM (parse sql)) (\<lambda>ast. case ast of
       Begin \<Rightarrow> bindM handleBegin (\<lambda>_. retM [])
     | Commit \<Rightarrow> bindM handleCommit (\<lambda>_. retM [])
     | _ \<Rightarrow>
       bindM (on_engine (getsM qcatalog)) (\<lambda>cat.
       bindM (liftM (bind_statement cat reg ast)) (\<lambda>ast.
       bindM (getsM te_current) (\<lambda>c.
         if is_dml ast \<and> c = 0 then throwM (Runtime_Error ''No active transaction. Please BEGIN first.'')
         else on_engine (te_plan order optimizePlan reg n cat ast)))))"

subsection \<open>Sources that are only read\<close>

text \<open>
  \<open>safe P m Q\<close>: the computation keeps \<open>P\<close>, and what it returns satisfies \<open>Q\<close>.
\<close>

definition safe :: "('s \<Rightarrow> bool) \<Rightarrow> ('s, 'a) io \<Rightarrow> ('a \<Rightarrow> bool) \<Rightarrow> bool" where
  "safe P m Q \<longleftrightarrow> (\<forall>s. P s \<longrightarrow> P (snd (m s)) \<and> (\<forall>x. fst (m s) = Inr x \<longrightarrow> Q x))"

named_theorems safe_intro

lemma safe_base [safe_intro]: "Q x \<Longrightarrow> safe P (retM x) Q" "safe P (throwM e) Q" "(\<And>x. r = Inr x \<Longrightarrow> Q x) \<Longrightarrow> safe P (liftM r) Q"
  by (simp_all add: safe_def)

lemma safe_bind:
  assumes "safe P m R" "\<And>x. R x \<Longrightarrow> safe P (f x) Q"
  shows "safe P (bindM m f) Q"
  unfolding safe_def
proof (rule allI, rule impI)
  fix s assume "P s"
  with assms(1) obtain r u where "m s = (r, u)" "P u" "\<forall>x. r = Inr x \<longrightarrow> R x" by (cases "m s") (auto simp: safe_def)
  then show "P (snd (bindM m f s)) \<and> (\<forall>x. fst (bindM m f s) = Inr x \<longrightarrow> Q x)"
    by (cases r) (use assms(2) in \<open>auto simp: bindM_def safe_def\<close>)
qed

lemma safe_keeps: "safe P m Q \<Longrightarrow> keeps P m"
  by (simp add: safe_def keeps_def)

fun rids_in :: "db \<Rightarrow> phys_op \<Rightarrow> bool" where
  "rids_in R (Table_Scan t rids i) = (set rids \<subseteq> dom (R t))"
| "rids_in R (Filter_Op c p ci) = rids_in R c"
| "rids_in R (Project_Op c es ci) = rids_in R c"
| "rids_in R (Nested_Loop l r row d) = (rids_in R l \<and> rids_in R r)"

lemma rids_close: "rids_in R q \<Longrightarrow> rids_in R (op_close q)"
  by (induction q) auto

text \<open>The storage that operators read: a scan finds identifiers of records, and neither a scan nor a fetch changes it.\<close>

locale row_reader =
  fixes inv :: "'s \<Rightarrow> bool"
    and R :: db
    and scan :: "string \<Rightarrow> ('s, RecordID list) io"
    and fetch :: "string \<Rightarrow> RecordID \<Rightarrow> ('s, FieldValue list) io"
  assumes scan_safe: "safe inv (scan t) (\<lambda>rids. set rids \<subseteq> dom (R t))"
    and fetch_safe: "rid \<in> dom (R t) \<Longrightarrow> safe inv (fetch t rid) (\<lambda>_. True)"
begin

lemma ops_safe:
  shows "rids_in R q \<Longrightarrow> safe inv (op_open (scan, fetch) reg n q) (rids_in R)"
    and "rids_in R q \<Longrightarrow> safe inv (op_next (scan, fetch) reg n q) (\<lambda>(res, q). rids_in R q)"
proof (induction "(scan, fetch)" reg n q and "(scan, fetch)" reg n q rule: op_open_op_next.induct)
  case (2 reg n t rids i)
  show ?case by (auto intro!: safe_bind [OF scan_safe] safe_intro)
next
  case (3 reg n c p ci)
  then have "safe inv (op_open (scan, fetch) reg n c) (rids_in R)" by simp
  then show ?case by (auto intro!: safe_intro elim!: safe_bind)
next
  case (4 reg n c es ci)
  then have "safe inv (op_open (scan, fetch) reg n c) (rids_in R)" by simp
  then show ?case by (auto intro!: safe_intro elim!: safe_bind)
next
  case (5 reg n l r row d)
  then show ?case
    unfolding op_open.simps
    by (intro safe_bind [where R = "rids_in R"] safe_bind [where R = "\<lambda>(res, q). rids_in R q"])
      (auto intro!: safe_intro split: option.split)
next
  case (7 reg n t rids i)
  then have "i < length rids \<Longrightarrow> rids ! i \<in> dom (R t)" by (auto simp: subset_iff)
  with 7 show ?case by (auto intro!: safe_bind [OF fetch_safe] safe_intro)
next
  case (8 reg n c p ci)
  then have "safe inv (op_next (scan, fetch) reg n c) (\<lambda>(res, q). rids_in R q)" by simp
  then show ?case
    unfolding op_next.simps
    by (rule safe_bind) (use 8 in \<open>auto intro!: safe_intro safe_bind [where R = "\<lambda>_. True"] split: option.split\<close>)
next
  case (9 reg n c es ci)
  then have "safe inv (op_next (scan, fetch) reg n c) (\<lambda>(res, q). rids_in R q)" by simp
  then show ?case
    unfolding op_next.simps
    by (rule safe_bind) (auto intro!: safe_intro safe_bind [where R = "\<lambda>_. True"] split: option.split)
next
  case (10 reg n l r row d)
  show ?case
  proof (cases d)
    case True
    with 10 show ?thesis by (auto intro!: safe_intro)
  next
    case False
    with 10 have o: "safe inv (op_open (scan, fetch) reg n (op_close q)) (rids_in R)" if "rids_in R q" for q
      using rids_close [OF that] by auto
    from 10 False have "safe inv (op_next (scan, fetch) reg n r) (\<lambda>(res, q). rids_in R q)" by simp
    then show ?thesis
      unfolding op_next.simps if_not_P [OF False]
      by (rule safe_bind)
        (use 10 False in \<open>auto intro!: safe_intro o safe_bind [where R = "rids_in R"] safe_bind [where R = "\<lambda>(res, q). rids_in R q"]
          split: option.split\<close>)
  qed
qed (auto intro!: safe_intro)

end

lemma gen_rids: "gen order cat p ci = Inr (Some q, ci') \<Longrightarrow> rids_in R q"
proof (induction p arbitrary: ci q ci')
  case (L_SeqScan t)
  then show ?case by (auto simp: bindE_eq_Inr new_TableScan_def)
next
  case (L_Filter e p)
  then show ?case by (auto simp: bindE_eq_Inr child_op_def split: option.splits)
next
  case (L_Project es p)
  then show ?case by (auto simp: bindE_eq_Inr child_op_def split: option.splits)
next
  case (L_Join l r)
  then show ?case by (fastforce simp: bindE_eq_Inr child_op_def split: option.splits)
qed auto

context row_reader
begin

lemma execute_safe:
  assumes "rids_in R q"
  shows "safe inv (execute (scan, fetch) reg n q) (\<lambda>_. True)"
proof -
  have "safe inv (pull_rows (scan, fetch) reg n q) (\<lambda>_. True)" if "rids_in R q" for n q
    using that
  proof (induction n arbitrary: q)
    case (Suc n)
    from ops_safe(2) [OF Suc.prems] show ?case
      unfolding pull_rows.simps
      by (rule safe_bind) (use Suc.IH in \<open>auto intro!: safe_intro safe_bind [where R = "\<lambda>_. True"] split: option.split\<close>)
  qed (auto intro!: safe_intro)
  then show ?thesis
    unfolding execute_def using ops_safe(1) [OF assms]
    by (intro safe_bind [where R = "rids_in R"] safe_bind [where R = "\<lambda>_. True"]) (auto intro!: safe_intro)
qed

end

interpretation engine_reader: row_reader "holds_rows F M N K cat R" R scanTable fetchRecord
  for F M N K cat R
proof (unfold_locales, goal_cases)
  case (1 t)
  show ?case
    unfolding safe_def
  proof (rule allI, rule impI)
    fix s assume s: "holds_rows F M N K cat R s"
    show "holds_rows F M N K cat R (snd (scanTable t s)) \<and> (\<forall>rids. fst (scanTable t s) = Inr rids \<longrightarrow> set rids \<subseteq> dom (R t))"
    proof (cases "M t")
      case None
      then have "tables s t = None" using s by (simp add: holds_rows_def db_inv_def)
      then have "\<exists>e. scanTable t s = (Inl e, s)" unfolding scanTable_def by (intro bindM_fails) (simp add: table_of_def)
      with s show ?thesis by auto
    next
      case (Some ti)
      then have t: "t \<in> dom M" by blast
      with engine_rows.scan_law [OF s t] engine_rows.finite_rows [OF s t] show ?thesis by auto
    qed
  qed
next
  case (2 rid t)
  then obtain row where row: "R t rid = Some row" by blast
  show ?case
    unfolding safe_def
  proof (rule allI, rule impI)
    fix s assume s: "holds_rows F M N K cat R s"
    have "db_rows F M s (t, rid) = Some row" using s row by (simp add: holds_rows_def)
    then have "t \<in> dom M" by (auto simp: db_rows_def split: option.splits)
    with engine_rows.fetch_law [OF s _ row] show "holds_rows F M N K cat R (snd (fetchRecord t rid s)) \<and>
        (\<forall>x. fst (fetchRecord t rid s) = Inr x \<longrightarrow> True)" by auto
  qed
qed

lemma keeps_lift: "(\<And>x. r = Inr x \<Longrightarrow> keeps P (f x)) \<Longrightarrow> keeps P (bindM (liftM r) f)"
  by (cases r) (simp_all add: keeps_base)

lemma te_plan_keeps: "keeps (holds_rows F M N K cat R) (te_plan order optimizePlan reg n c ast)"
  unfolding te_plan_def
  by (intro keeps_lift safe_keeps [OF engine_reader.execute_safe])
    (auto simp: generate_def bindE_eq_Inr child_op_def split: option.splits intro: gen_rids)

subsection \<open>Histories\<close>

inductive te_history :: "((string \<rightharpoonup> int) \<Rightarrow> string list) \<Rightarrow> (catalog \<Rightarrow> logical \<Rightarrow> logical) \<Rightarrow> registry \<Rightarrow> te_state \<Rightarrow> te_state \<Rightarrow> bool"
  for order optimizePlan reg where
  te_start: "te_history order optimizePlan reg s s"
| te_more: "te_history order optimizePlan reg s t \<Longrightarrow> te_history order optimizePlan reg s (snd (te_query order optimizePlan reg n sql t))"

lemma te_history_keeps:
  "te_history order optimizePlan reg s t \<Longrightarrow> P s \<Longrightarrow> (\<And>n sql. keeps P (te_query order optimizePlan reg n sql)) \<Longrightarrow> P t"
  by (induction rule: te_history.induct) (auto simp: keeps_def)

definition te_ok :: "te_state \<Rightarrow> bool" where
  "te_ok s \<longleftrightarrow> tm_ok (te_txs s) \<and> (te_current s \<noteq> 0 \<longrightarrow> txTable (te_txs s) (te_current s) = Some ACTIVE) \<and>
     (\<forall>tx. txTable (te_txs s) tx = Some ACTIVE \<longrightarrow> tx = te_current s) \<and> (\<forall>tx. txTable (te_txs s) tx \<noteq> Some ABORTED)"

lemma te_engine_keeps: "keeps (\<lambda>s. te_ok s \<and> Q (engine s)) (on_engine m)" if "keeps Q m"
  using that by (simp add: keeps_def te_run te_ok_def)

lemma handleBegin_keeps: "keeps (\<lambda>s. te_ok s \<and> Q (engine s)) handleBegin"
proof -
  have "te_ok (s\<lparr>te_txs := snd (beginTransaction (te_txs s)), te_current := nextTxId (te_txs s)\<rparr>)"
    if "te_ok s" "te_current s = 0" for s
  proof -
    have t: "tm_ok (te_txs s)" using that(1) by (simp add: te_ok_def)
    then have "0 \<notin> dom (txTable (te_txs s))" "tm_ok (snd (beginTransaction (te_txs s)))"
      using tm_step_ok [OF tm_begin t, of "fst (beginTransaction (te_txs s))"] by (simp_all add: tm_ok_def)
    with that show ?thesis by (auto simp: te_ok_def beginTransaction_def domIff)
  qed
  then show ?thesis by (auto simp: keeps_def handleBegin_def bindM_def te_run beginTransaction_def)
qed

lemma handleCommit_keeps: "keeps (\<lambda>s. te_ok s \<and> Q (engine s)) handleCommit"
proof -
  have "te_ok (s\<lparr>te_txs := snd (commitTransaction (te_current s) (te_txs s)), te_current := 0\<rparr>)"
    if "te_ok s" "te_current s \<noteq> 0" for s
  proof -
    let ?m = "te_txs s" and ?c = "te_current s"
    have t: "tm_ok ?m" "txTable ?m ?c = Some ACTIVE" "\<And>tx. txTable ?m tx = Some ACTIVE \<Longrightarrow> tx = ?c" "\<And>tx. txTable ?m tx \<noteq> Some ABORTED"
      using that unfolding te_ok_def by blast+
    have c: "snd (commitTransaction ?c ?m) = ?m\<lparr>txTable := (txTable ?m)(?c \<mapsto> COMMITTED)\<rparr>" using t(2) by (simp add: commitTransaction_def)
    have "?c \<in> dom (txTable ?m)" using t(2) by blast
    then have "tm_ok (?m\<lparr>txTable := (txTable ?m)(?c \<mapsto> COMMITTED)\<rparr>)" using t(1) by (simp add: tm_ok_def insert_absorb)
    moreover have "((txTable ?m)(?c \<mapsto> COMMITTED)) tx \<noteq> Some ACTIVE" "((txTable ?m)(?c \<mapsto> COMMITTED)) tx \<noteq> Some ABORTED" for tx
      using t(3,4) by auto
    ultimately show ?thesis unfolding te_ok_def c by simp
  qed
  moreover have "fst (commitTransaction (te_current s) (te_txs s)) = Inr ()" if "te_ok s" "te_current s \<noteq> 0" for s
    using that by (simp add: te_ok_def commitTransaction_def)
  ultimately show ?thesis by (auto simp: keeps_def handleCommit_def bindM_def te_run split: prod.split sum.split)
qed

lemma te_query_keeps:
  assumes "\<And>c ast. keeps Q (te_plan order optimizePlan reg n c ast)"
  shows "keeps (\<lambda>s. te_ok s \<and> Q (engine s)) (te_query order optimizePlan reg n sql)"
proof -
  have g: "keeps Q (getsM qcatalog)" by (rule keeps_base)
  show ?thesis
    unfolding te_query_def
    by (intro keeps_intro, split AST.split)
      (intro conjI allI impI keeps_intro handleBegin_keeps handleCommit_keeps te_engine_keeps assms g)
qed

subsection \<open>Properties\<close>

text \<open>
  C24: The engine only ever reads: whatever the missing optimizer makes of a plan, no history of queries
  changes a row of a registered table, insertions, updates and deletions inside transactions included;
  no transaction is ever aborted, and the current one is the one active transaction.
\<close>

theorem queries_only_read:
  assumes "te_history order optimizePlan reg s t" "db_inv F M N K (engine s)" "te_txs s = tm_init" "te_current s = 0"
  shows "db_inv F M N K (engine t) \<and> db_rows F M (engine t) = db_rows F M (engine s) \<and>
    (\<forall>tx. txTable (te_txs t) tx \<noteq> Some ABORTED) \<and>
    (\<forall>tx. txTable (te_txs t) tx = Some ACTIVE \<longleftrightarrow> tx = te_current t \<and> te_current t \<noteq> 0)"
proof -
  let ?Q = "holds_rows F M N K (qcatalog (engine s)) (\<lambda>n rid. db_rows F M (engine s) (n, rid))"
  have "te_ok s" using assms(3,4) by (simp add: te_ok_def tm_ok_init) (simp add: tm_init_def)
  moreover have "?Q (engine s)" using assms(2) by (simp add: holds_rows_def)
  ultimately have "te_ok s \<and> ?Q (engine s)" by blast
  with assms(1) have "te_ok t \<and> ?Q (engine t)"
    by (rule te_history_keeps [where P = "\<lambda>s. te_ok s \<and> ?Q (engine s)"]) (rule te_query_keeps [OF te_plan_keeps])
  then have t: "te_ok t" "db_inv F M N K (engine t)" "db_rows F M (engine t) = db_rows F M (engine s)"
    by (auto simp: holds_rows_def)
  have "0 \<notin> dom (txTable (te_txs t))" using t(1) by (simp add: te_ok_def tm_ok_def)
  then have "txTable (te_txs t) tx = Some ACTIVE \<longleftrightarrow> tx = te_current t \<and> te_current t \<noteq> 0" for tx
    using t(1) unfolding te_ok_def by (metis domI)
  with t show ?thesis by (simp add: te_ok_def)
qed

theorem queries_only_read_witness:
  "\<exists>F M (s :: te_state) t. t = snd (te_query (\<lambda>_. []) (\<lambda>_ p. p) Map.empty 9 ''DELETE FROM u WHERE id = 7''
       (snd (te_query (\<lambda>_. []) (\<lambda>_ p. p) Map.empty 9 ''BEGIN'' s))) \<and> te_txs s = tm_init \<and>
     db_rows F M (engine s) = [(''u'', RecordID 0 0) \<mapsto> [FInt 7, FStr ''abc'']] \<and>
     db_rows F M (engine t) = [(''u'', RecordID 0 0) \<mapsto> [FInt 7, FStr ''abc'']]"
proof -
  obtain ti and d :: qe_state where d: "db_inv {4, 3} [''u'' \<mapsto> ti] (\<lambda>_. 1) (\<lambda>_. {7}) d" "tschema ti = ex_schema"
    "db_rows {4, 3} [''u'' \<mapsto> ti] d = [(''u'', RecordID 0 0) \<mapsto> [FInt 7, FStr ''abc'']]" "qcatalog d = ex_catalog"
    by (rule ex_query_db)
  let ?s = "\<lparr>engine = d, te_txs = tm_init, te_current = 0\<rparr>"
  let ?q = "te_query (\<lambda>_. []) (\<lambda>_ p. p) Map.empty 9"
  let ?t = "snd (?q ''DELETE FROM u WHERE id = 7'' (snd (?q ''BEGIN'' ?s)))"
  have h: "te_history (\<lambda>_. []) (\<lambda>_ p. p) Map.empty ?s ?t" by (intro te_more te_start)
  have "db_rows {4, 3} [''u'' \<mapsto> ti] (engine ?t) = db_rows {4, 3} [''u'' \<mapsto> ti] (engine ?s)"
    using queries_only_read [OF h, of "{4, 3}" "[''u'' \<mapsto> ti]" "\<lambda>_. 1" "\<lambda>_. {7}"] d(1) by simp
  with d(3) show ?thesis by (intro exI [of _ "{4, 3}"] exI [of _ "[''u'' \<mapsto> ti]"] exI [of _ ?s] exI [of _ ?t]) simp
qed

end
