(* ===== verification/Optimizer.thy ===== *)
theory Optimizer
  imports Prelude "HOL-Library.Multiset"
begin

unbundle bit_operations_syntax

section \<open>The cost-based optimizer\<close>

text \<open>
  \<open>queryOptimizerAndPlanner/Statistics.h\<close>, \<open>CostModel.h\<close> and \<open>Optimizer.h\<close>: row counts, costs, and the
  search for a join order by dynamic programming over sets of tables, a set being the bits of a mask. The
  arithmetic of \<open>double\<close> is an argument (\<open>doubles\<close>). The nodes of the plans are pointers that are only copied:
  a scan is any value, and a join is the \<open>LogicalFilter\<close> without predicate to which a second child is
  appended. The member \<open>stats_\<close> that \<open>optimizeJoins\<close> reads is private, and nothing calls it.
\<close>

record 'd doubles =
  d_less :: "'d \<Rightarrow> 'd \<Rightarrow> bool"
  d_plus :: "'d \<Rightarrow> 'd \<Rightarrow> 'd"
  d_times :: "'d \<Rightarrow> 'd \<Rightarrow> 'd"
  d_zero :: 'd
  d_infinity :: 'd

subsection \<open>Statistics and costs\<close>

record 'd statistics =
  baseRowCount :: "string \<rightharpoonup> 'd"
  joinSelectivity :: 'd

definition setRowCount :: "string \<Rightarrow> 'd \<Rightarrow> 'd statistics \<Rightarrow> 'd statistics" where
  "setRowCount t n st = st\<lparr>baseRowCount := (baseRowCount st)(t \<mapsto> n)\<rparr>"

definition getRowCount :: "'d statistics \<Rightarrow> string \<Rightarrow> 'd res" where
  "getRowCount st t = (case baseRowCount st t of None \<Rightarrow> Inl (Out_Of_Range ''unordered_map::at'') | Some n \<Rightarrow> Inr n)"

definition scaled_rows :: "'d doubles \<Rightarrow> 'd statistics \<Rightarrow> 'd \<Rightarrow> 'd \<Rightarrow> 'd" where
  "scaled_rows d st leftRows rightRows = d_times d (d_times d leftRows rightRows) (joinSelectivity st)"

definition setJoinSelectivity :: "'d \<Rightarrow> 'd statistics \<Rightarrow> 'd statistics" where
  "setJoinSelectivity x st = st\<lparr>joinSelectivity := x\<rparr>"

definition costSeqScan :: "'d statistics \<Rightarrow> string \<Rightarrow> 'd res" where
  "costSeqScan st t = getRowCount st t"

definition costFilter :: "'d \<Rightarrow> 'd" where
  "costFilter inputRows = inputRows"

definition costProject :: "'d \<Rightarrow> 'd" where
  "costProject inputRows = inputRows"

definition costJoin :: "'d doubles \<Rightarrow> 'd \<Rightarrow> 'd \<Rightarrow> 'd \<Rightarrow> 'd \<Rightarrow> 'd" where
  "costJoin d leftCost rightCost leftRows rightRows =
     (let buildCost = leftRows; probeCost = rightRows in
      d_plus d (d_plus d (d_plus d leftCost rightCost) buildCost) probeCost)"

definition estimateJoinRows :: "'d doubles \<Rightarrow> 'd statistics \<Rightarrow> string \<Rightarrow> string \<Rightarrow> 'd res" where
  "estimateJoinRows d st leftTable rightTable =
     bindE (getRowCount st leftTable) (\<lambda>lr. bindE (getRowCount st rightTable) (\<lambda>rr. Inr (scaled_rows d st lr rr)))"

subsection \<open>The search\<close>

datatype 'l join_plan =
    Scan_Node 'l
  | Join_Node "'l join_plan" "'l join_plan"

record ('d, 'l) plan_entry =
  pe_cost :: 'd
  pe_rows :: 'd
  pe_plan :: "'l join_plan option"

fun ctz :: "nat \<Rightarrow> nat" where
  "ctz m = (if m = 0 \<or> odd m then 0 else Suc (ctz (m div 2)))"

declare ctz.simps [simp del]

definition no_entry :: "'d doubles \<Rightarrow> ('d, 'l) plan_entry" where
  "no_entry d = \<lparr>pe_cost = d_infinity d, pe_rows = d_zero d, pe_plan = None\<rparr>"

fun single_plans :: "'d statistics \<Rightarrow> (string \<rightharpoonup> 'l option) \<Rightarrow> string list \<Rightarrow> nat \<Rightarrow> ('d, 'l) plan_entry list \<Rightarrow> ('d, 'l) plan_entry list res" where
  "single_plans st scans [] i dp = Inr dp"
| "single_plans st scans (t # ts) i dp =
     bindE (costSeqScan st t) (\<lambda>cost.
     bindE (getRowCount st t) (\<lambda>rows.
     bindE (case scans t of None \<Rightarrow> Inl (Out_Of_Range ''unordered_map::at'') | Some p \<Rightarrow> Inr p) (\<lambda>plan.
       single_plans st scans ts (i + 1) (dp[2 ^ i := \<lparr>pe_cost = cost, pe_rows = rows, pe_plan = map_option Scan_Node plan\<rparr>]))))"

definition try_split :: "'d doubles \<Rightarrow> 'd statistics \<Rightarrow> string list \<Rightarrow> nat \<Rightarrow> nat \<Rightarrow> ('d, 'l) plan_entry list \<Rightarrow>
    ('d, 'l) plan_entry list res" where
  "try_split d st tables msk left dp =
     (let right = msk XOR left; L = dp ! left; R = dp ! right in
      case (pe_plan L, pe_plan R) of
        (Some l, Some r) \<Rightarrow>
          bindE (estimateJoinRows d st (tables ! ctz left) (tables ! ctz right)) (\<lambda>estRows.
          let c = costJoin d (pe_cost L) (pe_cost R) (pe_rows L) (pe_rows R) in
          if d_less d c (pe_cost (dp ! msk))
          then Inr (dp[msk := \<lparr>pe_cost = c, pe_rows = estRows, pe_plan = Some (Join_Node l r)\<rparr>])
          else Inr dp)
      | _ \<Rightarrow> Inr dp)"

lemma and_le: "m AND k \<le> (m :: nat)"
proof (induction m arbitrary: k rule: less_induct)
  case (less m)
  show ?case
  proof (cases "m = 0")
    case False
    then have "m div 2 AND k div 2 \<le> m div 2" by (intro less) simp
    moreover have "m AND k = of_bool (odd m \<and> odd k) + 2 * (m div 2 AND k div 2)" by (rule and_rec)
    ultimately show ?thesis by (cases "odd m") (auto elim!: oddE evenE)
  qed simp
qed

function split_loop :: "'d doubles \<Rightarrow> 'd statistics \<Rightarrow> string list \<Rightarrow> nat \<Rightarrow> nat \<Rightarrow> ('d, 'l) plan_entry list \<Rightarrow>
    ('d, 'l) plan_entry list res" where
  "split_loop d st tables msk left dp =
     (if left = 0 then Inr dp
      else bindE (try_split d st tables msk left dp) (split_loop d st tables msk ((left - 1) AND msk)))"
  by pat_completeness auto
termination
proof (relation "measure (\<lambda>(d, st, tables, msk, left, dp). left)", goal_cases)
  case (2 d st tables msk left dp x)
  then show ?case using and_le [of "left - 1" msk] by simp
qed simp

declare split_loop.simps [simp del]

fun larger_sets :: "'d doubles \<Rightarrow> 'd statistics \<Rightarrow> string list \<Rightarrow> nat list \<Rightarrow> ('d, 'l) plan_entry list \<Rightarrow>
    ('d, 'l) plan_entry list res" where
  "larger_sets d st tables [] dp = Inr dp"
| "larger_sets d st tables (msk # msks) dp =
     bindE (if msk AND (msk - 1) = 0 then Inr dp else split_loop d st tables msk ((msk - 1) AND msk) dp)
       (larger_sets d st tables msks)"

text \<open>With 31 tables the shifted \<open>int\<close> turns negative, and from 32 tables on the shift is undefined.\<close>

definition join_table :: "'d doubles \<Rightarrow> 'd statistics \<Rightarrow> string list \<Rightarrow> (string \<rightharpoonup> 'l option) \<Rightarrow> ('d, 'l) plan_entry list res" where
  "join_table d st tables scans =
     (let n = length tables in
      if n \<ge> 31 then Inl (Undefined_Behaviour ''shift'')
      else bindE (single_plans st scans tables 0 (replicate (2 ^ n) (no_entry d)))
             (larger_sets d st tables [1..<2 ^ n]))"

definition optimizeJoins :: "'d doubles \<Rightarrow> 'd statistics \<Rightarrow> string list \<Rightarrow> (string \<rightharpoonup> 'l option) \<Rightarrow> 'l join_plan option res" where
  "optimizeJoins d st tables scans =
     bindE (join_table d st tables scans) (\<lambda>dp. Inr (pe_plan (dp ! (2 ^ length tables - 1))))"

subsection \<open>The loop over the subsets of a mask\<close>

text \<open>The values that \<open>left\<close> takes.\<close>

function submasks :: "nat \<Rightarrow> nat \<Rightarrow> nat list" where
  "submasks msk left = (if left = 0 then [] else left # submasks msk ((left - 1) AND msk))"
  by pat_completeness auto
termination
proof (relation "measure (\<lambda>(msk, left). left)", goal_cases)
  case (2 msk left)
  then show ?case using and_le [of "left - 1" msk] by simp
qed simp

declare submasks.simps [simp del]

definition subset_mask :: "nat \<Rightarrow> nat \<Rightarrow> bool" where
  "subset_mask s msk \<longleftrightarrow> s AND msk = s"

lemma subset_div: "subset_mask s msk \<longleftrightarrow> (odd s \<longrightarrow> odd msk) \<and> subset_mask (s div 2) (msk div 2)"
proof -
  have e: "s AND msk = of_bool (odd s \<and> odd msk) + 2 * (s div 2 AND msk div 2)" by (rule and_rec)
  show ?thesis unfolding subset_mask_def e by (cases "odd s"; cases "odd msk") (auto elim!: oddE evenE, presburger?)
qed

lemma previous_subset:
  "subset_mask s msk \<Longrightarrow> subset_mask l msk \<Longrightarrow> s < l \<Longrightarrow> s \<le> (l - 1) AND msk"
proof (induction l arbitrary: s msk rule: less_induct)
  case (less l)
  have e: "(l - 1) AND msk = of_bool (odd (l - 1) \<and> odd msk) + 2 * ((l - 1) div 2 AND msk div 2)" by (rule and_rec)
  have sub: "subset_mask (s div 2) (msk div 2)" "subset_mask (l div 2) (msk div 2)" "odd s \<Longrightarrow> odd msk"
    using less.prems(1,2) subset_div by blast+
  show ?case
  proof (cases "odd l")
    case True
    then have "(l - 1) div 2 = l div 2" "even (l - 1)" by (auto elim!: oddE)
    moreover have "l div 2 AND msk div 2 = l div 2" using sub(2) by (simp add: subset_mask_def)
    ultimately have "(l - 1) AND msk = l - 1" using e True by (auto elim!: oddE)
    with less.prems(3) show ?thesis by simp
  next
    case False
    then have l: "(l - 1) div 2 = l div 2 - 1" "odd (l - 1)" "0 < l div 2" "s div 2 < l div 2"
      using less.prems(3) by (auto elim!: evenE)
    have "s div 2 \<le> (l div 2 - 1) AND msk div 2"
      by (rule less.IH [OF _ sub(1,2) l(4)]) (use l(3) in linarith)
    with e l(1,2) sub(3) show ?thesis by (cases "odd s") (auto elim!: oddE evenE)
  qed
qed

lemma and_subset: "subset_mask (m AND msk) msk"
  by (simp add: subset_mask_def and.assoc)

lemma submasks_all:
  "subset_mask l msk \<Longrightarrow> set (submasks msk l) = {s. subset_mask s msk \<and> 0 < s \<and> s \<le> l} \<and> distinct (submasks msk l)"
proof (induction l rule: less_induct)
  case (less l)
  show ?case
  proof (cases "l = 0")
    case True
    then show ?thesis by (auto simp: submasks.simps [of msk 0])
  next
    case False
    let ?p = "(l - 1) AND msk"
    have p: "?p < l" using and_le [of "l - 1" msk] False by simp
    note ih = less.IH [OF p and_subset]
    have "{s. subset_mask s msk \<and> 0 < s \<and> s \<le> l} = insert l {s. subset_mask s msk \<and> 0 < s \<and> s \<le> ?p}"
      using previous_subset [OF _ less.prems] less.prems p False by (auto simp: le_less)
    then show ?thesis using ih p False by (simp add: submasks.simps [of msk l])
  qed
qed

lemma submasks_mem: "s \<in> set (submasks msk l) \<Longrightarrow> subset_mask l msk \<Longrightarrow> subset_mask s msk \<and> 0 < s \<and> s \<le> l"
  using submasks_all [of l msk] by blast

subsection \<open>The entries of the table\<close>

lemma minus_mask: "subset_mask l m \<Longrightarrow> m XOR l = m - l \<and> l \<le> m"
proof (induction m arbitrary: l rule: less_induct)
  case (less m)
  show ?case
  proof (cases "m = 0")
    case True
    with less.prems show ?thesis by (simp add: subset_mask_def)
  next
    case False
    have s: "odd l \<longrightarrow> odd m" "subset_mask (l div 2) (m div 2)" using less.prems subset_div by blast+
    have i: "m div 2 XOR l div 2 = m div 2 - l div 2 \<and> l div 2 \<le> m div 2" by (rule less.IH [OF _ s(2)]) (use False in simp)
    have "m XOR l = of_bool (odd m \<noteq> odd l) + 2 * (m div 2 XOR l div 2)" by (rule xor_rec)
    with i s(1) show ?thesis by (cases "odd m"; cases "odd l") (auto elim!: oddE evenE)
  qed
qed

lemma subset_bits: "subset_mask l m \<Longrightarrow> bit l i \<Longrightarrow> bit m i"
  unfolding subset_mask_def by (metis bit_and_iff)

lemma ctz_less: "0 < m \<Longrightarrow> m < 2 ^ n \<Longrightarrow> ctz m < n"
proof (induction m arbitrary: n rule: less_induct)
  case (less m)
  show ?case
  proof (cases "odd m")
    case True
    then show ?thesis using less.prems by (cases n) (auto simp: ctz.simps [of m])
  next
    case False
    then obtain k where k: "n = Suc k" "0 < m div 2" "m div 2 < 2 ^ k" using less.prems by (cases n) auto
    then show ?thesis using less.IH [of "m div 2" k] False less.prems by (simp add: ctz.simps [of m])
  qed
qed

lemma power_mask: "0 < m \<Longrightarrow> m AND (m - 1) = 0 \<Longrightarrow> \<exists>i. m = 2 ^ i" for m :: nat
proof (induction m rule: less_induct)
  case (less m)
  have e: "m AND (m - 1) = of_bool (odd m \<and> odd (m - 1)) + 2 * (m div 2 AND (m - 1) div 2)" by (rule and_rec)
  show ?case
  proof (cases "odd m")
    case True
    then have "(m - 1) div 2 = m div 2" by (auto elim!: oddE)
    with e less.prems True have "m = 1" by (auto elim!: oddE)
    then show ?thesis by (intro exI [of _ 0]) simp
  next
    case False
    then have "(m - 1) div 2 = m div 2 - 1" "0 < m div 2" using less.prems(1) by (auto elim!: evenE)
    with e less.prems(2) less.IH [of "m div 2"] obtain i where "m div 2 = 2 ^ i" by auto
    with False have "m = 2 ^ Suc i" by (auto elim!: evenE)
    then show ?thesis by blast
  qed
qed

text \<open>What a split offers, and the better one of two entries; \<open>best\<close> is the offer that the loop takes.\<close>

definition offer :: "'d doubles \<Rightarrow> 'd statistics \<Rightarrow> string list \<Rightarrow> ('d, 'l) plan_entry list \<Rightarrow> nat \<Rightarrow> nat \<Rightarrow> ('d, 'l) plan_entry option" where
  "offer d st tables dp m left =
     (let L = dp ! left; R = dp ! (m XOR left) in
      case (pe_plan L, pe_plan R) of
        (Some l, Some r) \<Rightarrow> Some \<lparr>pe_cost = costJoin d (pe_cost L) (pe_cost R) (pe_rows L) (pe_rows R),
          pe_rows = scaled_rows d st (the (baseRowCount st (tables ! ctz left))) (the (baseRowCount st (tables ! ctz (m XOR left)))),
          pe_plan = Some (Join_Node l r)\<rparr>
      | _ \<Rightarrow> None)"

definition better :: "'d doubles \<Rightarrow> ('d, 'l) plan_entry option \<Rightarrow> ('d, 'l) plan_entry \<Rightarrow> ('d, 'l) plan_entry" where
  "better d e old = (case e of None \<Rightarrow> old | Some e \<Rightarrow> if d_less d (pe_cost e) (pe_cost old) then e else old)"

definition best :: "'d doubles \<Rightarrow> 'd statistics \<Rightarrow> string list \<Rightarrow> ('d, 'l) plan_entry list \<Rightarrow> nat \<Rightarrow> nat \<Rightarrow> ('d, 'l) plan_entry \<Rightarrow>
    ('d, 'l) plan_entry" where
  "best d st tables dp m l e = fold (\<lambda>left. better d (offer d st tables dp m left)) (submasks m l) e"

definition known :: "'d statistics \<Rightarrow> (string \<rightharpoonup> 'l option) \<Rightarrow> string list \<Rightarrow> bool" where
  "known st scans tables \<longleftrightarrow> (\<forall>t \<in> set tables. baseRowCount st t \<noteq> None \<and> (\<exists>p. scans t = Some (Some p)))"

abbreviation scan_at :: "(string \<rightharpoonup> 'l option) \<Rightarrow> string \<Rightarrow> 'l" where
  "scan_at scans t \<equiv> the (the (scans t))"

lemma split_range:
  assumes "subset_mask l m" "0 < l" "l < m"
  shows "0 < m XOR l" "m XOR l < m"
  using minus_mask [OF assms(1)] assms(2,3) by simp_all

lemma try_split_offer:
  assumes "known st scans tables" "subset_mask l m" "0 < l" "l < m" "m < 2 ^ length tables"
  shows "try_split d st tables m l dp = Inr (dp[m := better d (offer d st tables dp m l) (dp ! m)])"
proof -
  have "ctz l < length tables" "ctz (m XOR l) < length tables"
    using split_range [OF assms(2-4)] assms(3-5) by (auto intro: ctz_less)
  then have "tables ! ctz l \<in> set tables" "tables ! ctz (m XOR l) \<in> set tables" by simp_all
  then obtain a b where "baseRowCount st (tables ! ctz l) = Some a" "baseRowCount st (tables ! ctz (m XOR l)) = Some b"
    using assms(1) unfolding known_def by (metis not_None_eq)
  then show ?thesis
    by (auto simp: try_split_def offer_def better_def Let_def estimateJoinRows_def getRowCount_def split: option.split)
qed

lemma offer_update:
  assumes "subset_mask l m" "0 < l" "l < m"
  shows "offer d st tables (dp[m := e]) m l = offer d st tables dp m l"
  using split_range [OF assms] assms(3) by (simp add: offer_def Let_def)

lemma split_loop_best:
  "known st scans tables \<Longrightarrow> m < 2 ^ length tables \<Longrightarrow> length dp = 2 ^ length tables \<Longrightarrow> subset_mask l m \<Longrightarrow> l < m \<Longrightarrow>
     split_loop d st tables m l dp = Inr (dp[m := best d st tables dp m l (dp ! m)])"
proof (induction l arbitrary: dp rule: less_induct)
  case (less l)
  show ?case
  proof (cases "l = 0")
    case True
    then show ?thesis by (simp add: split_loop.simps [of d st tables m 0] submasks.simps [of m 0] best_def)
  next
    case False
    let ?p = "(l - 1) AND m" and ?e = "better d (offer d st tables dp m l) (dp ! m)"
    have p: "?p < l" using and_le [of "l - 1" m] False by simp
    have "split_loop d st tables m ?p (dp[m := ?e]) = Inr ((dp[m := ?e])[m := best d st tables (dp[m := ?e]) m ?p ((dp[m := ?e]) ! m)])"
      by (rule less.IH [OF p less.prems(1,2) _ and_subset]) (use less.prems(3,5) p in simp_all)
    moreover have "best d st tables (dp[m := ?e]) m ?p ((dp[m := ?e]) ! m) = best d st tables dp m ?p ?e"
    proof -
      have o: "offer d st tables (dp[m := ?e]) m left = offer d st tables dp m left" if "left \<in> set (submasks m ?p)" for left
      proof -
        note left = submasks_mem [OF that and_subset]
        with p less.prems(5) have "left < m" by linarith
        with left show ?thesis by (blast intro: offer_update)
      qed
      have e: "(dp[m := ?e]) ! m = ?e" using less.prems(2,3) by simp
      show ?thesis unfolding best_def e by (rule fold_cong) (simp_all only: o)
    qed
    moreover have "try_split d st tables m l dp = Inr (dp[m := ?e])"
      by (rule try_split_offer [OF less.prems(1,4)]) (use False less.prems(2,5) in simp_all)
    then have "split_loop d st tables m l dp = split_loop d st tables m ?p (dp[m := ?e])"
      by (subst split_loop.simps) (simp only: False if_False bindE_simps)
    moreover have "best d st tables dp m l (dp ! m) = best d st tables dp m ?p ?e"
      unfolding best_def by (subst submasks.simps) (simp only: False if_False fold_simps)
    ultimately show ?thesis by (simp only: list_update_overwrite)
  qed
qed

lemma best_cong:
  assumes "subset_mask l m" "l < m" "\<forall>j < m. dp ! j = dp' ! j"
  shows "best d st tables dp m l e = best d st tables dp' m l e"
proof -
  have "offer d st tables dp m left = offer d st tables dp' m left" if "left \<in> set (submasks m l)" for left
  proof -
    note left = submasks_mem [OF that assms(1)]
    with assms(2) have "left < m" by linarith
    with left split_range [of left m] assms(3) show ?thesis by (simp add: offer_def Let_def)
  qed
  then show ?thesis unfolding best_def by (intro fold_cong) simp_all
qed

lemma larger_sets_best:
  assumes known: "known st scans tables"
  shows "0 < k \<Longrightarrow> k \<le> 2 ^ length tables \<Longrightarrow> length dp = 2 ^ length tables \<Longrightarrow>
    \<forall>m. k \<le> m \<and> m < 2 ^ length tables \<and> m AND (m - 1) \<noteq> 0 \<longrightarrow> dp ! m = no_entry d \<Longrightarrow>
    \<exists>dp'. larger_sets d st tables [k..<2 ^ length tables] dp = Inr dp' \<and> length dp' = 2 ^ length tables \<and>
      (\<forall>m. m < k \<or> m AND (m - 1) = 0 \<longrightarrow> dp' ! m = dp ! m) \<and>
      (\<forall>m. k \<le> m \<and> m < 2 ^ length tables \<and> m AND (m - 1) \<noteq> 0 \<longrightarrow>
         dp' ! m = best d st tables dp' m ((m - 1) AND m) (no_entry d))"
proof (induction "2 ^ length tables - k" arbitrary: k dp)
  case 0
  then show ?case by (intro exI [of _ dp]) auto
next
  case (Suc j)
  then have k: "k < 2 ^ length tables" by simp
  let ?l = "(k - 1) AND k"
  define dp1 where "dp1 = (if k AND (k - 1) = 0 then dp else dp[k := best d st tables dp k ?l (dp ! k)])"
  have l: "subset_mask ?l k" "?l < k" using and_subset and_le [of "k - 1" k] Suc.prems(1) by (auto intro: le_less_trans)
  have "split_loop d st tables k ?l dp = Inr (dp[k := best d st tables dp k ?l (dp ! k)])"
    by (rule split_loop_best [OF known k Suc.prems(3) l])
  then have run: "larger_sets d st tables [k..<2 ^ length tables] dp = larger_sets d st tables [Suc k..<2 ^ length tables] dp1"
    using k by (simp add: upt_conv_Cons dp1_def)
  have same: "dp1 ! m = dp ! m" if "m \<noteq> k \<or> m AND (m - 1) = 0" for m using that by (auto simp: dp1_def)
  have j: "j = 2 ^ length tables - Suc k" using Suc.hyps(2) by simp
  have p: "0 < Suc k" "Suc k \<le> 2 ^ length tables" "length dp1 = 2 ^ length tables" using k Suc.prems(3) by (simp_all add: dp1_def)
  have e: "\<forall>m. Suc k \<le> m \<and> m < 2 ^ length tables \<and> m AND (m - 1) \<noteq> 0 \<longrightarrow> dp1 ! m = no_entry d"
    using Suc.prems(4) same by (metis Suc_leD not_less_eq_eq order_refl)
  obtain dp' where dp': "larger_sets d st tables [Suc k..<2 ^ length tables] dp1 = Inr dp'" "length dp' = 2 ^ length tables"
    "\<forall>m. m < Suc k \<or> m AND (m - 1) = 0 \<longrightarrow> dp' ! m = dp1 ! m"
    "\<forall>m. Suc k \<le> m \<and> m < 2 ^ length tables \<and> m AND (m - 1) \<noteq> 0 \<longrightarrow> dp' ! m = best d st tables dp' m ((m - 1) AND m) (no_entry d)"
    using Suc.hyps(1) [OF j p e] by blast
  have "dp' ! k = best d st tables dp' k ?l (no_entry d)" if n: "k AND (k - 1) \<noteq> 0"
  proof -
    have "dp' ! k = best d st tables dp k ?l (no_entry d)"
      using dp'(3) n k Suc.prems(3,4) by (simp add: dp1_def)
    also have "\<dots> = best d st tables dp' k ?l (no_entry d)"
      using dp'(3) same by (intro best_cong [OF l]) simp
    finally show ?thesis .
  qed
  with dp'(4) have "\<forall>m. k \<le> m \<and> m < 2 ^ length tables \<and> m AND (m - 1) \<noteq> 0 \<longrightarrow>
      dp' ! m = best d st tables dp' m ((m - 1) AND m) (no_entry d)"
    by (metis Suc_leI le_neq_implies_less)
  moreover have "\<forall>m. m < k \<or> m AND (m - 1) = 0 \<longrightarrow> dp' ! m = dp ! m"
    using dp'(3) same by (metis less_SucI less_irrefl)
  ultimately show ?case unfolding run using dp'(1,2) by blast
qed

lemma single_plans_ok:
  "known st scans ts \<Longrightarrow> 2 ^ (i + length ts) \<le> length dp \<Longrightarrow>
    \<exists>dp'. single_plans st scans ts i dp = Inr dp' \<and> length dp' = length dp \<and>
      (\<forall>j < length ts. dp' ! (2 ^ (i + j)) = \<lparr>pe_cost = the (baseRowCount st (ts ! j)), pe_rows = the (baseRowCount st (ts ! j)),
         pe_plan = Some (Scan_Node (scan_at scans (ts ! j)))\<rparr>) \<and>
      (\<forall>m. (\<forall>j < length ts. m \<noteq> 2 ^ (i + j)) \<longrightarrow> dp' ! m = dp ! m)"
proof (induction ts arbitrary: i dp)
  case (Cons t ts)
  obtain c p where t: "baseRowCount st t = Some c" "scans t = Some (Some p)" using Cons.prems(1) by (auto simp: known_def)
  let ?dp = "dp[2 ^ i := \<lparr>pe_cost = c, pe_rows = c, pe_plan = Some (Scan_Node p)\<rparr>]"
  have "known st scans ts" "2 ^ (Suc i + length ts) \<le> length ?dp" using Cons.prems by (simp_all add: known_def)
  then obtain dp' where dp': "single_plans st scans ts (Suc i) ?dp = Inr dp'" "length dp' = length ?dp"
    "\<forall>j < length ts. dp' ! (2 ^ (Suc i + j)) = \<lparr>pe_cost = the (baseRowCount st (ts ! j)), pe_rows = the (baseRowCount st (ts ! j)),
         pe_plan = Some (Scan_Node (scan_at scans (ts ! j)))\<rparr>"
    "\<forall>m. (\<forall>j < length ts. m \<noteq> 2 ^ (Suc i + j)) \<longrightarrow> dp' ! m = ?dp ! m"
    using Cons.IH by blast
  have "(2 :: nat) ^ i < 2 ^ (i + length (t # ts))" by (rule power_strict_increasing) simp_all
  then have i: "2 ^ i < length dp" using Cons.prems(2) by linarith
  have "(2 :: nat) ^ i \<noteq> 2 ^ (Suc i + j)" for j by (simp only: power_inject_exp)
  then have z: "dp' ! (2 ^ i) = ?dp ! (2 ^ i)" using dp'(4) by blast
  have "dp' ! (2 ^ (i + j)) = \<lparr>pe_cost = the (baseRowCount st ((t # ts) ! j)), pe_rows = the (baseRowCount st ((t # ts) ! j)),
         pe_plan = Some (Scan_Node (scan_at scans ((t # ts) ! j)))\<rparr>" if "j < length (t # ts)" for j
    using that dp'(3) z t i by (cases j) simp_all
  moreover have "dp' ! m = dp ! m" if "\<forall>j < length (t # ts). m \<noteq> 2 ^ (i + j)" for m
  proof -
    have "\<forall>j < length ts. m \<noteq> 2 ^ (Suc i + j)" using that by (metis add_Suc_shift length_Cons Suc_less_eq)
    moreover have "m \<noteq> 2 ^ i" using that by (metis add_0_right length_Cons zero_less_Suc)
    ultimately show ?thesis using dp'(4) by simp
  qed
  ultimately show ?case using dp'(1,2) t
    by (intro exI [of _ dp']) (simp add: costSeqScan_def getRowCount_def)
qed simp

lemma power_is_mask: "(2 :: nat) ^ i AND (2 ^ i - 1) = 0"
proof (induction i)
  case (Suc i)
  have "(2 ^ Suc i - 1) div 2 = (2 ^ i - 1 :: nat)" by (cases "(2 :: nat) ^ i") auto
  moreover have "(2 :: nat) ^ Suc i AND (2 ^ Suc i - 1) =
      of_bool (odd ((2 :: nat) ^ Suc i) \<and> odd ((2 :: nat) ^ Suc i - 1)) + 2 * (2 ^ Suc i div 2 AND (2 ^ Suc i - 1) div 2)"
    by (rule and_rec)
  ultimately show ?case using Suc by simp
qed simp

lemma join_table_entries:
  assumes known: "known st scans tables" and n: "length tables < 31"
  obtains dp where "join_table d st tables scans = Inr dp" "length dp = 2 ^ length tables"
    "\<And>i. i < length tables \<Longrightarrow> dp ! (2 ^ i) = \<lparr>pe_cost = the (baseRowCount st (tables ! i)), pe_rows = the (baseRowCount st (tables ! i)),
         pe_plan = Some (Scan_Node (scan_at scans (tables ! i)))\<rparr>"
    "\<And>m. 0 < m \<Longrightarrow> m < 2 ^ length tables \<Longrightarrow> \<nexists>i. m = 2 ^ i \<Longrightarrow> dp ! m = best d st tables dp m ((m - 1) AND m) (no_entry d)"
proof -
  let ?N = "2 ^ length tables" and ?dp = "replicate (2 ^ length tables) (no_entry d)"
  obtain dp1 where s: "single_plans st scans tables 0 ?dp = Inr dp1" "length dp1 = ?N"
    "\<forall>j < length tables. dp1 ! (2 ^ j) = \<lparr>pe_cost = the (baseRowCount st (tables ! j)), pe_rows = the (baseRowCount st (tables ! j)),
         pe_plan = Some (Scan_Node (scan_at scans (tables ! j)))\<rparr>"
    "\<forall>m. (\<forall>j < length tables. m \<noteq> 2 ^ j) \<longrightarrow> dp1 ! m = ?dp ! m"
    using single_plans_ok [OF known, of 0 ?dp] by auto
  have e: "\<forall>m :: nat. 1 \<le> m \<and> m < ?N \<and> m AND (m - 1) \<noteq> 0 \<longrightarrow> dp1 ! m = no_entry d"
  proof (intro allI impI)
    fix m :: nat assume m: "1 \<le> m \<and> m < ?N \<and> m AND (m - 1) \<noteq> 0"
    then have "\<forall>j < length tables. m \<noteq> 2 ^ j" using power_is_mask by metis
    with s(4) m show "dp1 ! m = no_entry d" by simp
  qed
  obtain dp where dp: "larger_sets d st tables [1..<?N] dp1 = Inr dp" "length dp = ?N"
    "\<forall>m. m < 1 \<or> m AND (m - 1) = 0 \<longrightarrow> dp ! m = dp1 ! m"
    "\<forall>m. 1 \<le> m \<and> m < ?N \<and> m AND (m - 1) \<noteq> 0 \<longrightarrow> dp ! m = best d st tables dp m ((m - 1) AND m) (no_entry d)"
    using larger_sets_best [OF known zero_less_one _ s(2) e] by auto
  show thesis
  proof (rule that)
    show "join_table d st tables scans = Inr dp" using n s(1) dp(1) by (simp add: join_table_def)
    show "dp ! (2 ^ i) = \<lparr>pe_cost = the (baseRowCount st (tables ! i)), pe_rows = the (baseRowCount st (tables ! i)),
         pe_plan = Some (Scan_Node (scan_at scans (tables ! i)))\<rparr>" if "i < length tables" for i
      using that s(3) dp(3) power_is_mask [of i] by simp
    show "dp ! m = best d st tables dp m ((m - 1) AND m) (no_entry d)" if "0 < m" "m < ?N" "\<nexists>i. m = 2 ^ i" for m
    proof -
      have "m AND (m - 1) \<noteq> 0" using that(1,3) power_mask by blast
      moreover have "1 \<le> m" using that(1) by simp
      ultimately show ?thesis using that(2) dp(4) by blast
    qed
  qed (rule dp(2))
qed

subsection \<open>Plans and costs\<close>

fun leaves :: "'l join_plan \<Rightarrow> 'l multiset" where
  "leaves (Scan_Node s) = {#s#}"
| "leaves (Join_Node l r) = leaves l + leaves r"

definition scans_of :: "(string \<rightharpoonup> 'l option) \<Rightarrow> string list \<Rightarrow> nat \<Rightarrow> 'l multiset" where
  "scans_of scans tables m = image_mset (\<lambda>i. scan_at scans (tables ! i)) (mset_set {i. i < length tables \<and> bit m i})"

lemma scans_of_split:
  assumes "subset_mask l m"
  shows "scans_of scans tables l + scans_of scans tables (m XOR l) = scans_of scans tables m"
proof -
  let ?b = "\<lambda>m. {i. i < length tables \<and> bit m i}"
  have u: "?b l \<union> ?b (m XOR l) = ?b m" "?b l \<inter> ?b (m XOR l) = {}"
    using subset_bits [OF assms] by (auto simp: bit_xor_iff)
  have "mset_set (?b l \<union> ?b (m XOR l)) = mset_set (?b l) + mset_set (?b (m XOR l))"
    by (rule mset_set_Union) (simp_all add: u(2))
  then show ?thesis by (simp add: scans_of_def u(1))
qed

lemma fold_better:
  assumes "\<And>l. l \<in> set ls \<Longrightarrow> \<exists>e. f l = Some e \<and> Q e" "Q e0 \<or> (ls \<noteq> [] \<and> (\<forall>l \<in> set ls. \<forall>e. f l = Some e \<longrightarrow> d_less d (pe_cost e) (pe_cost e0)))"
  shows "Q (fold (\<lambda>l. better d (f l)) ls e0)"
  using assms
proof (induction ls arbitrary: e0)
  case (Cons l ls)
  obtain e where "f l = Some e" "Q e" using Cons.prems(1) [of l] by auto
  with Cons.prems(2) have "Q (better d (f l) e0)" by (auto simp: better_def)
  with Cons show ?case by simp
qed simp

text \<open>The cost of a split, and that no cost of the run reaches infinity.\<close>

definition split_cost :: "'d doubles \<Rightarrow> ('d, 'l) plan_entry list \<Rightarrow> nat \<Rightarrow> nat \<Rightarrow> 'd" where
  "split_cost d dp m l =
     costJoin d (pe_cost (dp ! l)) (pe_cost (dp ! (m XOR l))) (pe_rows (dp ! l)) (pe_rows (dp ! (m XOR l)))"

definition costs_finite :: "'d doubles \<Rightarrow> ('d, 'l) plan_entry list \<Rightarrow> bool" where
  "costs_finite d dp \<longleftrightarrow> (\<forall>m \<in> set [0..<length dp]. \<forall>l \<in> set [1..<m]. subset_mask l m \<longrightarrow> d_less d (split_cost d dp m l) (d_infinity d))"

lemma offer_some:
  assumes "pe_plan (dp ! l) = Some p" "pe_plan (dp ! (m XOR l)) = Some q"
  obtains e where "offer d st tables dp m l = Some e" "pe_plan e = Some (Join_Node p q)"
    "pe_cost e = split_cost d dp m l"
  using assms that by (simp add: offer_def split_cost_def Let_def)

lemma offer_cost: "offer d st tables dp m l = Some e \<Longrightarrow> pe_cost e = split_cost d dp m l"
  by (auto simp: offer_def split_cost_def Let_def split: option.splits)

lemma offer_finite:
  assumes "costs_finite d dp" "m < length dp" "subset_mask l m \<and> 0 < l \<and> l < m" "offer d st tables dp m l = Some e"
  shows "d_less d (pe_cost e) (pe_cost (no_entry d))"
  using assms(1-3) unfolding offer_cost [OF assms(4)] costs_finite_def no_entry_def by simp

text \<open>Between two neighbouring sets there is a proper part.\<close>

lemma proper_parts:
  assumes "0 < m" "\<nexists>i. m = 2 ^ i"
  shows "set (submasks m ((m - 1) AND m)) = {l. subset_mask l m \<and> 0 < l \<and> l < m}" "submasks m ((m - 1) AND m) \<noteq> []"
proof -
  let ?l = "(m - 1) AND m"
  have ne: "?l \<noteq> 0" using power_mask [OF assms(1)] assms(2) by (auto simp: and.commute)
  then show "submasks m ?l \<noteq> []" by (subst submasks.simps) simp
  have "subset_mask m m" by (simp add: subset_mask_def)
  then have "l \<le> ?l" if "subset_mask l m" "l < m" for l using previous_subset that by blast
  moreover have "?l < m" using and_le [of "m - 1" m] assms(1) by linarith
  ultimately show "set (submasks m ?l) = {l. subset_mask l m \<and> 0 < l \<and> l < m}"
    using submasks_all [where l = ?l and msk = m, OF and_subset] by (auto intro: le_less_trans)
qed

lemma entries_plan:
  assumes dp: "length dp = 2 ^ length tables"
    "\<And>i. i < length tables \<Longrightarrow> pe_plan (dp ! (2 ^ i)) = Some (Scan_Node (scan_at scans (tables ! i)))"
    "\<And>m. 0 < m \<Longrightarrow> m < 2 ^ length tables \<Longrightarrow> \<nexists>i. m = 2 ^ i \<Longrightarrow> dp ! m = best d st tables dp m ((m - 1) AND m) (no_entry d)"
    and fin: "costs_finite d dp"
  shows "0 < m \<Longrightarrow> m < 2 ^ length tables \<Longrightarrow> \<exists>p. pe_plan (dp ! m) = Some p \<and> leaves p = scans_of scans tables m"
proof (induction m rule: less_induct)
  case (less m)
  show ?case
  proof (cases "\<exists>i. m = 2 ^ i")
    case True
    then obtain i where i: "m = 2 ^ i" by blast
    with less.prems(2) have "i < length tables" by simp
    moreover from this have "{j. j < length tables \<and> bit m j} = {i}" by (auto simp: i bit_exp_iff)
    ultimately show ?thesis using dp(2) i by (simp add: scans_of_def)
  next
    case False
    let ?Q = "\<lambda>e. \<exists>p. pe_plan e = Some p \<and> leaves p = scans_of scans tables m"
    note parts = proper_parts [OF less.prems(1) False]
    have o: "\<exists>e. offer d st tables dp m l = Some e \<and> ?Q e" if l: "subset_mask l m" "0 < l" "l < m" for l
    proof -
      note r = split_range [OF l]
      obtain p q where pq: "pe_plan (dp ! l) = Some p" "leaves p = scans_of scans tables l"
        "pe_plan (dp ! (m XOR l)) = Some q" "leaves q = scans_of scans tables (m XOR l)"
        using less.IH [OF l(3,2)] less.IH [OF r(2,1)] l(3) r(2) less.prems(2) by auto
      obtain e where "offer d st tables dp m l = Some e" "pe_plan e = Some (Join_Node p q)"
        by (rule offer_some [OF pq(1,3)])
      with pq(2,4) scans_of_split [OF l(1), of scans tables] show ?thesis by simp
    qed
    have f: "d_less d (pe_cost e) (pe_cost (no_entry d))"
      if "l \<in> set (submasks m ((m - 1) AND m))" "offer d st tables dp m l = Some e" for l e
      by (rule offer_finite [OF fin _ _ that(2)]) (use that(1) parts(1) dp(1) less.prems(2) in simp_all)
    have "\<exists>e. offer d st tables dp m l = Some e \<and> ?Q e" if "l \<in> set (submasks m ((m - 1) AND m))" for l
      using that parts(1) o by blast
    moreover have "?Q (no_entry d) \<or> (submasks m ((m - 1) AND m) \<noteq> [] \<and> (\<forall>l \<in> set (submasks m ((m - 1) AND m)). \<forall>e.
        offer d st tables dp m l = Some e \<longrightarrow> d_less d (pe_cost e) (pe_cost (no_entry d))))"
      using parts(2) f by blast
    ultimately have "?Q (best d st tables dp m ((m - 1) AND m) (no_entry d))"
      unfolding best_def by (rule fold_better [where Q = ?Q])
    then show ?thesis using dp(3) [OF less.prems False] by simp
  qed
qed

lemma all_scans: "scans_of scans tables (2 ^ length tables - 1) = image_mset (scan_at scans) (mset tables)"
proof -
  have "{i. i < length tables \<and> bit ((2 :: nat) ^ length tables - 1) i} = {0..<length tables}"
    by (auto simp: mask_eq_exp_minus_1 [symmetric, where 'a = nat] bit_mask_iff simp del: One_nat_def)
  then have "scans_of scans tables (2 ^ length tables - 1) = mset (map (\<lambda>i. scan_at scans (tables ! i)) [0..<length tables])"
    by (simp add: scans_of_def)
  also have "map (\<lambda>i. scan_at scans (tables ! i)) [0..<length tables] = map (scan_at scans) tables"
    by (rule nth_equalityI) simp_all
  finally show ?thesis by simp
qed

text \<open>
  C22: the optimizer finds a plan for every list of fewer than 31 known tables, and its leaves are the scans of
  the tables, each as often as its table is listed, when no cost of the run reaches infinity.
\<close>
theorem join_plan_complete:
  assumes "known st scans tables" "tables \<noteq> []" "length tables < 31"
    and "join_table d st tables scans = Inr dp" "costs_finite d dp"
  shows "\<exists>p. optimizeJoins d st tables scans = Inr (Some p) \<and> leaves p = image_mset (scan_at scans) (mset tables)"
proof -
  obtain dp' where dp': "join_table d st tables scans = Inr dp'" "length dp' = 2 ^ length tables"
    "\<And>i. i < length tables \<Longrightarrow> dp' ! (2 ^ i) = \<lparr>pe_cost = the (baseRowCount st (tables ! i)), pe_rows = the (baseRowCount st (tables ! i)),
         pe_plan = Some (Scan_Node (scan_at scans (tables ! i)))\<rparr>"
    "\<And>m. 0 < m \<Longrightarrow> m < 2 ^ length tables \<Longrightarrow> \<nexists>i. m = 2 ^ i \<Longrightarrow> dp' ! m = best d st tables dp' m ((m - 1) AND m) (no_entry d)"
    by (rule join_table_entries [OF assms(1,3), where d = d]) (rule that)
  have e: "dp' = dp" using dp'(1) assms(4) by simp
  have "1 < (2 :: nat) ^ length tables" by (rule one_less_power) (use assms(2) in simp_all)
  then have r: "0 < (2 :: nat) ^ length tables - 1" "(2 :: nat) ^ length tables - 1 < 2 ^ length tables" by linarith+
  have "\<exists>p. pe_plan (dp' ! (2 ^ length tables - 1)) = Some p \<and> leaves p = scans_of scans tables (2 ^ length tables - 1)"
  proof (rule entries_plan [OF dp'(2) _ dp'(4) _ r])
    show "pe_plan (dp' ! (2 ^ i)) = Some (Scan_Node (scan_at scans (tables ! i)))" if "i < length tables" for i
      using dp'(3) [OF that] by simp
    show "costs_finite d dp'" unfolding e by (rule assms(5))
  qed
  then obtain p where "pe_plan (dp ! (2 ^ length tables - 1)) = Some p" "leaves p = scans_of scans tables (2 ^ length tables - 1)"
    unfolding e by blast
  then show ?thesis using assms(4) by (simp add: optimizeJoins_def all_scans del: One_nat_def)
qed

definition sample_doubles :: "int doubles" where
  "sample_doubles = \<lparr>d_less = (<), d_plus = (+), d_times = (*), d_zero = 0, d_infinity = 1000000\<rparr>"

definition sample_statistics :: "int statistics" where
  "sample_statistics = setRowCount ''a'' 10 (setRowCount ''b'' 20 (setRowCount ''c'' 5 \<lparr>baseRowCount = Map.empty, joinSelectivity = 1\<rparr>))"

definition sample_scans :: "string \<rightharpoonup> nat option" where
  "sample_scans = [''a'' \<mapsto> Some 1, ''b'' \<mapsto> Some 2, ''c'' \<mapsto> Some 3]"

definition sample_tables :: "string list" where
  "sample_tables = [''a'', ''b'', ''c'']"

definition sample_table :: "(int, nat) plan_entry list" where
  "sample_table = (case join_table sample_doubles sample_statistics sample_tables sample_scans of Inr dp \<Rightarrow> dp | Inl _ \<Rightarrow> [])"

lemma sample_known: "known sample_statistics sample_scans sample_tables"
  by (simp add: known_def sample_statistics_def setRowCount_def sample_scans_def sample_tables_def)

lemma sample_run: "join_table sample_doubles sample_statistics sample_tables sample_scans = Inr sample_table"
proof -
  have "length sample_tables < 31" by (simp add: sample_tables_def)
  then obtain dp where "join_table sample_doubles sample_statistics sample_tables sample_scans = Inr dp"
    using join_table_entries [OF sample_known] by blast
  then show ?thesis by (simp add: sample_table_def)
qed

lemma sample_finite: "costs_finite sample_doubles sample_table"
  by code_simp

theorem join_plan_complete_witness:
  "\<exists>p. optimizeJoins sample_doubles sample_statistics sample_tables sample_scans = Inr (Some p) \<and>
     leaves p = image_mset (scan_at sample_scans) (mset sample_tables)"
  by (rule join_plan_complete [OF sample_known _ _ sample_run sample_finite]) (simp_all add: sample_tables_def)

text \<open>The fold keeps an entry that no offer seen so far undercuts.\<close>

lemma fold_least:
  assumes "\<And>a. \<not> d_less d a a" "\<And>a b c. d_less d a b \<Longrightarrow> d_less d b c \<Longrightarrow> d_less d a c"
    and "\<forall>e \<in> S. \<not> d_less d (pe_cost e) (pe_cost e0)"
  shows "\<forall>e. e \<in> S \<or> Some e \<in> f ` set ls \<longrightarrow> \<not> d_less d (pe_cost e) (pe_cost (fold (\<lambda>l. better d (f l)) ls e0))"
  using assms(3)
proof (induction ls arbitrary: S e0)
  case (Cons l ls)
  let ?e = "better d (f l) e0" and ?S = "S \<union> {e. f l = Some e}"
  have "\<forall>e \<in> ?S. \<not> d_less d (pe_cost e) (pe_cost ?e)"
    using Cons.prems assms(1,2) by (auto simp: better_def split: option.split)
  from Cons.IH [OF this] have "\<forall>e. e \<in> ?S \<or> Some e \<in> f ` set ls \<longrightarrow> \<not> d_less d (pe_cost e) (pe_cost (fold (\<lambda>l. better d (f l)) (l # ls) e0))"
    by (simp only: fold_simps)
  moreover have "e \<in> ?S \<or> Some e \<in> f ` set ls" if "e \<in> S \<or> Some e \<in> f ` set (l # ls)" for e using that by auto
  ultimately show ?case by blast
qed simp

text \<open>
  C23: in the table of the search the cost of every set of at least two tables is the cost of one of its splits,
  and no split of the set costs less.
\<close>
theorem join_costs_minimal:
  assumes "known st scans tables" "length tables < 31"
    and "\<And>a. \<not> d_less d a a" "\<And>a b c. d_less d a b \<Longrightarrow> d_less d b c \<Longrightarrow> d_less d a c"
    and "join_table d st tables scans = Inr dp" "costs_finite d dp"
    and "0 < m" "m < 2 ^ length tables" "\<nexists>i. m = 2 ^ i"
  shows "(\<exists>l. subset_mask l m \<and> 0 < l \<and> l < m \<and> pe_cost (dp ! m) = split_cost d dp m l) \<and>
    (\<forall>l. subset_mask l m \<and> 0 < l \<and> l < m \<longrightarrow> \<not> d_less d (split_cost d dp m l) (pe_cost (dp ! m)))"
proof -
  obtain dp' where "join_table d st tables scans = Inr dp'" and len: "length dp' = 2 ^ length tables"
    and single: "\<And>i. i < length tables \<Longrightarrow> dp' ! (2 ^ i) = \<lparr>pe_cost = the (baseRowCount st (tables ! i)), pe_rows = the (baseRowCount st (tables ! i)),
         pe_plan = Some (Scan_Node (scan_at scans (tables ! i)))\<rparr>"
    and larger: "\<And>m. 0 < m \<Longrightarrow> m < 2 ^ length tables \<Longrightarrow> \<nexists>i. m = 2 ^ i \<Longrightarrow> dp' ! m = best d st tables dp' m ((m - 1) AND m) (no_entry d)"
    by (rule join_table_entries [OF assms(1,2), where d = d]) (rule that)
  with assms(5) have e: "dp' = dp" by simp
  note parts = proper_parts [OF assms(7,9)] and ls = larger [OF assms(7-9), unfolded e best_def]
  let ?f = "offer d st tables dp m" and ?ls = "submasks m ((m - 1) AND m)"
  have plan: "\<exists>p. pe_plan (dp ! k) = Some p" if "0 < k" "k < 2 ^ length tables" for k
    using entries_plan [OF len _ larger _ that, of scans] single assms(6) unfolding e by auto
  have o: "\<exists>e. ?f l = Some e \<and> pe_cost e = split_cost d dp m l" if "l \<in> set ?ls" for l
  proof -
    have l: "subset_mask l m" "0 < l" "l < m" using that parts(1) by blast+
    note r = split_range [OF l]
    obtain p q where "pe_plan (dp ! l) = Some p" "pe_plan (dp ! (m XOR l)) = Some q"
      using plan [OF l(2)] plan [OF r(1)] l(3) r(2) assms(8) by (meson less_trans)
    then show ?thesis by (rule offer_some) blast
  qed
  have "\<exists>l \<in> set ?ls. pe_cost (dp ! m) = split_cost d dp m l"
    unfolding ls
  proof (rule fold_better [where Q = "\<lambda>e. \<exists>l \<in> set ?ls. pe_cost e = split_cost d dp m l"])
    show "\<exists>e. ?f l = Some e \<and> (\<exists>l \<in> set ?ls. pe_cost e = split_cost d dp m l)" if "l \<in> set ?ls" for l
      using o [OF that] that by blast
    have "d_less d (pe_cost e) (pe_cost (no_entry d))" if "l \<in> set ?ls" "?f l = Some e" for l e
      by (rule offer_finite [OF assms(6) _ _ that(2)]) (use that(1) parts(1) len e assms(8) in simp_all)
    with parts(2) show "(\<exists>l \<in> set ?ls. pe_cost (no_entry d) = split_cost d dp m l) \<or>
        (?ls \<noteq> [] \<and> (\<forall>l \<in> set ?ls. \<forall>e. ?f l = Some e \<longrightarrow> d_less d (pe_cost e) (pe_cost (no_entry d))))"
      by blast
  qed
  moreover have "\<not> d_less d (split_cost d dp m l) (pe_cost (dp ! m))" if l: "l \<in> set ?ls" for l
  proof -
    obtain e where e: "?f l = Some e" "pe_cost e = split_cost d dp m l" using o [OF l] by blast
    have "\<forall>e. e \<in> {} \<or> Some e \<in> ?f ` set ?ls \<longrightarrow> \<not> d_less d (pe_cost e) (pe_cost (fold (\<lambda>l. better d (?f l)) ?ls (no_entry d)))"
      by (rule fold_least [OF assms(3,4)]) simp_all
    moreover have "Some e \<in> ?f ` set ?ls" using l e(1) by (metis image_eqI)
    ultimately show ?thesis unfolding ls using e(2) by (metis (no_types))
  qed
  ultimately show ?thesis using parts(1) by blast
qed

theorem join_costs_minimal_witness:
  "(\<exists>l. subset_mask l 7 \<and> 0 < l \<and> l < 7 \<and> pe_cost (sample_table ! 7) = split_cost sample_doubles sample_table 7 l) \<and>
    pe_cost (sample_table ! 7) = 120"
proof
  have "\<nexists>i. (7 :: nat) = 2 ^ i" 
  proof
    assume "\<exists>i. (7 :: nat) = 2 ^ i"
    then obtain i where "(7 :: nat) = 2 ^ i" by blast
    then show False by (cases i) (auto, presburger)
  qed
  then show "\<exists>l. subset_mask l 7 \<and> 0 < l \<and> l < 7 \<and> pe_cost (sample_table ! 7) = split_cost sample_doubles sample_table 7 l"
    using join_costs_minimal [OF sample_known _ _ _ sample_run sample_finite, of 7]
    by (simp add: sample_tables_def sample_doubles_def)
qed code_simp

end
