(* ===== verification/Program.thy ===== *)
theory Program
  imports QueryEngine
begin

section \<open>The program\<close>

text \<open>
  \<open>main.cpp\<close>: the table \<open>users\<close> is registered, the plan of \<open>SELECT id, name FROM users WHERE id > 10\<close> is
  built by hand, and the rows are printed. The result of \<open>main_query\<close> is what was printed, and how the
  loop that prints ended. The private member \<open>colIdx_\<close> that \<open>main\<close> reads is the column index of the scan.
\<close>

definition users_columns :: "Column list" where
  "users_columns = [\<lparr>cname = ''id'', ctype = INT_T, clength = 0\<rparr>, \<lparr>cname = ''name'', ctype = STRING_T, clength = 32\<rparr>]"

definition register_users :: "('a engine_state_scheme, unit) io" where
  "register_users = bindM (liftM (new_Schema users_columns)) (\<lambda>userSchema.
     registerTable ''users'' userSchema ''users.dat'' ''users.idx'' ''id'')"

definition users_predicate :: Expr where
  "users_predicate = Binary_Op ''>'' (Column_Ref ''users.id'') (Int_Literal 10)"

definition users_items :: "Expr list" where
  "users_items = [Column_Ref ''users.id'', Column_Ref ''users.name'']"

definition print_row :: "row \<Rightarrow> string res" where
  "print_row row =
     bindE (field_at row 0) (\<lambda>v. bindE (case v of FInt i \<Rightarrow> Inr i | _ \<Rightarrow> Inl Bad_Variant_Access) (\<lambda>i.
     bindE (field_at row 1) (\<lambda>v. bindE (case v of FStr t \<Rightarrow> Inr t | _ \<Rightarrow> Inl Bad_Variant_Access) (\<lambda>t.
       Inr (''id='' @ to_string (sint i) @ ''  name='' @ t @ [newline])))))"

fun print_rows :: "row list \<Rightarrow> string \<times> unit res" where
  "print_rows [] = ([], Inr ())"
| "print_rows (row # rows) = (case print_row row of
     Inl e \<Rightarrow> ([], Inl e)
   | Inr t \<Rightarrow> (t @ fst (print_rows rows), snd (print_rows rows)))"

definition main_query :: "registry \<Rightarrow> nat \<Rightarrow> ('a qe_state_scheme, string \<times> unit res) io" where
  "main_query reg n =
     bindM (getsM qcatalog) (\<lambda>cat.
     bindM (liftM (new_TableScan cat ''users'')) (\<lambda>scan.
     bindM (op_open (scanTable, fetchRecord) reg n scan) (\<lambda>scan.
     bindM (liftM (getTable cat ''users'')) (\<lambda>schema.
       let colIdx = index_columns ''users'' (scolumns schema) 0 Map.empty;
           filter = Filter_Op (op_close scan) users_predicate colIdx;
           proj = Project_Op filter users_items colIdx in
       bindM (execute (scanTable, fetchRecord) reg n proj) (\<lambda>rows. retM (print_rows rows))))))"

definition main_program :: "registry \<Rightarrow> nat \<Rightarrow> ('a qe_state_scheme, string \<times> unit res) io" where
  "main_program reg n = bindM register_users (\<lambda>_. main_query reg n)"

subsection \<open>What is printed\<close>

definition user_line :: "row \<Rightarrow> string" where
  "user_line row = (case row of [FInt i, FStr t] \<Rightarrow> ''id='' @ to_string (sint i) @ ''  name='' @ t @ [newline] | _ \<Rightarrow> [])"

definition id_above_10 :: "row \<Rightarrow> bool" where
  "id_above_10 row = (case row of [FInt i, FStr t] \<Rightarrow> 10 < sint i | _ \<Rightarrow> False)"

lemma users_row: "row_ok schema row \<Longrightarrow> scolumns schema = users_columns \<Longrightarrow> \<exists>i t. row = [FInt i, FStr t]"
  by (auto simp: row_ok_def users_columns_def list_all2_Cons1 elim!: fits.elims)

lemma users_index: "scan_index ''users'' schema = [''users.id'' \<mapsto> 0, ''users.name'' \<mapsto> 1]" if "scolumns schema = users_columns"
  using that by (simp add: users_columns_def qual_name_def)

lemma users_values:
  assumes "scolumns schema = users_columns"
  shows "eval_args reg [FInt i, FStr t] (scan_index ''users'' schema) users_items = Inr [FInt i, FStr t]"
    "evalBoolean reg [FInt i, FStr t] (scan_index ''users'' schema) users_predicate = Inr (id_above_10 [FInt i, FStr t])"
  unfolding users_index [OF assms] users_items_def users_predicate_def
  by (simp_all add: field_at_def value_op_def int_op_def of_bool32_def truth_def id_above_10_def)

lemma same_rows: "list_all2 (\<lambda>row vs. f row = Inr vs) rows out \<Longrightarrow> (\<And>row. row \<in> set rows \<Longrightarrow> f row = Inr row) \<Longrightarrow> out = rows"
  by (induction rows out rule: list_all2_induct) auto

lemma print_users:
  "(\<And>row. row \<in> set rows \<Longrightarrow> \<exists>i t. row = [FInt i, FStr t]) \<Longrightarrow> print_rows rows = (concat (map user_line rows), Inr ())"
proof (induction rows)
  case (Cons row rows)
  then obtain i t where "row = [FInt i, FStr t]" by (meson list.set_intros(1))
  with Cons show ?case by (simp add: print_row_def field_at_def user_line_def)
qed simp

lemma ex_users:
  obtains ti and s :: qe_state where "db_inv {4, 3} [''users'' \<mapsto> ti] (\<lambda>_. 1) (\<lambda>_. {11}) s"
    "new_Schema users_columns = Inr (tschema ti)"
    "db_rows {4, 3} [''users'' \<mapsto> ti] s = [(''users'', RecordID 0 0) \<mapsto> [FInt 11, FStr ''bob'']]"
    "getTable (qcatalog s) ''users'' = Inr (tschema ti)"
proof -
  let ?sc = "\<lparr>scolumns = users_columns, srecordSize = 36\<rparr>"
  have sc: "new_Schema users_columns = Inr ?sc" "schema_ok ?sc"
    by (simp_all add: new_Schema_ok schema_ok_def users_columns_def width_def)
  have a: "getRecordSize ?sc + 5 \<le> PAGE_SIZE" "pk_position ''id'' (scolumns ?sc) 0 = int 0"
    by (simp_all add: getRecordSize_def PAGE_SIZE_def users_columns_def)
  have b: "\<forall>k \<ge> nextFileId ex_engine. files ex_engine k = None" "\<not> denied ex_engine ''users.dat''" "\<not> denied ex_engine ''users.idx''"
    "''users.dat'' \<noteq> ''users.idx''" "''users.dat'' \<notin> file_path ex_engine ` {}" "''users.idx'' \<notin> file_path ex_engine ` {}"
    "pinned_pages ex_engine + 1 < poolSize ex_engine" "tables ex_engine ''users'' = None" by (simp_all add: ex_engine_ok)
  let ?G = "{nextFileId ex_engine + 2, nextFileId ex_engine + 3} \<union> {}"
  have G: "?G = {4, 3}" by (auto simp: ex_engine_ok)
  obtain ti t where t: "registerTable ''users'' ?sc ''users.dat'' ''users.idx'' ''id'' ex_engine = (Inr (), t)"
    "tables t = (tables ex_engine)(''users'' \<mapsto> ti)" "tschema ti = ?sc" "tpkCol ti = int 0"
    "hfileId (theap ti) = nextFileId ex_engine + 2" "tfile (tindex ti) = nextFileId ex_engine + 3"
    "table_inv ?G t ti" "heap_rows ?G (theap ti) t = Map.empty" "tree_map ?G (tindex ti) t = Map.empty"
    "heap_pages ?G (theap ti) t = 1" "\<forall>g \<in> {}. bm_pages ?G t g = bm_pages {} ex_engine g"
    "pinned_pages t \<le> pinned_pages ex_engine + 1" "poolSize t = poolSize ex_engine"
    using ex_engine_ok(1) b(1-3) ex_engine_ok(8,8) b(4-6) sc(2) a b(7,8) by (rule registerTable_new)
  let ?M = "[''users'' \<mapsto> ti]"
  have db: "db_inv {4, 3} ?M (\<lambda>_. 1) (\<lambda>_. {11}) t"
    using t(2,7,9,10) unfolding G by (auto simp: db_inv_def ex_engine_ok)
  have rows: "db_rows {4, 3} ?M t = Map.empty"
    using t(8) unfolding G by (auto simp: db_rows_def fun_eq_iff split: option.split)
  have "0 < max_slots (theap ti)"
    using t(7) heap_invD(3) unfolding table_inv_def by (blast dest: heap_okD)
  then have place: "db_place ?M (\<lambda>_. 1) ''users'' (RecordID 0 0)"
    unfolding db_place_def by (intro exI [of _ ti] exI [of _ 0]) simp
  have row: "db_row ?M (\<lambda>_. {11}) ''users'' [FInt 11, FStr ''bob'']"
    using t(3,4) by (auto simp: db_row_def keyed_row_def table_key_def row_ok_def users_columns_def takeWhile_eq_all_conv zero_byte_def)
  obtain s :: engine_state where s: "db_inv {4, 3} ?M (\<lambda>_. 1) (\<lambda>_. {11}) s"
    "db_rows {4, 3} ?M s = (db_rows {4, 3} ?M t)((''users'', RecordID 0 0) \<mapsto> [FInt 11, FStr ''bob''])"
    using engine.redoI_law [OF db place row] by blast
  let ?t = "engine_state.extend s (qe_state.fields [''users'' \<mapsto> \<lparr>mschema = ?sc, mindexes = [], mrowCount = 0\<rparr>]) :: qe_state"
  have "getTable (qcatalog ?t) ''users'' = Inr ?sc" by (simp add: engine_state.defs qe_state.defs getTable_def)
  moreover have "db_inv F M N K ?t = db_inv F M N K s" "db_rows F M ?t = db_rows F M s" for F M N K
    by (rule db_extend; simp add: engine_state.defs)+
  ultimately show thesis using s rows sc(1) t(3) by (intro that [of ti ?t]) simp_all
qed

subsection \<open>Properties\<close>

text \<open>
  C21: The program prints its query: once the table \<open>users\<close> is registered and in the catalog, the loop ends
  and has printed one line for each user whose id is above 10, in the order of the record identifiers, and
  no row of any table has changed.
\<close>

theorem main_prints_users:
  assumes "db_inv F M N K s" "M ''users'' = Some ti" "new_Schema users_columns = Inr (tschema ti)"
    "getTable (qcatalog s) ''users'' = Inr (tschema ti)"
  shows "\<exists>fuel u. (\<forall>n \<ge> fuel. main_query reg n s =
      (Inr (concat (map user_line (filter id_above_10 (table_list (\<lambda>t rid. db_rows F M s (t, rid)) ''users''))), Inr ()), u)) \<and>
    db_inv F M N K u \<and> db_rows F M u = db_rows F M s"
proof -
  let ?R = "\<lambda>t rid. db_rows F M s (t, rid)" and ?sc = "tschema ti"
  let ?ci = "scan_index ''users'' ?sc" and ?scan = "Table_Scan ''users'' [] 0"
  let ?rows = "table_list ?R ''users''"
  have cols: "scolumns ?sc = users_columns" using assms(3) by (simp add: new_Schema_ok)
  have h: "holds_rows F M N K (qcatalog s) ?R s" using assms(1) by (simp add: holds_rows_def)
  have row: "\<exists>i t. row = [FInt i, FStr t]" if "row \<in> set ?rows" for row
    using users_row [OF table_list_rows [OF h assms(2) that] cols] .
  obtain v rids where v: "scanTable ''users'' s = (Inr rids, v)" "holds_rows F M N K (qcatalog s) ?R v"
    using engine_rows.scan_law [OF h, of "''users''"] assms(2) by blast
  have vals: "\<forall>row. row_ok ?sc row \<longrightarrow> (\<exists>vs. eval_args reg row ?ci users_items = Inr vs) \<and>
      (\<forall>p. Some users_predicate = Some p \<longrightarrow> (\<exists>b. evalBoolean reg row ?ci p = Inr b))"
    using users_row [OF _ cols] users_values [OF cols] by blast
  obtain out N' u where e: "\<forall>n \<ge> N'. execute (scanTable, fetchRecord) reg n (select_op ''users'' ?ci users_items (Some users_predicate)) v = (Inr out, u)"
    "holds_rows F M N K (qcatalog s) ?R u"
    "list_all2 (\<lambda>row vs. eval_args reg row ?ci users_items = Inr vs) (filter (passes reg ?ci (Some users_predicate)) ?rows) out"
    using v(2) assms(2) vals by (rule execute_select)
  have "passes reg ?ci (Some users_predicate) row = id_above_10 row" if r: "row \<in> set ?rows" for row
  proof -
    obtain i t where row: "row = [FInt i, FStr t]" using row [OF r] by blast
    show ?thesis unfolding passes_def row option.case users_values(2) [OF cols] by simp
  qed
  then have "filter (passes reg ?ci (Some users_predicate)) ?rows = filter id_above_10 ?rows"
    by (intro filter_cong) simp_all
  moreover have "out = filter id_above_10 ?rows"
    by (rule same_rows [OF e(3) [unfolded calculation]]) (use row users_values(1) [OF cols] in auto)
  moreover have "print_rows (filter id_above_10 ?rows) = (concat (map user_line (filter id_above_10 ?rows)), Inr ())"
    by (rule print_users) (use row in auto)
  ultimately have "main_query reg (Suc n) s = (Inr (concat (map user_line (filter id_above_10 ?rows)), Inr ()), u)" if "N' \<le> Suc n" for n
    using e(1) that v(1) assms(4) by (simp add: main_query_def new_TableScan_def select_op_def Let_def)
  then have "\<forall>n \<ge> Suc N'. main_query reg n s = (Inr (concat (map user_line (filter id_above_10 ?rows)), Inr ()), u)"
    by (metis Suc_le_D Suc_leD)
  with e(2) show ?thesis by (auto simp: holds_rows_def)
qed

theorem main_prints_users_witness:
  "\<exists>F M (s :: qe_state) n u. db_rows F M s = [(''users'', RecordID 0 0) \<mapsto> [FInt 11, FStr ''bob'']] \<and>
     main_query Map.empty n s = (Inr (''id=11  name=bob'' @ [newline], Inr ()), u)"
proof -
  obtain ti and s :: qe_state where s: "db_inv {4, 3} [''users'' \<mapsto> ti] (\<lambda>_. 1) (\<lambda>_. {11}) s"
    "new_Schema users_columns = Inr (tschema ti)"
    "db_rows {4, 3} [''users'' \<mapsto> ti] s = [(''users'', RecordID 0 0) \<mapsto> [FInt 11, FStr ''bob'']]"
    "getTable (qcatalog s) ''users'' = Inr (tschema ti)"
    by (rule ex_users)
  note list = one_row_list [OF s(3)]
  have l: "concat (map user_line (filter id_above_10 [[FInt 11, FStr ''bob'']])) = ''id=11  name=bob'' @ [newline]"
    by code_simp
  obtain n u where "main_query Map.empty n s = (Inr (''id=11  name=bob'' @ [newline], Inr ()), u)"
    using main_prints_users [OF s(1) _ s(2,4), of Map.empty] unfolding list l by auto
  with s(3) show ?thesis by blast
qed

end
