(* ===== verification/Persistence.thy ===== *)
theory Persistence
  imports Recovery
begin

section \<open>Restarting the engine\<close>

text \<open>
  What is left of a database when the program ends and starts again: the pool's destructor writes the dirty
  pages (\<open>flushAllPages\<close>), the disk remains, and a new engine registers the tables on their files. A
  registration is the list of arguments of \<open>registerTable\<close>.
\<close>

type_synonym registration = "string \<times> Schema \<times> string \<times> string \<times> string"

fun register_all :: "registration list \<Rightarrow> ('a engine_state_scheme, unit) io" where
  "register_all [] = retM ()"
| "register_all ((name, schema, df, xf, pk) # regs) = bindM (registerTable name schema df xf pk) (\<lambda>_. register_all regs)"

text \<open>A new process over the disk of an old one, with a pool of \<open>n\<close> frames.\<close>

definition restart :: "nat \<Rightarrow> (nat \<Rightarrow> byte list) \<Rightarrow> 'a fm_state_scheme \<Rightarrow> engine_state" where
  "restart n garbage s = engine_init (bm_init
     \<lparr>bufferHits = 0, bufferMisses = 0, queryCount = 0, totalQueryLatencyUs = 0, txCommitted = 0, txAborted = 0,
      disk = disk s, denied = denied s, files = Map.empty, nextFileId = 1\<rparr> n garbage)"

subsection \<open>Pools without dirty frames\<close>

text \<open>Fetching and unpinning pages writes nothing to a file as long as no frame is dirty.\<close>

definition clean :: "(string \<Rightarrow> byte list) \<Rightarrow> (int \<rightharpoonup> FileEntry) \<Rightarrow> 'a bm_state_scheme \<Rightarrow> bool" where
  "clean C D s \<longleftrightarrow> contents s = C \<and> files s = D \<and> 0 < poolSize s \<and> length (frames s) = poolSize s \<and>
     (\<forall>f \<in> set (frames s). isValid f \<longrightarrow> \<not> isDirty f)"

lemma clean_upd:
  assumes "clean C D s"
    and "i < length (frames s) \<Longrightarrow> (isValid (frames s ! i) \<longrightarrow> \<not> isDirty (frames s ! i)) \<Longrightarrow> isValid (g (frames s ! i)) \<longrightarrow> \<not> isDirty (g (frames s ! i))"
  shows "clean C D (upd_frame i g s)"
proof (cases "i < length (frames s)")
  case True
  then have "isValid (g (frames s ! i)) \<longrightarrow> \<not> isDirty (g (frames s ! i))"
    using assms by (auto simp: clean_def)
  then show ?thesis using assms(1) set_update_subset_insert [of "frames s" i "g (frames s ! i)"]
    by (auto simp: clean_def upd_frame_def contents_def fun_eq_iff)
next
  case False
  then show ?thesis using assms(1) by (simp add: clean_def upd_frame_def contents_def fun_eq_iff list_update_beyond)
qed

lemma clean_fields:
  "clean C D s \<Longrightarrow> clean C D (s\<lparr>clockHand := h\<rparr>)" "clean C D s \<Longrightarrow> clean C D (s\<lparr>bufferHits := c\<rparr>)"
  "clean C D s \<Longrightarrow> clean C D (s\<lparr>pageTable := T\<rparr>)"
  by (simp_all add: clean_def contents_def fun_eq_iff)

lemma select_clean:
  "clean C D s \<Longrightarrow> select_loop n s = (r, t) \<Longrightarrow> clean C D t \<and> (\<forall>h. r = Inr h \<longrightarrow> h < length (frames t))"
proof (induction n arbitrary: s)
  case (Suc n)
  let ?h = "(clockHand s + 1) mod poolSize s"
  have c: "clean C D (s\<lparr>clockHand := ?h\<rparr>)" using Suc.prems(1) by (rule clean_fields)
  moreover have "?h < length (frames s)" using Suc.prems(1) by (simp add: clean_def)
  ultimately show ?case using Suc.prems(2) Suc.IH [OF c] by (auto simp: Let_def split: if_splits)
qed auto

lemma keeps_modify: "(\<And>s. P s \<Longrightarrow> P (g s)) \<Longrightarrow> keeps P (modifyM g)"
  by (simp add: keeps_def modifyM_def)

lemma keeps_known: "(\<And>s. P s \<Longrightarrow> m s = (Inr x, s)) \<Longrightarrow> keeps P (f x) \<Longrightarrow> keeps P (bindM m f)"
  by (simp add: keeps_def)

lemma evict_clean:
  assumes "clean C D s" "i < length (frames s)"
  shows "clean C D (snd (evict_frame i s))"
  using assms by (auto simp: evict_frame_def Let_def clean_fields) (auto simp: clean_def)

lemma fetch_clean: "keeps (clean C D) (fetchPage f p)"
  unfolding keeps_def
proof (intro allI impI)
  fix s :: "'a bm_state_scheme" assume c: "clean C D s"
  show "clean C D (snd (fetchPage f p s))"
  proof (cases "pageTable s (f, p)")
    case (Some i)
    have "clean C D (s\<lparr>bufferHits := bufferHits s + 1\<rparr>)" using c by (rule clean_fields)
    then have "clean C D (upd_frame i (\<lambda>f. f\<lparr>pinCount := pinCount f + 1\<rparr>) (s\<lparr>bufferHits := bufferHits s + 1\<rparr>))"
      by (rule clean_upd) simp
    then show ?thesis using Some by (simp add: fetchPage_def incBufferHit_def)
  next
    case None
    obtain r t where v: "selectVictimFrame s = (r, t)" by (cases "selectVictimFrame s")
    note t = select_clean [OF c, of "poolSize s" r t]
    have t: "clean C D t" "\<And>h. r = Inr h \<Longrightarrow> h < length (frames t)" using t v by (auto simp: selectVictimFrame_def)
    show ?thesis
    proof (cases r)
      case (Inl e)
      then show ?thesis using None v t by (simp add: fetchPage_def)
    next
      case (Inr h)
      have e: "clean C D (snd (evict_frame h t))" by (rule evict_clean [OF t(1) t(2) [OF Inr]])
      have rd: "keeps (clean C D) (readPage f p)"
        by (simp add: keeps_def readPage_def split: option.split)
      have ins: "keeps (clean C D) (modifyM (install_frame h (f, p) buf))" for buf
        by (rule keeps_modify) (simp add: install_frame_def clean_fields clean_upd)
      have "keeps (clean C D) (bindM (readPage f p) (\<lambda>buf. bindM (modifyM (install_frame h (f, p) buf)) (\<lambda>_. retM h)))"
        by (intro keeps_bind rd ins keeps_base)
      then have "clean C D (snd (bindM (evict_frame h) (\<lambda>_. bindM (readPage f p) (\<lambda>buf. bindM (modifyM (install_frame h (f, p) buf)) (\<lambda>_. retM h))) t))"
        using e unfolding keeps_def bindM_def by (auto split: prod.split sum.split)
      then show ?thesis using None v Inr by (simp add: fetchPage_def)
    qed
  qed
qed

lemma unpin_clean: "keeps (clean C D) (unpinPage f p)"
  by (auto simp: keeps_def unpinPage_def split: option.split intro: clean_upd)

lemma visit_clean: "(\<And>page. \<exists>x. visit page = Leave x) \<Longrightarrow> keeps (clean C D) (with_page f p visit)"
  unfolding with_page_def page_window_def
proof (intro keeps_bind fetch_clean)
  fix x page assume "\<And>page. \<exists>x. visit page = Leave x"
  then obtain y where "visit page = Leave y" by blast
  then show "keeps (clean C D) (case visit page of Leave x \<Rightarrow> bindM (unpinPage f p) (\<lambda>_. retM x)
       | Dirty z page' \<Rightarrow> bindM (store x page') (\<lambda>_. bindM (markDirty f p) (\<lambda>_. bindM (unpinPage f p) (\<lambda>_. retM z)))
       | Abandon e page' \<Rightarrow> bindM (store x page') (\<lambda>_. throwM e))"
    by (simp add: keeps_bind unpin_clean keeps_base)
qed (simp add: deref_def keeps_base)

lemma open_index_clean:
  assumes "D f = Some e" "\<not> failbit e" "whole_pages (C (fpath e))" "disk_pages (C (fpath e)) \<noteq> []"
  shows "keeps (clean C D) (new_BPlusTree f)"
proof -
  let ?n = "int (length (C (fpath e)) div PAGE_SIZE)"
  have n: "getPageCount f s = (Inr ?n, s)" if "clean C D s" for s :: "'a bm_state_scheme"
    using that assms by (simp add: getPageCount_def clean_def page_count_def to_int32_id whole_pages_def)
  have "?n \<noteq> 0" using assms(4) by (auto simp: disk_pages_def)
  moreover have "keeps (clean C D) (probe_header f)"
    unfolding probe_header_def by (intro keeps_bind fetch_clean unpin_clean keeps_base)
  moreover have "keeps (clean C D) (bindM (loadHeader f) (\<lambda>r. retM \<lparr>tfile = f, troot = r\<rparr>))"
    unfolding loadHeader_def by (intro keeps_bind visit_clean keeps_base) simp
  ultimately show ?thesis
    unfolding new_BPlusTree_def by (intro keeps_bind keeps_known [OF n]) simp_all
qed

lemma openFile_clean:
  assumes "clean C D s" "openFile path s = (Inr f, t)" "D f = None"
  shows "clean C (D(f \<mapsto> \<lparr>fpath = path, freeList = [], failbit = False\<rparr>)) t"
  using assms by (auto simp: openFile_def Let_def clean_def contents_def fun_eq_iff emplace_fresh split: if_splits)
subsection \<open>Tables on files with pages\<close>

text \<open>A heap or a tree whose pages are another file's.\<close>

lemma page_num_cong: "hslotSize th = hslotSize th' \<Longrightarrow> page_num th = page_num th'"
  by (simp add: fun_eq_iff page_num_def max_slots_def slot_at_def)

lemma page_slot_cong:
  "hslotSize th = hslotSize th' \<Longrightarrow> hschema th = hschema th' \<Longrightarrow> hrecordSize th = hrecordSize th' \<Longrightarrow> page_slot th = page_slot th'"
  by (simp add: fun_eq_iff page_slot_def slot_at_def)

lemma heap_moved:
  fixes s :: "'a bm_state_scheme" and s0 :: "'b bm_state_scheme"
  assumes "heap_inv F0 th s0" "bm_idle F s" "f \<in> F" "bm_pages F s f = bm_pages F0 s0 (hfileId th)"
  shows "heap_inv F (th\<lparr>hfileId := f\<rparr>) s" "heap_rows F (th\<lparr>hfileId := f\<rparr>) s = heap_rows F0 th s0"
    "heap_pages F (th\<lparr>hfileId := f\<rparr>) s = heap_pages F0 th s0"
proof -
  have n: "page_num (th\<lparr>hfileId := f\<rparr>) = page_num th" by (rule page_num_cong) simp
  have r: "page_slot (th\<lparr>hfileId := f\<rparr>) = page_slot th" by (rule page_slot_cong) simp_all
  show "heap_inv F (th\<lparr>hfileId := f\<rparr>) s" using assms by (auto simp: heap_inv_def n heap_ok_def)
  show "heap_rows F (th\<lparr>hfileId := f\<rparr>) s = heap_rows F0 th s0"
    by (simp add: fun_eq_iff heap_rows_def table_rows_def r assms(4))
  show "heap_pages F (th\<lparr>hfileId := f\<rparr>) s = heap_pages F0 th s0" by (simp add: heap_pages_def assms(4))
qed

lemma tree_moved:
  fixes s :: "'a bm_state_scheme" and s0 :: "'b bm_state_scheme"
  assumes "tree_inv F0 tr s0" "bm_idle F s" "f \<in> F" "bm_pages F s f = bm_pages F0 s0 (tfile tr)"
  shows "tree_inv F (tr\<lparr>tfile := f\<rparr>) s" "tree_map F (tr\<lparr>tfile := f\<rparr>) s = tree_map F0 tr s0"
  using assms by (simp_all add: tree_inv_def tree_map_def tree_leaf_def)

lemma same_heap: "heap_ok th \<Longrightarrow> \<lparr>hfileId = f, hschema = hschema th, hrecordSize = getRecordSize (hschema th),
    hslotSize = getRecordSize (hschema th) + 1, hmaxSlots = to_int32 (int ((PAGE_SIZE - 4) div (getRecordSize (hschema th) + 1)))\<rparr> =
    th\<lparr>hfileId := f\<rparr>"
proof -
  assume ok: "heap_ok th"
  have "(PAGE_SIZE - 4) div hslotSize th \<le> PAGE_SIZE" by (rule order_trans [OF div_le_dividend diff_le_self])
  then have "to_int32 (int ((PAGE_SIZE - 4) div hslotSize th)) = hmaxSlots th"
    using ok by (simp add: heap_ok_def to_int32_id PAGE_SIZE_def)
  then show ?thesis using ok by (cases th) (simp add: heap_ok_def getRecordSize_def)
qed

lemma clean_tables [simp]:
  fixes s :: "'a engine_state_scheme"
  shows "clean C D (s\<lparr>tables := T\<rparr>) = clean C D s"
  by (simp add: clean_def contents_def fun_eq_iff)

text \<open>
  Registering a table on the files of another one, whatever state that one is in.
\<close>

lemma low_handles:
  assumes "bm_idle G u" "\<forall>k \<ge> nextFileId u. files u k = None" "g \<in> G"
  shows "g < nextFileId u"
proof (rule ccontr)
  assume "\<not> g < nextFileId u"
  then have "files u g = None" using assms(2) by simp
  then show False using assms(1,3) by (auto simp: bm_idle_def bm_inv_def files_ok_def file_ok_def)
qed

text \<open>The four handles that a registration opens: two that stay unused, one of the heap, one of the index.\<close>

lemma open_table_files:
  fixes s :: "'a engine_state_scheme"
  assumes idle: "bm_idle F s" and fresh: "\<forall>k \<ge> nextFileId s. files s k = None"
    and paths: "\<not> denied s df" "\<not> denied s xf" "df \<noteq> xf" "df \<notin> file_path s ` F" "xf \<notin> file_path s ` F"
    and whole: "whole_pages (contents s df)" "whole_pages (contents s xf)"
  defines "n \<equiv> nextFileId s" and "H \<equiv> insert (nextFileId s + 2) F"
  obtains a b c d where "openFile df s = (Inr n, a)" "openFile xf a = (Inr (n + 1), b)" "openFile df b = (Inr (n + 2), c)"
    "openFile xf c = (Inr (n + 3), d)" "bm_idle H c" "bm_pages H c = (bm_pages F s)(n + 2 := disk_pages (contents s df))"
    "bm_idle (insert (n + 3) H) d"
    "bm_pages (insert (n + 3) H) d = (bm_pages F s)(n + 2 := disk_pages (contents s df), n + 3 := disk_pages (contents s xf))"
    "bm_state.more d = bm_state.more s" "poolSize d = poolSize s" "pins d = pins s" "nextFileId d = n + 4" "denied d = denied s"
proof -
  let ?e = "\<lambda>p. \<lparr>fpath = p, freeList = [], failbit = False\<rparr>"
  have nF: "g \<notin> F" if "n \<le> g" for g
    using idle fresh that by (auto simp: n_def bm_idle_def bm_inv_def files_ok_def file_ok_def)
  obtain a where a: "openFile df s = (Inr n, a)" "bm_idle F a" "bm_pages F a = bm_pages F s"
    "bm_state.more a = bm_state.more s" "poolSize a = poolSize s" "pins a = pins s"
    "nextFileId a = n + 1" "denied a = denied s" "files a = (files s)(n \<mapsto> ?e df)" "\<forall>q. contents a q = contents s q"
    using openFile_unused [OF idle, of df] fresh paths(1) unfolding n_def by blast
  have "files a (nextFileId a) = None" "\<not> denied a xf" using fresh paths(2) by (simp_all add: a(7-9) n_def)
  then obtain b where b: "openFile xf a = (Inr (n + 1), b)" "bm_idle F b" "bm_pages F b = bm_pages F a"
    "bm_state.more b = bm_state.more a" "poolSize b = poolSize a" "pins b = pins a"
    "nextFileId b = n + 2" "denied b = denied a" "files b = (files a)(n + 1 \<mapsto> ?e xf)" "\<forall>q. contents b q = contents a q"
    using openFile_unused [OF a(2), of xf] unfolding a(7) by (auto simp: add.assoc)
  have pb: "file_path b g = file_path s g" if "g \<in> F" for g
    using nF [of n] nF [of "n + 1"] that by (auto simp: file_path_def a(9) b(9))
  have "files b (nextFileId b) = None" "\<not> denied b df" "whole_pages (contents b df)" "df \<notin> file_path b ` F"
    using fresh paths whole pb by (auto simp: a b n_def)
  then obtain c where c: "openFile df b = (Inr (n + 2), c)" "bm_idle H c"
    "bm_pages H c = (bm_pages F b)(n + 2 := disk_pages (contents s df))"
    "bm_state.more c = bm_state.more b" "poolSize c = poolSize b" "pins c = pins b"
    "nextFileId c = n + 3" "denied c = denied b" "files c = (files b)(n + 2 \<mapsto> ?e df)" "\<forall>q. contents c q = contents b q"
    using openFile_pages [OF b(2), of df] unfolding b(7) H_def by (auto simp: add.assoc a b n_def)
  have xc: "xf \<notin> file_path c ` H"
  proof -
    have "file_path c g = file_path s g" if "g \<in> F" for g
      using nF [of "n + 2"] pb [OF that] that by (auto simp: file_path_def c(9))
    moreover have "file_path c (n + 2) = df" by (simp add: file_path_def c(9))
    ultimately show ?thesis using paths(3,5) by (auto simp: H_def n_def)
  qed
  have new: "files c (nextFileId c) = None" "\<not> denied c xf" "whole_pages (contents c xf)"
    using fresh paths whole by (auto simp: a b c n_def)
  have "contents c xf = contents s xf" "n + 2 + 1 = n + 3" "n + 3 + 1 = n + 4" by (simp_all add: a b c)
  then obtain d where d: "openFile xf c = (Inr (n + 3), d)" "bm_idle (insert (n + 3) H) d"
    "bm_pages (insert (n + 3) H) d = (bm_pages H c)(n + 3 := disk_pages (contents s xf))"
    "bm_state.more d = bm_state.more c" "poolSize d = poolSize c" "pins d = pins c" "nextFileId d = n + 4" "denied d = denied c"
    using openFile_pages [OF c(2) new xc] unfolding c(7) by metis
  show thesis
    by (rule that [OF a(1) b(1) c(1) d(1) c(2) _ d(2)]) (simp_all add: a b c d)
qed

lemma registerTable_old:
  fixes s :: "'a engine_state_scheme" and s0 :: "'b bm_state_scheme"
  assumes idle: "bm_idle F s" and fresh: "\<forall>k \<ge> nextFileId s. files s k = None" and clean: "clean C D s"
    and paths: "\<not> denied s df" "\<not> denied s xf" "df \<noteq> xf" "df \<notin> file_path s ` F" "xf \<notin> file_path s ` F"
    and old: "table_inv F0 s0 tj" "0 < heap_pages F0 (theap tj) s0" "whole_pages (C df)" "whole_pages (C xf)"
      "disk_pages (C df) = bm_pages F0 s0 (hfileId (theap tj))" "disk_pages (C xf) = bm_pages F0 s0 (tfile (tindex tj))"
    and pk: "pk_position pk (scolumns (tschema tj)) 0 = tpkCol tj" and room: "pinned_pages s + 1 < poolSize s"
    and name: "tables s name = None"
  obtains ti t where "registerTable name (tschema tj) df xf pk s = (Inr (), t)" "tables t = (tables s)(name \<mapsto> ti)"
    "tschema ti = tschema tj" "tpkCol ti = tpkCol tj" "hfileId (theap ti) = nextFileId s + 2" "tfile (tindex ti) = nextFileId s + 3"
    "table_inv ({nextFileId s + 2, nextFileId s + 3} \<union> F) t ti"
    "heap_rows ({nextFileId s + 2, nextFileId s + 3} \<union> F) (theap ti) t = heap_rows F0 (theap tj) s0"
    "heap_pages ({nextFileId s + 2, nextFileId s + 3} \<union> F) (theap ti) t = heap_pages F0 (theap tj) s0"
    "tree_map ({nextFileId s + 2, nextFileId s + 3} \<union> F) (tindex ti) t = tree_map F0 (tindex tj) s0"
    "\<forall>g \<in> F. bm_pages ({nextFileId s + 2, nextFileId s + 3} \<union> F) t g = bm_pages F s g"
    "pinned_pages t \<le> pinned_pages s + 1" "poolSize t = poolSize s" "denied t = denied s"
    "clean C (opened (nextFileId s) df xf D) t" "nextFileId t = nextFileId s + 4"
proof -
  define n where "n = nextFileId s"
  let ?e = "\<lambda>p. \<lparr>fpath = p, freeList = [], failbit = False\<rparr>" and ?F1 = "insert (n + 2) F"
  let ?F = "insert (n + 3) ?F1" and ?th = "(theap tj)\<lparr>hfileId := n + 2\<rparr>" and ?tr = "(tindex tj)\<lparr>tfile := n + 3\<rparr>"
  have C: "contents s q = C q" and D: "files s = D" for q using clean by (simp_all add: clean_def)
  have Dn: "D k = None" if "n \<le> k" for k using fresh that by (simp add: n_def D)
  obtain a b c d where o: "openFile df s = (Inr n, a)" "openFile xf a = (Inr (n + 1), b)" "openFile df b = (Inr (n + 2), c)"
    "openFile xf c = (Inr (n + 3), d)" and c: "bm_idle ?F1 c" "bm_pages ?F1 c = (bm_pages F s)(n + 2 := disk_pages (C df))"
    and d: "bm_idle ?F d" "bm_pages ?F d = (bm_pages F s)(n + 2 := disk_pages (C df), n + 3 := disk_pages (C xf))"
    "bm_state.more d = bm_state.more s" "poolSize d = poolSize s" "pins d = pins s" "nextFileId d = n + 4" "denied d = denied s"
    using open_table_files [OF idle fresh paths] old(3,4) unfolding n_def C by metis
  have cd: "clean C (opened n df xf D) d" unfolding opened_def
    by (rule openFile_clean [OF openFile_clean [OF openFile_clean [OF openFile_clean [OF clean o(1)] o(2)] o(3)] o(4)]) (simp_all add: Dn)
  have H: "heap_inv F0 (theap tj) s0" "heap_ok (theap tj)" "hschema (theap tj) = tschema tj"
    "tree_inv F0 (tindex tj) s0" using old(1) by (simp_all add: table_inv_def heap_inv_def)
  have "bm_pages ?F1 c (n + 2) = bm_pages F0 s0 (hfileId (theap tj))" using c(2) old(5) by simp
  then have cnt: "getPageCount (n + 2) c = (Inr (int (heap_pages F0 (theap tj) s0)), c)"
    using pool_count [OF c(1), of "n + 2"] by (simp add: heap_pages_def)
  have th: "new_TableHeap df (tschema tj) b = (Inr ?th, c)"
    using same_heap [OF H(2), of "n + 2"] o(3) cnt old(2) H(3) by (simp add: new_TableHeap_def Let_def)
  have hd: "bm_pages ?F d (n + 2) = bm_pages F0 s0 (hfileId (theap tj))" using d(2) old(5) by simp
  have td: "bm_pages ?F d (n + 3) = bm_pages F0 s0 (tfile (tindex tj))" using d(2) old(6) by simp
  have tree: "tree_inv ?F ?tr d" "tree_map ?F ?tr d = tree_map F0 (tindex tj) s0"
    by (rule tree_moved [OF H(4) d(1) _ td]; simp)+
  have room': "pinned_pages d + 1 < poolSize d" using room by (simp add: pinned_pages_def d)
  obtain v where v: "new_BPlusTree (tfile ?tr) d = (Inr ?tr, v)" "tree_inv ?F ?tr v" "tree_map ?F ?tr v = tree_map ?F ?tr d"
    "bm_rest v = bm_rest d" "pins v = (pins d)((tfile ?tr, 0) := pins d (tfile ?tr, 0) + 1)" "\<forall>g. bm_pages ?F v g = bm_pages ?F d g"
    using tree(1) room' by (rule open_tree_ok)
  have pages: "bm_pages F0 s0 (tfile (tindex tj)) \<noteq> []" using H(4) by (auto simp: tree_inv_def)
  have "keeps (clean C (opened n df xf D)) (new_BPlusTree (n + 3))"
    by (rule open_index_clean [where e = "?e xf"]) (use old(4,6) pages in \<open>simp_all add: opened_def\<close>)
  then have cv: "clean C (opened n df xf D) v" using cd v(1) by (auto intro: keepsD)
  have iv: "bm_idle ?F v" using v(2) by (simp add: tree_inv_def)
  have hv: "bm_pages ?F v (n + 2) = bm_pages F0 s0 (hfileId (theap tj))" using v(6) hd by simp
  note heap = heap_moved [OF H(1) iv _ hv]
  define ti where "ti = \<lparr>tschema = tschema tj, theap = ?th, tindex = ?tr, tpkCol = tpkCol tj\<rparr>"
  define t where "t = v\<lparr>tables := (tables s)(name \<mapsto> ti)\<rparr>"
  have tabs: "tables v = tables s"
    using bm_rest_tables [OF v(4)] d(3) by (cases d; cases s) (simp add: bm_state.defs)
  have k: "0 \<le> tpkCol tj" using old(1) by (simp add: table_inv_def)
  have run: "registerTable name (tschema tj) df xf pk s = (Inr (), t)"
    using name o th v(1) pk k tabs by (simp add: registerTable_def Let_def t_def ti_def emplace_fresh)
  have pinned: "pinned_pages v \<le> pinned_pages s + 1" by (rule one_more_pin [OF idle v(5) [unfolded d(5)]])
  have F: "{nextFileId s + 2, nextFileId s + 3} \<union> F = ?F" by (auto simp: n_def)
  have ext: "bm_pages ?F t g = bm_pages F s g" if "g \<in> F" for g
    using low_handles [OF idle fresh that] v(6) d(2) by (simp add: t_def n_def)
  have tab: "table_inv ?F t ti"
    using heap(1) v(2) old(1) by (simp add: table_inv_def ti_def t_def)
  have rest: "nextFileId v = n + 4" "denied v = denied s" "poolSize v = poolSize s"
    using v(4) d(4,6,7) by (simp_all add: bm_rest_def)
  show thesis
    by (rule that [OF run, of ti, unfolded F])
      (use heap(2,3) v(3) tree(2) pinned ext tab rest cv in \<open>simp_all add: t_def ti_def n_def\<close>)
qed
subsection \<open>All tables of a database\<close>

text \<open>
  \<open>saved C\<close>: the files of the old database hold its pages. \<open>restored\<close>: the tables \<open>A\<close> of the old database
  are registered again, each with the rows and keys it had, on its old files.
\<close>

definition saved :: "int set \<Rightarrow> 'a bm_state_scheme \<Rightarrow> (string \<Rightarrow> byte list) \<Rightarrow> bool" where
  "saved F s C \<longleftrightarrow> (\<forall>f \<in> F. whole_pages (C (file_path s f)) \<and> disk_pages (C (file_path s f)) = bm_pages F s f)"

definition registers :: "int set \<Rightarrow> (string \<rightharpoonup> TableInfo) \<Rightarrow> 'a bm_state_scheme \<Rightarrow> registration \<Rightarrow> bool" where
  "registers F M s r \<longleftrightarrow> (case r of (name, schema, df, xf, pk) \<Rightarrow> \<exists>ti. M name = Some ti \<and> schema = tschema ti \<and>
     df = file_path s (hfileId (theap ti)) \<and> xf = file_path s (tfile (tindex ti)) \<and> \<not> denied s df \<and> \<not> denied s xf \<and>
     pk_position pk (scolumns schema) 0 = tpkCol ti \<and> 0 < heap_pages F (theap ti) s)"

definition same_table :: "int set \<Rightarrow> 'a bm_state_scheme \<Rightarrow> TableInfo \<Rightarrow> int set \<Rightarrow> 'b bm_state_scheme \<Rightarrow> TableInfo \<Rightarrow> bool" where
  "same_table F s tj G u ti \<longleftrightarrow> tschema ti = tschema tj \<and> tpkCol ti = tpkCol tj \<and> table_inv G u ti \<and>
     heap_rows G (theap ti) u = heap_rows F (theap tj) s \<and> heap_pages G (theap ti) u = heap_pages F (theap tj) s \<and>
     tree_map G (tindex ti) u = tree_map F (tindex tj) s"

definition table_paths :: "'a bm_state_scheme \<Rightarrow> TableInfo \<Rightarrow> string set" where
  "table_paths s ti = file_path s ` db_files ti"

definition restored :: "int set \<Rightarrow> (string \<rightharpoonup> TableInfo) \<Rightarrow> 'a bm_state_scheme \<Rightarrow> (string \<Rightarrow> byte list) \<Rightarrow> string set \<Rightarrow>
    int set \<Rightarrow> 'b engine_state_scheme \<Rightarrow> bool" where
  "restored F M s C A G u \<longleftrightarrow> bm_idle G u \<and> (\<forall>k \<ge> nextFileId u. files u k = None) \<and> clean C (files u) u \<and>
     denied u = denied s \<and> dom (tables u) = A \<and> file_path u ` G \<subseteq> (\<Union>n \<in> A. table_paths s (the (M n))) \<and>
     (\<forall>n \<in> A. same_table F s (the (M n)) G u (the (tables u n))) \<and>
     (\<forall>n \<in> A. \<forall>m \<in> A. n \<noteq> m \<longrightarrow> db_files (the (tables u n)) \<inter> db_files (the (tables u m)) = {})"

lemma table_files: "table_inv F s ti \<Longrightarrow> db_files ti \<subseteq> F"
  by (simp add: table_inv_def heap_inv_def tree_inv_def db_files_def)

lemma same_table_grow:
  assumes "same_table F s tj G u ti" "G \<subseteq> H" "bm_idle H v" "\<forall>g \<in> G. bm_pages H v g = bm_pages G u g"
  shows "same_table F s tj H v ti"
proof -
  have "table_inv G u ti" using assms(1) by (simp add: same_table_def)
  note g = grow_tables [OF this assms(2-4)]
  have "hfileId (theap ti) \<in> G" using table_files [OF \<open>table_inv G u ti\<close>] by (simp add: db_files_def)
  then have "heap_pages H (theap ti) v = heap_pages G (theap ti) u" using assms(4) by (simp add: heap_pages_def)
  with g assms(1) show ?thesis by (simp add: same_table_def)
qed

text \<open>The files of a table that is not yet registered are no file of a handle.\<close>

lemma unregistered_paths:
  assumes db: "db_inv F M N K s" and idle: "bm_idle F s" and r: "restored F M s C A G u"
    and tj: "M name = Some tj" and new: "name \<notin> A" "A \<subseteq> dom M" and f: "f \<in> db_files tj"
  shows "file_path s f \<notin> file_path u ` G"
proof
  assume "file_path s f \<in> file_path u ` G"
  then obtain n where n: "n \<in> A" "file_path s f \<in> table_paths s (the (M n))" using r unfolding restored_def by blast
  obtain tn where tn: "M n = Some tn" using n(1) new(2) by blast
  obtain g where g: "g \<in> db_files tn" "file_path s f = file_path s g" using n(2) tn by (auto simp: table_paths_def)
  have t: "table_inv F s tj" "table_inv F s tn" "db_files tn \<inter> db_files tj = {}"
    using db tj tn n(1) new(1) unfolding db_inv_def by blast+
  have "inj_on (file_path s) F" using idle by (simp add: bm_idle_def bm_inv_def files_ok_def)
  then have "f = g" using g table_files [OF t(1)] table_files [OF t(2)] f by (meson inj_onD subsetD)
  with f g(1) t(3) show False by blast
qed

text \<open>One more table, on the two handles that come next but two.\<close>

lemma restored_more:
  fixes s :: "'a engine_state_scheme" and u v :: "'b engine_state_scheme"
  assumes r: "restored F M s C A G u" and new: "name \<notin> A" and tj: "M name = Some tj"
    and v: "tables v = (tables u)(name \<mapsto> ti)" "hfileId (theap ti) = nextFileId u + 2" "tfile (tindex ti) = nextFileId u + 3"
      "\<forall>g \<in> G. bm_pages H v g = bm_pages G u g" "denied v = denied u"
      "clean C (opened (nextFileId u) (file_path s (hfileId (theap tj))) (file_path s (tfile (tindex tj))) (files u)) v"
      "nextFileId v = nextFileId u + 4"
    and same: "same_table F s tj H v ti" and H: "H = {nextFileId u + 2, nextFileId u + 3} \<union> G"
  shows "restored F M s C (insert name A) H v"
proof -
  have u: "bm_idle G u" "\<forall>k \<ge> nextFileId u. files u k = None" "denied u = denied s" "dom (tables u) = A"
    "\<forall>n \<in> A. same_table F s (the (M n)) G u (the (tables u n))"
    using r by (simp_all add: restored_def)
  have iv: "bm_idle H v" using same by (simp add: same_table_def table_inv_def heap_inv_def)
  have fv: "files v = opened (nextFileId u) (file_path s (hfileId (theap tj))) (file_path s (tfile (tindex tj))) (files u)"
    using v(6) by (simp add: clean_def)
  note low = low_handles [OF u(1,2)]
  show ?thesis unfolding restored_def
  proof (intro conjI)
    show "\<forall>k \<ge> nextFileId v. files v k = None" using u(2) by (simp add: fv opened_def v(7))
    have "file_path v g = file_path u g" if "g \<in> G" for g
      using low [OF that] by (simp add: file_path_def fv opened_def)
    moreover have "{file_path v (nextFileId u + 2), file_path v (nextFileId u + 3)} = table_paths s (the (M name))"
      using tj by (simp add: table_paths_def db_files_def file_path_def fv opened_def)
    ultimately show "file_path v ` H \<subseteq> (\<Union>n \<in> insert name A. table_paths s (the (M n)))"
      using r unfolding restored_def H by auto
    have "same_table F s (the (M n)) H v (the (tables u n))" if "n \<in> A" for n
      using u(5) that by (intro same_table_grow [OF _ _ iv v(4)]) (auto simp: H)
    then show "\<forall>n \<in> insert name A. same_table F s (the (M n)) H v (the (tables v n))"
      using new same tj by (auto simp: v(1))
    have "db_files (the (tables u n)) \<inter> db_files ti = {}" if "n \<in> A" for n
    proof -
      have "db_files (the (tables u n)) \<subseteq> G" using u(5) that by (intro table_files [of G u]) (simp add: same_table_def)
      moreover have "db_files ti \<inter> G = {}" using low v(2,3) by (auto simp: db_files_def dest: low)
      ultimately show ?thesis by blast
    qed
    with r new show "\<forall>n \<in> insert name A. \<forall>m \<in> insert name A. n \<noteq> m \<longrightarrow> db_files (the (tables v n)) \<inter> db_files (the (tables v m)) = {}"
      by (auto simp: v(1) restored_def)
  qed (use iv v(1,5,6) u(3,4) fv in auto)
qed

lemma restore_step:
  fixes s :: "'a engine_state_scheme" and u :: "'b engine_state_scheme"
  assumes db: "db_inv F M N K s" and sv: "saved F s C" and idle: "bm_idle F s"
    and r: "restored F M s C A G u" and reg: "registers F M s (name, schema, df, xf, pk)" and new: "name \<notin> A" and sub: "A \<subseteq> dom M"
    and room: "pinned_pages u + 1 < poolSize u"
  obtains H v where "registerTable name schema df xf pk u = (Inr (), v)" "restored F M s C (insert name A) H v"
    "pinned_pages v \<le> pinned_pages u + 1" "poolSize v = poolSize u"
proof -
  obtain tj where tj: "M name = Some tj" "schema = tschema tj" "df = file_path s (hfileId (theap tj))" "xf = file_path s (tfile (tindex tj))"
    "\<not> denied s df" "\<not> denied s xf" "pk_position pk (scolumns (tschema tj)) 0 = tpkCol tj" "0 < heap_pages F (theap tj) s"
    using reg by (auto simp: registers_def)
  have inv: "table_inv F s tj" using db tj(1) by (simp add: db_inv_def)
  have fs: "hfileId (theap tj) \<in> F" "tfile (tindex tj) \<in> F" "hfileId (theap tj) \<noteq> tfile (tindex tj)"
    using inv table_files [OF inv] by (simp_all add: db_files_def table_inv_def)
  have inj: "inj_on (file_path s) F" using idle by (simp add: bm_idle_def bm_inv_def files_ok_def)
  note far = unregistered_paths [OF db idle r tj(1) new sub]
  have u: "bm_idle G u" "\<forall>k \<ge> nextFileId u. files u k = None" "clean C (files u) u" "denied u = denied s" "dom (tables u) = A"
    using r by (simp_all add: restored_def)
  have p: "\<not> denied u df" "\<not> denied u xf" "df \<noteq> xf" "df \<notin> file_path u ` G" "xf \<notin> file_path u ` G"
    "whole_pages (C df)" "whole_pages (C xf)" "disk_pages (C df) = bm_pages F s (hfileId (theap tj))"
    "disk_pages (C xf) = bm_pages F s (tfile (tindex tj))" "tables u name = None"
    using tj(3-6) u(4,5) fs inj sv new far [of "hfileId (theap tj)"] far [of "tfile (tindex tj)"]
    by (auto simp: saved_def db_files_def dest: inj_onD)
  let ?H = "{nextFileId u + 2, nextFileId u + 3} \<union> G"
  obtain ti v where v: "registerTable name (tschema tj) df xf pk u = (Inr (), v)" "tables v = (tables u)(name \<mapsto> ti)"
    "tschema ti = tschema tj" "tpkCol ti = tpkCol tj" "hfileId (theap ti) = nextFileId u + 2" "tfile (tindex ti) = nextFileId u + 3"
    "table_inv ?H v ti" "heap_rows ?H (theap ti) v = heap_rows F (theap tj) s" "heap_pages ?H (theap ti) v = heap_pages F (theap tj) s"
    "tree_map ?H (tindex ti) v = tree_map F (tindex tj) s" "\<forall>g \<in> G. bm_pages ?H v g = bm_pages G u g"
    "pinned_pages v \<le> pinned_pages u + 1" "poolSize v = poolSize u" "denied v = denied u"
    "clean C (opened (nextFileId u) df xf (files u)) v" "nextFileId v = nextFileId u + 4"
    using registerTable_old [OF u(1-3) p(1-5) inv tj(8) p(6-9) tj(7) room p(10)] by blast
  have "same_table F s tj ?H v ti" using v(3,4,7-10) by (simp add: same_table_def)
  with r new tj(1) v(2,5,6,11,14) v(15) [unfolded tj(3,4)] v(16) have "restored F M s C (insert name A) ?H v"
    by (rule restored_more) (rule refl)
  with v(1,12,13) tj(2) that show thesis by blast
qed

lemma restore_all:
  fixes s :: "'a engine_state_scheme" and u :: "'b engine_state_scheme"
  assumes db: "db_inv F M N K s" and sv: "saved F s C" and idle: "bm_idle F s"
  shows "restored F M s C A G u \<Longrightarrow> list_all (registers F M s) regs \<Longrightarrow> distinct (map fst regs) \<Longrightarrow> fst ` set regs \<inter> A = {} \<Longrightarrow>
    A \<subseteq> dom M \<Longrightarrow> pinned_pages u + length regs < poolSize u \<Longrightarrow>
    \<exists>H v. register_all regs u = (Inr (), v) \<and> restored F M s C (fst ` set regs \<union> A) H v"
proof (induction regs arbitrary: A G u)
  case Nil
  then show ?case by auto
next
  case (Cons r regs)
  obtain name schema df xf pk where r: "r = (name, schema, df, xf, pk)" by (cases r)
  obtain H v where v: "registerTable name schema df xf pk u = (Inr (), v)" "restored F M s C (insert name A) H v"
    "pinned_pages v \<le> pinned_pages u + 1" "poolSize v = poolSize u"
    by (rule restore_step [OF db sv idle Cons.prems(1), of name schema df xf pk]) (use Cons.prems r in auto)
  have "insert name A \<subseteq> dom M" using Cons.prems(2,5) r by (auto simp: registers_def)
  moreover have "fst ` set regs \<inter> insert name A = {}" using Cons.prems(3,4) r by auto
  ultimately obtain H' w where "register_all regs v = (Inr (), w)" "restored F M s C (fst ` set regs \<union> insert name A) H' w"
    using Cons.IH [OF v(2)] Cons.prems(2,3,6) v(3,4) by auto
  with v(1) r show ?case by auto
qed
text \<open>The end of the old process and the start of the new one.\<close>

lemma flush_saved:
  assumes "bm_idle F s"
  obtains t where "flushAllPages s = (Inr (), t)" "saved F s (contents t)" "denied t = denied s"
proof -
  obtain t where t: "flushAllPages s = (Inr (), t)" "bm_inv F t" "same_view F s t" "pins t = pins s"
    "\<forall>f \<in> F. \<forall>p < fcount s f. fpage t f p = view s f p"
    by (rule flushAll_ok [of F s]) (use assms in \<open>auto simp: bm_idle_def\<close>)
  have fp: "file_path t = file_path s" "denied t = denied s"
    using t(3) by (simp_all add: same_view_def bm_rest_def file_path_def fun_eq_iff)
  have "whole_pages (contents t (file_path s f)) \<and> disk_pages (contents t (file_path s f)) = bm_pages F s f" if f: "f \<in> F" for f
  proof -
    have n: "fcount t f = fcount s f" "file_ok t f" using t(2,3) f by (simp_all add: same_view_def bm_inv_def files_ok_def)
    then have "length (contents t (file_path s f)) div PAGE_SIZE = fcount s f" by (simp add: fcount_def fp)
    moreover from this have "disk_pages (contents t (file_path s f)) = map (fpage t f) [0..<fcount s f]"
      by (simp add: disk_pages_def fpage_def fp)
    moreover have "whole_pages (contents t (file_path s f))"
      using n(2) unfolding fp(1) [symmetric] by (auto simp: file_ok_def whole_pages_def file_path_def)
    ultimately show ?thesis using t(5) f by (simp add: bm_pages_def)
  qed
  with t(1) fp(2) show thesis by (intro that [of t]) (simp_all add: saved_def)
qed

lemma restart_ok:
  assumes "0 < n" "\<forall>i. length (garbage i) = PAGE_SIZE" "denied t = denied s"
  shows "restored F M s (contents t) {} {} (restart n garbage t)" "pinned_pages (restart n garbage t) = 0"
    "poolSize (restart n garbage t) = n"
proof -
  let ?fm = "\<lparr>bufferHits = 0, bufferMisses = 0, queryCount = 0, totalQueryLatencyUs = 0, txCommitted = 0, txAborted = 0,
      disk = disk t, denied = denied t, files = Map.empty, nextFileId = 1\<rparr>"
  let ?b = "bm_init ?fm n garbage" and ?u = "restart n garbage t"
  have same: "bm_idle {} ?u = bm_idle {} ?b" "pinned_pages ?u = pinned_pages ?b"
    unfolding restart_def by (rule same_pool; simp add: engine_init_fields)+
  have "bm_idle {} ?b" using assms(1,2) by (intro bm_init_ok) (simp_all add: files_ok_def)
  then have "bm_idle {} ?u" using same(1) by simp
  moreover have "pinned_pages ?b = 0" by (simp add: pinned_pages_def pins_def bm_init_fields)
  then show "pinned_pages ?u = 0" using same(2) by simp
  show "poolSize ?u = n" by (simp add: restart_def engine_init_fields bm_init_fields)
  have "clean (contents t) (files ?u) ?u"
    using assms(1) by (auto simp: clean_def restart_def engine_init_fields bm_init_fields contents_def fun_eq_iff new_frame_def)
  moreover have "files ?u = Map.empty" "tables ?u = Map.empty" "denied ?u = denied s"
    by (simp_all add: restart_def engine_init_fields bm_init_fields assms(3)) (simp add: bm_init_def fm_state.defs bm_state.defs assms(3))
  ultimately show "restored F M s (contents t) {} {} ?u" by (simp add: restored_def)
qed

subsection \<open>Properties\<close>

text \<open>
  C8: A database survives a restart: flush the pool, start a new engine over the disk, with a pool that has
  more frames than there are tables, and register every table on its files with its schema and key column;
  then every row and every key is what it was, and the engine is ready for use.
\<close>

theorem restart_keeps_database:
  fixes s :: "'a engine_state_scheme"
  assumes "db_inv F M N K s" "bm_idle F s" "list_all (registers F M s) regs" "distinct (map fst regs)" "fst ` set regs = dom M"
    "length regs < n" "\<forall>i. length (garbage i) = PAGE_SIZE"
  shows "\<exists>t u G T. flushAllPages s = (Inr (), t) \<and> register_all regs (restart n garbage t) = (Inr (), u) \<and>
    db_inv G T N K u \<and> db_rows G T u = db_rows F M s \<and>
    (\<forall>name. map_option (\<lambda>ti. keyed_map G ti u) (T name) = map_option (\<lambda>ti. keyed_map F ti s) (M name))"
proof -
  obtain t where t: "flushAllPages s = (Inr (), t)" "saved F s (contents t)" "denied t = denied s"
    using assms(2) by (rule flush_saved)
  have "0 < n" using assms(6) by simp
  note start = restart_ok [OF this assms(7) t(3)]
  obtain G u where u: "register_all regs (restart n garbage t) = (Inr (), u)" "restored F M s (contents t) (dom M) G u"
    using restore_all [OF assms(1) t(2) assms(2) start(1), of regs] assms(3-6) start(2,3) by auto
  let ?T = "tables u"
  have d: "dom ?T = dom M" using u(2) by (simp add: restored_def)
  have both: "\<exists>tj. M name = Some tj \<and> same_table F s tj G u ti" if "?T name = Some ti" for name ti
  proof -
    have "name \<in> dom M" using d that by blast
    moreover from this have "same_table F s (the (M name)) G u (the (?T name))" using u(2) unfolding restored_def by blast
    ultimately show ?thesis using that by auto
  qed
  have "db_inv G ?T N K u"
    unfolding db_inv_def
  proof (intro conjI allI impI)
    fix name ti assume "?T name = Some ti"
    then obtain tj where tj: "M name = Some tj" "same_table F s tj G u ti" using both by blast
    with assms(1) have "N name \<le> heap_pages F (theap tj) s" "dom (tree_map F (tindex tj) s) \<subseteq> K name" "finite (K name)" "card (K name) \<le> 128"
      unfolding db_inv_def by blast+
    with tj(2) show "table_inv G u ti" "N name \<le> heap_pages G (theap ti) u" "dom (tree_map G (tindex ti) u) \<subseteq> K name"
      "finite (K name)" "card (K name) \<le> 128" by (simp_all add: same_table_def)
  next
    fix n m ti tj assume "?T n = Some ti" "?T m = Some tj" "n \<noteq> m"
    moreover from this d have "n \<in> dom M" "m \<in> dom M" by blast+
    ultimately show "db_files tj \<inter> db_files ti = {}" using u(2) unfolding restored_def by (metis option.sel inf_commute)
  qed simp
  moreover have "?T name = None \<longleftrightarrow> M name = None" for name using d by blast
  then have "db_rows G ?T u = db_rows F M s"
    using both by (fastforce simp: db_rows_def fun_eq_iff same_table_def split: option.split)
  moreover have "map_option (\<lambda>ti. keyed_map G ti u) (?T name) = map_option (\<lambda>ti. keyed_map F ti s) (M name)" for name
    using both [of name] \<open>\<And>name. ?T name = None \<longleftrightarrow> M name = None\<close> [of name]
    by (cases "?T name") (auto simp: same_table_def keyed_map_def)
  ultimately show ?thesis using t(1) u(1) by blast
qed
text \<open>A database with one row, and its registration.\<close>

lemma ex_saved:
  obtains ti and s :: engine_state where "db_inv {4, 3} [''u'' \<mapsto> ti] (\<lambda>_. 0) (\<lambda>_. {7}) s" "bm_idle {4, 3} s"
    "registers {4, 3} [''u'' \<mapsto> ti] s (''u'', ex_schema, ''u.dat'', ''u.idx'', ''id'')"
    "keyed_map {4, 3} ti s = [7 \<mapsto> [FInt 7, FStr ''abc'']]"
proof -
  let ?G = "{nextFileId ex_engine + 2, nextFileId ex_engine + 3} \<union> {}"
  have G: "?G = {4, 3}" by (auto simp: ex_engine_ok)
  obtain ti t where t: "registerTable ''u'' ex_schema ''u.dat'' ''u.idx'' ''id'' ex_engine = (Inr (), t)"
    "tables t = (tables ex_engine)(''u'' \<mapsto> ti)" "tschema ti = ex_schema" "tpkCol ti = int 0"
    "hfileId (theap ti) = nextFileId ex_engine + 2" "tfile (tindex ti) = nextFileId ex_engine + 3"
    "table_inv ?G t ti" "heap_rows ?G (theap ti) t = Map.empty" "tree_map ?G (tindex ti) t = Map.empty"
    "heap_pages ?G (theap ti) t = 1" "\<forall>g \<in> {}. bm_pages ?G t g = bm_pages {} ex_engine g"
    "pinned_pages t \<le> pinned_pages ex_engine + 1" "poolSize t = poolSize ex_engine"
    "files t = opened (nextFileId ex_engine) ''u.dat'' ''u.idx'' (files ex_engine)" "denied t = denied ex_engine"
    by (rule registerTable_handles [OF ex_engine_ok(1), of "''u.dat''" "''u.idx''" ex_schema "''id''" 0 "''u''"])
      (simp_all add: ex_engine_ok ex_schema_ok(2), simp_all add: getRecordSize_def ex_schema_def PAGE_SIZE_def ex_cols_def)
  have tab: "tab_inv {4, 3} ''u'' ti t" using t(2,7) by (simp add: tab_inv_def ex_engine_ok insert_commute)
  have e: "tree_map {4, 3} (tindex ti) t = Map.empty" "heap_pages {4, 3} (theap ti) t = 1" using t(9,10) unfolding G by simp_all
  note r = ex_row [OF tab t(3) _ e(2,1)]
  have "keyed_sound {4, 3} ti t" "keyed_map {4, 3} ti t = Map.empty" using e(1) by (simp_all add: keyed_sound_def keyed_map_def)
  then obtain s where s: "tab_inv {4, 3} ''u'' ti s" "keyed_sound {4, 3} ti s" "keyed_map {4, 3} ti s = [7 \<mapsto> [FInt 7, FStr ''abc'']]"
    "table_rest {4, 3} ti s = table_rest {4, 3} ti t"
    using op_step [OF tab _ r(1)] r(3) t(4) by (auto simp: zero_byte_def)
  have k: "bm_keep s = bm_keep t" using s(4) by (simp add: table_rest_def)
  then have f: "files s = files t" "denied s = denied t" "tables s = tables t"
    using bm_keepD [OF k] by (auto simp: bm_rest_def intro: bm_rest_tables)
  have inv: "table_inv {4, 3} s ti" using s(1) by (simp add: tab_inv_def)
  have keys: "dom (tree_map {4, 3} (tindex ti) s) \<subseteq> {7}"
  proof
    fix k assume "k \<in> dom (tree_map {4, 3} (tindex ti) s)"
    then obtain rid where rid: "tree_map {4, 3} (tindex ti) s k = Some rid" by auto
    moreover from rid obtain v where "heap_rows {4, 3} (theap ti) s rid = Some v"
      using s(2) unfolding keyed_sound_def by (meson domD)
    ultimately have "keyed_map {4, 3} ti s k \<noteq> None" by (simp add: keyed_map_def)
    then show "k \<in> {7}" using s(3) by (auto split: if_splits)
  qed
  have "keyed_map {4, 3} ti s 7 \<noteq> None" using s(3) by simp
  then have "heap_rows {4, 3} (theap ti) s \<noteq> Map.empty" by (auto simp: keyed_map_def)
  then have "0 < heap_pages {4, 3} (theap ti) s" by (auto simp: heap_rows_def table_rows_def heap_pages_def fun_eq_iff split: if_splits)
  then have "registers {4, 3} [''u'' \<mapsto> ti] s (''u'', ex_schema, ''u.dat'', ''u.idx'', ''id'')"
    using t(3-6) by (simp add: registers_def file_path_def f t(14,15) opened_def ex_engine_ok ex_schema_def ex_cols_def)
  moreover have "db_inv {4, 3} [''u'' \<mapsto> ti] (\<lambda>_. 0) (\<lambda>_. {7}) s"
    using inv keys t(2) by (auto simp: db_inv_def f ex_engine_ok)
  moreover have "bm_idle {4, 3} s" using inv by (simp add: table_inv_def heap_inv_def)
  ultimately show thesis using s(3) that by blast
qed

theorem restart_keeps_database_witness:
  "\<exists>F ti (s :: engine_state) t u G T. keyed_map F ti s = [7 \<mapsto> [FInt 7, FStr ''abc'']] \<and> flushAllPages s = (Inr (), t) \<and>
     register_all [(''u'', ex_schema, ''u.dat'', ''u.idx'', ''id'')] (restart 4 (\<lambda>_. zero_page) t) = (Inr (), u) \<and>
     db_inv G T (\<lambda>_. 0) (\<lambda>_. {7}) u \<and> map_option (\<lambda>ti. keyed_map G ti u) (T ''u'') = Some [7 \<mapsto> [FInt 7, FStr ''abc'']]"
proof -
  obtain ti and s :: engine_state where s: "db_inv {4, 3} [''u'' \<mapsto> ti] (\<lambda>_. 0) (\<lambda>_. {7}) s" "bm_idle {4, 3} s"
    "registers {4, 3} [''u'' \<mapsto> ti] s (''u'', ex_schema, ''u.dat'', ''u.idx'', ''id'')"
    "keyed_map {4, 3} ti s = [7 \<mapsto> [FInt 7, FStr ''abc'']]"
    by (rule ex_saved)
  let ?regs = "[(''u'', ex_schema, ''u.dat'', ''u.idx'', ''id'')]"
  obtain t u G T where u: "flushAllPages s = (Inr (), t)" "register_all ?regs (restart 4 (\<lambda>_. zero_page) t) = (Inr (), u)"
    "db_inv G T (\<lambda>_. 0) (\<lambda>_. {7}) u"
    "\<forall>name. map_option (\<lambda>tj. keyed_map G tj u) (T name) = map_option (\<lambda>tj. keyed_map {4, 3} tj s) ([''u'' \<mapsto> ti] name)"
    using restart_keeps_database [OF s(1,2), of ?regs 4 "\<lambda>_. zero_page"] s(3) by auto
  from u(4) have "map_option (\<lambda>tj. keyed_map G tj u) (T ''u'') = Some (keyed_map {4, 3} ti s)" by simp
  with s(4) u(1-3) show ?thesis by metis
qed

end
