(* ===== verification/SessionReads.thy ===== *)
theory SessionReads
  imports Transactions
begin

section \<open>Queries of a session\<close>

text \<open>
  SELECT on the engine with transactions: what the operators read under a shared lock, and what a query
  returns. It is the second storage below the operators: the locale \<open>row_source\<close> is interpreted on the scans
  and fetches of a session.
\<close>

lemma lockShared_granted:
  assumes "\<forall>v. holdsX t r v \<longrightarrow> v = tx"
  obtains l where "lockShared tx r t = (Inr (), l)" "\<forall>q v. holdsX l q v \<longleftrightarrow> holdsX t q v"
    "\<forall>q v. holdsS l q v \<longleftrightarrow> holdsS t q v \<or> q = r \<and> v = tx"
proof
  let ?l = "t(r \<mapsto> (lock_info t r)\<lparr>sHolders := List.insert tx (sHolders (lock_info t r))\<rparr>)"
  show "lockShared tx r t = (Inr (), ?l)" using assms by (auto simp: lockShared_def Let_def holdsX_def)
  show "\<forall>q v. holdsX ?l q v \<longleftrightarrow> holdsX t q v" by (simp add: holdsX_def)
  show "\<forall>q v. holdsS ?l q v \<longleftrightarrow> holdsS t q v \<or> q = r \<and> v = tx" by (auto simp: holdsS_def)
qed

text \<open>
  What reading table \<open>t\<close> keeps, from a state \<open>a\<close> on: its rows and keys, the pages of all other files, catalog,
  log, transactions and exclusive locks; shared locks come for the transaction of the scans only. No other
  transaction has an exclusive lock on the table.
\<close>

definition reads_from :: "int set \<Rightarrow> string \<Rightarrow> TableInfo \<Rightarrow> externals \<Rightarrow> lo_state \<Rightarrow> lo_state \<Rightarrow> bool" where
  "reads_from F t ti x a s \<longleftrightarrow> tab_inv F t ti (store s) \<and> heap_rows F (theap ti) (store s) = heap_rows F (theap ti) (store a) \<and>
     tree_map F (tindex ti) (store s) = tree_map F (tindex ti) (store a) \<and> tables (store s) = tables (store a) \<and>
     (\<forall>g. g \<noteq> hfileId (theap ti) \<longrightarrow> bm_pages F (store s) g = bm_pages F (store a) g) \<and>
     lcatalog s = lcatalog a \<and> wal s = wal a \<and> txs s = txs a \<and> currentTxId s = currentTxId a \<and>
     (\<forall>q v. holdsX (locks s) q v \<longleftrightarrow> holdsX (locks a) q v) \<and>
     (\<forall>q v. holdsS (locks s) q v \<longrightarrow> holdsS (locks a) q v \<or> v = scanTx x (currentTxId a)) \<and>
     (\<forall>v. holdsX (locks a) (table_lock t) v \<longrightarrow> v = scanTx x (currentTxId a))"

lemma reads_heap:
  assumes "reads_from F t ti x a s" "heap_change F (theap ti) (store s) d (heap_rows F (theap ti) (store s))"
  shows "reads_from F t ti x a (s\<lparr>store := d\<rparr>)"
proof -
  have T: "tab_inv F t ti (store s)" using assms(1) by (simp add: reads_from_def)
  have "bm_keep d = bm_keep (store s)" "\<forall>g. g \<noteq> hfileId (theap ti) \<longrightarrow> bm_pages F d g = bm_pages F (store s) g"
    using assms(2) by (simp_all add: heap_change_def)
  moreover from this have "tables d = tables (store s)" using bm_keepD bm_rest_tables by metis
  ultimately show ?thesis using tab_heap [OF T assms(2)] assms(1) by (simp add: reads_from_def)
qed

lemma reads_table: "reads_from F t ti x a s \<Longrightarrow> table_at t (store s) = (Inr ti, store s)"
  by (auto simp: reads_from_def tab_inv_def table_at_def)

interpretation session_source: row_source "reads_from F t ti x a" "{t}" "\<lambda>_. heap_rows F (theap ti) (store a)"
    "fst (session_rows x)" "snd (session_rows x)" for F t ti x a
proof (unfold_locales, goal_cases)
  case (1 s n)
  then have n: "n = t" by simp
  let ?tx = "scanTx x (currentTxId s)" and ?rids = "sorted_list_of_set (dom (heap_rows F (theap ti) (store a)))"
  have T: "tab_inv F t ti (store s)" and c: "currentTxId s = currentTxId a"
    and rows: "heap_rows F (theap ti) (store s) = heap_rows F (theap ti) (store a)" using 1(1) by (simp_all add: reads_from_def)
  have "\<forall>v. holdsX (locks s) (table_lock t) v \<longrightarrow> v = ?tx" using 1 by (simp add: reads_from_def)
  then obtain l where l: "lockShared ?tx (table_lock t) (locks s) = (Inr (), l)" "\<forall>q v. holdsX l q v \<longleftrightarrow> holdsX (locks s) q v"
    "\<forall>q v. holdsS l q v \<longleftrightarrow> holdsS (locks s) q v \<or> q = table_lock t \<and> v = ?tx"
    by (rule lockShared_granted)
  obtain d where d: "tableScan (theap ti) (store s) = (Inr ?rids, d)"
    "heap_change F (theap ti) (store s) d (heap_rows F (theap ti) (store s))"
    using tab_scan [OF T] unfolding rows by blast
  have "reads_from F t ti x a (s\<lparr>locks := l\<rparr>)" using 1(1) l(2,3) c by (auto simp: reads_from_def)
  then have "reads_from F t ti x a (s\<lparr>locks := l, store := d\<rparr>)" by (rule reads_heap) (simp add: d(2))
  moreover have "fst (session_rows x) t s = (Inr ?rids, s\<lparr>locks := l, store := d\<rparr>)"
    using d(1) l(1) reads_table [OF 1(1)] by (simp add: session_rows_def lo_scanTable_def bindM_def on_run)
  ultimately show ?case unfolding n by blast
next
  case (2 s n rid row)
  then have n: "n = t" by simp
  have T: "tab_inv F t ti (store s)" and "heap_rows F (theap ti) (store s) rid = Some row"
    using 2 by (simp_all add: reads_from_def)
  then obtain d where d: "getRow (theap ti) rid (store s) = (Inr row, d)"
    "heap_change F (theap ti) (store s) d (heap_rows F (theap ti) (store s))" by (rule getRow_ok [OF tab_inv_rows(1)])
  have "reads_from F t ti x a (s\<lparr>store := d\<rparr>)" using 2(1) d(2) by (rule reads_heap)
  moreover have "snd (session_rows x) t rid s = (Inr row, s\<lparr>store := d\<rparr>)"
    using d(1) reads_table [OF 2(1)] by (simp add: session_rows_def lo_getRecord_def bindM_def on_run)
  ultimately show ?case unfolding n by blast
next
  case (3 s n)
  then have "tab_inv F t ti (store s)" "heap_rows F (theap ti) (store s) = heap_rows F (theap ti) (store a)"
    by (simp_all add: reads_from_def)
  then show ?case by (metis tab_scan)
qed

text \<open>
  A SELECT of a session: a plain statement that parses and that the binder accepts, over one table with distinct
  column names, whose items are columns, literals or comparisons and whose WHERE, if any, is a comparison. A
  plan of such a query has no join; the optimizer is taken to leave it as it is.
\<close>

definition simple_select :: "externals \<Rightarrow> registry \<Rightarrow> catalog \<Rightarrow> string \<Rightarrow> Schema \<Rightarrow> string \<Rightarrow> SelectStmt \<Rightarrow> bool" where
  "simple_select x reg cat t schema sql sel' \<longleftrightarrow> plain_statement sql \<and>
     (\<exists>sel. parse (trim sql) = Inr (Select sel) \<and> sel_tables sel = [t] \<and> bindSelect cat reg sel = Inr sel' \<and>
        list_all (item_ok t) (selectList sel) \<and> (\<forall>p. sel_where sel = Some p \<longrightarrow> item_ok t p \<and> \<not> leaf p)) \<and>
     selectList sel' \<noteq> [] \<and> getTable cat t = Inr schema \<and> CHR ''.'' \<notin> set t \<and>
     distinct (map cname (scolumns schema)) \<and> ''0'' \<notin> set (map cname (scolumns schema)) \<and>
     (\<forall>es w. optimize x (L_Project es (with_filter w (L_SeqScan t))) = L_Project es (with_filter w (L_SeqScan t)))"

text \<open>The answer of such a query on a list of rows.\<close>

definition answers :: "registry \<Rightarrow> string \<Rightarrow> Schema \<Rightarrow> SelectStmt \<Rightarrow> row list \<Rightarrow> row list \<Rightarrow> bool" where
  "answers reg t schema sel rows out \<longleftrightarrow>
     list_all2 (\<lambda>row vs. eval_args reg row (scan_index t schema) (selectList sel) = Inr vs)
       (filter (passes reg (scan_index t schema) (sel_where sel)) rows) out"

lemma select_run:
  assumes q: "simple_select x reg (lcatalog s) t (tschema ti) sql sel'" and T: "tab_inv F t ti (store s)"
    and free: "\<forall>v. holdsX (locks s) (table_lock t) v \<longrightarrow> v = scanTx x (currentTxId s)"
  obtains fuel out u where "\<forall>n \<ge> fuel. run_query order x reg n us sql s = (Inr out, u)"
    "answers reg t (tschema ti) sel' (table_list (\<lambda>_. heap_rows F (theap ti) (store s)) t) out" "reads_from F t ti x s u"
proof -
  let ?R = "\<lambda>_. heap_rows F (theap ti) (store s)" and ?ci = "scan_index t (tschema ti)"
  let ?op = "select_op t ?ci (selectList sel') (sel_where sel')"
  obtain sel where sel: "parse (trim sql) = Inr (Select sel)" "sel_tables sel = [t]" "bindSelect (lcatalog s) reg sel = Inr sel'"
    "list_all (item_ok t) (selectList sel)" "\<forall>p. sel_where sel = Some p \<longrightarrow> item_ok t p \<and> \<not> leaf p"
    using q unfolding simple_select_def by blast
  have q': "plain_statement sql" "selectList sel' \<noteq> []" "getTable (lcatalog s) t = Inr (tschema ti)" "CHR ''.'' \<notin> set t"
    "distinct (map cname (scolumns (tschema ti)))" "''0'' \<notin> set (map cname (scolumns (tschema ti)))"
    "\<forall>es w. optimize x (L_Project es (with_filter w (L_SeqScan t))) = L_Project es (with_filter w (L_SeqScan t))"
    using q unfolding simple_select_def by blast+
  have h: "reads_from F t ti x s s" using T free by (auto simp: reads_from_def)
  note plan = select_plan [OF sel(2-4) q'(2) sel(5) q'(3-6)]
  have "row_ok (tschema ti) row" if row: "row \<in> set (table_list ?R t)" for row
  proof -
    have "finite (dom (?R t))" using session_source.finite_rows [OF h] by simp
    then obtain rid where "?R t rid = Some row" using row by (auto simp: table_list_def)
    then show ?thesis using heap_row_ok [OF tab_inv_rows(1) [OF T], of rid row] tab_inv_rows(3) [OF T] by simp
  qed
  then have vals: "\<forall>row \<in> set (table_list ?R t). (\<exists>vs. eval_args reg row ?ci (selectList sel') = Inr vs) \<and>
      (\<forall>p. sel_where sel' = Some p \<longrightarrow> (\<exists>b. evalBoolean reg row ?ci p = Inr b))"
    using plan(4) by blast
  obtain out fuel v where out: "\<forall>n \<ge> fuel. execute (fst (session_rows x), snd (session_rows x)) reg n ?op s = (Inr out, v)"
    "reads_from F t ti x s v"
    "list_all2 (\<lambda>row vs. eval_args reg row ?ci (selectList sel') = Inr vs) (filter (passes reg ?ci (sel_where sel')) (table_list ?R t)) out"
    using h singletonI vals by (rule session_source.select_rows)
  let ?d = "snd (recordQueryLatencyUs us (snd (incQueryCount (store v))))"
  have "run_query order x reg n us sql s = (Inr out, v\<lparr>store := ?d\<rparr>)" if "n \<ge> fuel" for n
  proof -
    have "run_query order x reg n us sql s = run_bound order x reg n us (Select sel') s"
      using q'(1) sel(1,3) by (intro statement_run) (simp_all add: bind_statement_def)
    then show ?thesis
      using out(1) that plan(1-3) q'(7)
      by (simp add: run_bound_def run_select_def buildLogicalPlan_def child_op_def bindM_def on_run incQueryCount_def recordQueryLatencyUs_def)
  qed
  moreover have "frames ?d = frames (store v)" "pageTable ?d = pageTable (store v)" "poolSize ?d = poolSize (store v)"
    "disk ?d = disk (store v)" "files ?d = files (store v)" "tables ?d = tables (store v)"
    by (simp_all add: incQueryCount_def recordQueryLatencyUs_def)
  then have p: "bm_idle F ?d = bm_idle F (store v)" "bm_pages F ?d = bm_pages F (store v)" "tables ?d = tables (store v)"
    using same_pool [of ?d "store v"] by simp_all
  then have "heap_rows F (theap ti) ?d = heap_rows F (theap ti) (store v)" "tree_map F (tindex ti) ?d = tree_map F (tindex ti) (store v)"
    by (simp_all add: heap_rows_def tree_map_def tree_leaf_def)
  with p same_table(1) [OF p] have "reads_from F t ti x s (v\<lparr>store := ?d\<rparr>)"
    using out(2) by (simp add: reads_from_def)
  ultimately show thesis using out(3) that unfolding answers_def by blast
qed

lemma ran_is_image: "(\<lambda>rid. the (m rid)) ` dom m = ran m"
  by (force simp: ran_def)

lemma table_list_ran:
  assumes "finite (dom (R t))" "inj_on (R t) (dom (R t))"
  shows "distinct (table_list R t)" "set (table_list R t) = ran (R t)"
proof -
  have "inj_on (\<lambda>rid. the (R t rid)) (dom (R t))" using assms(2) by (intro inj_onI) (metis domD inj_onD option.sel)
  then show "distinct (table_list R t)" using assms(1) by (simp add: table_list_def distinct_map)
  show "set (table_list R t) = ran (R t)" using assms(1) by (simp add: table_list_def ran_is_image)
qed

text \<open>A transaction and a query of its table behind it: the rows that are there are those of the map, each once.\<close>

lemma commit_then_select:
  assumes can: "can_change F t ti x reg sch qs cs s" and fresh: "fresh_changes (lo_rows F ti s) cs" "all_keyed F ti (store s)"
    and q: "simple_select x reg (lcatalog s) t (tschema ti) sql sel"
  obtains fuel rows out u where
    "\<forall>n \<ge> fuel. run_queries order x reg n us (''BEGIN'' # qs @ [''COMMIT'', sql]) s = (Inr (replicate (length qs + 2) [] @ [out]), u)"
    "distinct rows" "set rows = ran (fold apply_change cs (lo_rows F ti s))" "answers reg t (tschema ti) sel rows out"
proof -
  obtain rs v where v: "\<forall>n. run_queries order x reg n us (''BEGIN'' # qs @ [''COMMIT'']) s = (Inr (replicate (length qs + 2) []), v)"
    "ended F t ti L_COMMIT COMMITTED cs s rs v"
    using ending_run(1) [OF can, of order us] by blast
  then have e: "lo_table F t ti v" "lo_rows F ti v = fold apply_change cs (lo_rows F ti s)" "lcatalog v = lcatalog s"
    "\<forall>r y. holds_lock (locks v) r y \<longrightarrow> holds_lock (locks s) r y" "all_keyed F ti (store v)"
    using fresh unfolding ended_def by blast+
  have "\<forall>y. holdsX (locks v) (table_lock t) y \<longrightarrow> y = scanTx x (currentTxId v)"
    using can e(4) unfolding can_change_def holds_lock_def by blast
  moreover have T: "tab_inv F t ti (store v)" "keyed_sound F ti (store v)" using e(1) by (simp_all add: lo_table_def)
  moreover have "simple_select x reg (lcatalog v) t (tschema ti) sql sel" using q e(3) by simp
  ultimately obtain fuel out u where u: "\<forall>n \<ge> fuel. run_query order x reg n us sql v = (Inr out, u)"
    "answers reg t (tschema ti) sel (table_list (\<lambda>_. heap_rows F (theap ti) (store v)) t) out"
    using select_run by metis
  have "run_queries order x reg n us (''BEGIN'' # qs @ [''COMMIT'', sql]) s = (Inr (replicate (length qs + 2) [] @ [out]), u)"
    if "n \<ge> fuel" for n
    using run_queries_snoc [of order x reg n us "''BEGIN'' # qs @ [''COMMIT'']" s _ v sql out u] v(1) u(1) that by simp
  moreover have "finite (dom (heap_rows F (theap ti) (store v)))" using T(1) by (rule tab_scan)
  with all_keyed_rows [OF T(2) e(5)] table_list_ran [of "\<lambda>_. heap_rows F (theap ti) (store v)" t]
  have "distinct (table_list (\<lambda>_. heap_rows F (theap ti) (store v)) t)"
    "set (table_list (\<lambda>_. heap_rows F (theap ti) (store v)) t) = ran (fold apply_change cs (lo_rows F ti s))"
    using e(2) by (simp_all add: lo_rows_def)
  ultimately show thesis using u(2) that by blast
qed

subsection \<open>Properties\<close>

text \<open>
  C6: A SELECT over one table on the engine with transactions returns its rows, inside and outside a
  transaction, when no other transaction than the one of its scan has the table locked exclusively: with
  enough fuel the values of its items on exactly the rows that satisfy its WHERE, in the order of their record
  identifiers. It changes no row or key, no page of another file, no catalog entry, no transaction, no line of
  the log and no exclusive lock.
\<close>

theorem session_select:
  assumes "simple_select x reg (lcatalog s) t (tschema ti) sql sel" "tab_inv F t ti (store s)"
    "\<forall>v. holdsX (locks s) (table_lock t) v \<longrightarrow> v = scanTx x (currentTxId s)"
  shows "\<exists>fuel out u. (\<forall>n \<ge> fuel. run_query order x reg n us sql s = (Inr out, u)) \<and>
    answers reg t (tschema ti) sel (table_list (\<lambda>_. heap_rows F (theap ti) (store s)) t) out \<and> reads_from F t ti x s u"
  by (rule select_run [OF assms]) blast

lemma ex_simple_select:
  "simple_select ex_externals Map.empty ex_catalog ''u'' ex_schema ''SELECT name FROM u WHERE id = 7'' ex_bound"
proof -
  have "trim ''SELECT name FROM u WHERE id = 7'' = ''SELECT name FROM u WHERE id = 7''" "plain_statement ''SELECT name FROM u WHERE id = 7''"
    by code_simp+
  moreover have "\<forall>p. optimize ex_externals p = p" by (simp add: ex_externals_def)
  ultimately show ?thesis
    using ex_select unfolding simple_select_def by (intro conjI exI [of _ ex_sel]) simp_all
qed

theorem session_select_witness:
  "\<exists>F (ti :: TableInfo) d n u. heap_rows F (theap ti) d = [RecordID 0 0 \<mapsto> [FInt 7, FStr ''abc'']] \<and>
     run_query (\<lambda>_. []) ex_externals Map.empty n 5 ''SELECT name FROM u WHERE id = 7'' (ex_state d) = (Inr [[FStr ''abc'']], u) \<and>
     txs u = tm_init"
proof -
  obtain ti and d0 :: engine_state where d0: "db_inv {4, 3} [''u'' \<mapsto> ti] (\<lambda>_. 1) (\<lambda>_. {7}) d0"
    "db_rows {4, 3} [''u'' \<mapsto> ti] d0 = Map.empty" "db_place [''u'' \<mapsto> ti] (\<lambda>_. 1) ''u'' (RecordID 0 0)"
    "db_row [''u'' \<mapsto> ti] (\<lambda>_. {7}) ''u'' [FInt 7, FStr ''abc'']" "tschema ti = ex_schema"
    by (rule ex_db)
  obtain d :: engine_state where d: "db_inv {4, 3} [''u'' \<mapsto> ti] (\<lambda>_. 1) (\<lambda>_. {7}) d"
    "db_rows {4, 3} [''u'' \<mapsto> ti] d = (db_rows {4, 3} [''u'' \<mapsto> ti] d0)((''u'', RecordID 0 0) \<mapsto> [FInt 7, FStr ''abc''])"
    using engine.redoI_law [OF d0(1,3,4)] by blast
  have rows: "heap_rows {4, 3} (theap ti) d = [RecordID 0 0 \<mapsto> [FInt 7, FStr ''abc'']]"
  proof
    fix rid
    have "heap_rows {4, 3} (theap ti) d rid = db_rows {4, 3} [''u'' \<mapsto> ti] d (''u'', rid)" by (simp add: db_rows_def)
    then show "heap_rows {4, 3} (theap ti) d rid = [RecordID 0 0 \<mapsto> [FInt 7, FStr ''abc'']] rid" by (simp add: d(2) d0(2))
  qed
  have T: "tab_inv {4, 3} ''u'' ti d" using d(1) by (rule db_tab) simp
  have e: "store (ex_state d) = d" "lcatalog (ex_state d) = ex_catalog" "\<forall>v. \<not> holdsX (locks (ex_state d)) (table_lock ''u'') v"
    "txs (ex_state d) = tm_init"
    by (simp_all add: ex_state_def ex_lo_def lock_defs)
  have list: "table_list (\<lambda>_. heap_rows {4, 3} (theap ti) d) ''u'' = [[FInt 7, FStr ''abc'']]" by (simp add: table_list_def rows)
  obtain fuel out u where u: "\<forall>n \<ge> fuel. run_query (\<lambda>_. []) ex_externals Map.empty n 5 ''SELECT name FROM u WHERE id = 7'' (ex_state d) = (Inr out, u)"
    "answers Map.empty ''u'' ex_schema ex_bound [[FInt 7, FStr ''abc'']] out" "reads_from {4, 3} ''u'' ti ex_externals (ex_state d) u"
    using session_select [of ex_externals Map.empty "ex_state d" "''u''" ti "''SELECT name FROM u WHERE id = 7''" ex_bound "{4, 3}" "\<lambda>_. []" 5]
      ex_simple_select T d0(5) e list by auto
  then have "out = [[FStr ''abc'']]" unfolding answers_def by (intro ex_answer)
  with u(1) have "run_query (\<lambda>_. []) ex_externals Map.empty fuel 5 ''SELECT name FROM u WHERE id = 7'' (ex_state d) = (Inr [[FStr ''abc'']], u)"
    by simp
  moreover have "txs u = tm_init" using u(3) e(4) by (simp add: reads_from_def)
  ultimately show ?thesis using rows
    by (intro exI [of _ "{4, 3}"] exI [of _ ti] exI [of _ d] exI [of _ fuel] exI [of _ u] conjI)
qed

end
