(* ===== verification/Service.thy ===== *)
theory Service
  imports Connection SessionReads
begin

section \<open>The engine behind its server\<close>

text \<open>
  \<open>connectionManager/ConnectionManager\<close> over \<open>queryEngine/lockOptimized/QueryEngine\<close>: what comes of the bytes that
  clients send, down to the rows of the tables. The server has one engine, with one current transaction,
  for all its clients.
\<close>

definition reply :: "row list \<Rightarrow> string list" where
  "reply rows = (if rows = [] then [''OK'' @ [newline]] else map row_line rows)"

lemma serve_run_queries:
  "run_queries order x reg n us qs s = (Inr rs, u) \<Longrightarrow> serve (run_query order x reg n us) qs s = (Inr (concat (map reply rs)), u)"
proof (induction qs arbitrary: s rs)
  case (Cons q qs)
  then obtain r t rs' where t: "run_query order x reg n us q s = (Inr r, t)"
    "run_queries order x reg n us qs t = (Inr rs', u)" "rs = r # rs'"
    by (auto simp: bindM_eq_Inr)
  with Cons.IH [OF t(2)] show ?case by (simp add: answer_def reply_def)
qed simp

lemma served_queries:
  assumes "list_all2 sends accepts stss" "run_queries order x reg n us (map trim (concat stss)) s = (Inr rs, u)"
  obtains evs where "run_server (run_query order x reg n us) accepts s = (Inr evs, u)" "writes evs = concat (map reply rs)"
  using run_server_serve [OF assms(1), of "run_query order x reg n us" s] serve_run_queries [OF assms(2)] that
  by (auto simp: bindM_eq_Inr)

lemma replies_ok: "concat (map reply (replicate n [])) = replicate n (''OK'' @ [newline])"
  by (induction n) (simp_all add: reply_def)

subsection \<open>A transaction across clients\<close>

lemma run_queries_append:
  "run_queries order x reg n us (ps @ qs) s = (Inr rs, u) \<Longrightarrow>
     \<exists>v. run_queries order x reg n us ps s = (Inr (take (length ps) rs), v) \<and>
       run_queries order x reg n us qs v = (Inr (drop (length ps) rs), u)"
proof (induction ps arbitrary: s rs)
  case (Cons p ps)
  then obtain r t rs' where t: "run_query order x reg n us p s = (Inr r, t)" "rs = r # rs'"
    "run_queries order x reg n us (ps @ qs) t = (Inr rs', u)"
    by (auto simp: bindM_eq_Inr)
  with Cons.IH [OF t(3)] show ?case by auto
qed simp

text \<open>Only transaction control changes what the current transaction is.\<close>

lemma plain_keeps_current:
  assumes "plain_statement q"
  shows "currentTxId (snd (run_query order x reg n us q s)) = currentTxId s"
proof -
  have "stable {currentTxId s} (range (scanTx x)) (\<lambda>u. currentTxId u = currentTxId s)" by (simp add: stable_def)
  from statements_keep(2) [OF this]
  have "keeps (\<lambda>u. currentTxId u = currentTxId s) (run_bound order x reg n us ast)" for ast by simp
  then have "keeps (\<lambda>u. currentTxId u = currentTxId s) (run_query order x reg n us q)"
    using assms unfolding run_query_def plain_statement_def Let_def by (auto intro!: keeps_intro)
  then show ?thesis by (simp add: keeps_def)
qed

lemma plain_run_current:
  "\<forall>q \<in> set qs. plain_statement q \<Longrightarrow> run_queries order x reg n us qs s = (Inr rs, u) \<Longrightarrow> currentTxId u = currentTxId s"
proof (induction qs arbitrary: s rs)
  case (Cons q qs)
  then obtain r t rs' where t: "run_query order x reg n us q s = (Inr r, t)" "run_queries order x reg n us qs t = (Inr rs', u)"
    by (auto simp: bindM_eq_Inr)
  with Cons plain_keeps_current [of q order x reg n us s] show ?case by simp
qed simp

lemma changes_plain: "can_change F t ti x reg sch qs cs s \<Longrightarrow> \<forall>q \<in> set qs. plain_statement q"
  by (auto simp: can_change_def makes_change_def list_all2_conv_all_nth in_set_conv_nth)

lemma serve_second_begin:
  assumes run: "run_queries order x reg n us (''BEGIN'' # qs @ rest) s = (Inr (replicate (length qs + 1 + m) []), u)"
    and s: "currentTxId s = 0" "nextTxId (txs s) \<noteq> 0" and plain: "\<forall>q \<in> set qs. plain_statement q"
  shows "serve (run_query order x reg n us) (''BEGIN'' # qs @ ''BEGIN'' # rest) s =
    (Inr (replicate (length qs + 1) (''OK'' @ [newline]) @ [''ERROR: Nested transactions not supported'' @ [newline]] @
       replicate m (''OK'' @ [newline])), u)"
proof -
  let ?ps = "''BEGIN'' # qs"
  have "run_queries order x reg n us (?ps @ rest) s = (Inr (replicate (length qs + 1 + m) []), u)" using run by simp
  from run_queries_append [OF this] obtain v where v: "run_queries order x reg n us ?ps s = (Inr (replicate (length qs + 1) []), v)"
    "run_queries order x reg n us rest v = (Inr (replicate m []), u)"
    by auto
  have "currentTxId v = nextTxId (txs s)"
    using v(1) s plain_run_current [OF plain] by (auto simp: control_run begin_run bindM_eq_Inr)
  then have "run_query order x reg n us ''BEGIN'' v = (Inl (Runtime_Error ''Nested transactions not supported''), v)"
    using s(2) by (simp add: control_run begin_run)
  moreover have "serve (run_query order x reg n us) ?ps s = (Inr (replicate (length qs + 1) (''OK'' @ [newline])), v)"
    "serve (run_query order x reg n us) rest v = (Inr (replicate m (''OK'' @ [newline])), u)"
    using serve_run_queries [OF v(1)] serve_run_queries [OF v(2)] by (simp_all only: replies_ok)
  ultimately have "serve (run_query order x reg n us) (?ps @ ''BEGIN'' # rest) s =
    (Inr (replicate (length qs + 1) (''OK'' @ [newline]) @ [''ERROR: Nested transactions not supported'' @ [newline]] @
       replicate m (''OK'' @ [newline])), u)"
    by (simp only: serve_append serve.simps) (simp add: answer_def what_def)
  then show ?thesis by (simp only: append_Cons)
qed

text \<open>A client that sends every statement in one block with its semicolon.\<close>

definition one_line :: "string \<Rightarrow> bool" where
  "one_line q \<longleftrightarrow> list_all (\<lambda>c. c \<noteq> semicolon) q \<and> trim q = q \<and> q \<noteq> []"

lemma sends_lines: "list_all one_line qs \<Longrightarrow> sends (Some (p, map (\<lambda>q. q @ [semicolon]) qs)) qs"
  unfolding sends_def option.case prod.case
  by (rule exI [of _ "map (\<lambda>q. [q @ [semicolon]]) qs"], rule exI [of _ "[]"], induction qs)
    (auto simp: one_line_def arrives_def list_all_iff)

text \<open>Two clients between which the accepting of a third fails; the first leaves inside its transaction.\<close>

abbreviation ex_clients :: "(peer \<times> string list) option list" where
  "ex_clients \<equiv> [Some (((127, 0, 0, 1), 40000), [''BEGIN'' @ [semicolon], ex_statements ! 0 @ [semicolon]]), None,
     Some (((10, 0, 0, 2), 40001), [ex_statements ! 1 @ [semicolon], ex_statements ! 2 @ [semicolon], ''COMMIT'' @ [semicolon]])]"

lemma ex_sent:
  "list_all2 sends ex_clients [[''BEGIN'', ex_statements ! 0], [], [ex_statements ! 1, ex_statements ! 2, ''COMMIT'']]"
  "map trim (concat [[''BEGIN'', ex_statements ! 0], [], [ex_statements ! 1, ex_statements ! 2, ''COMMIT'']]) =
     ''BEGIN'' # ex_statements @ [''COMMIT'']"
proof -
  have "list_all one_line [''BEGIN'', ex_statements ! 0]" "list_all one_line [ex_statements ! 1, ex_statements ! 2, ''COMMIT'']"
    by code_simp+
  then have "sends (Some (p, [''BEGIN'' @ [semicolon], ex_statements ! 0 @ [semicolon]])) [''BEGIN'', ex_statements ! 0]"
    "sends (Some (p, [ex_statements ! 1 @ [semicolon], ex_statements ! 2 @ [semicolon], ''COMMIT'' @ [semicolon]]))
      [ex_statements ! 1, ex_statements ! 2, ''COMMIT'']" for p
    using sends_lines [of "[''BEGIN'', ex_statements ! 0]" p]
      sends_lines [of "[ex_statements ! 1, ex_statements ! 2, ''COMMIT'']" p]
    by (simp_all only: list.map)
  moreover have "sends None []" by (simp add: sends_def)
  ultimately show "list_all2 sends ex_clients [[''BEGIN'', ex_statements ! 0], [], [ex_statements ! 1, ex_statements ! 2, ''COMMIT'']]"
    by (simp only: list_all2_Cons list_all2_Nil simp_thms)
  show "map trim (concat [[''BEGIN'', ex_statements ! 0], [], [ex_statements ! 1, ex_statements ! 2, ''COMMIT'']]) =
      ''BEGIN'' # ex_statements @ [''COMMIT'']"
    by code_simp
qed

subsection \<open>Properties\<close>

text \<open>
  C4: From the bytes on the sockets to the rows on the pages: when what the clients of the server send are the
  statements of a transaction, from BEGIN over insertions and deletions on a table to COMMIT, every one is
  answered OK, the rows of the table are the changes applied in order, and the transaction is committed.
  It makes no difference how the network cuts the bytes and which client sends which statement: a
  transaction is the engine's and not a client's, so a client that leaves before its COMMIT leaves it to
  the next one.
\<close>

theorem served_transaction:
  assumes "list_all2 sends accepts stss" "map trim (concat stss) = ''BEGIN'' # qs @ [''COMMIT'']"
    "can_change F t ti x reg sch qs cs s"
  shows "\<exists>evs u. run_server (run_query order x reg n us) accepts s = (Inr evs, u) \<and>
    writes evs = replicate (length qs + 2) (''OK'' @ [newline]) \<and>
    lo_table F t ti u \<and> lo_rows F ti u = fold apply_change cs (lo_rows F ti s) \<and>
    currentTxId u = 0 \<and> txTable (txs u) = (txTable (txs s))(nextTxId (txs s) \<mapsto> COMMITTED) \<and>
    (\<forall>r v. holds_lock (locks u) r v \<longrightarrow> holds_lock (locks s) r v \<and> v \<noteq> nextTxId (txs s))"
proof -
  obtain rs u where u: "run_queries order x reg n us (''BEGIN'' # qs @ [''COMMIT'']) s = (Inr (replicate (length qs + 2) []), u)"
    "ended F t ti L_COMMIT COMMITTED cs s rs u"
    using ending_run(1) [OF assms(3)] by blast
  have "run_queries order x reg n us (map trim (concat stss)) s = (Inr (replicate (length qs + 2) []), u)"
    using u(1) by (simp only: assms(2))
  with assms(1) obtain evs where "run_server (run_query order x reg n us) accepts s = (Inr evs, u)"
    "writes evs = replicate (length qs + 2) (''OK'' @ [newline])"
    unfolding replies_ok [symmetric] by (rule served_queries)
  with u(2) show ?thesis unfolding ended_def by blast
qed

theorem served_transaction_witness:
  "\<exists>F ti s evs u. lo_rows F ti s = Map.empty \<and>
     run_server (run_query (\<lambda>_. []) ex_externals Map.empty 9 0) ex_clients s = (Inr evs, u) \<and>
     writes evs = replicate 5 (''OK'' @ [newline]) \<and> lo_rows F ti u = [8 \<mapsto> [FInt 8, FStr ''xyz'']] \<and> txTable (txs u) 1 = Some COMMITTED"
proof -
  obtain ti d where e: "can_change {4, 3} ''u'' ti ex_externals Map.empty ex_schema ex_statements ex_changes (ex_state d)"
    "lo_rows {4, 3} ti (ex_state d) = Map.empty" by (rule ex_can_change)
  have f: "fold apply_change ex_changes Map.empty = [8 \<mapsto> [FInt 8, FStr ''xyz'']]"
    by (auto simp: ex_changes_def apply_change_def)
  have tx: "nextTxId (txs (ex_state d)) = 1" by (simp add: ex_state_def ex_lo_def tm_init_def)
  obtain evs u where "run_server (run_query (\<lambda>_. []) ex_externals Map.empty 9 0) ex_clients (ex_state d) = (Inr evs, u)"
    "writes evs = replicate (length ex_statements + 2) (''OK'' @ [newline])"
    "lo_rows {4, 3} ti u = fold apply_change ex_changes (lo_rows {4, 3} ti (ex_state d))"
    "txTable (txs u) = (txTable (txs (ex_state d)))(nextTxId (txs (ex_state d)) \<mapsto> COMMITTED)"
    using served_transaction [OF ex_sent e(1), of "\<lambda>_. []" 9 0] by blast
  moreover have "length ex_statements + 2 = 5" by simp
  ultimately show ?thesis unfolding e(2) f tx by (metis e(2) fun_upd_same)
qed

lemma single_row: "set xs = {a} \<Longrightarrow> distinct xs \<Longrightarrow> xs = [a]"
  by (cases xs; cases "tl xs") auto

text \<open>
  C3: What clients insert is what clients read: when they send a transaction of insertions of new keys and deletions on
  a table whose rows all have their keys in the index, its COMMIT, and then a SELECT over the table, the last
  answer is one line for each row of the map that the changes give and that the WHERE lets pass, each row
  once, or OK where there is none.
\<close>

theorem served_select:
  assumes "list_all2 sends accepts stss" "map trim (concat stss) = ''BEGIN'' # qs @ [''COMMIT'', sql]"
    "can_change F t ti x reg sch qs cs s" "fresh_changes (lo_rows F ti s) cs" "all_keyed F ti (store s)"
    "simple_select x reg (lcatalog s) t (tschema ti) sql sel"
  shows "\<exists>fuel rows out u. (\<forall>n \<ge> fuel. \<exists>evs. run_server (run_query order x reg n us) accepts s = (Inr evs, u) \<and>
      writes evs = replicate (length qs + 2) (''OK'' @ [newline]) @ (if out = [] then [''OK'' @ [newline]] else map row_line out)) \<and>
    distinct rows \<and> set rows = ran (fold apply_change cs (lo_rows F ti s)) \<and> answers reg t (tschema ti) sel rows out"
proof -
  obtain fuel rows out u where u:
    "\<forall>n \<ge> fuel. run_queries order x reg n us (''BEGIN'' # qs @ [''COMMIT'', sql]) s = (Inr (replicate (length qs + 2) [] @ [out]), u)"
    "distinct rows" "set rows = ran (fold apply_change cs (lo_rows F ti s))" "answers reg t (tschema ti) sel rows out"
    using assms(3-6) by (rule commit_then_select)
  have "\<exists>evs. run_server (run_query order x reg n us) accepts s = (Inr evs, u) \<and>
      writes evs = replicate (length qs + 2) (''OK'' @ [newline]) @ reply out" if "n \<ge> fuel" for n
  proof -
    have "run_queries order x reg n us (map trim (concat stss)) s = (Inr (replicate (length qs + 2) [] @ [out]), u)"
      using u(1) that by (simp only: assms(2))
    with assms(1) obtain evs where "run_server (run_query order x reg n us) accepts s = (Inr evs, u)"
      "writes evs = concat (map reply (replicate (length qs + 2) [] @ [out]))" by (rule served_queries)
    then show ?thesis by (simp only: map_append concat_append replies_ok list.map concat.simps append_Nil2) blast
  qed
  with u(2-4) show ?thesis unfolding reply_def by blast
qed

abbreviation ex_names :: SelectStmt where
  "ex_names \<equiv> \<lparr>selectList = [Column_Ref ''u.name''], sel_tables = [''u''], sel_where = None\<rparr>"

lemma ex_names_select: "simple_select ex_externals Map.empty ex_catalog ''u'' ex_schema ''SELECT name FROM u'' ex_names"
proof -
  have "trim ''SELECT name FROM u'' = ''SELECT name FROM u''" "plain_statement ''SELECT name FROM u''"
    "parse ''SELECT name FROM u'' = Inr (Select \<lparr>selectList = [Column_Ref ''name''], sel_tables = [''u''], sel_where = None\<rparr>)"
    by code_simp+
  moreover have "bindSelect ex_catalog Map.empty \<lparr>selectList = [Column_Ref ''name''], sel_tables = [''u''], sel_where = None\<rparr> = Inr ex_names"
    by (simp add: ex_catalog_def bindSelect_def bind_where_def bind_expr_def qualifyColumn_def Let_def getColumnInfo_def
        getTable_def ex_schema_def ex_cols_def qual_name_def before_dot_def after_dot_def comparison_def)
  moreover have "\<forall>p. optimize ex_externals p = p" by (simp add: ex_externals_def)
  ultimately show ?thesis
    using ex_select unfolding simple_select_def
    by (intro conjI exI [of _ "\<lparr>selectList = [Column_Ref ''name''], sel_tables = [''u''], sel_where = None\<rparr>"]) simp_all
qed

theorem served_select_witness:
  "\<exists>F (ti :: TableInfo) s n evs u. lo_rows F ti s = Map.empty \<and>
     run_server (run_query (\<lambda>_. []) ex_externals Map.empty n 0)
       (ex_clients @ [Some (((127, 0, 0, 1), 40002), [''SELECT name FROM u'' @ [semicolon]])]) s = (Inr evs, u) \<and>
     writes evs = replicate 5 (''OK'' @ [newline]) @ [''xyz'' @ [newline]]"
proof -
  let ?sql = "''SELECT name FROM u''"
  let ?accepts = "ex_clients @ [Some (((127, 0, 0, 1), 40002), [?sql @ [semicolon]])]"
  let ?stss = "[[''BEGIN'', ex_statements ! 0], [], [ex_statements ! 1, ex_statements ! 2, ''COMMIT'']] @ [[?sql]]"
  obtain ti d where e: "can_change {4, 3} ''u'' ti ex_externals Map.empty ex_schema ex_statements ex_changes (ex_state d)"
    "lo_rows {4, 3} ti (ex_state d) = Map.empty" "all_keyed {4, 3} ti (store (ex_state d))" "tschema ti = ex_schema"
    by (rule ex_can_change_keyed)
  have q: "list_all one_line [?sql]" "trim ?sql = ?sql" by code_simp+
  have "sends (Some (((127, 0, 0, 1), 40002), [?sql @ [semicolon]])) [?sql]"
    using sends_lines [OF q(1), of "((127, 0, 0, 1), 40002)"] by (simp only: list.map)
  then have sent: "list_all2 sends ?accepts ?stss"
    by (intro list_all2_appendI ex_sent(1)) (simp only: list_all2_Cons list_all2_Nil simp_thms)
  have texts: "map trim (concat ?stss) = ''BEGIN'' # ex_statements @ [''COMMIT'', ?sql]"
    unfolding concat_append map_append ex_sent(2) by (simp add: q(2))
  have cat: "lcatalog (ex_state d) = ex_catalog" by (simp add: ex_state_def)
  obtain fuel rows out u where u: "\<forall>n \<ge> fuel. \<exists>evs. run_server (run_query (\<lambda>_. []) ex_externals Map.empty n 0) ?accepts (ex_state d) = (Inr evs, u) \<and>
      writes evs = replicate (length ex_statements + 2) (''OK'' @ [newline]) @ (if out = [] then [''OK'' @ [newline]] else map row_line out)"
    "distinct rows" "set rows = ran (fold apply_change ex_changes Map.empty)" "answers Map.empty ''u'' ex_schema ex_names rows out"
    using served_select [OF sent texts e(1) _ e(3), of ex_names "\<lambda>_. []" 0] ex_fresh ex_names_select
    unfolding e(2,4) cat by blast
  have "fold apply_change ex_changes Map.empty = [8 \<mapsto> [FInt 8, FStr ''xyz'']]"
    by (auto simp: ex_changes_def apply_change_def)
  then have "set rows = {[FInt 8, FStr ''xyz'']}" using u(3) by simp
  then have "rows = [[FInt 8, FStr ''xyz'']]" using u(2) by (rule single_row)
  moreover have "scan_index ''u'' ex_schema = [''u.id'' \<mapsto> 0, ''u.name'' \<mapsto> 1]"
    by (simp add: ex_schema_def ex_cols_def qual_name_def)
  ultimately have out: "out = [[FStr ''xyz'']]"
    using u(4) by (auto simp: answers_def passes_def list_all2_Cons1 field_at_def)
  have line: "row_line [FStr ''xyz''] = ''xyz'' @ [newline]" by code_simp
  obtain evs where "run_server (run_query (\<lambda>_. []) ex_externals Map.empty fuel 0) ?accepts (ex_state d) = (Inr evs, u)"
    "writes evs = replicate (length ex_statements + 2) (''OK'' @ [newline]) @ (if out = [] then [''OK'' @ [newline]] else map row_line out)"
    using u(1) by blast
  moreover have "length ex_statements + 2 = 5" "out \<noteq> []" "map row_line out = [''xyz'' @ [newline]]" by (simp_all add: out line)
  ultimately show ?thesis using e(2)
    by (intro exI [of _ "{4, 3}"] exI [of _ ti] exI [of _ "ex_state d"] exI [of _ fuel] exI [of _ evs] exI [of _ u] conjI)
      (simp_all only: if_False)
qed

text \<open>
  C31: A transaction belongs to the engine and not to the client that began it. When a client sends BEGIN and
  changes and leaves, the next client cannot begin a transaction: its BEGIN is answered with an error, its own
  changes become part of the transaction of the other, and its COMMIT commits the changes of both, one after the
  other; its ROLLBACK aborts the one transaction and leaves the changes of both as well. The locks are gone
  with that end only.
\<close>

theorem abandoned_transaction:
  assumes "sends (Some a) sts" "map trim sts = ''BEGIN'' # qs"
    "sends (Some b) sts'" "map trim sts' = ''BEGIN'' # qs' @ [fin]"
    "can_change F t ti x reg sch (qs @ qs') cs s" "(fin, st) \<in> {(''COMMIT'', COMMITTED), (''ROLLBACK'', ABORTED)}"
  shows "\<exists>evs u. run_server (run_query order x reg n us) [Some a, Some b] s = (Inr evs, u) \<and>
    writes evs = replicate (length qs + 1) (''OK'' @ [newline]) @ [''ERROR: Nested transactions not supported'' @ [newline]] @
      replicate (length qs' + 1) (''OK'' @ [newline]) \<and>
    lo_table F t ti u \<and> lo_rows F ti u = fold apply_change cs (lo_rows F ti s) \<and>
    currentTxId u = 0 \<and> txTable (txs u) = (txTable (txs s))(nextTxId (txs s) \<mapsto> st) \<and>
    (\<forall>r v. holds_lock (locks u) r v \<longrightarrow> holds_lock (locks s) r v \<and> v \<noteq> nextTxId (txs s))"
proof -
  obtain op rs u where u: "run_queries order x reg n us (''BEGIN'' # (qs @ qs') @ [fin]) s = (Inr (replicate (length (qs @ qs') + 2) []), u)"
    "ended F t ti op st cs s rs u"
    using ending_run [OF assms(5), of order us] assms(6) by blast
  have l: "length (qs @ qs') + 2 = length qs + 1 + (length qs' + 1)" by simp
  have s: "currentTxId s = 0" "nextTxId (txs s) \<noteq> 0" using assms(5) by (simp_all add: can_change_def)
  have "\<forall>q \<in> set qs. plain_statement q" using changes_plain [OF assms(5)] by simp
  note serve = serve_second_begin [OF u(1) [unfolded append_assoc l] s this]
  have "list_all2 sends [Some a, Some b] [sts, sts']" using assms(1,3) by simp
  from run_server_serve [OF this, of "run_query order x reg n us" s]
  have "bindM (run_server (run_query order x reg n us) [Some a, Some b]) (\<lambda>evs. retM (writes evs)) s =
      serve (run_query order x reg n us) (''BEGIN'' # qs @ ''BEGIN'' # qs' @ [fin]) s"
    by (simp only: concat.simps append_Nil2 map_append assms(2,4) append_Cons)
  then obtain evs where "run_server (run_query order x reg n us) [Some a, Some b] s = (Inr evs, u)"
    "writes evs = replicate (length qs + 1) (''OK'' @ [newline]) @ [''ERROR: Nested transactions not supported'' @ [newline]] @
      replicate (length qs' + 1) (''OK'' @ [newline])"
    unfolding serve bindM_eq_Inr by auto
  with u(2) show ?thesis unfolding ended_def by blast
qed

theorem abandoned_transaction_witness:
  "\<exists>F (ti :: TableInfo) s evs u. lo_rows F ti s = Map.empty \<and>
     run_server (run_query (\<lambda>_. []) ex_externals Map.empty 9 0)
       [Some (((127, 0, 0, 1), 40000), map (\<lambda>q. q @ [semicolon]) [''BEGIN'', ex_statements ! 0, ex_statements ! 1]),
        Some (((10, 0, 0, 2), 40001), map (\<lambda>q. q @ [semicolon]) [''BEGIN'', ex_statements ! 2, ''COMMIT''])] s = (Inr evs, u) \<and>
     writes evs = replicate 3 (''OK'' @ [newline]) @ [''ERROR: Nested transactions not supported'' @ [newline]] @
       replicate 2 (''OK'' @ [newline]) \<and>
     lo_rows F ti u = [8 \<mapsto> [FInt 8, FStr ''xyz'']] \<and> txTable (txs u) 1 = Some COMMITTED"
proof -
  let ?qs = "[ex_statements ! 0, ex_statements ! 1]"
  let ?qs' = "[ex_statements ! 2]"
  let ?a = "(((127, 0, 0, 1), 40000), map (\<lambda>q. q @ [semicolon]) (''BEGIN'' # ?qs))"
  let ?b = "(((10, 0, 0, 2), 40001), map (\<lambda>q. q @ [semicolon]) (''BEGIN'' # ?qs' @ [''COMMIT'']))"
  obtain ti d where e: "can_change {4, 3} ''u'' ti ex_externals Map.empty ex_schema ex_statements ex_changes (ex_state d)"
    "lo_rows {4, 3} ti (ex_state d) = Map.empty" by (rule ex_can_change)
  have can: "can_change {4, 3} ''u'' ti ex_externals Map.empty ex_schema (?qs @ ?qs') ex_changes (ex_state d)" using e(1) by simp
  have f: "fold apply_change ex_changes Map.empty = [8 \<mapsto> [FInt 8, FStr ''xyz'']]"
    by (auto simp: ex_changes_def apply_change_def)
  have tx: "nextTxId (txs (ex_state d)) = 1" by (simp add: ex_state_def ex_lo_def tm_init_def)
  have one: "list_all one_line (''BEGIN'' # ?qs)" "list_all one_line (''BEGIN'' # ?qs' @ [''COMMIT''])"
    "map trim (''BEGIN'' # ?qs) = ''BEGIN'' # ?qs" "map trim (''BEGIN'' # ?qs' @ [''COMMIT'']) = ''BEGIN'' # ?qs' @ [''COMMIT'']"
    by code_simp+
  obtain evs u where "run_server (run_query (\<lambda>_. []) ex_externals Map.empty 9 0) [Some ?a, Some ?b] (ex_state d) = (Inr evs, u)"
    "writes evs = replicate (length ?qs + 1) (''OK'' @ [newline]) @ [''ERROR: Nested transactions not supported'' @ [newline]] @
      replicate (length ?qs' + 1) (''OK'' @ [newline])"
    "lo_rows {4, 3} ti u = fold apply_change ex_changes (lo_rows {4, 3} ti (ex_state d))"
    "txTable (txs u) = (txTable (txs (ex_state d)))(nextTxId (txs (ex_state d)) \<mapsto> COMMITTED)"
    using abandoned_transaction [where order = "\<lambda>_. []" and n = 9 and us = 0 and st = COMMITTED,
        OF sends_lines [OF one(1), of "((127, 0, 0, 1), 40000)"] one(3) sends_lines [OF one(2), of "((10, 0, 0, 2), 40001)"] one(4) can]
    by blast
  moreover have "length ?qs + 1 = 3" "length ?qs' + 1 = 2" by simp_all
  moreover have "map (\<lambda>q. q @ [semicolon]) (''BEGIN'' # ?qs' @ [''COMMIT'']) = map (\<lambda>q. q @ [semicolon]) [''BEGIN'', ex_statements ! 2, ''COMMIT'']"
    by (simp only: append_Cons append_Nil)
  ultimately show ?thesis unfolding e(2) f tx by (metis e(2) fun_upd_same)
qed

end
