(* ===== verification/Spec2Isabelle.thy ===== *)
theory Spec2Isabelle
  imports LockManager TransactionManager QueryEngine Stats Connection Transactions Monitoring TxEngine Optimizer Program Persistence Service SessionReads
begin

text \<open>
  A model of a small SQL engine in C++ (pages, buffer pool, table heaps, B+ tree index, write-ahead log,
  locks, parser, binder, planner, executor, three query engines and two servers), and the theorems that say
  what its parts do. Every definition follows a function or class under \<open>src/\<close>; the theory of a component
  names the files it models.

  \<^bold>\<open>How the code is modelled.\<close> A function that changes state is a computation of type \<open>('s, 'a) io\<close>
  (\<open>Prelude\<close>): from a state it gives a value or an exception, and the state left behind, which an exception
  keeps. Exceptions are the datatype \<open>error\<close>; undefined behaviour (an index outside an array, a null pointer, a
  signed overflow) is its constructor \<open>Undefined_Behaviour\<close>, so a theorem that gives another result excludes
  it. Classes are records, and the state of a layer extends that of the layer below: \<open>metrics\<close>, \<open>fm_state\<close>,
  \<open>bm_state\<close>, \<open>engine_state\<close>, \<open>qe_state\<close>. Integers of a width are words. A pointer into a frame of the pool is
  the number of the frame, and a write through it is an update of the frame. Threads of engines are not modelled: an
  operation under a latch is one step, and the properties on concurrency are about sequences of steps; in the
  monitoring server a step is one access of one thread to what the threads share.

  Unbounded where the code is not: lengths, sizes and offsets (\<open>size_t\<close>, naturals), transaction ids (64 bits),
  handles of files and counts of pins (\<open>int\<close>), which are integers here; the difference shows when 2^64 bytes, 2^63
  transactions or 2^31 files or pins are reached. Bytes above 127 are in no class of characters and have no upper
  case, where the code passes negative values to \<open>isspace\<close> and \<open>toupper\<close>. The texts of the exceptions of the
  standard library (\<open>what\<close>) are fixed, where an implementation may choose them.

  \<^bold>\<open>Foundations.\<close> \<open>Prelude\<close> has the exceptions, computations and containers; \<open>Text\<close> has character classes,
  numbers as text and splitting of text.

  \<^bold>\<open>Storage.\<close> \<open>FileManager\<close> (\<open>fileManager/\<close>, and the counters of \<open>monitoringServer/MetricsManager.h\<close>): files as
  lists of pages. \<open>BufferManager\<close> (\<open>bufferManager/\<close>): frames with pins, dirty bits and a victim hand; it
  interprets the locale \<open>paged_files\<close> of \<open>PagedFiles\<close>, fetching a page, editing it and unpinning it, and
  \<open>pool_transparent\<close> says that a pool of any size gives the results of plain arrays of pages. \<open>RecordFormat\<close>
  (\<open>schema/\<close>, \<open>record/\<close>): rows as bytes, and back. \<open>TableHeap\<close> (\<open>tableHeap/\<close>): slotted pages, refined to a map
  from record identifiers to rows and offered as the locale \<open>row_store\<close>. \<open>BPlusTree\<close> (\<open>bPlusTree/\<close>): nodes of
  387 words in pages, refined to a finite map through the locale \<open>key_index\<close> of \<open>KeyIndex\<close>. \<open>WAL\<close>
  (\<open>_WALManager/\<close>): records, their lines in the log, and recovery over the locale \<open>redo_storage\<close>. \<open>StorageEngine\<close>
  (\<open>storageEngine/\<close>) joins heap, index and log in the locale \<open>keyed_table\<close>; \<open>EngineTables\<close> proves that a
  registered table is a map from primary keys to rows, \<open>Recovery\<close> that recovery on the engine leaves the
  rows of the committed transactions, and \<open>Persistence\<close> that a database survives the end of the program: a new
  engine that registers the tables on the files of a flushed one has the same rows and keys.

  \<^bold>\<open>Queries.\<close> \<open>Ast\<close> and \<open>Parser\<close> (\<open>catalog/AST.h\<close>, \<open>parser/\<close>): tokens, recursive descent, a printer, and the
  round trip between them. \<open>Catalog\<close> (\<open>catalog/\<close>): schemas and the text file that keeps them. \<open>Evaluator\<close>
  (\<open>functionRegistry/\<close>, \<open>physicalOperator/expressionEvaluator/\<close>) and \<open>Binder\<close> (\<open>binder/\<close>): names, types, values.
  \<open>Operators\<close> (\<open>physicalOperator/\<close>, \<open>nestedLoopJoin/\<close>): scan, filter, projection, product and the executor,
  against relational algebra on lists, over the locale \<open>row_source\<close>. \<open>Planner\<close> (\<open>queryOptimizerAndPlanner/\<close>):
  logical plans, rewriting, physical plans. \<open>QueryEngine\<close> (\<open>queryOptimizerAndPlanner/QueryEngine.h\<close>) puts them
  together: \<open>select_returns_rows\<close> goes from the text of a statement to the rows on disk. \<open>Optimizer\<close>
  (\<open>Statistics.h\<close>, \<open>CostModel.h\<close>, \<open>Optimizer.h\<close>): the search for a join order is complete and takes the
  cheapest split of every set of tables. \<open>Stats\<close> (\<open>StatsManager/\<close>): \<open>ANALYZE\<close> counts the rows and the distinct
  values. \<open>Program\<close> (\<open>main.cpp\<close>): what the program prints.

  \<^bold>\<open>Transactions.\<close> \<open>LockManager\<close> and \<open>TransactionManager\<close>: mutual exclusion over every history, and the answers
  to every history of calls from the calls alone, without a table (\<open>transaction_life\<close>). \<open>LockedEngine\<close> (\<open>storageEngine/lockOptimized/\<close>): operations that lock, log and then
  change. \<open>Sessions\<close> (\<open>queryEngine/lockOptimized/\<close>): statements with transaction control, the invariant of a
  session, and what its log holds. \<open>Transactions\<close>: a transaction from the texts of its statements to its rows, log
  lines and locks, committed or rolled back. \<open>SessionReads\<close>: what a SELECT of a session returns, over a second
  interpretation of \<open>row_source\<close>, and that it returns the rows of a committed transaction. \<open>TxEngine\<close> (\<open>queryEngine/QueryEngine\<close>): the third engine, over the
  locale \<open>row_reader\<close>; it only ever reads.

  \<^bold>\<open>Servers.\<close> \<open>Sockets\<close> has the results of the system's calls and what is printed. \<open>Connection\<close>
  (\<open>connectionManager/\<close>): clients served one after the other, the statements in what they send, and the answers:
  the engine sees one list of statements. \<open>Service\<close> puts the server on the engine with transactions: from the bytes on
  the sockets to the rows on the pages, a transaction that one client leaves to the next included. \<open>Monitoring\<close>
  (\<open>monitoringServer/\<close>): the text of the metrics, the answer on the monitoring port, and the threads: accepting,
  counting, and those of the clients, which read, load the counters one by one, write and close, in any order. A run
  is projected to the steps of one client (\<open>turns\<close>, \<open>thread_run\<close>), which go along its \<open>path\<close>.

  \<^bold>\<open>Bounds and fuel.\<close> The parser starts with more fuel than there are tokens, and \<open>parse_total\<close> shows that it
  never runs out. The loops of the executor pull until a row passes; their theorems give a bound from which on
  every amount of fuel gives the one result. Recursions down the B+ tree have \<open>stack_depth\<close> calls. A leaf holds
  128 keys, and no insertion goes beyond without writing outside an array (\<open>full_leaf_overflows\<close>): the theorems on
  tables assume that the keys of a table are at most 128, and those on heaps that the file has fewer than
  2^31 pages. The optimizer's masks are for fewer than 31 tables. Every other recursion is structural or has a
  measure.

  \<^bold>\<open>Arguments.\<close> What the code calls and the repository does not define is an argument of the model: the members
  that the lock-optimized engine expects of other classes (the record \<open>externals\<close>), \<open>Schema::getColumnIndex\<close>
  (\<open>colIndex\<close>) and \<open>Planner::optimizePlan\<close> (\<open>optimizePlan\<close>). So is what the language leaves open: the iteration
  order of a hash map (\<open>order\<close>), the bytes of a fresh frame, the arithmetic of \<open>double\<close> (\<open>doubles\<close>) and the text
  of a \<open>double\<close> (\<open>avg\<close>). The registry of user functions is an argument too.

  \<^bold>\<open>Not modelled.\<close> Closing the listening sockets, and writes to a client that are cut short. Freeing memory, and the destructors apart from the flush of the
  pool. The stubs \<open>executor/Executor.cpp\<close> and \<open>bPlusTree/BPlusTree.cpp\<close>, whose operations do nothing and which
  nothing calls. The programs under \<open>tests/\<close>. Where a file has a function twice (\<open>QueryEngine.h\<close>, \<open>Planner.cpp\<close>), the
  theory of the component says which one is modelled.
\<close>

end
